(* ===== verification/Prelude.thy ===== *)
theory Prelude
  imports Main "HOL-Library.Word" "HOL-Library.Multiset" "HOL-Library.Monad_Syntax"
begin

text \<open>
  Shared vocabulary of the development: pointers that may be NULL, the machine
  integers of the C sources, the memory primitives of \<^verbatim>\<open>axiom/util_memory.c\<close> that
  the containers rely on, and the generic list, option and word lemmas the component
  theories use.
\<close>

section \<open>Collections of facts\<close>

named_theorems word_nat \<open>transfer of 64-bit arithmetic to natural numbers\<close>
named_theorems inv_simps \<open>unfolding of the component invariants\<close>

section \<open>Pointers and machine integers\<close>

text \<open>A C pointer is NULL (\<open>None\<close>) or points to a value. \<open>size_t\<close> is 64 bits wide.\<close>

type_synonym 'a ptr = "'a option"
type_synonym size_t = "64 word"
type_synonym uint64 = "64 word"
type_synonym uint32 = "32 word"
type_synonym byte = "8 word"

abbreviation NULL :: "'a ptr" where
  "NULL \<equiv> None"

lemma unat_plus1 [word_nat]: "i < j \<Longrightarrow> unat (i + 1) = Suc (unat i)"
  for i j :: "'a::len word"
  by unat_arith

lemma unat_minus1 [word_nat]: "0 < i \<Longrightarrow> unat (i - 1) = unat i - 1"
  for i :: "'a::len word"
  by unat_arith

lemma unat_64_lt: "unat (x :: 64 word) < 2 ^ 64"
  using unsigned_less [of x] by simp

lemma unat_double [word_nat]:
  "unat n < 2 ^ 63 \<Longrightarrow> unat (n * 2) = 2 * unat n" for n :: "64 word"
  by (simp add: unat_word_ariths)

lemma unat_plus1_eq [word_nat]:
  "Suc (unat i) < 2 ^ 64 \<Longrightarrow> unat (i + 1) = Suc (unat i)" for i :: "64 word"
  by (simp add: unat_word_ariths)

lemma unat_half [word_nat]: "unat (n div 2) = unat n div 2" for n :: "64 word"
  by (simp add: unat_div)

section \<open>Memory\<close>

text \<open>
  \<^verbatim>\<open>memmove\<close>/\<^verbatim>\<open>memcpy\<close> within one array of cells: \<open>n\<close> cells from index \<open>src\<close> are
  written to index \<open>dst\<close>.
\<close>

definition memmove :: "'c list \<Rightarrow> nat \<Rightarrow> nat \<Rightarrow> nat \<Rightarrow> 'c list" where
  "memmove es dst src n = take dst es @ take n (drop src es) @ drop (dst + n) es"

lemma length_memmove [simp]:
  "dst + n \<le> length es \<Longrightarrow> src + n \<le> length es \<Longrightarrow> length (memmove es dst src n) = length es"
  by (simp add: memmove_def)

text \<open>
  \<^verbatim>\<open>nr_reallocarray\<close>: the overflow check of the requested byte count, the explicit
  free on a zero size, and otherwise \<open>realloc\<close>, which keeps the common prefix. An
  array is the list of its cells and \<open>[]\<close> is the NULL array; the cells
  \<open>realloc\<close> adds hold an arbitrary value, here \<open>fresh\<close>. The system allocator
  itself is taken to succeed.
\<close>

definition mul_no_overflow :: size_t where
  "mul_no_overflow = 2 ^ 32"

definition nr_reallocarray :: "'c \<Rightarrow> 'c list \<Rightarrow> size_t \<Rightarrow> size_t \<Rightarrow> 'c list option" where
  "nr_reallocarray fresh cells nmemb elsize =
     (if (nmemb \<ge> mul_no_overflow \<or> elsize \<ge> mul_no_overflow) \<and> nmemb > 0
         \<and> (- 1) div nmemb < elsize then None
      else if cells \<noteq> [] \<and> (elsize = 0 \<or> nmemb = 0) then None
      else Some (take (unat nmemb) cells
                 @ replicate (unat nmemb - length cells) fresh))"

section \<open>Lists\<close>

lemma take_Suc_update [simp]:
  "i < length xs \<Longrightarrow> take (Suc i) (xs[i := x]) = take i xs @ [x]"
  by (simp add: take_Suc_conv_app_nth)

lemma mset_update_remove:
  "i < length xs \<Longrightarrow> mset (xs[i := x]) = add_mset x (mset xs - {# xs ! i #})"
  by (simp add: mset_update)

text \<open>Swapping two cells permutes the array.\<close>

lemma mset_swap_cells:
  "i < length xs \<Longrightarrow> j < length xs \<Longrightarrow> mset (xs[i := xs ! j, j := xs ! i]) = mset xs"
  by (rule mset_swap)

end
