(* ===== verification/Vector.thy ===== *)
theory Vector
  imports Prelude
begin

text \<open>
  The expanding array of \<^verbatim>\<open>axiom/util_vector.c\<close> and the stack built on it in
  \<^verbatim>\<open>axiom/util_stack.c\<close>. A vector keeps its \<open>size_t\<close> counters at 64 bits, and
  an operation that may have to grow the array returns an \<open>option\<close>: \<open>None\<close> is an
  operation that never returns (the doubling loop of
  \<^verbatim>\<open>nr_vector_ensure_impl\<close> can spin once the doubled capacity wraps to 0). What a
  vector's destructor does with an element is the caller's business; the vector's part,
  which elements it is called on and in which order, is returned as a list.
\<close>

section \<open>The vector and its operations\<close>

record 'a nr_vector =
  capacity :: size_t
  used :: size_t
  elements :: "'a ptr list"
  dtor :: bool

definition nr_vector_init_impl :: "size_t \<Rightarrow> bool \<Rightarrow> 'a nr_vector" where
  "nr_vector_init_impl initial d =
     (let c = (if initial \<noteq> 0 then initial else 8)
      in \<lparr>capacity = c, used = 0, elements = replicate (unat c) NULL, dtor = d\<rparr>)"

definition nr_vector_create :: "size_t \<Rightarrow> bool \<Rightarrow> 'a nr_vector ptr" where
  "nr_vector_create initial d = Some (nr_vector_init_impl initial d)"

definition nr_vector_init :: "'a nr_vector ptr \<Rightarrow> size_t \<Rightarrow> bool \<Rightarrow> bool \<times> 'a nr_vector ptr" where
  "nr_vector_init v initial d =
     (case v of None \<Rightarrow> (False, None)
      | Some _ \<Rightarrow> (True, Some (nr_vector_init_impl initial d)))"

text \<open>The elements the destructor is called on, and the finalised vector.\<close>

definition nr_vector_deinit_impl :: "'a nr_vector \<Rightarrow> 'a ptr list \<times> 'a nr_vector" where
  "nr_vector_deinit_impl v =
     ((if dtor v then take (unat (used v)) (elements v) else []),
      v\<lparr>capacity := 0, used := 0, elements := []\<rparr>)"

definition nr_vector_destroy ::
  "'a nr_vector ptr ptr \<Rightarrow> bool \<times> 'a ptr list \<times> 'a nr_vector ptr ptr" where
  "nr_vector_destroy v_ptr =
     (case v_ptr of None \<Rightarrow> (False, [], None)
      | Some None \<Rightarrow> (False, [], Some None)
      | Some (Some v) \<Rightarrow> (True, fst (nr_vector_deinit_impl v), Some None))"

definition nr_vector_deinit ::
  "'a nr_vector ptr \<Rightarrow> bool \<times> 'a ptr list \<times> 'a nr_vector ptr" where
  "nr_vector_deinit v =
     (case v of None \<Rightarrow> (False, [], None)
      | Some w \<Rightarrow> (case nr_vector_deinit_impl w of (ds, w') \<Rightarrow> (True, ds, Some w')))"

definition nr_vector_capacity :: "'a nr_vector ptr \<Rightarrow> size_t" where
  "nr_vector_capacity v = (case v of None \<Rightarrow> 0 | Some w \<Rightarrow> capacity w)"

definition nr_vector_size :: "'a nr_vector ptr \<Rightarrow> size_t" where
  "nr_vector_size v = (case v of None \<Rightarrow> 0 | Some w \<Rightarrow> used w)"

text \<open>The doubling loop; it wraps as \<open>size_t\<close> does.\<close>

partial_function (option) nr_vector_grow :: "size_t \<Rightarrow> size_t \<Rightarrow> size_t option" where
  "nr_vector_grow new_capacity cap =
     (if new_capacity < cap then nr_vector_grow (new_capacity * 2) cap
      else Some new_capacity)"

definition sizeof_ptr :: size_t where
  "sizeof_ptr = 8"

definition nr_vector_ensure_impl ::
  "'a nr_vector \<Rightarrow> size_t \<Rightarrow> (bool \<times> 'a nr_vector) option" where
  "nr_vector_ensure_impl v cap =
     (if capacity v \<ge> cap then Some (True, v)
      else do {
        new_capacity \<leftarrow> nr_vector_grow (if capacity v \<noteq> 0 then capacity v else 8) cap;
        (case nr_reallocarray NULL (elements v) new_capacity sizeof_ptr of
           None \<Rightarrow> Some (False, v)
         | Some new_elements \<Rightarrow>
             Some (True, v\<lparr>capacity := new_capacity, elements := new_elements\<rparr>))
      })"

definition nr_vector_ensure ::
  "'a nr_vector ptr \<Rightarrow> size_t \<Rightarrow> (bool \<times> 'a nr_vector ptr) option" where
  "nr_vector_ensure v cap =
     (case v of None \<Rightarrow> Some (False, None)
      | Some w \<Rightarrow> if cap = 0 then Some (False, Some w)
                  else map_option (apsnd Some) (nr_vector_ensure_impl w cap))"

definition nr_vector_shrink_if_necessary_impl ::
  "'a nr_vector \<Rightarrow> bool \<times> 'a nr_vector" where
  "nr_vector_shrink_if_necessary_impl v =
     (if used v < 4 \<or> used v \<ge> capacity v div 2 then (True, v)
      else (let new_capacity = capacity v div 2
            in case nr_reallocarray NULL (elements v) new_capacity sizeof_ptr of
                 None \<Rightarrow> (False, v)
               | Some new_elements \<Rightarrow>
                   (True, v\<lparr>capacity := new_capacity, elements := new_elements\<rparr>)))"

definition nr_vector_insert_impl ::
  "'a nr_vector \<Rightarrow> size_t \<Rightarrow> 'a ptr \<Rightarrow> (bool \<times> 'a nr_vector) option" where
  "nr_vector_insert_impl v pos element = do {
     (ok, v) \<leftarrow> nr_vector_ensure_impl v (used v + 1);
     if \<not> ok then Some (False, v)
     else let (es, pos) =
                (if pos < used v
                 then (memmove (elements v) (Suc (unat pos)) (unat pos)
                         (unat (used v - pos)), pos)
                 else (elements v, used v))
          in Some (True, v\<lparr>elements := es[unat pos := element], used := used v + 1\<rparr>)
   }"

definition nr_vector_remove_impl ::
  "'a nr_vector \<Rightarrow> size_t \<Rightarrow> 'a ptr \<Rightarrow> bool \<times> 'a ptr \<times> 'a nr_vector" where
  "nr_vector_remove_impl v pos old =
     (if pos \<ge> used v then (False, old, v)
      else let element = elements v ! unat pos;
               es = (if pos < used v - 1
                     then memmove (elements v) (unat pos) (Suc (unat pos))
                            (unat (used v - pos - 1))
                     else elements v)
           in (True, element,
               snd (nr_vector_shrink_if_necessary_impl
                      (v\<lparr>elements := es, used := used v - 1\<rparr>))))"

definition nr_vector_insert ::
  "'a nr_vector ptr \<Rightarrow> size_t \<Rightarrow> 'a ptr \<Rightarrow> (bool \<times> 'a nr_vector ptr) option" where
  "nr_vector_insert v pos element =
     (case v of None \<Rightarrow> Some (False, None)
      | Some w \<Rightarrow> map_option (apsnd Some) (nr_vector_insert_impl w pos element))"

text \<open>
  \<open>element_ptr\<close> is NULL or holds the old contents of the caller's variable; the
  second component of the result is its new contents.
\<close>

definition nr_vector_remove ::
  "'a nr_vector ptr \<Rightarrow> size_t \<Rightarrow> 'a ptr ptr \<Rightarrow> bool \<times> 'a ptr ptr \<times> 'a nr_vector ptr" where
  "nr_vector_remove v pos element_ptr =
     (case (v, element_ptr) of
        (Some w, Some old) \<Rightarrow>
          (case nr_vector_remove_impl w pos old of
             (ok, element, w') \<Rightarrow> (ok, Some element, Some w'))
      | _ \<Rightarrow> (False, element_ptr, v))"

definition nr_vector_push_front ::
  "'a nr_vector ptr \<Rightarrow> 'a ptr \<Rightarrow> (bool \<times> 'a nr_vector ptr) option" where
  "nr_vector_push_front v element = nr_vector_insert v 0 element"

definition nr_vector_push_back ::
  "'a nr_vector ptr \<Rightarrow> 'a ptr \<Rightarrow> (bool \<times> 'a nr_vector ptr) option" where
  "nr_vector_push_back v element =
     (case v of None \<Rightarrow> Some (False, None)
      | Some w \<Rightarrow> map_option (apsnd Some) (nr_vector_insert_impl w (used w) element))"

definition nr_vector_pop_front ::
  "'a nr_vector ptr \<Rightarrow> 'a ptr ptr \<Rightarrow> bool \<times> 'a ptr ptr \<times> 'a nr_vector ptr" where
  "nr_vector_pop_front v element_ptr = nr_vector_remove v 0 element_ptr"

definition nr_vector_pop_back ::
  "'a nr_vector ptr \<Rightarrow> 'a ptr ptr \<Rightarrow> bool \<times> 'a ptr ptr \<times> 'a nr_vector ptr" where
  "nr_vector_pop_back v element_ptr =
     (case (v, element_ptr) of
        (Some w, Some old) \<Rightarrow>
          if used w = 0 then (False, element_ptr, v)
          else (case nr_vector_remove_impl w (used w - 1) old of
                  (ok, element, w') \<Rightarrow> (ok, Some element, Some w'))
      | _ \<Rightarrow> (False, element_ptr, v))"

definition nr_vector_get :: "'a nr_vector ptr \<Rightarrow> size_t \<Rightarrow> 'a ptr" where
  "nr_vector_get v pos =
     (case v of None \<Rightarrow> NULL
      | Some w \<Rightarrow> if pos \<ge> used w then NULL else elements w ! unat pos)"

definition nr_vector_get_element ::
  "'a nr_vector ptr \<Rightarrow> size_t \<Rightarrow> 'a ptr ptr \<Rightarrow> bool \<times> 'a ptr ptr" where
  "nr_vector_get_element v pos element_ptr =
     (case (v, element_ptr) of
        (Some w, Some old) \<Rightarrow>
          if pos \<ge> used w then (False, element_ptr)
          else (True, Some (elements w ! unat pos))
      | _ \<Rightarrow> (False, element_ptr))"

text \<open>The second component lists the elements handed to the destructor.\<close>

definition nr_vector_replace ::
  "'a nr_vector ptr \<Rightarrow> size_t \<Rightarrow> 'a ptr \<Rightarrow> bool \<times> 'a ptr list \<times> 'a nr_vector ptr" where
  "nr_vector_replace v pos element =
     (case v of None \<Rightarrow> (False, [], v)
      | Some w \<Rightarrow>
          if pos \<ge> used w then (False, [], v)
          else (True, (if dtor w then [elements w ! unat pos] else []),
                Some (w\<lparr>elements := (elements w)[unat pos := element]\<rparr>)))"

text \<open>The callback threads the user data \<open>'s\<close> and may stop the iteration.\<close>

fun iterate_while :: "('a \<Rightarrow> 's \<Rightarrow> bool \<times> 's) \<Rightarrow> 'a list \<Rightarrow> 's \<Rightarrow> bool \<times> 's" where
  "iterate_while callback [] s = (True, s)"
| "iterate_while callback (x # xs) s =
     (case callback x s of
        (False, s') \<Rightarrow> (False, s')
      | (True, s') \<Rightarrow> iterate_while callback xs s')"

definition nr_vector_iterate ::
  "'a nr_vector ptr \<Rightarrow> ('a ptr \<Rightarrow> 's \<Rightarrow> bool \<times> 's) ptr \<Rightarrow> 's \<Rightarrow> bool \<times> 's" where
  "nr_vector_iterate v callback s =
     (case (v, callback) of
        (Some w, Some cb) \<Rightarrow> iterate_while cb (take (unat (used w)) (elements w)) s
      | _ \<Rightarrow> (False, s))"

text \<open>
  The search loop of \<^verbatim>\<open>nr_vector_find_comparator\<close> and \<^verbatim>\<open>nr_vector_find_direct\<close>:
  \<open>i\<close> moves by \<open>delta\<close>, which is 1 or -1, and the backward search ends because
  \<open>i\<close> wraps below 0.
\<close>

function nr_vector_find_loop ::
  "('a ptr \<Rightarrow> bool) \<Rightarrow> 'a nr_vector \<Rightarrow> bool \<Rightarrow> size_t \<Rightarrow> size_t option" where
  "nr_vector_find_loop hit v forward i =
     (if i < used v then
        if hit (elements v ! unat i) then Some i
        else nr_vector_find_loop hit v forward (if forward then i + 1 else i - 1)
      else None)"
  by pat_completeness auto
termination
proof (relation "measure (\<lambda>(hit, v, forward, i).
    if forward then unat (used v) - unat i
    else if i < used v then Suc (unat i) else 0)", goal_cases)
  case 1
  show ?case by simp
next
  case (2 hit v forward i)
  then have lt: "unat i < unat (used v)" and suc: "unat (i + 1) = Suc (unat i)"
    by (auto simp: word_less_nat_alt intro: unat_plus1)
  have pred: "i \<noteq> 0 \<Longrightarrow> unat (i - 1) = unat i - 1 \<and> 0 < unat i"
    by (simp add: word_nat word_neq_0_conv unat_gt_0)
  have wrap: "\<not> (0 :: size_t) - 1 < used v"
    by (simp add: not_less)
  show ?case
    using 2 lt suc pred wrap by (cases "i = 0") auto
qed

declare nr_vector_find_loop.simps [simp del]

definition nr_vector_find ::
  "'a nr_vector \<Rightarrow> size_t \<Rightarrow> bool \<Rightarrow> 'a ptr \<Rightarrow> ('a ptr \<Rightarrow> 'a ptr \<Rightarrow> int) ptr \<Rightarrow> size_t option" where
  "nr_vector_find v start forward needle comparator =
     (if start \<ge> used v then None
      else case comparator of
             Some cmp \<Rightarrow> nr_vector_find_loop (\<lambda>x. cmp x needle = 0) v forward start
           | None \<Rightarrow> nr_vector_find_loop (\<lambda>x. x = needle) v forward start)"

definition nr_vector_find_first ::
  "'a nr_vector ptr \<Rightarrow> 'a ptr \<Rightarrow> ('a ptr \<Rightarrow> 'a ptr \<Rightarrow> int) ptr \<Rightarrow> size_t option" where
  "nr_vector_find_first v needle comparator =
     (case v of None \<Rightarrow> None
      | Some w \<Rightarrow> if used w = 0 then None
                  else nr_vector_find w 0 True needle comparator)"

definition nr_vector_find_last ::
  "'a nr_vector ptr \<Rightarrow> 'a ptr \<Rightarrow> ('a ptr \<Rightarrow> 'a ptr \<Rightarrow> int) ptr \<Rightarrow> size_t option" where
  "nr_vector_find_last v needle comparator =
     (case v of None \<Rightarrow> None
      | Some w \<Rightarrow> if used w = 0 then None
                  else nr_vector_find w (used w - 1) False needle comparator)"

section \<open>Invariant and abstraction\<close>

text \<open>
  The array has as many cells as \<open>capacity\<close> says, the used cells are a prefix of it,
  and its size in bytes is a \<open>size_t\<close>. \<open>vec_list\<close> is the sequence a vector stands
  for: the used prefix; the cells above it are never observable.
\<close>

definition vector_inv :: "'a nr_vector \<Rightarrow> bool" where
  "vector_inv v \<longleftrightarrow> length (elements v) = unat (capacity v)
     \<and> unat (used v) \<le> unat (capacity v) \<and> unat (capacity v) < 2 ^ 61"

definition vec_list :: "'a nr_vector \<Rightarrow> 'a ptr list" where
  "vec_list v = take (unat (used v)) (elements v)"

section \<open>Growth\<close>

lemma nr_reallocarray_ptr:
  "nr_reallocarray f es n sizeof_ptr =
     (if 2 ^ 61 \<le> unat n \<or> (es \<noteq> [] \<and> n = 0) then None
      else Some (take (unat n) es @ replicate (unat n - length es) f))"
proof -
  have "(- 1 :: size_t) div n < 8 \<longleftrightarrow> 2 ^ 61 \<le> unat n" if "n > 0"
  proof -
    have "(- 1 :: size_t) div n < 8 \<longleftrightarrow> (2 ^ 64 - 1) div unat n < 8"
      by (simp add: word_less_nat_alt unat_div unsigned_minus_1_eq_mask mask_eq_exp_minus_1)
    also have "\<dots> \<longleftrightarrow> 2 ^ 64 - 1 < 8 * unat n"
      using that by (simp add: div_less_iff_less_mult unat_gt_0 word_neq_0_conv)
    finally show ?thesis by auto
  qed
  moreover have "2 ^ 61 \<le> unat n \<Longrightarrow> n > 0 \<and> n \<ge> mul_no_overflow"
    by (auto simp: mul_no_overflow_def word_le_nat_alt word_gt_0)
  ultimately show ?thesis
    by (auto simp: nr_reallocarray_def sizeof_ptr_def mul_no_overflow_def)
qed

lemma nr_vector_grow_returns:
  assumes "0 < unat n" and "unat cap \<le> 2 ^ 63"
  shows "\<exists>m k. nr_vector_grow n cap = Some m \<and> cap \<le> m \<and> unat m = unat n * 2 ^ k
           \<and> (0 < k \<longrightarrow> unat m < 2 * unat cap)"
  using assms(1)
proof (induction "2 ^ 64 - unat n" arbitrary: n rule: less_induct)
  case less
  show ?case
  proof (cases "n < cap")
    case False
    then have "nr_vector_grow n cap = Some n" "cap \<le> n"
      by (subst nr_vector_grow.simps, simp_all)
    then show ?thesis by (intro exI [of _ n] exI [of _ 0]) simp
  next
    case True
    then have lt: "unat n < unat cap" by (simp add: word_less_nat_alt)
    with assms(2) have d: "unat (n * 2) = 2 * unat n" by (simp add: unat_double)
    have "2 ^ 64 - unat (n * 2) < 2 ^ 64 - unat n" "0 < unat (n * 2)"
      using d less.prems lt assms(2) by simp_all
    from less.hyps [OF this] obtain m k where m:
      "nr_vector_grow (n * 2) cap = Some m" "cap \<le> m" "unat m = unat (n * 2) * 2 ^ k"
      "0 < k \<longrightarrow> unat m < 2 * unat cap" by blast
    have "nr_vector_grow n cap = Some m"
      using True m(1) by (subst nr_vector_grow.simps) simp
    moreover have "unat m = unat n * 2 ^ Suc k" using m(3) d by simp
    moreover have "unat m < 2 * unat cap"
      using m(3,4) d lt by (cases "k = 0") auto
    ultimately show ?thesis using m(2) by blast
  qed
qed

lemma nr_vector_grow_zero: "0 < cap \<Longrightarrow> nr_vector_grow 0 cap = None"
proof -
  assume "0 < cap"
  have "nr_vector_grow n cap = Some r \<Longrightarrow> n \<noteq> 0" for n r
  proof (rule nr_vector_grow.raw_induct [where P = "\<lambda>n c r. 0 < c \<longrightarrow> n \<noteq> 0", THEN mp])
  qed (use \<open>0 < cap\<close> in \<open>fastforce split: if_splits\<close>)+
  then show ?thesis by (cases "nr_vector_grow 0 cap") auto
qed

lemma nr_vector_grow_diverges:
  assumes "2 ^ 63 < unat cap" and "k \<le> 63"
  shows "nr_vector_grow (2 ^ k) cap = None"
  using assms(2)
proof (induction "63 - k" arbitrary: k)
  case 0
  then have "k = 63" by simp
  have "0 < cap" using assms(1) by (auto simp: word_gt_0)
  moreover have "(2 :: size_t) ^ 63 * 2 = 0" by (simp add: word_unat_eq_iff unat_word_ariths)
  ultimately have "nr_vector_grow (2 ^ 63 * 2) cap = None" using nr_vector_grow_zero by metis
  with assms(1) \<open>k = 63\<close> show ?case
    by (subst nr_vector_grow.simps) (simp add: word_less_nat_alt)
next
  case (Suc n)
  then have k: "k < 63" by simp
  have "nr_vector_grow (2 ^ Suc k) cap = None" using Suc.hyps(2) by (intro Suc.hyps(1)) auto
  moreover have "(2 :: nat) ^ k \<le> 2 ^ 63" using k by (intro power_increasing) auto
  then have "(2 :: size_t) ^ k < cap"
    using k assms(1) unat_of_nat [of "2 ^ k", where 'a = 64]
    by (simp add: word_less_nat_alt power_strict_increasing)
  ultimately show ?case by (subst nr_vector_grow.simps) (simp add: mult.commute)
qed

lemma length_vec_list: "vector_inv v \<Longrightarrow> length (vec_list v) = unat (used v)"
  by (simp add: vector_inv_def vec_list_def)

lemma nr_vector_ensure_impl_spec:
  assumes "vector_inv v" and "unat cap \<le> 2 ^ 63"
  shows "\<exists>ok w. nr_vector_ensure_impl v cap = Some (ok, w) \<and> vector_inv w
     \<and> vec_list w = vec_list v \<and> used w = used v \<and> dtor w = dtor v
     \<and> (ok \<longrightarrow> unat cap \<le> unat (capacity w)) \<and> (\<not> ok \<longrightarrow> w = v \<and> 2 ^ 60 < unat cap)"
proof (cases "capacity v \<ge> cap")
  case True
  with assms(1) show ?thesis
    by (intro exI [of _ True] exI [of _ v]) (simp add: nr_vector_ensure_impl_def word_le_nat_alt)
next
  case False
  let ?n = "if capacity v \<noteq> 0 then capacity v else 8"
  have "0 < unat ?n" by (simp add: unat_gt_0 word_neq_0_conv)
  from nr_vector_grow_returns [OF this assms(2)] obtain m k where m:
    "nr_vector_grow ?n cap = Some m" "cap \<le> m" "unat m = unat ?n * 2 ^ k"
    "0 < k \<longrightarrow> unat m < 2 * unat cap" by blast
  from m(2) have le: "unat cap \<le> unat m" by (simp add: word_le_nat_alt)
  from False have lt: "unat (capacity v) < unat cap" by (simp add: word_le_nat_alt)
  show ?thesis
  proof (cases "2 ^ 61 \<le> unat m")
    case True
    then have "2 ^ 60 < unat cap"
      using m(3,4) assms(1) by (cases "k = 0") (auto simp: vector_inv_def split: if_splits)
    with True False m(1) assms(1) show ?thesis
      by (intro exI [of _ False] exI [of _ v])
         (simp add: nr_vector_ensure_impl_def nr_reallocarray_ptr)
  next
    case small: False
    have "m \<noteq> 0" using le lt by auto
    with small False m(1) le lt assms(1) show ?thesis
      by (auto simp: nr_vector_ensure_impl_def nr_reallocarray_ptr vector_inv_def vec_list_def)
  qed
qed

lemma take_memmove_up:
  assumes "p < u" and "u < length es"
  shows "take (Suc u) ((memmove es (Suc p) p (u - p))[p := x])
    = take p (take u es) @ x # drop p (take u es)"
proof -
  have "(take (Suc p) es)[p := x] = take p es @ [x]" using assms
    by (simp add: take_Suc_conv_app_nth list_update_append)
  then have "(memmove es (Suc p) p (u - p))[p := x]
    = take p es @ x # take (u - p) (drop p es) @ drop (Suc u) es"
    using assms by (simp add: memmove_def list_update_append)
  then show ?thesis using assms by (simp add: drop_take min_def Suc_diff_le)
qed

lemma nr_vector_insert_impl_spec:
  assumes inv: "vector_inv v"
  shows "\<exists>ok w. nr_vector_insert_impl v pos x = Some (ok, w) \<and> vector_inv w \<and> dtor w = dtor v
     \<and> (ok \<longrightarrow> (let p = min (unat pos) (unat (used v)); xs = vec_list v
                in vec_list w = take p xs @ x # drop p xs
                   \<and> unat (used w) = Suc (unat (used v))))
     \<and> (\<not> ok \<longrightarrow> w = v \<and> 2 ^ 60 \<le> unat (used v))"
proof -
  have u: "unat (used v) < 2 ^ 61" using inv by (simp add: vector_inv_def)
  then have u1: "unat (used v + 1) = Suc (unat (used v))" by (simp add: unat_plus1_eq)
  with u have "unat (used v + 1) \<le> 2 ^ 63" by simp
  from nr_vector_ensure_impl_spec [OF inv this] obtain ok w where w:
    "nr_vector_ensure_impl v (used v + 1) = Some (ok, w)" "vector_inv w"
    "vec_list w = vec_list v" "used w = used v" "dtor w = dtor v"
    "ok \<longrightarrow> unat (used v + 1) \<le> unat (capacity w)"
    "\<not> ok \<longrightarrow> w = v \<and> 2 ^ 60 < unat (used v + 1)" by blast
  show ?thesis
  proof (cases ok)
    case False
    with w u1 show ?thesis
      by (intro exI [of _ False] exI [of _ v]) (simp add: nr_vector_insert_impl_def)
  next
    case True
    have len: "unat (used v) < length (elements w)" "length (elements w) = unat (capacity w)"
      using w(2,6) True u1 by (simp_all add: vector_inv_def)
    have sub: "pos < used v \<Longrightarrow> unat (used v - pos) = unat (used v) - unat pos"
      by (simp add: unat_sub word_le_nat_alt word_less_nat_alt)
    show ?thesis
    proof (cases "pos < used v")
      case lt: True
      then have lt': "unat pos < unat (used v)" by (simp add: word_less_nat_alt)
      let ?w = "w\<lparr>elements := (memmove (elements w) (Suc (unat pos)) (unat pos)
        (unat (used v) - unat pos))[unat pos := x], used := used v + 1\<rparr>"
      have "nr_vector_insert_impl v pos x = Some (True, ?w)"
        using w(1,4) lt True sub by (simp add: nr_vector_insert_impl_def)
      moreover have "vector_inv ?w"
        using w(2) len lt' u1 by (simp add: vector_inv_def)
      moreover have "vec_list ?w = take (unat pos) (vec_list v) @ x # drop (unat pos) (vec_list v)"
        using take_memmove_up [OF lt' len(1)] w(3,4) u1 by (simp add: vec_list_def del: take_take)
      ultimately show ?thesis using lt' w(5) True u1
        by (intro exI [of _ True] exI [of _ ?w]) (simp add: min_def)
    next
      case ge: False
      let ?w = "w\<lparr>elements := (elements w)[unat (used v) := x], used := used v + 1\<rparr>"
      have "nr_vector_insert_impl v pos x = Some (True, ?w)"
        using w(1,4) ge True by (simp add: nr_vector_insert_impl_def)
      moreover have "vector_inv ?w"
        using w(2) len u1 by (simp add: vector_inv_def)
      moreover have "vec_list ?w = vec_list v @ [x]"
        using w(3,4) u1 len by (simp add: vec_list_def)
      ultimately show ?thesis using ge w(5) True u1 length_vec_list [OF inv]
        by (intro exI [of _ True] exI [of _ ?w]) (simp add: min_def word_less_nat_alt not_less)
    qed
  qed
qed

lemma nr_vector_shrink_spec:
  assumes "vector_inv v"
  shows "\<exists>w. nr_vector_shrink_if_necessary_impl v = (True, w) \<and> vector_inv w
    \<and> vec_list w = vec_list v \<and> used w = used v \<and> dtor w = dtor v"
proof (cases "used v < 4 \<or> used v \<ge> capacity v div 2")
  case True
  with assms show ?thesis by (simp add: nr_vector_shrink_if_necessary_impl_def)
next
  case False
  then have "unat (used v) < unat (capacity v) div 2" "capacity v div 2 \<noteq> 0"
    by (auto simp: word_le_nat_alt unat_half not_le simp flip: unat_eq_0)
  with False assms show ?thesis
    by (auto simp: nr_vector_shrink_if_necessary_impl_def nr_reallocarray_ptr vector_inv_def
        vec_list_def unat_half min_def Let_def)
qed

lemma take_memmove_down:
  assumes "p < u" and "u \<le> length es"
  shows "take (u - 1) (memmove es p (Suc p) (u - p - 1))
    = take p (take u es) @ drop (Suc p) (take u es)"
proof -
  have "memmove es p (Suc p) (u - p - 1)
    = take p es @ take (u - Suc p) (drop (Suc p) es) @ drop (u - 1) es"
    using assms by (simp add: memmove_def)
  then show ?thesis using assms by (cases "u = Suc p") (auto simp: drop_take min_def)
qed

lemma nr_vector_remove_impl_spec:
  assumes inv: "vector_inv v" and pos: "pos < used v"
  shows "\<exists>w. nr_vector_remove_impl v pos old = (True, vec_list v ! unat pos, w) \<and> vector_inv w
    \<and> vec_list w = take (unat pos) (vec_list v) @ drop (Suc (unat pos)) (vec_list v)
    \<and> unat (used w) = unat (used v) - 1 \<and> dtor w = dtor v"
proof -
  have lt: "unat pos < unat (used v)" using pos by (simp add: word_less_nat_alt)
  have u1: "unat (used v - 1) = unat (used v) - 1"
    using pos by (intro unat_minus1) (simp add: word_gt_0, auto)
  have sub: "unat (used v - pos - 1) = unat (used v) - unat pos - 1"
    using pos lt u1 by (subst unat_minus1) (auto simp: unat_sub word_le_nat_alt word_less_nat_alt)
  let ?es = "if pos < used v - 1
    then memmove (elements v) (unat pos) (Suc (unat pos)) (unat (used v - pos - 1))
    else elements v"
  let ?v = "v\<lparr>elements := ?es, used := used v - 1\<rparr>"
  have len: "unat (used v) \<le> length (elements v)" using inv by (simp add: vector_inv_def)
  have "length ?es = length (elements v)"
    using lt len by (simp add: sub)
  then have "vector_inv ?v" using inv u1 by (auto simp: vector_inv_def)
  from nr_vector_shrink_spec [OF this] obtain w where w:
    "nr_vector_shrink_if_necessary_impl ?v = (True, w)" "vector_inv w"
    "vec_list w = vec_list ?v" "used w = used ?v" "dtor w = dtor ?v" by blast
  have "vec_list ?v = take (unat pos) (vec_list v) @ drop (Suc (unat pos)) (vec_list v)"
  proof (cases "pos < used v - 1")
    case True
    then show ?thesis using take_memmove_down [OF lt len] u1 sub by (simp add: vec_list_def)
  next
    case False
    then have "unat pos = unat (used v) - 1" using lt u1 by (simp add: word_less_nat_alt)
    then show ?thesis using False lt len u1 by (simp add: vec_list_def min_def)
  qed
  with w lt u1 pos len show ?thesis
    by (simp add: nr_vector_remove_impl_def vec_list_def not_le)
qed

lemma nr_vector_find_loop_forward:
  "nr_vector_find_loop hit v True i =
     map_option word_of_nat (find (\<lambda>j. hit (elements v ! j)) [unat i..<unat (used v)])"
proof (induction hit v "True" i rule: nr_vector_find_loop.induct)
  case (1 hit v i)
  then show ?case
    by (auto simp: nr_vector_find_loop.simps [of hit v True i] word_less_nat_alt unat_plus1
        upt_conv_Cons)
qed

lemma nr_vector_find_loop_backward:
  "i < used v \<Longrightarrow> nr_vector_find_loop hit v False i =
     map_option word_of_nat (find (\<lambda>j. hit (elements v ! j)) (rev [0..<Suc (unat i)]))"
proof (induction hit v "False" i rule: nr_vector_find_loop.induct)
  case (1 hit v i)
  show ?case
  proof (cases "i = 0")
    case True
    moreover have "\<not> (0 :: size_t) - 1 < used v" by (simp add: not_less)
    ultimately show ?thesis using 1
      by (simp add: nr_vector_find_loop.simps [of hit v False]) 
  next
    case False
    then have "unat (i - 1) = unat i - 1" "i - 1 < used v" "0 < unat i"
      using \<open>i < used v\<close> by (auto simp: word_nat word_less_nat_alt unat_gt_0 word_gt_0)
    with 1 show ?thesis
      by (simp add: nr_vector_find_loop.simps [of hit v False i])
  qed
qed

section \<open>The public operations against sequences\<close>

lemma vector_inv_init:
  "unat initial < 2 ^ 61 \<Longrightarrow> vector_inv (nr_vector_init_impl initial d)
     \<and> vec_list (nr_vector_init_impl initial d) = []"
  by (simp add: nr_vector_init_impl_def vector_inv_def vec_list_def Let_def)

lemma nr_vector_deinit_spec:
  "nr_vector_deinit (Some v) =
     (True, if dtor v then vec_list v else [],
      Some (v\<lparr>capacity := 0, used := 0, elements := []\<rparr>))"
  by (simp add: nr_vector_deinit_def nr_vector_deinit_impl_def vec_list_def)

lemma nr_vector_get_spec:
  "vector_inv v \<Longrightarrow> nr_vector_get (Some v) pos =
     (if unat pos < length (vec_list v) then vec_list v ! unat pos else NULL)"
  by (auto simp: nr_vector_get_def vector_inv_def word_le_nat_alt vec_list_def)

lemma nr_vector_replace_spec:
  assumes "vector_inv v" and "pos < used v"
  shows "\<exists>w. nr_vector_replace (Some v) pos x =
      (True, if dtor v then [vec_list v ! unat pos] else [], Some w)
    \<and> vector_inv w \<and> vec_list w = (vec_list v)[unat pos := x] \<and> used w = used v
    \<and> dtor w = dtor v"
  using assms
  by (auto simp: nr_vector_replace_def vector_inv_def vec_list_def word_less_nat_alt not_le
      word_le_nat_alt take_update_swap)

lemma nr_vector_push_back_spec:
  assumes "vector_inv v"
  shows "\<exists>ok w. nr_vector_push_back (Some v) x = Some (ok, Some w) \<and> vector_inv w
    \<and> dtor w = dtor v \<and> (ok \<longrightarrow> vec_list w = vec_list v @ [x])
    \<and> (\<not> ok \<longrightarrow> w = v \<and> 2 ^ 60 \<le> unat (used v))"
  using nr_vector_insert_impl_spec [OF assms, of "used v" x] length_vec_list [OF assms]
  by (auto simp: nr_vector_push_back_def)

lemma nr_vector_pop_back_spec:
  assumes "vector_inv v"
  shows "\<exists>w. nr_vector_pop_back (Some v) (Some old) =
      (vec_list v \<noteq> [], Some (if vec_list v = [] then old else last (vec_list v)), Some w)
    \<and> vector_inv w \<and> vec_list w = butlast (vec_list v) \<and> dtor w = dtor v"
proof (cases "used v = 0")
  case True
  then show ?thesis using assms by (simp add: nr_vector_pop_back_def vec_list_def)
next
  case False
  then have lt: "used v - 1 < used v" and u1: "unat (used v - 1) = unat (used v) - 1"
    and pos: "0 < unat (used v)"
    by (auto simp: word_less_nat_alt word_nat word_gt_0 unat_gt_0)
  have len: "length (vec_list v) = unat (used v)" by (rule length_vec_list [OF assms])
  from nr_vector_remove_impl_spec [OF assms lt, of old] obtain w where
    "nr_vector_remove_impl v (used v - 1) old = (True, vec_list v ! (unat (used v) - 1), w)"
    "vector_inv w" "dtor w = dtor v"
    "vec_list w = take (unat (used v) - 1) (vec_list v) @ drop (unat (used v)) (vec_list v)"
    using u1 pos by auto
  with False pos len show ?thesis
    by (auto simp: nr_vector_pop_back_def last_conv_nth butlast_conv_take)
qed

lemma find_upt_Some:
  "find P [0..<n] = Some j \<Longrightarrow> j < n \<and> P j \<and> (\<forall>k < j. \<not> P k)"
  by (auto simp: find_Some_iff)

lemma find_rev_upt_Some:
  "find P (rev [0..<n]) = Some j \<Longrightarrow> j < n \<and> P j \<and> (\<forall>k. j < k \<and> k < n \<longrightarrow> \<not> P k)"
  by (induction n) (auto split: if_splits simp: less_Suc_eq)

lemma find_first_eq:
  assumes "vector_inv v"
  shows "nr_vector_find_first (Some v) needle NULL =
     map_option word_of_nat (find (\<lambda>j. vec_list v ! j = needle) [0..<length (vec_list v)])"
proof (cases "used v = 0")
  case True
  then show ?thesis by (simp add: nr_vector_find_first_def vec_list_def)
next
  case False
  have "find (\<lambda>j. elements v ! j = needle) [0..<unat (used v)]
      = find (\<lambda>j. vec_list v ! j = needle) [0..<unat (used v)]"
    by (rule find_cong) (auto simp: vec_list_def)
  with False show ?thesis
    by (simp add: nr_vector_find_first_def nr_vector_find_def nr_vector_find_loop_forward
        length_vec_list [OF assms] not_le word_gt_0)
qed

lemma find_last_eq:
  assumes "vector_inv v"
  shows "nr_vector_find_last (Some v) needle NULL =
     map_option word_of_nat (find (\<lambda>j. vec_list v ! j = needle) (rev [0..<length (vec_list v)]))"
proof (cases "used v = 0")
  case True
  then show ?thesis by (simp add: nr_vector_find_last_def vec_list_def)
next
  case False
  then have lt: "used v - 1 < used v" and u1: "Suc (unat (used v - 1)) = unat (used v)"
    by (auto simp: word_less_nat_alt word_nat word_gt_0 unat_gt_0)
  have "find (\<lambda>j. elements v ! j = needle) (rev [0..<unat (used v)])
      = find (\<lambda>j. vec_list v ! j = needle) (rev [0..<unat (used v)])"
    by (rule find_cong) (auto simp: vec_list_def)
  with False lt show ?thesis
    by (simp add: nr_vector_find_last_def nr_vector_find_def nr_vector_find_loop_backward [OF lt]
        length_vec_list [OF assms] not_le u1 del: upt_Suc)
qed

section \<open>Properties\<close>

text \<open>C34. Inserting into a well-formed vector always returns. It keeps the invariant; when it
  reports success the sequence has the new element before position \<open>pos\<close> (appended if
  \<open>pos\<close> is past the end) and every other element in its old order; when it reports
  failure the vector is unchanged, which only happens with at least \<open>2 ^ 60\<close> elements.\<close>

theorem nr_vector_insert_correct:
  assumes "vector_inv v"
  shows "\<exists>ok w. nr_vector_insert (Some v) pos x = Some (ok, Some w) \<and> vector_inv w
    \<and> (if ok then vec_list w = take (unat pos) (vec_list v) @ x # drop (unat pos) (vec_list v)
       else w = v \<and> 2 ^ 60 \<le> length (vec_list v))"
proof -
  have eq: "take (min n (length xs)) xs = take n xs" "drop (min n (length xs)) xs = drop n xs"
    for n and xs :: "'a ptr list" by (simp_all add: min_def)
  from nr_vector_insert_impl_spec [OF assms, of pos x] obtain ok w where
    "nr_vector_insert_impl v pos x = Some (ok, w)" "vector_inv w"
    "ok \<longrightarrow> vec_list w = take (unat pos) (vec_list v) @ x # drop (unat pos) (vec_list v)"
    "\<not> ok \<longrightarrow> w = v \<and> 2 ^ 60 \<le> length (vec_list v)"
    unfolding Let_def length_vec_list [OF assms, symmetric] eq by blast
  then show ?thesis by (cases ok) (auto simp: nr_vector_insert_def)
qed

theorem nr_vector_insert_correct_witness:
  "\<exists>w. nr_vector_insert (Some (nr_vector_init_impl 2 False)) 5 (Some (7::nat)) = Some (True, Some w)
     \<and> vec_list w = [Some 7]"
proof -
  have "vector_inv (nr_vector_init_impl 2 False :: nat nr_vector)"
    by (simp add: vector_inv_init)
  from nr_vector_insert_correct [OF this, of 5 "Some 7"] show ?thesis
    by (auto simp: vector_inv_init [of 2 False, THEN conjunct2] split: if_splits)
qed

text \<open>Removing position \<open>pos\<close> of a well-formed vector hands out exactly that element and
  keeps the invariant and the order of all others, also when the array is shrunk; an index
  past the end is refused and changes nothing.\<close>

theorem nr_vector_remove_correct:
  assumes "vector_inv v"
  shows "if unat pos < length (vec_list v)
     then \<exists>w. nr_vector_remove (Some v) pos (Some old) = (True, Some (vec_list v ! unat pos), Some w)
       \<and> vector_inv w
       \<and> vec_list w = take (unat pos) (vec_list v) @ drop (Suc (unat pos)) (vec_list v)
     else nr_vector_remove (Some v) pos (Some old) = (False, Some old, Some v)"
proof (cases "pos < used v")
  case True
  with nr_vector_remove_impl_spec [OF assms True, of old] length_vec_list [OF assms]
  show ?thesis by (auto simp: nr_vector_remove_def word_less_nat_alt)
next
  case False
  with length_vec_list [OF assms] show ?thesis
    by (simp add: nr_vector_remove_def nr_vector_remove_impl_def word_less_nat_alt not_less
        word_le_nat_alt)
qed

theorem nr_vector_remove_correct_witness:
  "\<exists>w. nr_vector_remove
       (Some \<lparr>capacity = 2, used = 2, elements = [Some (1::int), Some 2], dtor = False\<rparr>) 0 (Some NULL)
     = (True, Some (Some 1), Some w) \<and> vec_list w = [Some 2]"
proof -
  let ?v = "\<lparr>capacity = 2, used = 2, elements = [Some (1::int), Some 2], dtor = False\<rparr>"
  have "vector_inv ?v" by (simp add: vector_inv_def)
  from nr_vector_remove_correct [OF this, of 0 NULL] show ?thesis
    by (auto simp: vec_list_def)
qed

text \<open>Searching by pointer: \<open>nr_vector_find_first\<close> returns the least and
  \<open>nr_vector_find_last\<close> the greatest index that holds the needle, and both report
  failure exactly when the needle is absent; the backward search ends although its index
  wraps around below 0.\<close>

theorem nr_vector_find_correct:
  assumes "vector_inv v"
  shows "(nr_vector_find_first (Some v) x NULL = None \<longleftrightarrow> x \<notin> set (vec_list v))
    \<and> (nr_vector_find_last (Some v) x NULL = None \<longleftrightarrow> x \<notin> set (vec_list v))
    \<and> (\<forall>i. nr_vector_find_first (Some v) x NULL = Some i \<longrightarrow>
         unat i < length (vec_list v) \<and> vec_list v ! unat i = x
         \<and> (\<forall>j < unat i. vec_list v ! j \<noteq> x))
    \<and> (\<forall>i. nr_vector_find_last (Some v) x NULL = Some i \<longrightarrow>
         unat i < length (vec_list v) \<and> vec_list v ! unat i = x
         \<and> (\<forall>j. unat i < j \<and> j < length (vec_list v) \<longrightarrow> vec_list v ! j \<noteq> x))"
proof -
  have "length (vec_list v) < 2 ^ 64"
    using length_vec_list [OF assms] unat_64_lt [of "used v"] by simp
  then have w: "unat (word_of_nat j :: size_t) = j" if "j < length (vec_list v)" for j
    using that by (simp add: unat_of_nat)
  show ?thesis
    unfolding find_first_eq [OF assms] find_last_eq [OF assms]
    using w by (auto simp: find_None_iff in_set_conv_nth dest!: find_upt_Some find_rev_upt_Some)
qed

theorem nr_vector_find_correct_witness:
  "nr_vector_find_last
     (Some \<lparr>capacity = 3, used = 3, elements = [Some (1::int), Some 2, Some 1], dtor = False\<rparr>)
     (Some 2) NULL = Some 1"
proof -
  let ?v = "\<lparr>capacity = 3, used = 3, elements = [Some (1::int), Some 2, Some 1], dtor = False\<rparr>"
  have inv: "vector_inv ?v" by (simp add: vector_inv_def)
  have l: "vec_list ?v = [Some 1, Some 2, Some 1]" by (simp add: vec_list_def)
  from nr_vector_find_correct [OF inv, of "Some 2"] obtain i where
    i: "nr_vector_find_last (Some ?v) (Some 2) NULL = Some i"
    by (auto simp: l)
  with nr_vector_find_correct [OF inv, of "Some 2"] have "unat i < 3" "[Some 1, Some 2, Some 1] ! unat i = Some (2::int)"
    by (auto simp: l)
  then have "unat i = unat (1 :: size_t)" by (cases "unat i") (auto simp: nth_Cons' split: if_splits)
  then have "i = 1" by (rule word_unat_eq_iff [THEN iffD2])
  with i show ?thesis by simp
qed

text \<open>Asking a fresh vector for more than \<open>2 ^ 63\<close> elements never returns: the doubled
  capacity wraps to 0 and the loop keeps doubling 0.\<close>

theorem nr_vector_ensure_diverges:
  assumes "2 ^ 63 < unat cap"
  shows "nr_vector_ensure (Some (nr_vector_init_impl 0 d)) cap = None"
  using nr_vector_grow_diverges [OF assms, of 3] assms
  by (simp add: nr_vector_ensure_def nr_vector_ensure_impl_def nr_vector_init_impl_def
      word_le_nat_alt flip: unat_eq_0)

theorem nr_vector_ensure_diverges_witness:
  "nr_vector_ensure (Some (nr_vector_init_impl 0 True :: nat nr_vector)) (2 ^ 63 + 1) = None"
  by (rule nr_vector_ensure_diverges) simp

end
