(* ===== verification/Stack.thy ===== *)
theory Stack
  imports Vector
begin

text \<open>
  The stack of \<^verbatim>\<open>axiom/util_stack.c\<close>: a vector without a destructor, pushed and
  popped at its end. Its contract is the interface \<open>lifo\<close>, which the vector-based
  operations implement on non-NULL elements.
\<close>

section \<open>Operations\<close>

definition nr_stack_init :: "'a nr_vector ptr \<Rightarrow> size_t \<Rightarrow> bool \<times> 'a nr_vector ptr" where
  "nr_stack_init s cap = (if cap = 0 then (False, s) else nr_vector_init s cap False)"

definition nr_stack_is_empty :: "'a nr_vector ptr \<Rightarrow> bool" where
  "nr_stack_is_empty s = (case s of Some _ \<Rightarrow> nr_vector_size s = 0 | None \<Rightarrow> True)"

definition nr_stack_get_top :: "'a nr_vector ptr \<Rightarrow> 'a ptr" where
  "nr_stack_get_top s =
     (let size = nr_vector_size s in if size = 0 then NULL else nr_vector_get s (size - 1))"

definition nr_stack_push :: "'a nr_vector ptr \<Rightarrow> 'a ptr \<Rightarrow> 'a nr_vector ptr option" where
  "nr_stack_push s new_element = map_option snd (nr_vector_push_back s new_element)"

definition nr_stack_pop :: "'a nr_vector ptr \<Rightarrow> 'a ptr \<times> 'a nr_vector ptr" where
  "nr_stack_pop s =
     (case nr_vector_pop_back s (Some NULL) of
        (_, element, s') \<Rightarrow> ((case element of Some e \<Rightarrow> e | None \<Rightarrow> NULL), s'))"

definition nr_stack_destroy_fields :: "'a nr_vector ptr \<Rightarrow> 'a nr_vector ptr" where
  "nr_stack_destroy_fields s = snd (snd (nr_vector_deinit s))"

definition nr_stack_remove_topmost ::
  "'a nr_vector ptr \<Rightarrow> 'a ptr \<Rightarrow> bool \<times> 'a nr_vector ptr" where
  "nr_stack_remove_topmost s element =
     (case nr_vector_find_last s element NULL of
        Some index \<Rightarrow> (case nr_vector_remove s index (Some NULL) of (ok, _, s') \<Rightarrow> (ok, s'))
      | None \<Rightarrow> (False, s))"

section \<open>The contract of a stack\<close>

fun push_seq :: "('s \<Rightarrow> 'e \<Rightarrow> 's option) \<Rightarrow> 's \<Rightarrow> 'e list \<Rightarrow> 's option" where
  "push_seq push s [] = Some s"
| "push_seq push s (x # xs) = Option.bind (push s x) (\<lambda>s'. push_seq push s' xs)"

fun pop_seq :: "('s \<Rightarrow> 'e option \<times> 's) \<Rightarrow> nat \<Rightarrow> 's \<Rightarrow> 'e option list \<times> 's" where
  "pop_seq pop 0 s = ([], s)"
| "pop_seq pop (Suc n) s =
     (case pop s of (x, s') \<Rightarrow> (case pop_seq pop n s' of (xs, s'') \<Rightarrow> (x # xs, s'')))"

locale lifo =
  fixes push :: "'s \<Rightarrow> 'e \<Rightarrow> 's option"
    and pop :: "'s \<Rightarrow> 'e option \<times> 's"
    and top :: "'s \<Rightarrow> 'e option"
    and content :: "'s \<Rightarrow> 'e list"
    and invar :: "'s \<Rightarrow> bool"
    and room :: "'s \<Rightarrow> nat"
  assumes push_law: "invar s \<Longrightarrow> 0 < room s \<Longrightarrow>
      \<exists>s'. push s x = Some s' \<and> invar s' \<and> content s' = x # content s \<and> room s \<le> Suc (room s')"
    and pop_law: "invar s \<Longrightarrow> invar (snd (pop s)) \<and> content (snd (pop s)) = tl (content s)
      \<and> fst (pop s) = (case content s of [] \<Rightarrow> None | x # _ \<Rightarrow> Some x)"
    and top_law: "invar s \<Longrightarrow> top s = (case content s of [] \<Rightarrow> None | x # _ \<Rightarrow> Some x)"
begin

lemma push_seq_law:
  "invar s \<Longrightarrow> length xs \<le> room s \<Longrightarrow>
     \<exists>s'. push_seq push s xs = Some s' \<and> invar s' \<and> content s' = rev xs @ content s"
proof (induction xs arbitrary: s)
  case Nil
  then show ?case by simp
next
  case (Cons x xs)
  from push_law [OF Cons.prems(1)] Cons.prems(2) obtain s' where
    "push s x = Some s'" "invar s'" "content s' = x # content s" "room s \<le> Suc (room s')"
    by fastforce
  with Cons.IH [of s'] Cons.prems(2) show ?case by fastforce
qed

lemma pop_seq_law:
  "invar s \<Longrightarrow> n \<le> length (content s) \<Longrightarrow>
     fst (pop_seq pop n s) = map Some (take n (content s)) \<and> content (snd (pop_seq pop n s)) = drop n (content s)"
proof (induction n arbitrary: s)
  case 0
  then show ?case by simp
next
  case (Suc n)
  then obtain x xs where xs: "content s = x # xs" by (cases "content s") auto
  with pop_law [OF Suc.prems(1)] have "invar (snd (pop s))" "content (snd (pop s)) = xs"
    "fst (pop s) = Some x" by simp_all
  with Suc.IH [of "snd (pop s)"] Suc.prems(2) xs show ?case
    by (auto split: prod.splits)
qed

lemma push_pop:
  assumes "invar s" and "length xs \<le> room s" and "push_seq push s xs = Some s'"
  shows "fst (pop_seq pop (length xs) s') = map Some (rev xs)
    \<and> content (snd (pop_seq pop (length xs) s')) = content s"
proof -
  from push_seq_law [OF assms(1,2)] assms(3) have
    "invar s'" "content s' = rev xs @ content s" by auto
  with pop_seq_law [of s' "length xs"] show ?thesis by simp
qed

end

section \<open>The vector stack implements it\<close>

definition stack_inv :: "'a nr_vector ptr \<Rightarrow> bool" where
  "stack_inv s = (case s of None \<Rightarrow> False
     | Some v \<Rightarrow> vector_inv v \<and> NULL \<notin> set (vec_list v))"

definition stack_content :: "'a nr_vector ptr \<Rightarrow> 'a list" where
  "stack_content s = (case s of None \<Rightarrow> [] | Some v \<Rightarrow> rev (map the (vec_list v)))"

text \<open>How many pushes are certain to succeed.\<close>

definition stack_room :: "'a nr_vector ptr \<Rightarrow> nat" where
  "stack_room s = 2 ^ 60 - unat (nr_vector_size s)"

lemma nr_stack_push_spec:
  assumes "stack_inv s" and "0 < stack_room s"
  shows "\<exists>s'. nr_stack_push s (Some x) = Some s' \<and> stack_inv s'
    \<and> stack_content s' = x # stack_content s \<and> stack_room s \<le> Suc (stack_room s')"
proof -
  from assms(1) obtain v where v: "s = Some v" "vector_inv v" "NULL \<notin> set (vec_list v)"
    by (auto simp: stack_inv_def split: option.splits)
  from nr_vector_push_back_spec [OF v(2), of "Some x"] assms(2) v(1) obtain w where
    w: "nr_vector_push_back (Some v) (Some x) = Some (True, Some w)" "vector_inv w"
      "vec_list w = vec_list v @ [Some x]"
    by (fastforce simp: stack_room_def nr_vector_size_def)
  have "unat (used w) = Suc (unat (used v))"
    using w(3) length_vec_list [OF w(2)] length_vec_list [OF v(2)] by simp
  with v w show ?thesis
    by (auto simp: nr_stack_push_def stack_inv_def stack_content_def stack_room_def
        nr_vector_size_def)
qed

lemma stack_content_last:
  "stack_inv (Some v) \<Longrightarrow> vec_list v \<noteq> [] \<Longrightarrow>
     stack_content (Some v) = the (last (vec_list v)) # rev (map the (butlast (vec_list v)))
     \<and> last (vec_list v) = Some (the (last (vec_list v)))"
  by (cases "vec_list v" rule: rev_cases) (auto simp: stack_content_def stack_inv_def)

lemma nr_stack_pop_spec:
  assumes "stack_inv s"
  shows "stack_inv (snd (nr_stack_pop s)) \<and> stack_content (snd (nr_stack_pop s)) = tl (stack_content s)
    \<and> fst (nr_stack_pop s) = (case stack_content s of [] \<Rightarrow> None | x # _ \<Rightarrow> Some x)"
proof -
  from assms obtain v where v: "s = Some v" "vector_inv v" "NULL \<notin> set (vec_list v)"
    by (auto simp: stack_inv_def split: option.splits)
  from nr_vector_pop_back_spec [OF v(2), of NULL] obtain w where w:
    "nr_vector_pop_back (Some v) (Some NULL) = (vec_list v \<noteq> [],
       Some (if vec_list v = [] then NULL else last (vec_list v)), Some w)"
    "vector_inv w" "vec_list w = butlast (vec_list v)" by blast
  show ?thesis
  proof (cases "vec_list v = []")
    case True
    with v w show ?thesis
      by (simp add: nr_stack_pop_def stack_inv_def stack_content_def)
  next
    case False
    with v w stack_content_last [of v] assms show ?thesis
      by (auto simp: nr_stack_pop_def stack_inv_def stack_content_def dest: in_set_butlastD)
  qed
qed

lemma nr_stack_get_top_spec:
  assumes "stack_inv s"
  shows "nr_stack_get_top s = (case stack_content s of [] \<Rightarrow> None | x # _ \<Rightarrow> Some x)"
proof -
  from assms obtain v where v: "s = Some v" "vector_inv v"
    by (auto simp: stack_inv_def split: option.splits)
  have len: "length (vec_list v) = unat (used v)" by (rule length_vec_list [OF v(2)])
  show ?thesis
  proof (cases "used v = 0")
    case True
    with v show ?thesis
      by (simp add: nr_stack_get_top_def nr_vector_size_def stack_content_def vec_list_def)
  next
    case False
    then have "0 < unat (used v)" "unat (used v - 1) = unat (used v) - 1"
      by (simp_all add: unat_gt_0 word_nat word_gt_0)
    moreover from this len have "vec_list v \<noteq> []" by auto
    ultimately show ?thesis using False v len stack_content_last [of v] assms
      by (auto simp: nr_stack_get_top_def nr_vector_size_def nr_vector_get_spec last_conv_nth
          split: list.split)
  qed
qed

interpretation stk: lifo "\<lambda>s x. nr_stack_push s (Some x)" nr_stack_pop nr_stack_get_top
  stack_content stack_inv stack_room
  by unfold_locales
     (simp_all add: nr_stack_push_spec nr_stack_pop_spec nr_stack_get_top_spec)

section \<open>Removing below the top\<close>

lemma rev_remove_last_occurrence:
  assumes "j < length xs" and "\<forall>k. j < k \<and> k < length xs \<longrightarrow> xs ! k \<noteq> xs ! j"
  shows "rev (take j xs @ drop (Suc j) xs) = remove1 (xs ! j) (rev xs)"
proof -
  have xs: "xs = take j xs @ xs ! j # drop (Suc j) xs"
    using assms(1) by (simp add: id_take_nth_drop [symmetric])
  have notin: "xs ! j \<notin> set (drop (Suc j) xs)"
    using assms by (auto simp: in_set_conv_nth)
  have "rev xs = rev (drop (Suc j) xs) @ xs ! j # rev (take j xs)"
    by (subst xs) simp
  with notin show ?thesis by (simp add: remove1_append)
qed

lemma mem_map_the: "NULL \<notin> set ys \<Longrightarrow> x \<in> the ` set ys \<longleftrightarrow> Some x \<in> set ys"
  by (induction ys) (auto simp: image_iff)

lemma map_the_remove1:
  "NULL \<notin> set ys \<Longrightarrow> map the (remove1 (Some x) ys) = remove1 x (map the ys)"
  by (induction ys) (auto split: option.splits)

lemma nr_stack_remove_topmost_spec:
  assumes "stack_inv s"
  shows "\<exists>s'. nr_stack_remove_topmost s (Some x) = (x \<in> set (stack_content s), s')
    \<and> stack_inv s' \<and> stack_content s' = remove1 x (stack_content s)"
proof -
  from assms obtain v where v: "s = Some v" "vector_inv v" "NULL \<notin> set (vec_list v)"
    by (auto simp: stack_inv_def split: option.splits)
  let ?xs = "vec_list v"
  let ?found = "find (\<lambda>j. ?xs ! j = Some x) (rev [0..<length ?xs])"
  have mem: "x \<in> set (stack_content s) \<longleftrightarrow> Some x \<in> set ?xs"
    using v mem_map_the [of "vec_list v" x] by (simp add: stack_content_def)
  show ?thesis
  proof (cases ?found)
    case None
    then have "Some x \<notin> set ?xs" by (auto simp: find_None_iff in_set_conv_nth)
    with None v mem assms show ?thesis
      by (simp add: nr_stack_remove_topmost_def find_last_eq remove1_idem)
  next
    case (Some j)
    then have j: "j < length ?xs" "?xs ! j = Some x"
      "\<forall>k. j < k \<and> k < length ?xs \<longrightarrow> ?xs ! k \<noteq> Some x"
      by (auto dest: find_rev_upt_Some)
    have len: "length ?xs = unat (used v)" by (rule length_vec_list [OF v(2)])
    then have wj: "unat (word_of_nat j :: size_t) = j"
      using j(1) unat_64_lt [of "used v"] by (simp add: unat_of_nat)
    then have lt: "(word_of_nat j :: size_t) < used v"
      using j(1) len by (simp add: word_less_nat_alt)
    from nr_vector_remove_impl_spec [OF v(2) lt, of NULL] obtain w where w:
      "nr_vector_remove_impl v (word_of_nat j) NULL = (True, ?xs ! j, w)" "vector_inv w"
      "vec_list w = take j ?xs @ drop (Suc j) ?xs" using wj by auto
    have "Some x \<in> set ?xs" using j(1,2) by (metis nth_mem)
    have rw: "rev (vec_list w) = remove1 (Some x) (rev ?xs)"
      using rev_remove_last_occurrence [of j ?xs] j w(3) by simp
    then have "NULL \<notin> set (vec_list w)"
      using v(3) by (metis notin_set_remove1 set_rev)
    moreover have "stack_content (Some w) = remove1 x (stack_content s)"
      using map_the_remove1 [of "rev ?xs" x] v(1,3) rw by (simp add: stack_content_def rev_map)
    moreover have "nr_stack_remove_topmost s (Some x) = (True, Some w)"
      using Some v(1,2) w(1)
      by (simp add: nr_stack_remove_topmost_def find_last_eq nr_vector_remove_def)
    ultimately show ?thesis using w(2) mem \<open>Some x \<in> set ?xs\<close> by (simp add: stack_inv_def)
  qed
qed

section \<open>Properties\<close>

text \<open>A stack is last-in first-out through every growth and shrinkage of its array: after
  pushing a sequence, popping as many elements returns it reversed, and leaves the stack
  with its old contents.\<close>

theorem nr_stack_lifo:
  assumes "stack_inv s" and "length xs \<le> stack_room s"
  shows "\<exists>s'. push_seq (\<lambda>s x. nr_stack_push s (Some x)) s xs = Some s'
    \<and> fst (pop_seq nr_stack_pop (length xs) s') = map Some (rev xs)
    \<and> stack_content (snd (pop_seq nr_stack_pop (length xs) s')) = stack_content s"
  using stk.push_seq_law [OF assms] stk.push_pop [OF assms] by blast

theorem nr_stack_lifo_witness:
  "\<exists>s'. push_seq (\<lambda>s x. nr_stack_push s (Some x))
       (Some (nr_vector_init_impl 1 False)) [1::int, 2, 3] = Some s'
     \<and> fst (pop_seq nr_stack_pop 3 s') = [Some 3, Some 2, Some 1]"
proof -
  have "stack_inv (Some (nr_vector_init_impl 1 False :: int nr_vector))"
    by (simp add: stack_inv_def vector_inv_init)
  moreover have "length [1::int, 2, 3] \<le> stack_room (Some (nr_vector_init_impl 1 False :: int nr_vector))"
    by (simp add: stack_room_def nr_vector_size_def nr_vector_init_impl_def)
  ultimately show ?thesis using nr_stack_lifo [of "Some (nr_vector_init_impl 1 False)" "[1::int, 2, 3]"]
    by (auto simp: numeral_3_eq_3 simp del: push_seq.simps pop_seq.simps)
qed

text \<open>\<open>nr_stack_remove_topmost\<close> removes the occurrence of the element nearest to
  the top and nothing else, and says whether there was one.\<close>

theorem nr_stack_remove_topmost_correct:
  assumes "stack_inv s"
  shows "\<exists>s'. nr_stack_remove_topmost s (Some x) = (x \<in> set (stack_content s), s')
    \<and> stack_inv s' \<and> stack_content s' = remove1 x (stack_content s)"
  using assms by (rule nr_stack_remove_topmost_spec)

theorem nr_stack_remove_topmost_correct_witness:
  "\<exists>s'. nr_stack_remove_topmost
       (Some \<lparr>capacity = 3, used = 3, elements = [Some (1::int), Some 2, Some 1], dtor = False\<rparr>) (Some 1)
     = (True, s') \<and> stack_content s' = [2, 1]"
proof -
  let ?s = "Some \<lparr>capacity = 3, used = 3, elements = [Some (1::int), Some 2, Some 1], dtor = False\<rparr>"
  have "stack_inv ?s" by (simp add: stack_inv_def vector_inv_def vec_list_def)
  moreover have "stack_content ?s = [1, 2, 1]" by (simp add: stack_content_def vec_list_def)
  ultimately show ?thesis using nr_stack_remove_topmost_correct [of ?s 1] by auto
qed

end
