(* ===== verification/Sort.thy ===== *)
theory Sort
  imports Prelude
begin

text \<open>
  \<^verbatim>\<open>nr_sort\<close> of \<^verbatim>\<open>axiom/util_sort.c\<close> forwards to the platform's \<open>qsort_r\<close>. The C
  standard leaves the order of elements that compare equal open, so its contract is an
  interface: the result is a permutation of the input and is ordered by any comparator
  that describes a total preorder. The model sorts by insertion, and the clients' lemmas
  are proved from the interface alone.
\<close>

section \<open>Comparators\<close>

text \<open>The contract of a C comparison function: the signs of both directions agree and the
  induced order is transitive.\<close>

definition comparator_ok :: "('a \<Rightarrow> 'a \<Rightarrow> int) \<Rightarrow> bool" where
  "comparator_ok c \<longleftrightarrow>
     (\<forall>x y. c x y < 0 \<longleftrightarrow> c y x > 0) \<and>
     (\<forall>x y z. c x y \<le> 0 \<longrightarrow> c y z \<le> 0 \<longrightarrow> c x z \<le> 0)"

lemma comparator_ok_total: "comparator_ok c \<Longrightarrow> c x y \<le> 0 \<or> c y x \<le> 0"
  unfolding comparator_ok_def by (metis linorder_not_le order_less_imp_le)

lemma comparator_ok_trans:
  "comparator_ok c \<Longrightarrow> c x y \<le> 0 \<Longrightarrow> c y z \<le> 0 \<Longrightarrow> c x z \<le> 0"
  unfolding comparator_ok_def by blast

section \<open>Sorting\<close>

locale sorter =
  fixes srt :: "('a \<Rightarrow> 'a \<Rightarrow> int) \<Rightarrow> 'a list \<Rightarrow> 'a list"
  assumes mset_srt: "mset (srt c xs) = mset xs"
    and sorted_srt: "comparator_ok c \<Longrightarrow> sorted_wrt (\<lambda>x y. c x y \<le> 0) (srt c xs)"
begin

lemma length_srt: "length (srt c xs) = length xs"
  using mset_eq_length [OF mset_srt] .

lemma set_srt: "set (srt c xs) = set xs"
  using mset_eq_setD [OF mset_srt] .

end

fun insert_by :: "('a \<Rightarrow> 'a \<Rightarrow> int) \<Rightarrow> 'a \<Rightarrow> 'a list \<Rightarrow> 'a list" where
  "insert_by c x [] = [x]"
| "insert_by c x (y # ys) = (if c x y \<le> 0 then x # y # ys else y # insert_by c x ys)"

fun qsort_r :: "('a \<Rightarrow> 'a \<Rightarrow> int) \<Rightarrow> 'a list \<Rightarrow> 'a list" where
  "qsort_r c [] = []"
| "qsort_r c (x # xs) = insert_by c x (qsort_r c xs)"

text \<open>A NULL base or comparator leaves the array alone.\<close>

definition nr_sort :: "'a list \<Rightarrow> ('a \<Rightarrow> 'a \<Rightarrow> int) ptr \<Rightarrow> 'a list" where
  "nr_sort base compar = (case compar of None \<Rightarrow> base | Some c \<Rightarrow> qsort_r c base)"

lemma mset_insert_by: "mset (insert_by c x xs) = add_mset x (mset xs)"
  by (induction xs) auto

lemma set_insert_by [simp]: "set (insert_by c x xs) = insert x (set xs)"
  by (induction xs) auto

lemma sorted_insert_by:
  assumes "comparator_ok c" and "sorted_wrt (\<lambda>x y. c x y \<le> 0) xs"
  shows "sorted_wrt (\<lambda>x y. c x y \<le> 0) (insert_by c x xs)"
  using assms(2)
proof (induction xs)
  case Nil
  show ?case by simp
next
  case (Cons y ys)
  then show ?case
    using comparator_ok_trans [OF assms(1), of x y]
      comparator_ok_total [OF assms(1), of x y] by auto
qed

interpretation qs: sorter qsort_r
proof
  show "mset (qsort_r c xs) = mset xs" for c :: "'a \<Rightarrow> 'a \<Rightarrow> int" and xs
    by (induction xs) (simp_all add: mset_insert_by)
  show "comparator_ok c \<Longrightarrow> sorted_wrt (\<lambda>x y. c x y \<le> 0) (qsort_r c xs)"
    for c :: "'a \<Rightarrow> 'a \<Rightarrow> int" and xs
    by (induction xs) (simp_all add: sorted_insert_by)
qed

end
