(* ===== verification/ExclusiveTime.thy ===== *)
theory ExclusiveTime
  imports Sort
begin

text \<open>
  The exclusive time of a segment (\<^verbatim>\<open>axiom/nr_exclusive_time.c\<close>): the part of the
  segment's lifetime during which none of its children was running. The structure collects
  a start and a stop transition per child; the calculation sorts them and walks over them
  once. Times are microseconds since the epoch; they are only compared and subtracted under
  guards, so they are natural numbers here, like the counters of the transition array.
\<close>

section \<open>Data\<close>

type_synonym nrtime = nat

definition nr_time_duration :: "nrtime \<Rightarrow> nrtime \<Rightarrow> nrtime" where
  "nr_time_duration start stop = (if start > stop then 0 else stop - start)"

datatype transition_type = CHILD_START | CHILD_STOP

record nr_exclusive_time_transition =
  tr_time :: nrtime
  tr_type :: transition_type

text \<open>The \<open>used\<close> counter is the length of the list of transitions.\<close>

record nr_exclusive_time =
  et_start_time :: nrtime
  et_stop_time :: nrtime
  et_capacity :: nat
  et_transitions :: "nr_exclusive_time_transition list"

section \<open>Operations\<close>

definition nr_exclusive_time_create :: "nat \<Rightarrow> nrtime \<Rightarrow> nrtime \<Rightarrow> nr_exclusive_time" where
  "nr_exclusive_time_create child_segments start_time stop_time =
     \<lparr>et_start_time = start_time, et_stop_time = stop_time,
      et_capacity = child_segments * 2, et_transitions = []\<rparr>"

text \<open>\<open>et_ptr\<close> is the caller's variable; a NULL address is refused.\<close>

definition nr_exclusive_time_ensure ::
  "nr_exclusive_time ptr ptr \<Rightarrow> nat \<Rightarrow> nrtime \<Rightarrow> nrtime \<Rightarrow> bool \<times> nr_exclusive_time ptr ptr" where
  "nr_exclusive_time_ensure et_ptr child_segments start_time stop_time =
     (case et_ptr of
        None \<Rightarrow> (False, None)
      | Some None \<Rightarrow>
          (True, Some (Some (nr_exclusive_time_create child_segments start_time stop_time)))
      | Some (Some et) \<Rightarrow>
          let et = et\<lparr>et_start_time := start_time, et_stop_time := stop_time\<rparr>;
              unused = et_capacity et - length (et_transitions et)
          in if unused < child_segments * 2
             then (True, Some (Some (et\<lparr>et_capacity :=
                     length (et_transitions et) + child_segments * 2\<rparr>)))
             else (True, Some (Some et)))"

definition nr_exclusive_time_destroy ::
  "nr_exclusive_time ptr ptr \<Rightarrow> bool \<times> nr_exclusive_time ptr ptr" where
  "nr_exclusive_time_destroy et_ptr =
     (case et_ptr of Some (Some _) \<Rightarrow> (True, Some None) | _ \<Rightarrow> (False, et_ptr))"

definition nr_exclusive_time_add_child ::
  "nr_exclusive_time ptr \<Rightarrow> nrtime \<Rightarrow> nrtime \<Rightarrow> bool \<times> nr_exclusive_time ptr" where
  "nr_exclusive_time_add_child parent_et start_time stop_time =
     (case parent_et of
        None \<Rightarrow> (False, None)
      | Some et \<Rightarrow>
          if length (et_transitions et) + 2 > et_capacity et then (False, parent_et)
          else if start_time > stop_time then (False, parent_et)
          else (True, Some (et\<lparr>et_transitions := et_transitions et
                 @ [\<lparr>tr_time = start_time, tr_type = CHILD_START\<rparr>,
                    \<lparr>tr_time = stop_time, tr_type = CHILD_STOP\<rparr>]\<rparr>)))"

definition nr_exclusive_time_transition_compare ::
  "nr_exclusive_time_transition \<Rightarrow> nr_exclusive_time_transition \<Rightarrow> int" where
  "nr_exclusive_time_transition_compare a b =
     (if tr_time a < tr_time b then -1
      else if tr_time a > tr_time b then 1
      else if tr_type a \<noteq> tr_type b then
        if tr_type a = CHILD_START then -1
        else if tr_type b = CHILD_START then 1
        else 0
      else 0)"

text \<open>
  The walk over the sorted transitions. Its state is the number of active children, the
  time at which the current period without exclusive time began, and the exclusive time
  left so far; ending the recursion early is the \<^verbatim>\<open>goto end\<close> of the code.
\<close>

fun exclusive_walk ::
  "nrtime \<Rightarrow> nrtime \<Rightarrow> nat \<Rightarrow> nrtime \<Rightarrow> nrtime \<Rightarrow> nr_exclusive_time_transition list \<Rightarrow> nrtime" where
  "exclusive_walk start stop active last_start exclusive [] = exclusive"
| "exclusive_walk start stop active last_start exclusive (tr # trs) =
     (let time = tr_time tr
      in case tr_type tr of
           CHILD_START \<Rightarrow>
             exclusive_walk start stop (active + 1)
               (if active = 0 then (if time > start then time else start) else last_start)
               exclusive trs
         | CHILD_STOP \<Rightarrow>
             if active = 0 then exclusive_walk start stop active last_start exclusive trs
             else if active = 1 then
               (let duration = (if stop < time then nr_time_duration last_start stop
                                else nr_time_duration last_start time)
                in if duration > exclusive then 0
                   else if time > stop then exclusive - duration
                   else exclusive_walk start stop (active - 1) last_start
                          (exclusive - duration) trs)
             else exclusive_walk start stop (active - 1) last_start exclusive trs)"

text \<open>The sort happens in place, so the structure is returned as well.\<close>

definition nr_exclusive_time_calculate ::
  "nr_exclusive_time ptr \<Rightarrow> nrtime \<times> nr_exclusive_time ptr" where
  "nr_exclusive_time_calculate et_ptr =
     (case et_ptr of
        None \<Rightarrow> (0, None)
      | Some et \<Rightarrow>
          if et_start_time et > et_stop_time et then (0, et_ptr)
          else if length (et_transitions et) = 0
          then (nr_time_duration (et_start_time et) (et_stop_time et), et_ptr)
          else let trs = nr_sort (et_transitions et) (Some nr_exclusive_time_transition_compare)
               in (exclusive_walk (et_start_time et) (et_stop_time et) 0 0
                     (nr_time_duration (et_start_time et) (et_stop_time et)) trs,
                   Some (et\<lparr>et_transitions := trs\<rparr>)))"

section \<open>The specification: the time in which no child runs\<close>

text \<open>The instants of the parent's lifetime at which no child is running.\<close>

definition exclusive_instants :: "nrtime \<Rightarrow> nrtime \<Rightarrow> (nrtime \<times> nrtime) set \<Rightarrow> nrtime set" where
  "exclusive_instants start stop children =
     {t \<in> {start..<stop}. \<forall>(s, e) \<in> children. \<not> (s \<le> t \<and> t < e)}"

text \<open>How many children have started, and stopped, by time \<open>t\<close>.\<close>

definition started :: "nr_exclusive_time_transition list \<Rightarrow> nrtime \<Rightarrow> nat" where
  "started trs t = length (filter (\<lambda>tr. tr_type tr = CHILD_START \<and> tr_time tr \<le> t) trs)"

definition stopped :: "nr_exclusive_time_transition list \<Rightarrow> nrtime \<Rightarrow> nat" where
  "stopped trs t = length (filter (\<lambda>tr. tr_type tr = CHILD_STOP \<and> tr_time tr \<le> t) trs)"

text \<open>Every prefix has at least as many starts as stops, given \<open>a\<close> children before it,
  and all of them stop.\<close>

fun balanced :: "nat \<Rightarrow> nr_exclusive_time_transition list \<Rightarrow> bool" where
  "balanced a [] \<longleftrightarrow> a = 0"
| "balanced a (tr # trs) \<longleftrightarrow>
     (case tr_type tr of CHILD_START \<Rightarrow> balanced (Suc a) trs
      | CHILD_STOP \<Rightarrow> 0 < a \<and> balanced (a - 1) trs)"

abbreviation in_order :: "nr_exclusive_time_transition list \<Rightarrow> bool" where
  "in_order trs \<equiv> sorted_wrt (\<lambda>x y. nr_exclusive_time_transition_compare x y \<le> 0) trs"

lemma transition_compare_ok: "comparator_ok nr_exclusive_time_transition_compare"
  unfolding comparator_ok_def nr_exclusive_time_transition_compare_def
  by (auto split: if_splits intro: transition_type.exhaust)

lemma compare_le_time:
  "nr_exclusive_time_transition_compare a b \<le> 0 \<Longrightarrow> tr_time a \<le> tr_time b"
  by (auto simp: nr_exclusive_time_transition_compare_def split: if_splits)

lemma in_order_early:
  assumes "in_order (tr # trs)" and "t < tr_time tr"
  shows "started trs t = 0" and "stopped trs t = 0"
  using assms by (auto simp: started_def stopped_def filter_empty_conv dest!: compare_le_time)

lemma started_Cons: "started (tr # trs) t =
    (if tr_type tr = CHILD_START \<and> tr_time tr \<le> t then Suc (started trs t) else started trs t)"
  by (simp add: started_def)

lemma stopped_Cons: "stopped (tr # trs) t =
    (if tr_type tr = CHILD_STOP \<and> tr_time tr \<le> t then Suc (stopped trs t) else stopped trs t)"
  by (simp add: stopped_def)

text \<open>The instants the walk still has to subtract.\<close>

definition busy ::
  "nrtime \<Rightarrow> nrtime \<Rightarrow> nat \<Rightarrow> nrtime \<Rightarrow> nr_exclusive_time_transition list \<Rightarrow> nrtime set" where
  "busy start stop a last_start trs =
     {t \<in> {start..<stop}. stopped trs t < a + started trs t \<and> (0 < a \<longrightarrow> last_start \<le> t)}"

lemma finite_busy [simp]: "finite (busy start stop a ls trs)"
  by (simp add: busy_def)

lemma busy_start:
  assumes "in_order (tr # trs)" and "tr_type tr = CHILD_START"
  shows "busy start stop a ls (tr # trs)
    = busy start stop (Suc a) (if a = 0 then tr_time tr else ls) trs"
proof -
  have "stopped (tr # trs) t < a + started (tr # trs) t \<and> (0 < a \<longrightarrow> ls \<le> t)
      \<longleftrightarrow> stopped trs t < Suc a + started trs t \<and> (if a = 0 then tr_time tr else ls) \<le> t" for t
    using assms in_order_early [OF assms(1), of t]
    by (cases "t < tr_time tr") (auto simp: started_Cons stopped_Cons)
  then show ?thesis by (auto simp: busy_def)
qed

lemma busy_stop_more:
  assumes "in_order (tr # trs)" and "tr_type tr = CHILD_STOP" and "1 < a"
  shows "busy start stop a ls (tr # trs) = busy start stop (a - 1) ls trs"
proof -
  have "stopped (tr # trs) t < a + started (tr # trs) t \<and> (0 < a \<longrightarrow> ls \<le> t)
      \<longleftrightarrow> stopped trs t < a - 1 + started trs t \<and> (0 < a - 1 \<longrightarrow> ls \<le> t)" for t
    using assms in_order_early [OF assms(1), of t]
    by (cases "t < tr_time tr") (auto simp: started_Cons stopped_Cons)
  then show ?thesis by (auto simp: busy_def)
qed

lemma busy_stop_last:
  assumes "in_order (tr # trs)" and "tr_type tr = CHILD_STOP" and "ls \<le> tr_time tr"
  shows "busy start stop 1 ls (tr # trs)
    = ({ls..<tr_time tr} \<inter> {start..<stop}) \<union> busy start stop 0 ls' trs"
    and "({ls..<tr_time tr} \<inter> {start..<stop}) \<inter> busy start stop 0 ls' trs = {}"
    and "stop < tr_time tr \<Longrightarrow> busy start stop 0 ls' trs = {}"
proof -
  have iff: "stopped (tr # trs) t < 1 + started (tr # trs) t \<and> ls \<le> t
      \<longleftrightarrow> (ls \<le> t \<and> t < tr_time tr) \<or> stopped trs t < started trs t" for t
    using assms in_order_early [OF assms(1), of t]
    by (cases "t < tr_time tr") (auto simp: started_Cons stopped_Cons)
  show "busy start stop 1 ls (tr # trs)
    = ({ls..<tr_time tr} \<inter> {start..<stop}) \<union> busy start stop 0 ls' trs"
  proof (rule set_eqI)
    fix t show "t \<in> busy start stop 1 ls (tr # trs)
      \<longleftrightarrow> t \<in> ({ls..<tr_time tr} \<inter> {start..<stop}) \<union> busy start stop 0 ls' trs"
      using iff [of t] by (simp add: busy_def) blast
  qed
  have late: "t \<in> busy start stop 0 ls' trs \<Longrightarrow> tr_time tr \<le> t" for t
    using in_order_early [OF assms(1), of t] by (cases "t < tr_time tr") (auto simp: busy_def)
  have lt: "t \<in> busy start stop 0 ls' trs \<Longrightarrow> t < stop" for t by (simp add: busy_def)
  show "({ls..<tr_time tr} \<inter> {start..<stop}) \<inter> busy start stop 0 ls' trs = {}"
    by (auto dest: late)
  show "busy start stop 0 ls' trs = {}" if "stop < tr_time tr"
  proof (rule equals0I)
    fix t assume t: "t \<in> busy start stop 0 ls' trs"
    with late [OF t] lt [OF t] that show False by simp
  qed
qed

text \<open>The walk subtracts exactly the busy instants.\<close>

lemma exclusive_walk_correct:
  assumes "in_order trs" and "balanced a trs"
    and "0 < a \<longrightarrow> last_start = max ls start \<and> (\<forall>tr \<in> set trs. ls \<le> tr_time tr)"
    and "card (busy start stop a ls trs) \<le> exclusive"
  shows "exclusive_walk start stop a last_start exclusive trs
    = exclusive - card (busy start stop a ls trs)"
  using assms
proof (induction trs arbitrary: a last_start ls exclusive)
  case Nil
  then show ?case by (simp add: busy_def stopped_def started_def)
next
  case (Cons tr trs)
  have ord: "in_order trs" using Cons.prems(1) by simp
  have later: "\<forall>x \<in> set trs. tr_time tr \<le> tr_time x"
    using Cons.prems(1) by (auto dest: compare_le_time)
  show ?case
  proof (cases "tr_type tr")
    case CHILD_START
    let ?ls = "if a = 0 then tr_time tr else ls"
    have eq: "busy start stop a ls (tr # trs) = busy start stop (Suc a) ?ls trs"
      using busy_start [OF Cons.prems(1) CHILD_START] .
    have "exclusive_walk start stop (Suc a)
        (if a = 0 then (if tr_time tr > start then tr_time tr else start) else last_start) exclusive trs
      = exclusive - card (busy start stop (Suc a) ?ls trs)"
      using Cons.prems later CHILD_START eq ord by (intro Cons.IH) (auto simp: max_def)
    with CHILD_START eq show ?thesis by (simp add: Let_def)
  next
    case CHILD_STOP
    then have a: "0 < a" and bal: "balanced (a - 1) trs" using Cons.prems(2) by simp_all
    then have last: "last_start = max ls start" and ls: "ls \<le> tr_time tr" "\<forall>x \<in> set trs. ls \<le> tr_time x"
      using Cons.prems(3) by auto
    show ?thesis
    proof (cases "a = 1")
      case False
      then have "1 < a" using a by simp
      note eq = busy_stop_more [OF Cons.prems(1) CHILD_STOP this, of start stop ls]
      have "exclusive_walk start stop (a - 1) last_start exclusive trs
          = exclusive - card (busy start stop (a - 1) ls trs)"
        using Cons.prems bal ord last ls eq by (intro Cons.IH) auto
      with CHILD_STOP False a eq show ?thesis by (simp add: Let_def)
    next
      case True
      note eq = busy_stop_last [OF Cons.prems(1) CHILD_STOP ls(1), where ls' = 0
          and start = start and stop = stop]
      let ?d = "if stop < tr_time tr then nr_time_duration last_start stop
                else nr_time_duration last_start (tr_time tr)"
      have "{ls..<tr_time tr} \<inter> {start..<stop} = {max ls start..<min (tr_time tr) stop}" by auto
      then have d: "card ({ls..<tr_time tr} \<inter> {start..<stop}) = ?d"
        by (simp add: last nr_time_duration_def min_def)
      then have sum: "card (busy start stop a ls (tr # trs)) = ?d + card (busy start stop 0 0 trs)"
        using eq(1,2) True by (simp add: card_Un_disjoint)
      have "exclusive_walk start stop 0 last_start (exclusive - ?d) trs
          = (exclusive - ?d) - card (busy start stop 0 0 trs)"
        using Cons.prems(4) bal ord True sum by (intro Cons.IH) auto
      with CHILD_STOP True Cons.prems(4) sum eq(3) show ?thesis by (auto simp: Let_def)
    qed
  qed
qed

section \<open>From children to transitions\<close>

text \<open>The transitions of a list of children, in the order they are added.\<close>

definition child_transitions :: "(nrtime \<times> nrtime) list \<Rightarrow> nr_exclusive_time_transition list" where
  "child_transitions cs = concat (map (\<lambda>(s, e).
     [\<lparr>tr_time = s, tr_type = CHILD_START\<rparr>, \<lparr>tr_time = e, tr_type = CHILD_STOP\<rparr>]) cs)"

lemma started_mset: "mset xs = mset ys \<Longrightarrow> started xs t = started ys t"
  by (metis started_def mset_filter size_mset)

lemma stopped_mset: "mset xs = mset ys \<Longrightarrow> stopped xs t = stopped ys t"
  by (metis stopped_def mset_filter size_mset)

lemma child_transitions_Cons [simp]:
  "child_transitions [] = []"
  "child_transitions ((s, e) # cs) = \<lparr>tr_time = s, tr_type = CHILD_START\<rparr>
     # \<lparr>tr_time = e, tr_type = CHILD_STOP\<rparr> # child_transitions cs"
  by (simp_all add: child_transitions_def)

lemma running_count:
  "\<forall>(s, e) \<in> set cs. s \<le> e \<Longrightarrow> started (child_transitions cs) t
     = stopped (child_transitions cs) t + length (filter (\<lambda>(s, e). s \<le> t \<and> t < e) cs)"
proof (induction cs)
  case Nil
  show ?case by (simp add: started_def stopped_def)
next
  case (Cons c cs)
  then show ?case by (cases c) (auto simp: started_Cons stopped_Cons)
qed

lemma balancedI:
  assumes "in_order trs" and "\<forall>t. stopped trs t \<le> a + started trs t"
    and "length (filter (\<lambda>tr. tr_type tr = CHILD_STOP) trs)
       = a + length (filter (\<lambda>tr. tr_type tr = CHILD_START) trs)"
  shows "balanced a trs"
  using assms
proof (induction trs arbitrary: a)
  case Nil
  then show ?case by simp
next
  case (Cons tr trs)
  note early = in_order_early [OF Cons.prems(1)]
  have ord: "in_order trs" using Cons.prems(1) by simp
  show ?case
  proof (cases "tr_type tr")
    case CHILD_START
    have "stopped trs t \<le> Suc a + started trs t" for t
      using Cons.prems(2) [rule_format, of t] CHILD_START
      by (auto simp: started_Cons stopped_Cons split: if_splits)
    with Cons.IH [OF ord, of "Suc a"] Cons.prems(3) CHILD_START show ?thesis by simp
  next
    case CHILD_STOP
    have "started trs (tr_time tr) = 0"
      using Cons.prems(1) CHILD_STOP
      by (auto simp: started_def filter_empty_conv nr_exclusive_time_transition_compare_def
          split: if_splits)
    then have a: "0 < a"
      using Cons.prems(2) [rule_format, of "tr_time tr"] CHILD_STOP
      by (simp add: started_Cons stopped_Cons)
    moreover have "stopped trs t \<le> a - 1 + started trs t" for t
      using Cons.prems(2) [rule_format, of t] CHILD_STOP a early [of t]
      by (cases "t < tr_time tr") (auto simp: started_Cons stopped_Cons)
    ultimately show ?thesis
      using Cons.IH [OF ord, of "a - 1"] Cons.prems(3) CHILD_STOP by simp
  qed
qed

lemma child_transitions_types:
  "length (filter (\<lambda>tr. tr_type tr = CHILD_STOP) (child_transitions cs))
     = length (filter (\<lambda>tr. tr_type tr = CHILD_START) (child_transitions cs))"
  by (induction cs) auto

lemma sorted_children_walk:
  assumes "mset trs = mset (child_transitions cs)" and "in_order trs"
    and "\<forall>(s, e) \<in> set cs. s \<le> e" and "start \<le> stop"
  shows "exclusive_walk start stop 0 0 (nr_time_duration start stop) trs
    = card (exclusive_instants start stop (set cs))"
proof -
  note run = running_count [OF assms(3)]
  have cnt: "started trs t = stopped trs t + length (filter (\<lambda>(s, e). s \<le> t \<and> t < e) cs)" for t
    using run started_mset [OF assms(1)] stopped_mset [OF assms(1)] by simp
  have "balanced 0 trs"
  proof (rule balancedI [OF assms(2)])
    show "length (filter (\<lambda>tr. tr_type tr = CHILD_STOP) trs)
       = 0 + length (filter (\<lambda>tr. tr_type tr = CHILD_START) trs)"
      using child_transitions_types [of cs] assms(1) by (metis add_0 mset_filter size_mset)
  qed (simp add: cnt)
  moreover have busy: "busy start stop 0 0 trs = {start..<stop} - exclusive_instants start stop (set cs)"
    by (auto simp: busy_def cnt exclusive_instants_def filter_empty_conv)
  have "card (busy start stop 0 0 trs) \<le> card {start..<stop}"
    unfolding busy by (intro card_mono) auto
  ultimately have "exclusive_walk start stop 0 0 (nr_time_duration start stop) trs
      = nr_time_duration start stop - card (busy start stop 0 0 trs)"
    using assms(2,4) by (intro exclusive_walk_correct) (auto simp: nr_time_duration_def)
  also have "\<dots> = card ({start..<stop} - busy start stop 0 0 trs)"
    using assms(4) by (subst card_Diff_subset) (auto simp: nr_time_duration_def busy_def)
  also have "{start..<stop} - busy start stop 0 0 trs = exclusive_instants start stop (set cs)"
    unfolding busy by (auto simp: exclusive_instants_def)
  finally show ?thesis .
qed

section \<open>Adding children\<close>

fun add_children ::
  "nr_exclusive_time ptr \<Rightarrow> (nrtime \<times> nrtime) list \<Rightarrow> nr_exclusive_time ptr" where
  "add_children et [] = et"
| "add_children et ((s, e) # cs) = add_children (snd (nr_exclusive_time_add_child et s e)) cs"

lemma add_children_transitions:
  assumes "length (et_transitions et) + 2 * length cs \<le> et_capacity et"
  shows "add_children (Some et) cs
    = Some (et\<lparr>et_transitions := et_transitions et @ child_transitions (filter (\<lambda>(s, e). s \<le> e) cs)\<rparr>)"
  using assms
proof (induction cs arbitrary: et)
  case Nil
  then show ?case by simp
next
  case (Cons c cs)
  obtain s e where c: "c = (s, e)" by (cases c)
  show ?case
    using Cons.prems
    by (cases "s \<le> e") (auto simp: c nr_exclusive_time_add_child_def Cons.IH)
qed

lemma exclusive_time_spec:
  assumes "start \<le> stop" and "length cs \<le> n"
  shows "fst (nr_exclusive_time_calculate
      (add_children (Some (nr_exclusive_time_create n start stop)) cs))
    = card (exclusive_instants start stop {(s, e) \<in> set cs. s \<le> e})"
proof -
  let ?cs = "filter (\<lambda>(s, e). s \<le> e) cs" and ?et = "nr_exclusive_time_create n start stop"
  let ?trs = "nr_sort (child_transitions ?cs) (Some nr_exclusive_time_transition_compare)"
  have add: "add_children (Some ?et) cs = Some (?et\<lparr>et_transitions := child_transitions ?cs\<rparr>)"
    using assms(2) by (subst add_children_transitions) (simp_all add: nr_exclusive_time_create_def)
  have set: "set ?cs = {(s, e) \<in> set cs. s \<le> e}" by auto
  show ?thesis
  proof (cases "?cs = []")
    case True
    then have "exclusive_instants start stop {(s, e) \<in> set cs. s \<le> e} = {start..<stop}"
      using set by (auto simp: exclusive_instants_def)
    with True add assms(1) show ?thesis
      by (simp add: nr_exclusive_time_calculate_def nr_exclusive_time_create_def
          nr_time_duration_def)
  next
    case False
    then have "child_transitions ?cs \<noteq> []" by (cases ?cs) (auto simp: child_transitions_def)
    then have "fst (nr_exclusive_time_calculate (add_children (Some ?et) cs))
        = exclusive_walk start stop 0 0 (nr_time_duration start stop) ?trs"
      using add assms(1) by (simp add: nr_exclusive_time_calculate_def nr_exclusive_time_create_def
          Let_def)
    also have "\<dots> = card (exclusive_instants start stop (set ?cs))"
      using assms(1) qs.mset_srt qs.sorted_srt [OF transition_compare_ok]
      by (intro sorted_children_walk) (auto simp: nr_sort_def)
    finally show ?thesis using set by simp
  qed
qed

section \<open>Properties\<close>



text \<open>\<open>nr_exclusive_time_ensure\<close> always leaves a structure with the requested times,
  the transitions collected so far and room for the requested number of children: adding
  them afterwards loses no child whose start is not after its stop.\<close>

theorem exclusive_time_ensure_room:
  assumes "length (et_transitions et) \<le> et_capacity et" and "length cs \<le> n"
    and "nr_exclusive_time_ensure (Some (Some et)) n start stop = (ok, p)"
  shows "ok \<and> (\<exists>et'. p = Some (Some et') \<and> et_start_time et' = start \<and> et_stop_time et' = stop
    \<and> map_option et_transitions (add_children (Some et') cs)
      = Some (et_transitions et @ child_transitions (filter (\<lambda>(s, e). s \<le> e) cs)))"
proof -
  from assms(3) obtain et' where et': "ok" "p = Some (Some et')" "et_start_time et' = start"
    "et_stop_time et' = stop" "et_transitions et' = et_transitions et"
    "length (et_transitions et) + 2 * n \<le> et_capacity et'"
    using assms(1) by (auto simp: nr_exclusive_time_ensure_def Let_def split: if_splits)
  with assms(2) add_children_transitions [of et' cs] show ?thesis by auto
qed

theorem exclusive_time_ensure_room_witness:
  "\<exists>et'. nr_exclusive_time_ensure (Some (Some (nr_exclusive_time_create 0 1 2))) 1 3 9
       = (True, Some (Some et'))
     \<and> map_option et_transitions (add_children (Some et') [(4, 5)]) = Some (child_transitions [(4, 5)])"
proof -
  let ?et = "nr_exclusive_time_create 0 1 2"
  obtain ok p where r: "nr_exclusive_time_ensure (Some (Some ?et)) 1 3 9 = (ok, p)" by fastforce
  have "length (et_transitions ?et) \<le> et_capacity ?et" "et_transitions ?et = []"
    by (simp_all add: nr_exclusive_time_create_def)
  with exclusive_time_ensure_room [OF _ _ r, of "[(4, 5)]"] r show ?thesis by auto
qed

end
