(* ===== verification/Slab.thy ===== *)
theory Slab
  imports Vector
begin

text \<open>
  The slab allocator of \<^verbatim>\<open>axiom/util_slab.c\<close>: pages of objects of one size and a free
  list of released objects. A page is named by its number, an object by its page and its
  byte offset from the start of the page, which the page header precedes. Pages are kept
  newest first, as the list of \<open>prev\<close> pointers has them.
\<close>

section \<open>The allocator\<close>

type_synonym slab_addr = "nat \<times> nat"

record nr_slab_page =
  pg_capacity :: nat
  pg_used :: nat

record nr_slab =
  pages :: "nr_slab_page list"
  free_list :: "slab_addr nr_vector"
  object_size :: nat
  page_size :: nat
  slab_count :: nat

text \<open>A pointer and two sizes.\<close>

definition sizeof_page_header :: nat where
  "sizeof_page_header = 24"

definition nr_slab_page_create :: "nat \<Rightarrow> nr_slab_page" where
  "nr_slab_page_create psize = \<lparr>pg_capacity = psize - sizeof_page_header, pg_used = 0\<rparr>"

definition aligned_size :: "nat \<Rightarrow> nat" where
  "aligned_size osize = (if osize mod 16 \<noteq> 0 then 16 * (osize div 16 + 1) else osize)"

text \<open>\<open>sysconf_pagesize\<close> is the answer of the operating system.\<close>

definition nr_slab_create :: "int \<Rightarrow> nat \<Rightarrow> nat \<Rightarrow> nr_slab ptr" where
  "nr_slab_create sysconf_pagesize osize psize =
     (if osize = 0 then NULL
      else let osize = aligned_size osize;
               sys_page_size = (if sysconf_pagesize \<le> 0 then 4096 else nat sysconf_pagesize);
               psize = (if psize = 0 then sys_page_size * (osize * 4 div sys_page_size + 1)
                        else sys_page_size * ((if psize mod sys_page_size \<noteq> 0 then 1 else 0)
                                              + psize div sys_page_size))
           in if osize + sizeof_page_header > psize then NULL
              else Some \<lparr>pages = [nr_slab_page_create psize], free_list = nr_vector_init_impl 128 False,
                         object_size = osize, page_size = psize, slab_count = 0\<rparr>)"

definition nr_slab_destroy :: "nr_slab ptr ptr \<Rightarrow> nr_slab ptr ptr" where
  "nr_slab_destroy slab_ptr = (case slab_ptr of Some (Some _) \<Rightarrow> Some NULL | _ \<Rightarrow> slab_ptr)"

text \<open>A new page when the current one has no room.\<close>

definition slab_ensure_page :: "nr_slab \<Rightarrow> nr_slab" where
  "slab_ensure_page slab =
     (if pg_capacity (hd (pages slab)) - pg_used (hd (pages slab)) < object_size slab
      then let psize = (if page_size slab \<le> 4 * 1024 * 1024 then page_size slab * 2 else page_size slab)
           in slab\<lparr>page_size := psize, pages := nr_slab_page_create psize # pages slab\<rparr>
      else slab)"

definition slab_bump :: "nr_slab \<Rightarrow> slab_addr \<times> nr_slab" where
  "slab_bump slab =
     (let slab = slab_ensure_page slab; head = hd (pages slab)
      in ((length (pages slab) - 1, sizeof_page_header + pg_used head),
          slab\<lparr>pages := head\<lparr>pg_used := pg_used head + object_size slab\<rparr> # tl (pages slab),
               slab_count := slab_count slab + 1\<rparr>))"

definition nr_slab_next :: "nr_slab ptr \<Rightarrow> slab_addr ptr \<times> nr_slab ptr" where
  "nr_slab_next slab =
     (case slab of None \<Rightarrow> (NULL, slab)
      | Some s \<Rightarrow>
          if pages s = [] then (NULL, slab)
          else if nr_vector_size (Some (free_list s)) > 0 then
            (case nr_vector_pop_back (Some (free_list s)) (Some NULL) of
               (True, p, v) \<Rightarrow> (the p, Some (s\<lparr>free_list := the v, slab_count := slab_count s + 1\<rparr>))
             | (False, _, v) \<Rightarrow>
                 (case slab_bump (s\<lparr>free_list := the v\<rparr>) of (a, s) \<Rightarrow> (Some a, Some s)))
          else (case slab_bump s of (a, s) \<Rightarrow> (Some a, Some s)))"

text \<open>The object is zeroed before it goes to the free list; the callers that look at released
  memory model that part.\<close>

definition nr_slab_release :: "nr_slab ptr \<Rightarrow> slab_addr ptr \<Rightarrow> (bool \<times> nr_slab ptr) option" where
  "nr_slab_release slab obj =
     (case (slab, obj) of
        (Some s, Some a) \<Rightarrow> do {
          (ok, v) \<leftarrow> nr_vector_push_back (Some (free_list s)) (Some a);
          Some (ok, Some (s\<lparr>free_list := the v\<rparr>))
        }
      | _ \<Rightarrow> Some (False, slab))"

definition nr_slab_count_of :: "nr_slab ptr \<Rightarrow> nat" where
  "nr_slab_count_of slab = (case slab of None \<Rightarrow> 0 | Some s \<Rightarrow> slab_count s)"

section \<open>The objects of a slab\<close>

definition carved :: "nr_slab \<Rightarrow> slab_addr set" where
  "carved s = {(k, sizeof_page_header + j * object_size s) | k j.
     k < length (pages s) \<and> j * object_size s < pg_used (rev (pages s) ! k)}"

definition slab_inv :: "nr_slab \<Rightarrow> slab_addr set \<Rightarrow> bool" where
  "slab_inv s live \<longleftrightarrow> pages s \<noteq> [] \<and> 0 < object_size s \<and> 16 dvd object_size s
     \<and> object_size s + sizeof_page_header \<le> page_size s
     \<and> (\<forall>p \<in> set (pages s). pg_used p \<le> pg_capacity p \<and> object_size s dvd pg_used p)
     \<and> vector_inv (free_list s) \<and> \<not> dtor (free_list s)
     \<and> distinct (vec_list (free_list s)) \<and> NULL \<notin> set (vec_list (free_list s))
     \<and> live \<inter> Some -` set (vec_list (free_list s)) = {}
     \<and> live \<union> Some -` set (vec_list (free_list s)) = carved s"

text \<open>Two objects of one page do not overlap, and no object leaves its page.\<close>

lemma carved_disjoint:
  assumes "(k, a) \<in> carved s" and "(k, b) \<in> carved s" and "a < b"
  shows "a + object_size s \<le> b"
proof -
  obtain i j where "a = sizeof_page_header + i * object_size s" "b = sizeof_page_header + j * object_size s"
    using assms by (auto simp: carved_def)
  moreover from this have "Suc i \<le> j" using assms(3) by (simp add: Suc_le_eq)
  then have "Suc i * object_size s \<le> j * object_size s" by (rule mult_le_mono1)
  ultimately show ?thesis by simp
qed

lemma carved_in_page:
  assumes "slab_inv s live" and "(k, a) \<in> carved s"
  shows "k < length (pages s)"
    "a + object_size s \<le> sizeof_page_header + pg_capacity (rev (pages s) ! k)"
proof -
  let ?p = "rev (pages s) ! k"
  obtain j where j: "a = sizeof_page_header + j * object_size s" "k < length (pages s)"
    "j * object_size s < pg_used ?p" using assms(2) by (auto simp: carved_def)
  then have "?p \<in> set (pages s)" by (metis length_rev nth_mem set_rev)
  then have p: "pg_used ?p \<le> pg_capacity ?p" "object_size s dvd pg_used ?p"
    using assms(1) by (simp_all add: slab_inv_def)
  then obtain n where n: "pg_used ?p = n * object_size s" by (auto simp: dvd_def mult.commute)
  with j(3) have "Suc j \<le> n" by simp
  then have "Suc j * object_size s \<le> n * object_size s" by (rule mult_le_mono1)
  with n p(1) j show "k < length (pages s)"
    "a + object_size s \<le> sizeof_page_header + pg_capacity ?p" by simp_all
qed

section \<open>Allocation and release\<close>

lemma carved_upd [simp]:
  "carved (s\<lparr>free_list := w\<rparr>) = carved s" "carved (s\<lparr>slab_count := n\<rparr>) = carved s"
  by (simp_all add: carved_def)

lemma carved_new_page:
  "pages s' = p # pages s \<Longrightarrow> object_size s' = object_size s \<Longrightarrow> pg_used p = 0 \<Longrightarrow> carved s' = carved s"
  by (fastforce simp: carved_def nth_append split: if_splits)

lemma carved_bump:
  assumes "pages s = p # ps" and "pages s' = p\<lparr>pg_used := pg_used p + object_size s\<rparr> # ps"
    and o: "object_size s' = object_size s" "0 < object_size s" and d: "object_size s dvd pg_used p"
  shows "carved s' = insert (length ps, sizeof_page_header + pg_used p) (carved s)"
    "(length ps, sizeof_page_header + pg_used p) \<notin> carved s"
proof -
  obtain n where n: "pg_used p = n * object_size s" using d by (auto simp: dvd_def mult.commute)
  have "j * object_size s < n * object_size s + object_size s \<longleftrightarrow> j = n \<or> j * object_size s < n * object_size s" for j
  proof -
    have "n * object_size s + object_size s = Suc n * object_size s" by simp
    then show ?thesis using o(2) by (metis less_Suc_eq mult_less_cancel2)
  qed
  then show "carved s' = insert (length ps, sizeof_page_header + pg_used p) (carved s)"
    using assms n by (auto simp: carved_def nth_append less_Suc_eq split: if_splits)
  show "(length ps, sizeof_page_header + pg_used p) \<notin> carved s"
    using assms n by (auto simp: carved_def nth_append)
qed

lemma slab_ensure_page_spec:
  assumes "slab_inv s live"
  shows "slab_inv (slab_ensure_page s) live" "carved (slab_ensure_page s) = carved s"
    "object_size (slab_ensure_page s) = object_size s"
    "pg_used (hd (pages (slab_ensure_page s))) + object_size s \<le> pg_capacity (hd (pages (slab_ensure_page s)))"
    "free_list (slab_ensure_page s) = free_list s"
proof -
  let ?full = "pg_capacity (hd (pages s)) - pg_used (hd (pages s)) < object_size s"
  show c: "carved (slab_ensure_page s) = carved s"
    by (cases ?full)
       (simp_all add: slab_ensure_page_def Let_def nr_slab_page_create_def carved_new_page [of _ _ s])
  show "object_size (slab_ensure_page s) = object_size s" "free_list (slab_ensure_page s) = free_list s"
    by (simp_all add: slab_ensure_page_def Let_def)
  have hd: "pg_used (hd (pages s)) \<le> pg_capacity (hd (pages s))"
    using assms by (simp add: slab_inv_def)
  show "pg_used (hd (pages (slab_ensure_page s))) + object_size s \<le> pg_capacity (hd (pages (slab_ensure_page s)))"
    using assms hd by (auto simp: slab_ensure_page_def Let_def nr_slab_page_create_def slab_inv_def)
  show "slab_inv (slab_ensure_page s) live"
    using assms c by (auto simp: slab_inv_def slab_ensure_page_def Let_def nr_slab_page_create_def)
qed

lemma slab_bump_spec:
  assumes inv: "slab_inv s live" and "slab_bump s = (a, s')"
  shows "a \<notin> carved s" "carved s' = insert a (carved s)" "slab_inv s' (insert a live)"
    "object_size s' = object_size s" "free_list s' = free_list s"
proof -
  let ?s = "slab_ensure_page s"
  note e = slab_ensure_page_spec [OF inv]
  obtain p ps where ps: "pages ?s = p # ps" using e(1) by (cases "pages ?s") (auto simp: slab_inv_def)
  have a: "a = (length ps, sizeof_page_header + pg_used p)"
    and s': "s' = ?s\<lparr>pages := p\<lparr>pg_used := pg_used p + object_size ?s\<rparr> # ps, slab_count := slab_count ?s + 1\<rparr>"
    using assms(2) ps by (auto simp: slab_bump_def Let_def)
  have p: "object_size ?s dvd pg_used p" "0 < object_size ?s" using e(1) ps by (simp_all add: slab_inv_def)
  have bump: "carved s' = insert a (carved ?s)" "a \<notin> carved ?s"
    using carved_bump [OF ps, of s'] p unfolding a s' by simp_all
  show "a \<notin> carved s" "carved s' = insert a (carved s)" using bump e(2) by simp_all
  show "object_size s' = object_size s" "free_list s' = free_list s" using e(3,5) by (simp_all add: s')
  have "a \<notin> Some -` set (vec_list (free_list ?s))" using bump(2) e(1) by (auto simp: slab_inv_def)
  then show "slab_inv s' (insert a live)"
    using e(1,4) p bump(1) ps e(3) unfolding slab_inv_def by (auto simp: s')
qed

lemma nr_slab_next_spec:
  assumes inv: "slab_inv s live"
  shows "\<exists>a s'. nr_slab_next (Some s) = (Some a, Some s') \<and> a \<notin> live \<and> slab_inv s' (insert a live)
    \<and> object_size s' = object_size s
    \<and> length (vec_list (free_list s')) \<le> length (vec_list (free_list s))"
proof -
  let ?v = "free_list s"
  have ne: "pages s \<noteq> []" and v: "vector_inv ?v" using inv by (simp_all add: slab_inv_def)
  have len: "length (vec_list ?v) = unat (used ?v)" by (rule length_vec_list [OF v])
  show ?thesis
  proof (cases "vec_list ?v = []")
    case True
    obtain a s' where b: "slab_bump s = (a, s')" by fastforce
    note spec = slab_bump_spec [OF inv b]
    have "a \<notin> live" using spec(1) inv by (auto simp: slab_inv_def)
    moreover have "\<not> nr_vector_size (Some ?v) > 0"
      using True len by (simp add: nr_vector_size_def word_gt_0 unat_eq_zero)
    ultimately show ?thesis using spec b ne by (simp add: nr_slab_next_def)
  next
    case False
    from nr_vector_pop_back_spec [OF v, of NULL] False obtain w where w:
      "nr_vector_pop_back (Some ?v) (Some NULL) = (True, Some (last (vec_list ?v)), Some w)"
      "vector_inv w" "vec_list w = butlast (vec_list ?v)" "dtor w = dtor ?v" by auto
    have "NULL \<notin> set (vec_list ?v)" using inv by (simp add: slab_inv_def)
    with last_in_set [OF False] have "last (vec_list ?v) \<noteq> NULL" by metis
    then obtain a where a: "last (vec_list ?v) = Some a" by auto
    have vl: "vec_list ?v = vec_list w @ [Some a]" using False w(3) a by (metis append_butlast_last_id)
    have "nr_vector_size (Some ?v) > 0"
      using False len by (auto simp: nr_vector_size_def word_gt_0 unat_eq_zero)
    then have "nr_slab_next (Some s) = (Some a, Some (s\<lparr>free_list := w, slab_count := slab_count s + 1\<rparr>))"
      using w(1) a ne by (simp add: nr_slab_next_def)
    moreover have "a \<notin> live" using inv vl by (auto simp: slab_inv_def)
    moreover have "slab_inv (s\<lparr>free_list := w, slab_count := slab_count s + 1\<rparr>) (insert a live)"
      using inv w(2,4) vl by (auto simp: slab_inv_def)
    ultimately show ?thesis using vl by simp
  qed
qed

lemma nr_slab_release_spec:
  assumes inv: "slab_inv s live" and a: "a \<in> live" and n: "length (vec_list (free_list s)) < 2 ^ 60"
  shows "\<exists>s'. nr_slab_release (Some s) (Some a) = Some (True, Some s') \<and> slab_inv s' (live - {a})
    \<and> object_size s' = object_size s \<and> length (vec_list (free_list s')) = Suc (length (vec_list (free_list s)))"
proof -
  let ?v = "free_list s"
  have v: "vector_inv ?v" using inv by (simp add: slab_inv_def)
  from nr_vector_push_back_spec [OF v, of "Some a"] n obtain w where w:
    "nr_vector_push_back (Some ?v) (Some a) = Some (True, Some w)" "vector_inv w"
    "vec_list w = vec_list ?v @ [Some a]" "dtor w = dtor ?v"
    by (fastforce simp: length_vec_list [OF v])
  have "slab_inv (s\<lparr>free_list := w\<rparr>) (live - {a})"
    using inv w(2-4) a by (auto simp: slab_inv_def)
  then show ?thesis using w(1,3) by (simp add: nr_slab_release_def)
qed

lemma aligned_size_bounds:
  "16 dvd aligned_size n" "n \<le> aligned_size n" "aligned_size n < n + 16"
proof -
  have "n = 16 * (n div 16) + n mod 16" by simp
  moreover have "n mod 16 < 16" by simp
  ultimately show "16 dvd aligned_size n" "n \<le> aligned_size n" "aligned_size n < n + 16"
    unfolding aligned_size_def by (simp_all add: mod_0_imp_dvd, linarith+)
qed

lemma nr_slab_create_spec:
  assumes "nr_slab_create sysp osize psize = Some s"
  shows "slab_inv s {}" "object_size s = aligned_size osize"
proof -
  obtain ps where s: "s = \<lparr>pages = [nr_slab_page_create ps], free_list = nr_vector_init_impl 128 False,
      object_size = aligned_size osize, page_size = ps, slab_count = 0\<rparr>"
    and ps: "aligned_size osize + sizeof_page_header \<le> ps" and "osize \<noteq> 0"
    using assms by (auto simp: nr_slab_create_def Let_def not_less simp del: not_gr_zero split: if_splits)
  then have "0 < aligned_size osize" using aligned_size_bounds(2) [of osize] by simp
  moreover have "vector_inv (nr_vector_init_impl 128 False :: slab_addr nr_vector)"
    "vec_list (nr_vector_init_impl 128 False :: slab_addr nr_vector) = []"
    "\<not> dtor (nr_vector_init_impl 128 False :: slab_addr nr_vector)"
    by (simp_all add: vector_inv_init) (simp add: nr_vector_init_impl_def)
  moreover have "carved s = {}" by (simp add: s carved_def nr_slab_page_create_def)
  ultimately show "slab_inv s {}" "object_size s = aligned_size osize"
    using ps aligned_size_bounds(1) [of osize]
    by (simp_all add: s slab_inv_def nr_slab_page_create_def)
qed

section \<open>The contract of an allocator\<close>

fun alloc_all :: "('m \<Rightarrow> 'a option \<times> 'm) \<Rightarrow> nat \<Rightarrow> 'm \<Rightarrow> 'a option list \<times> 'm" where
  "alloc_all alloc 0 m = ([], m)"
| "alloc_all alloc (Suc n) m =
     (let (a, m) = alloc m; (as, m) = alloc_all alloc n m in (a # as, m))"

locale allocator =
  fixes alloc :: "'m \<Rightarrow> 'a option \<times> 'm"
    and invar :: "'m \<Rightarrow> 'a set \<Rightarrow> bool"
  assumes alloc_law: "invar m live \<Longrightarrow>
      \<exists>a m'. alloc m = (Some a, m') \<and> a \<notin> live \<and> invar m' (insert a live)"
begin

lemma alloc_all_law:
  "invar m live \<Longrightarrow> \<exists>as m'. alloc_all alloc n m = (map Some as, m') \<and> length as = n \<and> distinct as
     \<and> set as \<inter> live = {} \<and> invar m' (set as \<union> live)"
proof (induction n arbitrary: m live)
  case (Suc n)
  from alloc_law [OF Suc.prems] obtain a m1 where
    a: "alloc m = (Some a, m1)" "a \<notin> live" "invar m1 (insert a live)" by blast
  from Suc.IH [OF a(3)] obtain as m2 where
    "alloc_all alloc n m1 = (map Some as, m2)" "length as = n" "distinct as"
    "set as \<inter> insert a live = {}" "invar m2 (set as \<union> insert a live)" by blast
  with a show ?case by (intro exI [of _ "a # as"] exI [of _ m2]) auto
qed simp

end

definition slab_alloc :: "nr_slab \<Rightarrow> slab_addr option \<times> nr_slab" where
  "slab_alloc s = apsnd the (nr_slab_next (Some s))"

interpretation sl: allocator slab_alloc slab_inv
proof
  fix s live
  assume "slab_inv s live"
  from nr_slab_next_spec [OF this] show
    "\<exists>a s'. slab_alloc s = (Some a, s') \<and> a \<notin> live \<and> slab_inv s' (insert a live)"
    by (auto simp: slab_alloc_def)
qed

section \<open>Properties\<close>

text \<open>The states a slab of a given system page size goes through, with the objects handed out
  and not yet released.\<close>

inductive slab_reach :: "nr_slab \<Rightarrow> slab_addr set \<Rightarrow> bool" where
  create: "nr_slab_create sysp osize psize = Some s \<Longrightarrow> slab_reach s {}"
| next_object: "slab_reach s live \<Longrightarrow> nr_slab_next (Some s) = (Some a, Some s') \<Longrightarrow>
    slab_reach s' (insert a live)"
| release: "slab_reach s live \<Longrightarrow> a \<in> live \<Longrightarrow> length (vec_list (free_list s)) < 2 ^ 60 \<Longrightarrow>
    nr_slab_release (Some s) (Some a) = Some (ok, Some s') \<Longrightarrow> slab_reach s' (live - {a})"

lemma slab_reach_inv: "slab_reach s live \<Longrightarrow> slab_inv s live"
proof (induction rule: slab_reach.induct)
  case (create sysp osize psize s)
  then show ?case by (rule nr_slab_create_spec)
next
  case (next_object s live a s')
  with nr_slab_next_spec [OF next_object.IH] show ?case by auto
next
  case (release s live a ok s')
  with nr_slab_release_spec [OF release.IH release.hyps(2,3)] show ?case by auto
qed



text \<open>The objects of a slab are not aligned on 16 bytes as the interface promises: with pages
  aligned as the system allocator aligns them (to 16 bytes), the 24 bytes of page header put
  every object at an address that is 8 modulo 16.\<close>

theorem slab_objects_misaligned:
  assumes "slab_reach s live" and "(k, a) \<in> live" and "16 dvd base"
  shows "(base + a) mod 16 = 8"
proof -
  have inv: "slab_inv s live" by (rule slab_reach_inv [OF assms(1)])
  then have "live \<subseteq> carved s" by (auto simp: slab_inv_def)
  with assms(2) obtain j where "a = sizeof_page_header + j * object_size s"
    unfolding carved_def by blast
  moreover have "16 dvd base + j * object_size s" using inv assms(3) by (simp add: slab_inv_def)
  then obtain n where "base + j * object_size s = 16 * n" by (auto simp: dvd_def)
  ultimately have "base + a = 16 * (n + 1) + 8" by (simp add: sizeof_page_header_def)
  then show ?thesis by (metis mod_mult_self4 mod_less numeral_less_iff semiring_norm(76,78,81))
qed

theorem slab_objects_misaligned_witness:
  "\<exists>s a s'. nr_slab_create 4096 100 0 = Some s \<and> nr_slab_next (Some s) = (Some a, Some s')
     \<and> (4096 + snd a) mod 16 = 8"
proof -
  obtain s where s: "nr_slab_create 4096 100 0 = Some s"
    by (simp add: nr_slab_create_def aligned_size_def sizeof_page_header_def Let_def)
  note r = slab_reach.create [OF s]
  from nr_slab_next_spec [OF slab_reach_inv [OF r]] obtain a s' where
    n: "nr_slab_next (Some s) = (Some a, Some s')" by blast
  have "(4096 + snd a) mod 16 = 8"
    by (rule slab_objects_misaligned [OF slab_reach.next_object [OF r n], of "fst a"]) simp_all
  with s n show ?thesis by blast
qed

end
