(* ===== verification/SegmentChildren.thy ===== *)
theory SegmentChildren
  imports Stack ExclusiveTime Slab
begin

text \<open>
  Segments and the lists of their children: \<^verbatim>\<open>axiom/nr_segment_children.h\<close>,
  \<^verbatim>\<open>nr_segment_children_private.h\<close>, \<^verbatim>\<open>nr_segment_children.c\<close> and the
  record of \<^verbatim>\<open>nr_segment.h\<close>. A segment is named by its address in the slab; the memory maps
  addresses to records, so that the parent pointers and child indices that one operation
  writes are seen by every other. The result \<open>None\<close> is an invalid memory access (or, for
  a vector of more than \<open>2 ^ 63\<close> elements, an endless loop).
\<close>

section \<open>Segments\<close>

type_synonym sid = slab_addr

text \<open>Addresses are never taken apart here.\<close>

declare split_paired_All [simp del] split_paired_Ex [simp del]

definition NR_SEGMENT_CHILDREN_PACKED_LIMIT :: size_t where
  "NR_SEGMENT_CHILDREN_PACKED_LIMIT = 8"

text \<open>The union of the packed array (its count and its eight cells) and the vector.\<close>

datatype nr_segment_children = Packed size_t "sid ptr list" | Vec "sid nr_vector"

datatype nr_segment_color = NR_SEGMENT_WHITE | NR_SEGMENT_GREY

record nr_segment_metric =
  sm_name :: string
  sm_scoped :: bool

record nr_segment_error =
  error_message :: "string ptr"
  error_class :: "string ptr"

record nr_segment =
  seg_txn :: "nat ptr"
  seg_parent :: "sid ptr"
  seg_children :: nr_segment_children
  seg_child_ix :: size_t
  seg_color :: nr_segment_color
  seg_start_time :: nrtime
  seg_stop_time :: nrtime
  seg_name :: nat
  seg_async_context :: nat
  seg_id :: "string ptr"
  seg_metrics :: "nr_segment_metric nr_vector ptr"
  seg_exclusive_time :: "nr_exclusive_time ptr"
  seg_priority :: "32 word"
  seg_error :: "nr_segment_error ptr"

type_synonym seg_mem = "sid \<Rightarrow> nr_segment"

definition set_children :: "seg_mem \<Rightarrow> sid \<Rightarrow> nr_segment_children \<Rightarrow> seg_mem" where
  "set_children m p ch = m(p := (m p)\<lparr>seg_children := ch\<rparr>)"

text \<open>\<open>nr_segment_get_child_ix\<close> returns a \<open>ssize_t\<close>, which its callers cast to
  \<open>size_t\<close>: -1 is the greatest \<open>size_t\<close>.\<close>

definition nr_segment_get_child_ix :: "seg_mem \<Rightarrow> sid ptr \<Rightarrow> size_t" where
  "nr_segment_get_child_ix m segment =
     (case segment of None \<Rightarrow> - 1 | Some s \<Rightarrow> seg_child_ix (m s))"

definition nr_segment_set_child_ix :: "seg_mem \<Rightarrow> sid ptr \<Rightarrow> size_t \<Rightarrow> seg_mem" where
  "nr_segment_set_child_ix m segment ix =
     (case segment of None \<Rightarrow> m | Some s \<Rightarrow> m(s := (m s)\<lparr>seg_child_ix := ix\<rparr>))"

section \<open>Operations on the children\<close>

text \<open>A pointer to the children of a segment is the address of that segment.\<close>

definition packed_init :: nr_segment_children where
  "packed_init = Packed 0 (replicate 8 NULL)"

definition nr_segment_children_init :: "seg_mem \<Rightarrow> sid ptr \<Rightarrow> seg_mem" where
  "nr_segment_children_init m children =
     (case children of None \<Rightarrow> m | Some p \<Rightarrow> set_children m p packed_init)"

definition nr_segment_children_deinit :: "seg_mem \<Rightarrow> sid ptr \<Rightarrow> seg_mem" where
  "nr_segment_children_deinit m children =
     (case children of None \<Rightarrow> m
      | Some p \<Rightarrow>
          (let m = (case seg_children (m p) of Packed _ _ \<Rightarrow> m
                    | Vec v \<Rightarrow> set_children m p (Vec (the (snd (snd (nr_vector_deinit (Some v)))))))
           in nr_segment_children_init m children))"

definition nr_segment_children_size :: "seg_mem \<Rightarrow> sid ptr \<Rightarrow> size_t" where
  "nr_segment_children_size m children =
     (case children of None \<Rightarrow> 0
      | Some p \<Rightarrow> (case seg_children (m p) of Packed cnt _ \<Rightarrow> cnt
                   | Vec v \<Rightarrow> nr_vector_size (Some v)))"

definition nr_segment_children_get :: "seg_mem \<Rightarrow> sid ptr \<Rightarrow> size_t \<Rightarrow> sid ptr" where
  "nr_segment_children_get m children i =
     (if i \<ge> nr_segment_children_size m children then NULL
      else case children of None \<Rightarrow> NULL
           | Some p \<Rightarrow> (case seg_children (m p) of Packed _ es \<Rightarrow> es ! unat i
                        | Vec v \<Rightarrow> elements v ! unat i))"

definition nr_segment_children_add_vector ::
  "seg_mem \<Rightarrow> sid \<Rightarrow> sid ptr \<Rightarrow> (bool \<times> seg_mem) option" where
  "nr_segment_children_add_vector m p child =
     (case seg_children (m p) of Packed _ _ \<Rightarrow> None
      | Vec v \<Rightarrow> do {
          (ok, v') \<leftarrow> nr_vector_push_back (Some v) child;
          w \<leftarrow> v';
          Some (ok, set_children m p (Vec w))
        })"

definition nr_segment_children_migrate_to_vector :: "seg_mem \<Rightarrow> sid \<Rightarrow> seg_mem" where
  "nr_segment_children_migrate_to_vector m p =
     (case seg_children (m p) of Vec _ \<Rightarrow> m
      | Packed cnt es \<Rightarrow>
          if cnt > 0 then
            (let v = nr_vector_init_impl (cnt * 2) False;
                 v = v\<lparr>used := cnt\<rparr>
             in set_children m p
                  (Vec (v\<lparr>elements := take (unat cnt) es @ drop (unat cnt) (elements v)\<rparr>)))
          else set_children m p (Vec (nr_vector_init_impl NR_SEGMENT_CHILDREN_PACKED_LIMIT False)))"

definition nr_segment_children_add ::
  "seg_mem \<Rightarrow> sid ptr \<Rightarrow> sid ptr \<Rightarrow> (bool \<times> seg_mem) option" where
  "nr_segment_children_add m children child =
     (if children = NULL \<or> child = NULL then Some (False, m)
      else let p = the children in
      case seg_children (m p) of
        Packed cnt es \<Rightarrow>
          let new_count = cnt + 1 in
          if new_count > NR_SEGMENT_CHILDREN_PACKED_LIMIT then do {
            let m = nr_segment_children_migrate_to_vector m p;
            let m = nr_segment_set_child_ix m child (nr_segment_children_size m children);
            (_, m) \<leftarrow> nr_segment_children_add_vector m p child;
            Some (True, m)
          }
          else do {
            let m = set_children m p (Packed new_count (es[unat cnt := child]));
            Some (True, nr_segment_set_child_ix m child (new_count - 1))
          }
      | Vec v \<Rightarrow> do {
          let m = nr_segment_set_child_ix m child (nr_vector_size (Some v));
          (_, m) \<leftarrow> nr_segment_children_add_vector m p child;
          Some (True, m)
        })"

definition nr_segment_children_remove ::
  "seg_mem \<Rightarrow> sid ptr \<Rightarrow> sid ptr \<Rightarrow> bool \<times> seg_mem" where
  "nr_segment_children_remove m children child =
     (if children = NULL \<or> child = NULL \<or> nr_segment_children_size m children = 0
      then (False, m)
      else let p = the children; ix = nr_segment_get_child_ix m child in
      case seg_children (m p) of
        Packed cnt es \<Rightarrow>
          let last_ix = cnt - 1 in
          if ix > last_ix then (False, m)
          else let temp = es ! unat last_ix;
                   m = nr_segment_set_child_ix m temp ix
               in (True, set_children m p (Packed (cnt - 1) (es[unat ix := temp])))
      | Vec v \<Rightarrow>
          if ix \<ge> nr_vector_size (Some v) then (False, m)
          else (case nr_vector_get_element (Some v) (nr_vector_size (Some v) - 1) (Some NULL) of
              (False, _) \<Rightarrow> (False, m)
            | (True, temp) \<Rightarrow>
                let m = nr_segment_set_child_ix m (the temp) ix in
                (case nr_vector_replace (Some v) ix (the temp) of
                   (False, _, _) \<Rightarrow> (False, m)
                 | (True, _, v') \<Rightarrow>
                     (case nr_vector_pop_back v' temp of
                        (ok, _, v'') \<Rightarrow> (ok, set_children m p (Vec (the v'')))))))"

text \<open>The two searches compare neighbours at the indices \<open>i - 1\<close> and \<open>i\<close>.\<close>

fun neighbour_loop ::
  "seg_mem \<Rightarrow> sid \<Rightarrow> sid \<Rightarrow> (nat \<Rightarrow> nat) \<Rightarrow> nat list \<Rightarrow> sid ptr" where
  "neighbour_loop m p child other [] = NULL"
| "neighbour_loop m p child other (i # is) =
     (if nr_segment_children_get m (Some p) (of_nat i) = Some child
      then nr_segment_children_get m (Some p) (of_nat (other i))
      else neighbour_loop m p child other is)"

definition nr_segment_children_get_prev :: "seg_mem \<Rightarrow> sid ptr \<Rightarrow> sid ptr \<Rightarrow> sid ptr" where
  "nr_segment_children_get_prev m children child =
     (if children = NULL \<or> child = NULL then NULL
      else let used = nr_segment_children_size m children in
      if used \<le> 1 then NULL
      else neighbour_loop m (the children) (the child) (\<lambda>i. i - 1) [1..<unat used])"

definition nr_segment_children_get_next :: "seg_mem \<Rightarrow> sid ptr \<Rightarrow> sid ptr \<Rightarrow> sid ptr" where
  "nr_segment_children_get_next m children child =
     (if children = NULL \<or> child = NULL then NULL
      else let used = nr_segment_children_size m children in
      if used \<le> 1 then NULL
      else neighbour_loop m (the children) (the child) Suc [0..<unat (used - 1)])"

fun reparent_loop :: "seg_mem \<Rightarrow> sid \<Rightarrow> sid \<Rightarrow> size_t \<Rightarrow> nat list \<Rightarrow> seg_mem option" where
  "reparent_loop m s new_parent parent_size [] = Some m"
| "reparent_loop m s new_parent parent_size (i # is) = do {
     child \<leftarrow> nr_segment_children_get m (Some s) (of_nat i);
     reparent_loop
       (m(child := (m child)\<lparr>seg_parent := Some new_parent, seg_child_ix := parent_size + of_nat i\<rparr>))
       s new_parent parent_size is
   }"

text \<open>\<open>nr_memcpy\<close> of \<open>n\<close> cells to offset \<open>off\<close>; writing past the end is an invalid
  access.\<close>

definition memcpy_at :: "'c list \<Rightarrow> nat \<Rightarrow> 'c list \<Rightarrow> nat \<Rightarrow> 'c list option" where
  "memcpy_at dst off src n =
     (if off + n \<le> length dst \<and> n \<le> length src
      then Some (take off dst @ take n src @ drop (off + n) dst) else None)"

definition children_cells :: "nr_segment_children \<Rightarrow> sid ptr list" where
  "children_cells ch = (case ch of Packed _ es \<Rightarrow> es | Vec v \<Rightarrow> elements v)"

text \<open>Appending the cells of one list of children to another, in either representation.\<close>

definition append_cells ::
  "nr_segment_children \<Rightarrow> size_t \<Rightarrow> sid ptr list \<Rightarrow> size_t \<Rightarrow> nr_segment_children option" where
  "append_cells ch parent_size source n =
     (case ch of
        Packed cnt es \<Rightarrow> do {
          es \<leftarrow> memcpy_at es (unat parent_size) source (unat n);
          Some (Packed (n + parent_size) es)
        }
      | Vec v \<Rightarrow> do {
          (_, v') \<leftarrow> nr_vector_ensure (Some v) (n + parent_size);
          v \<leftarrow> v';
          es \<leftarrow> memcpy_at (elements v) (unat parent_size) source (unat n);
          Some (Vec (v\<lparr>elements := es, used := n + parent_size\<rparr>))
        })"

definition nr_segment_children_reparent ::
  "seg_mem \<Rightarrow> sid ptr \<Rightarrow> sid ptr \<Rightarrow> (bool \<times> seg_mem) option" where
  "nr_segment_children_reparent m children new_parent =
     (if children = NULL \<or> new_parent = NULL then Some (False, m)
      else let s = the children; p = the new_parent; size = nr_segment_children_size m children in
      if size = 0 then Some (True, m)
      else let parent_size = nr_segment_children_size m new_parent;
               req_parent_size = size + parent_size in
      do {
        m \<leftarrow> reparent_loop m s p parent_size [0..<unat size];
        let m = (if req_parent_size > NR_SEGMENT_CHILDREN_PACKED_LIMIT
                 then nr_segment_children_migrate_to_vector m p else m);
        let source = children_cells (seg_children (m s));
        ch \<leftarrow> append_cells (seg_children (m p)) parent_size source size;
        let m = set_children m p ch;
        Some (True, nr_segment_children_deinit m children)
      })"

section \<open>The list of children\<close>

definition children_inv :: "nr_segment_children \<Rightarrow> bool" where
  "children_inv ch =
     (case ch of Packed cnt es \<Rightarrow> unat cnt \<le> 8 \<and> length es = 8 \<and> NULL \<notin> set (take (unat cnt) es)
      | Vec v \<Rightarrow> vector_inv v \<and> NULL \<notin> set (vec_list v) \<and> \<not> dtor v)"

definition child_list :: "nr_segment_children \<Rightarrow> sid list" where
  "child_list ch = (case ch of Packed cnt es \<Rightarrow> map the (take (unat cnt) es)
                    | Vec v \<Rightarrow> map the (vec_list v))"

abbreviation kids :: "seg_mem \<Rightarrow> sid \<Rightarrow> sid list" where
  "kids m s \<equiv> child_list (seg_children (m s))"

lemma map_Some_the: "NULL \<notin> set xs \<Longrightarrow> map Some (map the xs) = xs"
  by (induction xs) auto

lemma set_children_same: "seg_children (m p) = ch \<Longrightarrow> set_children m p ch = m"
  by (auto simp: set_children_def fun_upd_idem_iff)

text \<open>The first cells hold the children, whatever the representation.\<close>

lemma cells_child_list:
  "children_inv ch \<Longrightarrow>
     take (length (child_list ch)) (children_cells ch) = map Some (child_list ch)
     \<and> length (child_list ch) \<le> length (children_cells ch)"
  by (cases ch)
     (auto simp: children_inv_def child_list_def children_cells_def map_Some_the vec_list_def
       vector_inv_def min_absorb2 simp del: map_map)

lemma nr_segment_children_size_nat:
  "children_inv (seg_children (m p)) \<Longrightarrow>
     unat (nr_segment_children_size m (Some p)) = length (kids m p)"
  by (cases "seg_children (m p)")
     (auto simp: children_inv_def child_list_def nr_segment_children_size_def nr_vector_size_def
       length_vec_list min_absorb2)

lemma nr_segment_children_size_eq:
  "children_inv (seg_children (m p)) \<Longrightarrow>
     nr_segment_children_size m (Some p) = of_nat (length (kids m p))"
  by (simp flip: nr_segment_children_size_nat)

lemma nr_segment_children_get_eq:
  assumes "children_inv (seg_children (m p))"
  shows "nr_segment_children_get m (Some p) i =
    (if unat i < length (kids m p) then Some (kids m p ! unat i) else NULL)"
proof -
  let ?ch = "seg_children (m p)"
  have "unat i < length (kids m p) \<Longrightarrow> children_cells ?ch ! unat i = Some (kids m p ! unat i)"
    using cells_child_list [OF assms] by (metis length_map nth_map nth_take)
  moreover have "i \<ge> nr_segment_children_size m (Some p) \<longleftrightarrow> \<not> unat i < length (kids m p)"
    using nr_segment_children_size_nat [of m p] assms by (simp add: word_le_nat_alt not_less)
  ultimately show ?thesis
    by (auto simp: nr_segment_children_get_def children_cells_def split: nr_segment_children.splits)
qed

lemma child_list_Packed:
  assumes "children_inv (Packed cnt es)"
  shows "length (child_list (Packed cnt es)) = unat cnt" "unat cnt \<le> 8"
    "i < unat cnt \<Longrightarrow> es ! i = Some (child_list (Packed cnt es) ! i)"
  using assms by (auto simp: children_inv_def child_list_def min_absorb2 in_set_conv_nth)

text \<open>Moving the packed array into a vector keeps the children.\<close>

lemma migrate_spec:
  assumes "children_inv (seg_children (m p))"
  shows "\<exists>v. nr_segment_children_migrate_to_vector m p = set_children m p (Vec v)
    \<and> children_inv (Vec v) \<and> child_list (Vec v) = kids m p
    \<and> nr_vector_size (Some v) = of_nat (length (kids m p))"
proof (cases "seg_children (m p)")
  case (Vec v)
  with assms show ?thesis
    by (intro exI [of _ v])
       (simp add: nr_segment_children_migrate_to_vector_def set_children_same children_inv_def
         nr_vector_size_def child_list_def length_vec_list)
next
  case (Packed cnt es)
  with assms have c: "unat cnt \<le> 8" "length es = 8" "NULL \<notin> set (take (unat cnt) es)"
    by (simp_all add: children_inv_def)
  show ?thesis
  proof (cases "cnt = 0")
    case True
    then show ?thesis using Packed vector_inv_init [of 8 False]
      by (intro exI [of _ "nr_vector_init_impl 8 False"]) (auto simp: nr_segment_children_migrate_to_vector_def NR_SEGMENT_CHILDREN_PACKED_LIMIT_def
          children_inv_def child_list_def nr_vector_size_def nr_vector_init_impl_def Let_def)
  next
    case False
    have d: "unat (cnt * 2) = 2 * unat cnt" using c(1) by (intro unat_double) simp
    then have nz: "cnt * 2 \<noteq> 0" using False by (metis mult_eq_0_iff unat_0 unat_eq_zero zero_neq_numeral)
    let ?v = "\<lparr>capacity = cnt * 2, used = cnt,
       elements = take (unat cnt) es @ drop (unat cnt) (replicate (2 * unat cnt) NULL), dtor = False\<rparr>"
    have "nr_segment_children_migrate_to_vector m p = set_children m p (Vec ?v)"
      using Packed False nz d
      by (simp add: nr_segment_children_migrate_to_vector_def nr_vector_init_impl_def Let_def
          word_gt_0)
    moreover have "children_inv (Vec ?v)" "child_list (Vec ?v) = kids m p"
      using c d Packed
      by (auto simp: children_inv_def child_list_def vector_inv_def vec_list_def)
    moreover have "nr_vector_size (Some ?v) = of_nat (length (kids m p))"
      using Packed c by (simp add: nr_vector_size_def child_list_def min_absorb2)
    ultimately show ?thesis by blast
  qed
qed

section \<open>Specifications of the operations\<close>

lemmas mem_ops = set_children_def nr_segment_set_child_ix_def nr_segment_get_child_ix_def

lemma set_children_set_ix:
  "nr_segment_set_child_ix (set_children m p ch) c ix = set_children (nr_segment_set_child_ix m c ix) p ch"
  by (auto simp: mem_ops split: option.split)

lemma set_children_twice [simp]: "set_children (set_children m p ch) p ch' = set_children m p ch'"
  by (simp add: set_children_def)

lemma seg_children_set_ix [simp]: "seg_children (nr_segment_set_child_ix m c ix s) = seg_children (m s)"
  by (auto simp: mem_ops split: option.split)

lemma seg_children_set_children [simp]:
  "seg_children (set_children m p ch s) = (if s = p then ch else seg_children (m s))"
  by (simp add: set_children_def)

lemma add_vector_spec:
  assumes "seg_children (m p) = Vec v" and "children_inv (Vec v)"
    and "length (child_list (Vec v)) < 2 ^ 60"
  shows "\<exists>w. nr_segment_children_add_vector m p (Some c) = Some (True, set_children m p (Vec w))
    \<and> children_inv (Vec w) \<and> child_list (Vec w) = child_list (Vec v) @ [c]"
proof -
  have v: "vector_inv v" "NULL \<notin> set (vec_list v)" "\<not> dtor v"
    using assms(2) by (simp_all add: children_inv_def)
  from nr_vector_push_back_spec [OF v(1), of "Some c"] assms(3) obtain w where
    "nr_vector_push_back (Some v) (Some c) = Some (True, Some w)" "vector_inv w"
    "dtor w = dtor v" "vec_list w = vec_list v @ [Some c]"
    by (fastforce simp: child_list_def length_vec_list [OF v(1)])
  then show ?thesis using v assms(1)
    by (auto simp: nr_segment_children_add_vector_def children_inv_def child_list_def)
qed

lemma nr_segment_children_add_spec:
  assumes inv: "children_inv (seg_children (m p))" and len: "length (kids m p) < 2 ^ 60"
  shows "\<exists>ch. nr_segment_children_add m (Some p) (Some c) =
      Some (True, set_children (nr_segment_set_child_ix m (Some c) (of_nat (length (kids m p)))) p ch)
    \<and> children_inv ch \<and> child_list ch = kids m p @ [c]"
proof (cases "seg_children (m p)")
  case (Vec v)
  let ?m = "nr_segment_set_child_ix m (Some c) (nr_vector_size (Some v))"
  have "nr_vector_size (Some v) = of_nat (length (kids m p))"
    using nr_segment_children_size_eq [of m p] inv Vec by (simp add: nr_segment_children_size_def)
  moreover from add_vector_spec [of ?m p v c] inv len Vec obtain w where
    "nr_segment_children_add_vector ?m p (Some c) = Some (True, set_children ?m p (Vec w))"
    "children_inv (Vec w)" "child_list (Vec w) = child_list (Vec v) @ [c]" by auto
  ultimately show ?thesis using Vec by (auto simp: nr_segment_children_add_def)
next
  case (Packed cnt es)
  note pk = child_list_Packed [of cnt es] and inv' = inv [unfolded Packed]
  have u1: "unat (cnt + 1) = Suc (unat cnt)"
    using pk(2) [OF inv'] by (intro unat_plus1_eq) simp
  show ?thesis
  proof (cases "cnt + 1 > NR_SEGMENT_CHILDREN_PACKED_LIMIT")
    case True
    from migrate_spec [of m p] inv obtain v where v:
      "nr_segment_children_migrate_to_vector m p = set_children m p (Vec v)" "children_inv (Vec v)"
      "child_list (Vec v) = kids m p" "nr_vector_size (Some v) = of_nat (length (kids m p))" by blast
    let ?ix = "of_nat (length (kids m p))"
    let ?m = "nr_segment_set_child_ix (set_children m p (Vec v)) (Some c) ?ix"
    from add_vector_spec [of ?m p v c] v len obtain w where
      "nr_segment_children_add_vector ?m p (Some c) = Some (True, set_children ?m p (Vec w))"
      "children_inv (Vec w)" "child_list (Vec w) = kids m p @ [c]" by auto
    then show ?thesis using True Packed v
      by (auto simp: nr_segment_children_add_def nr_segment_children_size_def set_children_set_ix)
  next
    case False
    then have lt: "unat cnt < 8"
      using u1 by (simp add: NR_SEGMENT_CHILDREN_PACKED_LIMIT_def word_less_nat_alt)
    have "cnt + 1 - 1 = (of_nat (length (kids m p)) :: size_t)"
      using pk(1) [OF inv'] Packed by simp
    moreover have "children_inv (Packed (cnt + 1) (es[unat cnt := Some c]))"
      "child_list (Packed (cnt + 1) (es[unat cnt := Some c])) = kids m p @ [c]"
      using inv' lt u1 Packed by (simp_all add: children_inv_def child_list_def)
    ultimately show ?thesis using False Packed
      by (auto simp: nr_segment_children_add_def set_children_set_ix Let_def)
  qed
qed

lemma nr_segment_children_remove_refuses:
  assumes "children_inv (seg_children (m p))"
    and "length (kids m p) \<le> unat (seg_child_ix (m c))"
  shows "nr_segment_children_remove m (Some p) (Some c) = (False, m)"
proof (cases "nr_segment_children_size m (Some p) = 0")
  case True
  then show ?thesis by (simp add: nr_segment_children_remove_def)
next
  case False
  let ?n = "nr_segment_children_size m (Some p)"
  have n: "unat ?n \<le> unat (seg_child_ix (m c))"
    using nr_segment_children_size_nat [of m p] assms by simp
  moreover have "unat (?n - 1) = unat ?n - 1"
    using False by (intro unat_minus1) (simp add: word_gt_0)
  moreover have "0 < unat ?n" using False by (simp add: unat_gt_0)
  ultimately have "?n - 1 < seg_child_ix (m c)" "?n \<le> seg_child_ix (m c)"
    by (simp_all add: word_less_nat_alt word_le_nat_alt)
  then show ?thesis using False
    by (auto simp: nr_segment_children_remove_def nr_segment_get_child_ix_def
        nr_segment_children_size_def Let_def split: nr_segment_children.splits)
qed

lemma swap_pop_update:
  "i < length xs \<Longrightarrow> butlast (xs[i := last xs]) = take (length xs - 1) (xs[i := last xs])"
  by (simp add: butlast_conv_take)

lemma nr_segment_children_remove_spec:
  assumes inv: "children_inv (seg_children (m p))"
    and ix: "unat (seg_child_ix (m c)) < length (kids m p)"
  shows "\<exists>ch. nr_segment_children_remove m (Some p) (Some c) =
      (True, set_children (nr_segment_set_child_ix m (Some (last (kids m p))) (seg_child_ix (m c))) p ch)
    \<and> children_inv ch
    \<and> child_list ch = butlast ((kids m p)[unat (seg_child_ix (m c)) := last (kids m p)])"
proof (cases "seg_children (m p)")
  case (Packed cnt es)
  let ?ix = "seg_child_ix (m c)" and ?xs = "child_list (Packed cnt es)"
  note inv' = inv [unfolded Packed] and ix' = ix [unfolded Packed]
  note pk = child_list_Packed [OF inv']
  have ne: "cnt \<noteq> 0" using ix' pk(1) by auto
  then have u1: "unat (cnt - 1) = unat cnt - 1" by (intro unat_minus1) (simp add: word_gt_0)
  have c0: "0 < unat cnt" using ne by (simp add: unat_gt_0)
  have le: "\<not> ?ix > cnt - 1" using ix' pk(1) u1 by (simp add: word_less_nat_alt)
  have "?xs \<noteq> []" using c0 pk(1) by auto
  then have lst: "es ! unat (cnt - 1) = Some (last ?xs)"
    using pk(1) pk(3) [of "unat cnt - 1"] u1 c0 by (simp add: last_conv_nth)
  let ?ch = "Packed (cnt - 1) (es[unat ?ix := Some (last ?xs)])"
  have es: "take (unat cnt) es = map Some ?xs"
    using cells_child_list [OF inv'] pk(1) by (simp add: children_cells_def)
  have tk: "take (unat cnt - 1) (es[unat ?ix := Some (last ?xs)])
      = map Some (butlast (?xs[unat ?ix := last ?xs]))"
  proof -
    have "take (unat cnt - 1) (es[unat ?ix := Some (last ?xs)])
       = take (unat cnt - 1) ((take (unat cnt) es)[unat ?ix := Some (last ?xs)])"
      by (simp add: take_update_swap min_absorb1)
    also have "\<dots> = take (unat cnt - 1) (map Some (?xs[unat ?ix := last ?xs]))"
      by (simp add: es map_update)
    finally show ?thesis using pk(1) by (simp add: take_map butlast_conv_take)
  qed
  then have "children_inv ?ch" "child_list ?ch = butlast (?xs[unat ?ix := last ?xs])"
    using inv' u1 by (auto simp: children_inv_def child_list_def)
  moreover have "nr_segment_children_remove m (Some p) (Some c) =
      (True, set_children (nr_segment_set_child_ix m (Some (last ?xs)) ?ix) p ?ch)"
    using Packed ne le lst
    by (simp add: nr_segment_children_remove_def nr_segment_children_size_def Let_def
        nr_segment_get_child_ix_def)
  ultimately show ?thesis using Packed by auto
next
  case (Vec v)
  let ?ix = "seg_child_ix (m c)" and ?xs = "child_list (Vec v)"
  have v: "vector_inv v" "NULL \<notin> set (vec_list v)" "\<not> dtor v"
    using inv Vec by (simp_all add: children_inv_def)
  have xs: "vec_list v = map Some ?xs" using v by (simp add: child_list_def map_Some_the del: map_map)
  have len: "length ?xs = unat (used v)" using length_vec_list [OF v(1)] by (simp add: child_list_def)
  have lt: "?ix < used v" using ix Vec len by (simp add: word_less_nat_alt)
  have ne: "used v \<noteq> 0" using lt by auto
  have u1: "unat (used v - 1) = unat (used v) - 1"
    using ne by (intro unat_minus1) (simp add: word_gt_0)
  have ne': "vec_list v \<noteq> []" using len ne xs by (auto simp: unat_eq_0)
  have get: "nr_vector_get_element (Some v) (used v - 1) (Some NULL) = (True, Some (Some (last ?xs)))"
  proof -
    have "vec_list v ! (unat (used v) - 1) = elements v ! (unat (used v) - 1)"
      using ne by (simp add: vec_list_def unat_gt_0)
    then show ?thesis using xs u1 len ne'
      by (simp add: nr_vector_get_element_def word_le_nat_alt last_conv_nth not_le unat_gt_0 ne)
  qed
  from nr_vector_replace_spec [OF v(1) lt, of "Some (last ?xs)"] v(3) obtain w where w:
    "nr_vector_replace (Some v) ?ix (Some (last ?xs)) = (True, [], Some w)" "vector_inv w"
    "vec_list w = (vec_list v)[unat ?ix := Some (last ?xs)]" "dtor w = dtor v" by auto
  from nr_vector_pop_back_spec [OF w(2), of "Some (last ?xs)"] w(3) ne' obtain w' where w':
    "nr_vector_pop_back (Some w) (Some (Some (last ?xs))) =
       (True, Some (last (vec_list w)), Some w')" "vector_inv w'"
    "vec_list w' = butlast (vec_list w)" "dtor w' = dtor w" by auto
  have "vec_list w' = map Some (butlast (?xs[unat ?ix := last ?xs]))"
    using w' w xs by (simp add: map_update map_butlast)
  then have "children_inv (Vec w')" "child_list (Vec w') = butlast (?xs[unat ?ix := last ?xs])"
    using w w' v by (auto simp: children_inv_def child_list_def)
  moreover have "nr_segment_children_remove m (Some p) (Some c) =
      (True, set_children (nr_segment_set_child_ix m (Some (last ?xs)) ?ix) p (Vec w'))"
    using Vec ne lt get w(1) w'(1)
    by (simp add: nr_segment_children_remove_def nr_segment_children_size_def Let_def
        nr_segment_get_child_ix_def nr_vector_size_def not_le)
  ultimately show ?thesis using Vec by auto
qed

text \<open>What reparenting writes into the children themselves.\<close>

primrec adopt :: "sid \<Rightarrow> size_t \<Rightarrow> sid list \<Rightarrow> seg_mem \<Rightarrow> seg_mem" where
  "adopt p k [] m = m"
| "adopt p k (c # cs) m =
     adopt p (k + 1) cs (m(c := (m c)\<lparr>seg_parent := Some p, seg_child_ix := k\<rparr>))"

lemma adopt_other: "z \<notin> set cs \<Longrightarrow> adopt p k cs m z = m z"
  by (induction cs arbitrary: k m) auto

lemma adopt_parent: "seg_parent (adopt p k cs m z) = (if z \<in> set cs then Some p else seg_parent (m z))"
  by (induction cs arbitrary: k m) auto

lemma adopt_keeps:
  "seg_children (adopt p k cs m z) = seg_children (m z)"
  "seg_txn (adopt p k cs m z) = seg_txn (m z)"
  by (induction cs arbitrary: k m) auto

lemma adopt_child_ix:
  "distinct cs \<Longrightarrow> i < length cs \<Longrightarrow> seg_child_ix (adopt p k cs m (cs ! i)) = k + of_nat i"
proof (induction cs arbitrary: k m i)
  case (Cons c cs)
  then show ?case by (cases i) (auto simp: adopt_other algebra_simps)
qed simp

lemma reparent_loop_eq:
  assumes "children_inv (seg_children (m s))" and "i \<le> length (kids m s)"
    and "length (kids m s) \<le> 2 ^ 60"
  shows "reparent_loop m s p k [i..<length (kids m s)]
    = Some (adopt p (k + of_nat i) (drop i (kids m s)) m)"
  using assms
proof (induction "length (kids m s) - i" arbitrary: i m)
  case 0
  then show ?case by simp
next
  case (Suc n)
  let ?xs = "kids m s"
  have i: "i < length ?xs" using Suc.hyps(2) by simp
  let ?m = "m(?xs ! i := (m (?xs ! i))\<lparr>seg_parent := Some p, seg_child_ix := k + of_nat i\<rparr>)"
  have ch: "seg_children (?m s) = seg_children (m s)" by simp
  have u: "unat (word_of_nat i :: size_t) = i"
    using i Suc.prems(3) by (simp add: unat_of_nat)
  have get: "nr_segment_children_get m (Some s) (of_nat i) = Some (?xs ! i)"
    using nr_segment_children_get_eq [of m s "of_nat i"] Suc.prems(1) u i by simp
  have "reparent_loop ?m s p k [Suc i..<length (kids ?m s)]
     = Some (adopt p (k + of_nat (Suc i)) (drop (Suc i) (kids ?m s)) ?m)"
    by (rule Suc.hyps(1)) (use Suc.hyps(2) Suc.prems i in \<open>auto simp: ch\<close>)
  note IH = this [unfolded ch]
  then show ?case
    using get i by (simp add: upt_conv_Cons Cons_nth_drop_Suc [symmetric] algebra_simps)
qed

lemma nr_segment_children_deinit_eq:
  "nr_segment_children_deinit m (Some s) = set_children m s packed_init"
  by (simp add: nr_segment_children_deinit_def nr_segment_children_init_def
      split: nr_segment_children.split)

lemma packed_init_inv: "children_inv packed_init" "child_list packed_init = []"
  by (simp_all add: children_inv_def packed_init_def child_list_def)

lemma memcpy_at_cells:
  assumes "children_inv ch" and "children_inv src" and "take n dst = map Some (child_list ch)"
    and "n = length (child_list ch)" and "length (child_list ch @ child_list src) \<le> length dst"
  shows "\<exists>es. memcpy_at dst n (children_cells src) (length (child_list src)) = Some es
    \<and> length es = length dst
    \<and> take (length (child_list ch @ child_list src)) es = map Some (child_list ch @ child_list src)"
  using assms cells_child_list [OF assms(2)] by (auto simp: memcpy_at_def)

lemma migrate_if_spec:
  assumes "children_inv (seg_children (m p))"
  shows "\<exists>ch. (if b then nr_segment_children_migrate_to_vector m p else m) = set_children m p ch
    \<and> children_inv ch \<and> child_list ch = kids m p \<and> (b \<longrightarrow> (\<exists>v. ch = Vec v))"
proof (cases b)
  case True
  from migrate_spec [of m p] assms obtain v where
    "nr_segment_children_migrate_to_vector m p = set_children m p (Vec v)" "children_inv (Vec v)"
    "child_list (Vec v) = kids m p" by blast
  with True show ?thesis by auto
next
  case False
  with assms show ?thesis
    by (intro exI [of _ "seg_children (m p)"]) (simp add: set_children_same)
qed

lemma append_cells_spec:
  assumes ch: "children_inv ch" and src: "children_inv src"
    and len: "length (child_list ch @ child_list src) \<le> 2 ^ 60"
    and size: "unat n = length (child_list src)" "n \<noteq> 0"
    and psize: "unat parent_size = length (child_list ch)"
    and fits: "n + parent_size > 8 \<Longrightarrow> \<exists>v. ch = Vec v"
  shows "\<exists>ch'. append_cells ch parent_size (children_cells src) n = Some ch' \<and> children_inv ch'
    \<and> child_list ch' = child_list ch @ child_list src"
proof -
  let ?xs = "child_list ch @ child_list src"
  have u: "unat (n + parent_size) = length ?xs"
    using len size psize by (simp add: unat_word_ariths)
  show ?thesis
  proof (cases ch)
    case (Packed cnt es)
    then have "length ?xs \<le> 8" using fits u not_less [of 8 "length ?xs"] by (auto simp: word_less_nat_alt)
    moreover have "length es = 8" "take (unat parent_size) es = map Some (child_list ch)"
      using ch Packed cells_child_list [OF ch] psize by (auto simp: children_inv_def children_cells_def)
    ultimately obtain es' where "memcpy_at es (unat parent_size) (children_cells src) (unat n) = Some es'"
      "length es' = 8" "take (length ?xs) es' = map Some ?xs"
      using memcpy_at_cells [OF ch src, of "unat parent_size" es] psize size by auto
    then show ?thesis using Packed u \<open>length ?xs \<le> 8\<close>
      by (auto simp: append_cells_def children_inv_def child_list_def [of "Packed _ _"])
  next
    case (Vec v)
    have v: "vector_inv v" "\<not> dtor v" using ch Vec by (simp_all add: children_inv_def)
    have nz: "n + parent_size \<noteq> 0" using u size by (auto simp: unat_eq_0 [symmetric])
    have cap: "unat (n + parent_size) \<le> 2 ^ 60" using u len by simp
    then have "unat (n + parent_size) \<le> 2 ^ 63" by simp
    from nr_vector_ensure_impl_spec [OF v(1) this] cap nz obtain w where w:
      "nr_vector_ensure (Some v) (n + parent_size) = Some (True, Some w)" "vector_inv w"
      "vec_list w = vec_list v" "used w = used v" "dtor w = dtor v"
      "unat (n + parent_size) \<le> unat (capacity w)"
      by (fastforce simp: nr_vector_ensure_def)
    have "take (unat parent_size) (elements w) = map Some (child_list ch)"
      using w(3,4) Vec psize cells_child_list [OF ch] length_vec_list [OF v(1)] ch
      by (simp add: vec_list_def child_list_def map_Some_the children_inv_def del: map_map)
    then obtain es' where
      "memcpy_at (elements w) (unat parent_size) (children_cells src) (unat n) = Some es'"
      "length es' = length (elements w)" "take (length ?xs) es' = map Some ?xs"
      using memcpy_at_cells [OF ch src, of "unat parent_size" "elements w"] psize size u w(2,6)
      by (auto simp: vector_inv_def)
    then show ?thesis using Vec w v u
      by (auto simp: append_cells_def children_inv_def child_list_def [of "Vec _"] vector_inv_def
          vec_list_def)
  qed
qed

lemma nr_segment_children_reparent_spec:
  assumes s: "children_inv (seg_children (m s))" and p: "children_inv (seg_children (m p))"
    and sp: "s \<noteq> p" and len: "length (kids m p @ kids m s) \<le> 2 ^ 60" and ne: "kids m s \<noteq> []"
  shows "\<exists>ch. nr_segment_children_reparent m (Some s) (Some p) =
      Some (True, set_children (set_children
        (adopt p (of_nat (length (kids m p))) (kids m s) m) p ch) s packed_init)
    \<and> children_inv ch \<and> child_list ch = kids m p @ kids m s"
proof -
  let ?size = "nr_segment_children_size m (Some s)"
  let ?psize = "nr_segment_children_size m (Some p)"
  let ?b = "?size + ?psize > NR_SEGMENT_CHILDREN_PACKED_LIMIT"
  let ?a = "adopt p ?psize (kids m s) m"
  have size: "unat ?size = length (kids m s)" "unat ?psize = length (kids m p)"
    using nr_segment_children_size_nat [of m] s p by simp_all
  then have nz: "?size \<noteq> 0" using ne by auto
  from migrate_if_spec [of ?a p ?b] p obtain ch where ch:
    "(if ?b then nr_segment_children_migrate_to_vector ?a p else ?a) = set_children ?a p ch"
    "children_inv ch" "child_list ch = kids m p" "?b \<Longrightarrow> \<exists>v. ch = Vec v"
    by (auto simp: adopt_keeps)
  from append_cells_spec [OF ch(2) s, of ?size ?psize] ch(3,4) len size nz obtain ch' where ch':
    "append_cells ch ?psize (children_cells (seg_children (m s))) ?size = Some ch'" "children_inv ch'"
    "child_list ch' = kids m p @ kids m s"
    by (auto simp: NR_SEGMENT_CHILDREN_PACKED_LIMIT_def)
  have "reparent_loop m s p ?psize [0..<unat ?size] = Some ?a"
    using reparent_loop_eq [of m s 0 p ?psize] s len size by simp
  then have "nr_segment_children_reparent m (Some s) (Some p) =
      Some (True, set_children (set_children ?a p ch') s packed_init)"
    using ch(1) ch'(1) sp nz
    by (auto simp: nr_segment_children_reparent_def Let_def nr_segment_children_deinit_eq
        adopt_keeps)
  then show ?thesis using ch'(2,3) nr_segment_children_size_eq [of m p] p by auto
qed

lemma nr_segment_children_reparent_none:
  assumes "children_inv (seg_children (m s))" and "kids m s = []"
  shows "nr_segment_children_reparent m (Some s) (Some p) = Some (True, m)"
  using nr_segment_children_size_eq [of m s] assms by (simp add: nr_segment_children_reparent_def)

end
