(* ===== verification/SegmentForest.thy ===== *)
theory SegmentForest
  imports SegmentChildren
begin

text \<open>
  The tree of segments: \<open>nr_segment_set_parent\<close> of \<^verbatim>\<open>axiom/nr_segment.c\<close> and the
  structural invariant of the tree that every operation on segments keeps. Abstractly a
  transaction's segments are a parent map without cycles; the children arrays, the child
  indices and the parent pointers implement it.
\<close>

section \<open>Setting the parent\<close>

text \<open>The loop over the ancestors; it would not end on a cycle of parent pointers.\<close>

partial_function (option) ancestor_loop :: "seg_mem \<Rightarrow> sid ptr \<Rightarrow> sid \<Rightarrow> bool option" where
  "ancestor_loop m ancestor segment =
     (case ancestor of None \<Rightarrow> Some False
      | Some a \<Rightarrow> if a = segment then Some True
                  else ancestor_loop m (seg_parent (m a)) segment)"

text \<open>\<open>&parent->children\<close> of a NULL parent passes the NULL check of
  \<open>nr_segment_children_add\<close> and is dereferenced there.\<close>

definition nr_segment_set_parent ::
  "seg_mem \<Rightarrow> sid ptr \<Rightarrow> sid ptr \<Rightarrow> (bool \<times> seg_mem) option" where
  "nr_segment_set_parent m segment parent =
     (case segment of None \<Rightarrow> Some (False, m)
      | Some s \<Rightarrow>
          if parent \<noteq> NULL \<and> seg_txn (m s) \<noteq> seg_txn (m (the parent)) then Some (False, m)
          else if seg_parent (m s) = parent then Some (True, m)
          else do {
            cycle \<leftarrow> ancestor_loop m parent s;
            if cycle then Some (False, m)
            else do {
              let m = (case seg_parent (m s) of None \<Rightarrow> m
                       | Some q \<Rightarrow> snd (nr_segment_children_remove m (Some q) (Some s)));
              p \<leftarrow> parent;
              (_, m) \<leftarrow> nr_segment_children_add m (Some p) (Some s);
              Some (True, m(s := (m s)\<lparr>seg_parent := Some p\<rparr>))
            }
          })"

definition nr_segment_add_child ::
  "seg_mem \<Rightarrow> sid ptr \<Rightarrow> sid ptr \<Rightarrow> (bool \<times> seg_mem) option" where
  "nr_segment_add_child m parent child =
     (if parent = NULL \<or> child = NULL then Some (False, m)
      else do { (_, m) \<leftarrow> nr_segment_set_parent m child parent; Some (True, m) })"

section \<open>Parent maps\<close>

type_synonym parents = "sid \<Rightarrow> sid ptr"

abbreviation parents_of :: "seg_mem \<Rightarrow> parents" where
  "parents_of m \<equiv> \<lambda>s. seg_parent (m s)"

text \<open>The chain of parents of \<open>s\<close> ends.\<close>

inductive rooted :: "parents \<Rightarrow> sid \<Rightarrow> bool" for par where
  root: "par s = NULL \<Longrightarrow> rooted par s"
| step: "par s = Some p \<Longrightarrow> rooted par p \<Longrightarrow> rooted par s"

inductive_cases rooted_stepE: "rooted par s"

text \<open>\<open>a\<close> is \<open>s\<close> or one of its ancestors.\<close>

abbreviation ancestor_of :: "parents \<Rightarrow> sid \<Rightarrow> sid \<Rightarrow> bool" where
  "ancestor_of par a s \<equiv> (\<lambda>x y. par x = Some y)\<^sup>*\<^sup>* s a"

lemma ancestor_of_step: "par s = Some p \<Longrightarrow> ancestor_of par a s \<longleftrightarrow> a = s \<or> ancestor_of par a p"
  by (auto intro: converse_rtranclp_into_rtranclp elim: converse_rtranclpE)

lemma ancestor_of_root: "par s = NULL \<Longrightarrow> ancestor_of par a s \<longleftrightarrow> a = s"
  by (auto elim: converse_rtranclpE)

lemma rooted_parent: "rooted par s \<Longrightarrow> par s = Some p \<Longrightarrow> rooted par p"
  by (auto elim: rooted_stepE)

lemma rooted_not_own_parent: "rooted par s \<Longrightarrow> par s \<noteq> Some s"
  by (induction rule: rooted.induct) auto

lemma ancestor_loop_eq:
  "rooted (parents_of m) a \<Longrightarrow>
     ancestor_loop m (Some a) s = Some (ancestor_of (parents_of m) s a)"
proof (induction rule: rooted.induct)
  case (root a)
  then show ?case
    by (subst ancestor_loop.simps) (auto simp: ancestor_of_root ancestor_loop.simps [of m NULL])
next
  case (step a p)
  then show ?case by (subst ancestor_loop.simps) (auto simp: ancestor_of_step)
qed

lemma rooted_set_parent_above:
  "rooted par p \<Longrightarrow> \<not> ancestor_of par s p \<Longrightarrow> rooted (par(s := q)) p"
proof (induction rule: rooted.induct)
  case (root p)
  then show ?case by (intro rooted.root) (auto simp: ancestor_of_root)
next
  case (step p p')
  then show ?case by (intro rooted.step [of _ p p']) (auto simp: ancestor_of_step)
qed

lemma rooted_set_parent:
  assumes "rooted par p" and "\<not> ancestor_of par s p" and "rooted par t"
  shows "rooted (par(s := Some p)) t"
proof -
  let ?par = "par(s := Some p)"
  have "rooted ?par p" by (rule rooted_set_parent_above [OF assms(1,2)])
  then have s: "rooted ?par s" by (rule rooted.step [rotated]) simp
  from assms(3) show ?thesis
  proof (induction rule: rooted.induct)
    case (root t)
    then show ?case using s by (cases "t = s") (auto simp: fun_upd_def intro: rooted.root)
  next
    case (step t u)
    then show ?case using s by (cases "t = s") (auto simp: fun_upd_def intro: rooted.step)
  qed
qed

text \<open>Removing a segment from every chain keeps the chains finite.\<close>

lemma rooted_bypass:
  assumes "rooted par t" and "par s \<noteq> Some s"
  shows "rooted (\<lambda>u. if par u = Some s then par s else par u) t"
  using assms
proof (induction rule: rooted.induct)
  case (root t)
  then show ?case by (intro rooted.root) simp
next
  case (step t u)
  show ?case
  proof (cases "u = s")
    case False
    with step show ?thesis by (intro rooted.step [of _ t u]) auto
  next
    case True
    show ?thesis
    proof (cases "par s")
      case None
      with True step show ?thesis by (intro rooted.root) simp
    next
      case (Some p)
      then have "rooted (\<lambda>u. if par u = Some s then par s else par u) p"
        using step True by (auto intro: rooted_parent)
      with Some True step show ?thesis by (intro rooted.step [of _ t p]) simp_all
    qed
  qed
qed

section \<open>The links of the tree\<close>

text \<open>
  \<open>L\<close> are the live segments; those of \<open>D\<close> are in no list of children at the moment.
\<close>

definition links :: "sid set \<Rightarrow> sid set \<Rightarrow> seg_mem \<Rightarrow> bool" where
  "links L D m \<longleftrightarrow> finite L \<and> card L < 2 ^ 60 \<and>
     (\<forall>s \<in> L. children_inv (seg_children (m s)) \<and>
        (\<forall>i < length (kids m s). kids m s ! i \<in> L - D
           \<and> seg_parent (m (kids m s ! i)) = Some s \<and> unat (seg_child_ix (m (kids m s ! i))) = i)) \<and>
     (\<forall>s \<in> L - D. \<forall>p. seg_parent (m s) = Some p \<longrightarrow>
        p \<in> L \<and> unat (seg_child_ix (m s)) < length (kids m p)
        \<and> kids m p ! unat (seg_child_ix (m s)) = s)"

definition forest :: "sid set \<Rightarrow> seg_mem \<Rightarrow> bool" where
  "forest L m \<longleftrightarrow> links L {} m \<and> (\<forall>s \<in> L. rooted (parents_of m) s)"

lemma linksI:
  assumes "finite L" and "card L < 2 ^ 60"
    and "\<And>s. s \<in> L \<Longrightarrow> children_inv (seg_children (m s))"
    and "\<And>s i. s \<in> L \<Longrightarrow> i < length (kids m s) \<Longrightarrow> kids m s ! i \<in> L - D
      \<and> seg_parent (m (kids m s ! i)) = Some s \<and> unat (seg_child_ix (m (kids m s ! i))) = i"
    and "\<And>s p. s \<in> L \<Longrightarrow> s \<notin> D \<Longrightarrow> seg_parent (m s) = Some p \<Longrightarrow>
      p \<in> L \<and> unat (seg_child_ix (m s)) < length (kids m p)
      \<and> kids m p ! unat (seg_child_ix (m s)) = s"
  shows "links L D m"
  unfolding links_def using assms by blast

lemma links_finite: "links L D m \<Longrightarrow> finite L" "links L D m \<Longrightarrow> card L < 2 ^ 60"
  by (simp_all add: links_def)

lemma links_kid:
  assumes "links L D m" and "s \<in> L" and "i < length (kids m s)"
  shows "kids m s ! i \<in> L - D" "seg_parent (m (kids m s ! i)) = Some s"
    "unat (seg_child_ix (m (kids m s ! i))) = i"
  using assms by (auto simp: links_def)

lemma links_parent:
  assumes "links L D m" and "s \<in> L - D" and "seg_parent (m s) = Some p"
  shows "p \<in> L" "unat (seg_child_ix (m s)) < length (kids m p)"
    "kids m p ! unat (seg_child_ix (m s)) = s"
  using assms by (auto simp: links_def)

lemma links_children_inv: "links L D m \<Longrightarrow> s \<in> L \<Longrightarrow> children_inv (seg_children (m s))"
  by (simp add: links_def)

lemma links_distinct:
  assumes "links L D m" and "s \<in> L"
  shows "distinct (kids m s)"
proof -
  have "i = j" if "i < length (kids m s)" "j < length (kids m s)" "kids m s ! i = kids m s ! j" for i j
    using links_kid(3) [OF assms that(1)] links_kid(3) [OF assms that(2)] that(3) by metis
  then show ?thesis unfolding distinct_conv_nth by blast
qed

text \<open>The lists of children hold exactly the inverse of the parent map.\<close>

lemma links_set_kids:
  assumes "links L D m" and "p \<in> L"
  shows "set (kids m p) = {s \<in> L - D. seg_parent (m s) = Some p}"
proof (intro equalityI subsetI)
  fix s
  assume "s \<in> set (kids m p)"
  then obtain i where "i < length (kids m p)" "kids m p ! i = s" by (auto simp: in_set_conv_nth)
  with links_kid [OF assms] show "s \<in> {s \<in> L - D. seg_parent (m s) = Some p}" by auto
next
  fix s
  assume "s \<in> {s \<in> L - D. seg_parent (m s) = Some p}"
  with links_parent [OF assms(1), of s p] show "s \<in> set (kids m p)"
    by (metis (mono_tags, lifting) mem_Collect_eq nth_mem)
qed

lemma links_length:
  assumes "links L D m" and "p \<in> L"
  shows "length (kids m p) < 2 ^ 60"
proof -
  have "length (kids m p) = card (set (kids m p))"
    using links_distinct [OF assms] by (simp add: distinct_card)
  also have "\<dots> \<le> card L"
    using assms links_set_kids [OF assms] by (intro card_mono) (auto simp: links_def)
  finally show ?thesis using assms by (simp add: links_def)
qed

section \<open>Unlinking and linking\<close>

lemma swap_pop_nth:
  assumes "i < length xs"
  shows "length (butlast (xs[i := last xs])) = length xs - 1"
    "j < length xs - 1 \<Longrightarrow> butlast (xs[i := last xs]) ! j = (if j = i then last xs else xs ! j)"
  using assms by (auto simp: nth_butlast)

text \<open>Taking a segment out of the children of its parent moves the last child into its
  place and touches nothing else.\<close>

lemma links_unlink:
  assumes L: "links L {} m" and s: "s \<in> L" and q: "seg_parent (m s) = Some q"
  shows "\<exists>m'. nr_segment_children_remove m (Some q) (Some s) = (True, m') \<and> links L {s} m'
    \<and> parents_of m' = parents_of m
    \<and> (\<forall>t. \<exists>ch ix. m' t = (m t)\<lparr>seg_children := ch, seg_child_ix := ix\<rparr> \<and> (t \<noteq> q \<longrightarrow> ch = seg_children (m t)))"
proof -
  let ?xs = "kids m q" and ?ix = "seg_child_ix (m s)"
  have sq: "q \<in> L" "unat ?ix < length ?xs" "?xs ! unat ?ix = s"
    using links_parent [OF L, of s q] s q by simp_all
  from nr_segment_children_remove_spec [of m q s] links_children_inv [OF L sq(1)] sq(2)
  obtain ch where ch: "children_inv ch" "child_list ch = butlast (?xs[unat ?ix := last ?xs])"
    and rem: "nr_segment_children_remove m (Some q) (Some s) =
      (True, set_children (nr_segment_set_child_ix m (Some (last ?xs)) ?ix) q ch)" by blast
  let ?m = "set_children (nr_segment_set_child_ix m (Some (last ?xs)) ?ix) q ch"
  have par: "seg_parent (?m t) = seg_parent (m t)" for t by (auto simp: mem_ops)
  have kids: "kids ?m t = (if t = q then butlast (?xs[unat ?ix := last ?xs]) else kids m t)" for t
    using ch by (auto simp: mem_ops)
  have cix: "seg_child_ix (?m t) = (if t = last ?xs then ?ix else seg_child_ix (m t))" for t
    by (auto simp: mem_ops)
  have xs: "distinct ?xs" "?xs \<noteq> []" using links_distinct [OF L sq(1)] sq(2) by auto
  have lst: "last ?xs = ?xs ! (length ?xs - 1)" using xs by (simp add: last_conv_nth)
  have last_q: "seg_parent (m (last ?xs)) = Some q"
    using links_kid(2) [OF L sq(1)] xs lst by (metis diff_less length_greater_0_conv zero_less_one)
  have neq: "?xs ! j \<noteq> ?xs ! k" if "j < length ?xs" "k < length ?xs" "j \<noteq> k" for j k
    using xs(1) that by (simp add: nth_eq_iff_index_eq)
  have down: "kids ?m t ! i \<in> L - {s} \<and> seg_parent (?m (kids ?m t ! i)) = Some t
      \<and> unat (seg_child_ix (?m (kids ?m t ! i))) = i" if t: "t \<in> L" and i: "i < length (kids ?m t)" for t i
  proof (cases "t = q")
    case False
    then show ?thesis using links_kid [OF L t, of i] i last_q q unfolding kids par cix by auto
  next
    case True
    then have i1: "i < length ?xs - 1" using i sq(2) unfolding kids by simp
    then have "kids ?m t ! i = (if i = unat ?ix then last ?xs else ?xs ! i)"
      using True swap_pop_nth(2) [OF sq(2)] unfolding kids by simp
    moreover have "?xs ! i \<noteq> last ?xs" using neq [of i "length ?xs - 1"] i1 lst by simp
    moreover have "i = unat ?ix \<Longrightarrow> last ?xs \<noteq> s" using calculation(2) sq(3) by auto
    moreover have "i \<noteq> unat ?ix \<Longrightarrow> ?xs ! i \<noteq> s" using neq [of i "unat ?ix"] i1 sq by simp
    moreover have "last ?xs \<in> L" using links_kid(1) [OF L sq(1), of "length ?xs - 1"] xs(2) lst by simp
    ultimately show ?thesis using links_kid [OF L sq(1), of i] i1 last_q True unfolding par cix by auto
  qed
  have up: "p \<in> L \<and> unat (seg_child_ix (?m t)) < length (kids ?m p)
      \<and> kids ?m p ! unat (seg_child_ix (?m t)) = t" if t: "t \<in> L" "t \<noteq> s" "seg_parent (?m t) = Some p" for t p
  proof -
    have tp: "p \<in> L" "unat (seg_child_ix (m t)) < length (kids m p)"
      "kids m p ! unat (seg_child_ix (m t)) = t"
      using links_parent [OF L, of t p] t par by simp_all
    show ?thesis
    proof (cases "p = q")
      case False
      then show ?thesis using tp t(3) last_q unfolding kids par cix by auto
    next
      case pq: True
      note sp = swap_pop_nth [OF sq(2)]
      have ne: "unat (seg_child_ix (m t)) \<noteq> unat ?ix" using tp(3) sq(3) t(2) pq by metis
      show ?thesis
      proof (cases "t = last ?xs")
        case True
        then have "unat ?ix < length ?xs - 1"
          using sq(2,3) t(2) lst by (cases "unat ?ix = length ?xs - 1") auto
        with True pq tp(1) sp show ?thesis unfolding kids cix by simp
      next
        case False
        then have "unat (seg_child_ix (m t)) < length ?xs - 1"
          using tp(2,3) lst pq by (cases "unat (seg_child_ix (m t)) = length ?xs - 1") auto
        with False ne pq tp sp show ?thesis unfolding kids cix by simp
      qed
    qed
  qed
  have inv: "children_inv (seg_children (?m t))" if "t \<in> L" for t
    using ch(1) links_children_inv [OF L that] by simp
  have "links L {s} ?m"
    by (rule linksI [OF links_finite [OF L] inv]) (use down up in blast)+
  moreover have "\<exists>ch ix. ?m t = (m t)\<lparr>seg_children := ch, seg_child_ix := ix\<rparr>
      \<and> (t \<noteq> q \<longrightarrow> ch = seg_children (m t))" for t
    by (intro exI [of _ "seg_children (?m t)"] exI [of _ "seg_child_ix (?m t)"]) (auto simp: mem_ops)
  ultimately show ?thesis using rem par by blast
qed

lemma links_link:
  assumes L: "links L {s} m" and s: "s \<in> L" and p: "p \<in> L"
  shows "\<exists>m' ch ix. nr_segment_children_add m (Some p) (Some s) = Some (True, m')
    \<and> links L {} (m'(s := (m' s)\<lparr>seg_parent := Some p\<rparr>))
    \<and> m' = set_children (nr_segment_set_child_ix m (Some s) ix) p ch"
proof -
  let ?xs = "kids m p" and ?ix = "of_nat (length (kids m p)) :: size_t"
  from nr_segment_children_add_spec [of m p s] links_children_inv [OF L p] links_length [OF L p]
  obtain ch where ch: "children_inv ch" "child_list ch = ?xs @ [s]"
    and add: "nr_segment_children_add m (Some p) (Some s) =
      Some (True, set_children (nr_segment_set_child_ix m (Some s) ?ix) p ch)" by blast
  let ?m1 = "set_children (nr_segment_set_child_ix m (Some s) ?ix) p ch"
  let ?m = "?m1(s := (?m1 s)\<lparr>seg_parent := Some p\<rparr>)"
  have u: "unat ?ix = length ?xs" using links_length [OF L p] by (simp add: unat_of_nat)
  have par: "seg_parent (?m t) = (if t = s then Some p else seg_parent (m t))" for t
    by (auto simp: mem_ops)
  have kids: "kids ?m t = (if t = p then ?xs @ [s] else kids m t)" for t
    using ch by (auto simp: mem_ops)
  have cix: "seg_child_ix (?m t) = (if t = s then ?ix else seg_child_ix (m t))" for t
    by (auto simp: mem_ops)
  have inv: "children_inv (seg_children (?m t))" if "t \<in> L" for t
    using ch(1) links_children_inv [OF L that] by (auto simp: mem_ops)
  have down: "kids ?m t ! i \<in> L \<and> seg_parent (?m (kids ?m t ! i)) = Some t
      \<and> unat (seg_child_ix (?m (kids ?m t ! i))) = i" if t: "t \<in> L" and i: "i < length (kids ?m t)" for t i
  proof (cases "t = p \<and> i = length ?xs")
    case True
    then show ?thesis using s u unfolding par kids cix by auto
  next
    case False
    then have "i < length (kids m t)" "kids ?m t ! i = kids m t ! i"
      using i by (auto simp: kids nth_append simp del: fun_upd_apply split: if_splits)
    then show ?thesis using links_kid [OF L t, of i] unfolding par cix by auto
  qed
  have up: "q \<in> L \<and> unat (seg_child_ix (?m t)) < length (kids ?m q)
      \<and> kids ?m q ! unat (seg_child_ix (?m t)) = t" if t: "t \<in> L" "seg_parent (?m t) = Some q" for t q
  proof (cases "t = s")
    case True
    with t p u show ?thesis unfolding par kids cix by auto
  next
    case False
    with links_parent [OF L, of t q] t show ?thesis unfolding par kids cix by (auto simp: nth_append)
  qed
  have "links L {} ?m"
    by (rule linksI [OF links_finite [OF L] inv]) (use down up in blast)+
  with add show ?thesis by blast
qed

lemma links_detached:
  "links L {} m \<Longrightarrow> seg_parent (m s) = NULL \<Longrightarrow> links L {s} m"
  by (auto simp: links_def)

text \<open>Only the links of segments differ.\<close>

definition same_data :: "seg_mem \<Rightarrow> seg_mem \<Rightarrow> bool" where
  "same_data m m' \<longleftrightarrow>
     (\<forall>u. \<exists>ch ix p. m' u = (m u)\<lparr>seg_children := ch, seg_child_ix := ix, seg_parent := p\<rparr>)"

lemma same_data_adopt: "same_data m (adopt p k cs m)"
proof (induction cs arbitrary: k m)
  case Nil
  have "m u = (m u)\<lparr>seg_children := seg_children (m u), seg_child_ix := seg_child_ix (m u),
      seg_parent := seg_parent (m u)\<rparr>" for u by simp
  then show ?case unfolding same_data_def by (metis adopt.simps(1))
next
  case (Cons c cs)
  let ?m = "m(c := (m c)\<lparr>seg_parent := Some p, seg_child_ix := k\<rparr>)"
  show ?case unfolding same_data_def
  proof
    fix u
    from Cons.IH [of ?m "k + 1"] obtain ch ix q where
      "adopt p (k + 1) cs ?m u = (?m u)\<lparr>seg_children := ch, seg_child_ix := ix, seg_parent := q\<rparr>"
      unfolding same_data_def by blast
    then show "\<exists>ch ix q. adopt p k (c # cs) m u =
        (m u)\<lparr>seg_children := ch, seg_child_ix := ix, seg_parent := q\<rparr>"
      by (intro exI [of _ ch] exI [of _ ix] exI [of _ q]) auto
  qed
qed

lemma same_data_trans: "same_data m m1 \<Longrightarrow> same_data m1 m2 \<Longrightarrow> same_data m m2"
  unfolding same_data_def
proof (intro allI)
  fix u
  assume 1: "\<forall>u. \<exists>ch ix p. m1 u = (m u)\<lparr>seg_children := ch, seg_child_ix := ix, seg_parent := p\<rparr>"
    and 2: "\<forall>u. \<exists>ch ix p. m2 u = (m1 u)\<lparr>seg_children := ch, seg_child_ix := ix, seg_parent := p\<rparr>"
  from 1 obtain ch ix p where "m1 u = (m u)\<lparr>seg_children := ch, seg_child_ix := ix, seg_parent := p\<rparr>" by blast
  moreover from 2 obtain ch' ix' p' where
    "m2 u = (m1 u)\<lparr>seg_children := ch', seg_child_ix := ix', seg_parent := p'\<rparr>" by blast
  ultimately have "m2 u = (m u)\<lparr>seg_children := ch', seg_child_ix := ix', seg_parent := p'\<rparr>" by simp
  then show "\<exists>ch ix p. m2 u = (m u)\<lparr>seg_children := ch, seg_child_ix := ix, seg_parent := p\<rparr>" by blast
qed

lemma same_data_links:
  assumes "\<And>u. \<exists>ch ix. m' u = (m u)\<lparr>seg_children := ch, seg_child_ix := ix\<rparr>"
  shows "same_data m m'"
  unfolding same_data_def
proof
  fix u
  from assms [of u] obtain ch ix where "m' u = (m u)\<lparr>seg_children := ch, seg_child_ix := ix\<rparr>" by blast
  then have "m' u = (m u)\<lparr>seg_children := ch, seg_child_ix := ix, seg_parent := seg_parent (m u)\<rparr>" by simp
  then show "\<exists>ch ix p. m' u = (m u)\<lparr>seg_children := ch, seg_child_ix := ix, seg_parent := p\<rparr>" by blast
qed

lemma same_data_set_children: "same_data m (set_children m p ch)"
proof (rule same_data_links)
  fix u
  have "set_children m p ch u = (m u)\<lparr>seg_children := (if u = p then ch else seg_children (m u)),
      seg_child_ix := seg_child_ix (m u)\<rparr>" by (simp add: set_children_def)
  then show "\<exists>ch' ix. set_children m p ch u = (m u)\<lparr>seg_children := ch', seg_child_ix := ix\<rparr>" by blast
qed

lemma same_data_refl: "same_data m m"
  using same_data_adopt [of m undefined 0 "[]"] by simp

lemma same_data_parent: "same_data m (m(s := (m s)\<lparr>seg_parent := p\<rparr>))"
  unfolding same_data_def
proof
  fix u
  have "(m(s := (m s)\<lparr>seg_parent := p\<rparr>)) u = (m u)\<lparr>seg_children := seg_children (m u),
      seg_child_ix := seg_child_ix (m u), seg_parent := (if u = s then p else seg_parent (m u))\<rparr>" by simp
  then show "\<exists>ch ix q. (m(s := (m s)\<lparr>seg_parent := p\<rparr>)) u =
      (m u)\<lparr>seg_children := ch, seg_child_ix := ix, seg_parent := q\<rparr>" by blast
qed

lemma same_data_child_ix: "same_data m (nr_segment_set_child_ix m (Some s) ix)"
proof (rule same_data_links)
  fix u
  have "nr_segment_set_child_ix m (Some s) ix u =
      (m u)\<lparr>seg_children := seg_children (m u), seg_child_ix := (if u = s then ix else seg_child_ix (m u))\<rparr>"
    by (simp add: nr_segment_set_child_ix_def)
  then show "\<exists>ch ix'. nr_segment_set_child_ix m (Some s) ix u = (m u)\<lparr>seg_children := ch, seg_child_ix := ix'\<rparr>"
    by blast
qed

section \<open>Setting the parent refines an update of the parent map\<close>

lemma nr_segment_set_parent_spec:
  assumes F: "forest L m" and s: "s \<in> L" and p: "p \<in> L"
  shows "\<exists>m'. nr_segment_set_parent m (Some s) (Some p) =
      Some (seg_txn (m s) = seg_txn (m p)
            \<and> (seg_parent (m s) = Some p \<or> \<not> ancestor_of (parents_of m) s p), m')
    \<and> forest L m'
    \<and> parents_of m' =
        (if seg_txn (m s) = seg_txn (m p) \<and> \<not> ancestor_of (parents_of m) s p
         then (parents_of m)(s := Some p) else parents_of m)
    \<and> same_data m m'"
proof -
  let ?par = "parents_of m"
  have L: "links L {} m" and r: "\<And>t. t \<in> L \<Longrightarrow> rooted ?par t" using F by (auto simp: forest_def)
  have loop: "ancestor_loop m (Some p) s = Some (ancestor_of ?par s p)"
    by (rule ancestor_loop_eq [OF r [OF p]])
  consider (txn) "seg_txn (m s) \<noteq> seg_txn (m p)"
    | (same) "seg_txn (m s) = seg_txn (m p)" "seg_parent (m s) = Some p"
    | (cycle) "seg_txn (m s) = seg_txn (m p)" "seg_parent (m s) \<noteq> Some p" "ancestor_of ?par s p"
    | (move) "seg_txn (m s) = seg_txn (m p)" "seg_parent (m s) \<noteq> Some p" "\<not> ancestor_of ?par s p"
    by blast
  then show ?thesis
  proof cases
    case txn
    with F same_data_refl [of m] show ?thesis by (auto simp: nr_segment_set_parent_def)
  next
    case same
    then have "?par(s := Some p) = ?par" by auto
    with same F same_data_refl [of m] show ?thesis by (auto simp: nr_segment_set_parent_def)
  next
    case cycle
    with F loop same_data_refl [of m] show ?thesis by (auto simp: nr_segment_set_parent_def)
  next
    case move
    obtain m1 where m1: "(case seg_parent (m s) of None \<Rightarrow> m
        | Some q \<Rightarrow> snd (nr_segment_children_remove m (Some q) (Some s))) = m1"
      "links L {s} m1" "parents_of m1 = ?par" "same_data m m1"
    proof (cases "seg_parent (m s)")
      case None
      with links_detached [OF L, of s] that same_data_refl [of m] show ?thesis by auto
    next
      case (Some q)
      from links_unlink [OF L s Some] obtain m' where m': "nr_segment_children_remove m (Some q) (Some s) = (True, m')"
        "links L {s} m'" "parents_of m' = ?par"
        "\<And>t. \<exists>ch ix. m' t = (m t)\<lparr>seg_children := ch, seg_child_ix := ix\<rparr>" by blast
      with same_data_links [OF m'(4)] Some that show ?thesis by simp
    qed
    from links_link [OF m1(2) s p] obtain m2 ch ix where m2:
      "nr_segment_children_add m1 (Some p) (Some s) = Some (True, m2)"
      "links L {} (m2(s := (m2 s)\<lparr>seg_parent := Some p\<rparr>))"
      "m2 = set_children (nr_segment_set_child_ix m1 (Some s) ix) p ch" by blast
    let ?m = "m2(s := (m2 s)\<lparr>seg_parent := Some p\<rparr>)"
    have par: "parents_of ?m = ?par(s := Some p)"
      using m1(3) m2(3) by (auto simp: mem_ops fun_eq_iff)
    have "rooted (parents_of ?m) t" if "t \<in> L" for t
      unfolding par using rooted_set_parent [OF r [OF p] move(3) r [OF that]] .
    with m2(2) have "forest L ?m" by (simp add: forest_def)
    moreover have "nr_segment_set_parent m (Some s) (Some p) = Some (True, ?m)"
      using move loop m1(1) m2(1) by (simp add: nr_segment_set_parent_def)
    moreover have "same_data m ?m"
      by (rule same_data_trans [OF m1(4)], rule same_data_trans [OF _ same_data_parent])
        (unfold m2(3), rule same_data_trans [OF same_data_child_ix same_data_set_children])
    ultimately show ?thesis using par move by auto
  qed
qed

section \<open>Giving the children to the parent\<close>

lemma links_forget:
  assumes L: "links L {s} m" and s: "s \<in> L" and none: "kids m s = []"
  shows "links (L - {s}) {} m"
proof (rule linksI)
  fix t p
  assume t: "t \<in> L - {s}" "seg_parent (m t) = Some p"
  then show "p \<in> L - {s} \<and> unat (seg_child_ix (m t)) < length (kids m p)
      \<and> kids m p ! unat (seg_child_ix (m t)) = t"
    using links_parent [OF L, of t p] none by auto
qed (use links_finite [OF L] links_kid [OF L] links_children_inv [OF L] in
    \<open>auto intro: le_less_trans [OF card_Diff1_le]\<close>)

lemma links_disjoint_kids:
  assumes L: "links L D m" and "s \<in> L" and "q \<in> L" and "s \<noteq> q"
  shows "set (kids m q) \<inter> set (kids m s) = {}" "length (kids m q @ kids m s) \<le> 2 ^ 60"
proof -
  note sets = links_set_kids [OF L]
  show disj: "set (kids m q) \<inter> set (kids m s) = {}"
    using assms(4) unfolding sets [OF assms(2)] sets [OF assms(3)] by auto
  have "length (kids m q @ kids m s) = card (set (kids m q) \<union> set (kids m s))"
    using disj links_distinct [OF L] assms by (simp add: card_Un_disjoint distinct_card)
  also have "\<dots> \<le> card L"
    using sets assms links_finite [OF L] by (intro card_mono) auto
  finally show "length (kids m q @ kids m s) \<le> 2 ^ 60" using links_finite [OF L] by simp
qed

text \<open>Every child of \<open>s\<close> is appended to the children of \<open>q\<close>.\<close>

lemma links_adopted:
  assumes L: "links L {s} m" and s: "s \<in> L" and q: "q \<in> L" and sq: "s \<noteq> q"
    and inv_ch: "children_inv ch" and ch: "child_list ch = kids m q @ kids m s"
    and m': "m' = set_children (set_children (adopt q (of_nat (length (kids m q))) (kids m s) m) q ch)
        s packed_init"
  shows "links (L - {s}) {} m'"
proof -
  let ?xs = "kids m q" and ?cs = "kids m s" and ?k = "of_nat (length (kids m q)) :: size_t"
  note cs_set = links_set_kids [OF L s] and dist = links_distinct [OF L s]
  have par: "seg_parent (m' t) = (if t \<in> set ?cs then Some q else seg_parent (m t))" for t
    by (auto simp: m' set_children_def adopt_parent)
  have kids: "kids m' t = (if t = q then ?xs @ ?cs else kids m t)" if "t \<noteq> s" for t
    using ch that by (auto simp: m' adopt_keeps)
  have cix: "seg_child_ix (m' t) = seg_child_ix (adopt q ?k ?cs m t)" for t
    by (auto simp: m' set_children_def)
  have cix_other: "seg_child_ix (m' t) = seg_child_ix (m t)" if "t \<notin> set ?cs" for t
    using that by (simp add: cix adopt_other)
  have cix_kid: "unat (seg_child_ix (m' (?cs ! j))) = length ?xs + j" if "j < length ?cs" for j
    using that links_disjoint_kids(2) [OF L s q sq] adopt_child_ix [OF dist that, of q ?k m]
    by (simp add: cix unat_of_nat flip: of_nat_add)
  have inv: "children_inv (seg_children (m' t))" if "t \<in> L - {s}" for t
    using inv_ch links_children_inv [OF L, of t] that by (simp add: m' adopt_keeps)
  have down: "kids m' t ! i \<in> L - {s} \<and> seg_parent (m' (kids m' t ! i)) = Some t
      \<and> unat (seg_child_ix (m' (kids m' t ! i))) = i"
    if t: "t \<in> L" "t \<noteq> s" and i: "i < length (kids m' t)" for t i
  proof (cases "t = q \<and> length ?xs \<le> i")
    case True
    then obtain j where j: "i = length ?xs + j" "j < length ?cs" "kids m' t ! i = ?cs ! j"
      using i kids [of t] t by (auto simp: le_iff_add)
    then have "?cs ! j \<in> L - {s}" using cs_set nth_mem by blast
    with j True show ?thesis unfolding par using cix_kid [of j] by simp
  next
    case False
    then have i': "i < length (kids m t)" "kids m' t ! i = kids m t ! i"
      using i unfolding kids [OF t(2)] by (auto simp: nth_append split: if_splits)
    note k = links_kid [OF L t(1) i'(1)]
    then have "kids m t ! i \<notin> set ?cs" using cs_set t by auto
    with k i'(2) cix_other [of "kids m t ! i"] show ?thesis unfolding par by simp
  qed
  have up: "p \<in> L - {s} \<and> unat (seg_child_ix (m' t)) < length (kids m' p)
      \<and> kids m' p ! unat (seg_child_ix (m' t)) = t"
    if t: "t \<in> L - {s}" "seg_parent (m' t) = Some p" for t p
  proof (cases "t \<in> set ?cs")
    case True
    then obtain j where "j < length ?cs" "t = ?cs ! j" by (auto simp: in_set_conv_nth)
    with True t(2) cix_kid [of j] kids [of q] sq q show ?thesis unfolding par by auto
  next
    case False
    then have tp: "seg_parent (m t) = Some p" "p \<noteq> s" using t cs_set unfolding par by auto
    note tq = links_parent [OF L t(1) tp(1)]
    have "unat (seg_child_ix (m t)) < length (kids m' p)"
      "kids m' p ! unat (seg_child_ix (m t)) = kids m p ! unat (seg_child_ix (m t))"
      using tq(2) unfolding kids [OF tp(2)] by (auto simp: nth_append)
    then show ?thesis unfolding cix_other [OF False] tq(3) using tq(1) tp(2) by simp
  qed
  show ?thesis
  proof (rule linksI [OF _ _ inv])
    show "card (L - {s}) < 2 ^ 60" using links_finite(2) [OF L] by (rule le_less_trans [OF card_Diff1_le])
  qed (use down up links_finite [OF L] in blast)+
qed

text \<open>The structural part of discarding a segment: unhook it, hand its children to its
  parent, and forget it.\<close>

lemma links_bypass:
  assumes L: "links L {} m" and s: "s \<in> L" and q: "seg_parent (m s) = Some q" and sq: "s \<noteq> q"
  shows "\<exists>m1 m2. nr_segment_children_remove m (Some q) (Some s) = (True, m1)
    \<and> nr_segment_children_reparent m1 (Some s) (Some q) = Some (True, m2)
    \<and> links (L - {s}) {} m2
    \<and> parents_of m2 = (\<lambda>u. if u \<in> set (kids m s) then Some q else seg_parent (m u))
    \<and> same_data m m1 \<and> same_data m1 m2 \<and> parents_of m1 = parents_of m"
proof -
  have qL: "q \<in> L" using links_parent [OF L, of s q] s q by simp
  from links_unlink [OF L s q] obtain m1 where rem: "nr_segment_children_remove m (Some q) (Some s) = (True, m1)"
    and L1: "links L {s} m1" and par1: "parents_of m1 = parents_of m"
    and other: "\<And>t. \<exists>ch ix. m1 t = (m t)\<lparr>seg_children := ch, seg_child_ix := ix\<rparr>
      \<and> (t \<noteq> q \<longrightarrow> ch = seg_children (m t))" by blast
  have kids_s: "kids m1 s = kids m s" using other [of s] sq by auto
  have d1: "same_data m m1" by (rule same_data_links) (use other in blast)
  note inv1 = links_children_inv [OF L1]
  show ?thesis
  proof (cases "kids m s = []")
    case True
    then show ?thesis
      using nr_segment_children_reparent_none [of m1 s q] inv1 [OF s] kids_s rem par1
        links_forget [OF L1 s] d1 same_data_adopt [of m1 q 0 "[]"] by auto
  next
    case False
    from nr_segment_children_reparent_spec [of m1 s q] inv1 s qL sq kids_s False
      links_disjoint_kids(2) [OF L1 s qL sq]
    obtain ch m2 where rep: "nr_segment_children_reparent m1 (Some s) (Some q) = Some (True, m2)"
      and ch: "children_inv ch" "child_list ch = kids m1 q @ kids m1 s"
      and m2: "m2 = set_children (set_children (adopt q (of_nat (length (kids m1 q))) (kids m1 s) m1) q ch)
        s packed_init" by auto
    have "parents_of m2 = (\<lambda>u. if u \<in> set (kids m s) then Some q else seg_parent (m u))"
      using par1 kids_s by (auto simp: m2 set_children_def adopt_parent fun_eq_iff)
    moreover have "same_data m1 m2" unfolding m2
      by (rule same_data_trans [OF same_data_trans [OF same_data_adopt same_data_set_children]
            same_data_set_children])
    ultimately show ?thesis using links_adopted [OF L1 s qL sq ch m2] rem rep d1 par1 by blast
  qed
qed

section \<open>Properties\<close>

definition blank_segment :: nr_segment where
  "blank_segment = \<lparr>seg_txn = Some 0, seg_parent = NULL, seg_children = packed_init, seg_child_ix = 0,
     seg_color = NR_SEGMENT_WHITE, seg_start_time = 0, seg_stop_time = 0, seg_name = 0,
     seg_async_context = 0, seg_id = NULL, seg_metrics = NULL, seg_exclusive_time = NULL,
     seg_priority = 0, seg_error = NULL\<rparr>"

lemma blank_forest: "finite L \<Longrightarrow> card L < 2 ^ 60 \<Longrightarrow> forest L (\<lambda>_. blank_segment)"
  by (auto simp: forest_def links_def blank_segment_def packed_init_inv intro: rooted.root)

text \<open>C11. On a well-formed tree \<open>nr_segment_set_parent\<close> always returns. It succeeds exactly
  when both segments are in the same transaction and the move makes no cycle (or changes
  nothing); then the parent map is updated at that one segment, and otherwise it is
  unchanged. In both cases the tree stays well formed: no cycle of parents, every child at
  the index it records, and the children of every segment exactly the segments whose parent
  it is, in the packed array and in the vector alike.\<close>

theorem nr_segment_set_parent_correct:
  assumes "forest L m" and "s \<in> L" and "p \<in> L"
  shows "\<exists>m'. nr_segment_set_parent m (Some s) (Some p) =
      Some (seg_txn (m s) = seg_txn (m p)
            \<and> (seg_parent (m s) = Some p \<or> \<not> ancestor_of (parents_of m) s p), m')
    \<and> forest L m'
    \<and> parents_of m' =
        (if seg_txn (m s) = seg_txn (m p) \<and> \<not> ancestor_of (parents_of m) s p
         then (parents_of m)(s := Some p) else parents_of m)
    \<and> (\<forall>q \<in> L. distinct (kids m' q) \<and> set (kids m' q) = {t \<in> L. parents_of m' t = Some q})"
proof -
  from nr_segment_set_parent_spec [OF assms] obtain m' where m':
    "nr_segment_set_parent m (Some s) (Some p) =
       Some (seg_txn (m s) = seg_txn (m p)
            \<and> (seg_parent (m s) = Some p \<or> \<not> ancestor_of (parents_of m) s p), m')"
    "forest L m'" "parents_of m' =
        (if seg_txn (m s) = seg_txn (m p) \<and> \<not> ancestor_of (parents_of m) s p
         then (parents_of m)(s := Some p) else parents_of m)" by blast
  then have L': "links L {} m'" by (simp add: forest_def)
  have "\<forall>q \<in> L. distinct (kids m' q) \<and> set (kids m' q) = {t \<in> L. parents_of m' t = Some q}"
    using links_distinct [OF L'] links_set_kids [OF L'] by simp
  with m' show ?thesis by blast
qed

theorem nr_segment_set_parent_correct_witness:
  "\<exists>m'. nr_segment_set_parent (\<lambda>_. blank_segment) (Some (0, 24)) (Some (0, 344)) = Some (True, m')
     \<and> seg_parent (m' (0, 24)) = Some (0, 344) \<and> set (kids m' (0, 344)) = {(0, 24)}"
proof -
  have "forest {(0, 24), (0, 344)} (\<lambda>_. blank_segment)" by (intro blank_forest) simp_all
  moreover have "\<not> ancestor_of (parents_of (\<lambda>_. blank_segment)) (0, 24) (0, 344)"
    using ancestor_of_root [of "parents_of (\<lambda>_. blank_segment)" "(0, 344)" "(0, 24)"] by (simp add: blank_segment_def)
  ultimately obtain m' where
    "nr_segment_set_parent (\<lambda>_. blank_segment) (Some (0, 24)) (Some (0, 344)) = Some (True, m')"
    and par: "parents_of m' = (parents_of (\<lambda>_. blank_segment))((0, 24) := Some (0, 344))"
    and kids: "\<forall>q \<in> {(0, 24), (0, 344)}. set (kids m' q) = {t \<in> {(0, 24), (0, 344)}. parents_of m' t = Some q}"
    using nr_segment_set_parent_correct [of "{(0, 24), (0, 344)}" "\<lambda>_. blank_segment" "(0, 24)" "(0, 344)"] by auto
  moreover have "set (kids m' (0, 344)) = {(0, 24)}" "seg_parent (m' (0, 24)) = Some (0, 344)"
    using bspec [OF kids, of "(0, 344)"] fun_cong [OF par] by (auto simp: blank_segment_def)
  ultimately show ?thesis by blast
qed

text \<open>\<open>nr_segment_set_parent\<close> with a NULL parent, which its checks let through, makes an
  invalid memory access for every segment that has a parent: the segment is taken out of its
  parent's children and then added to the children of NULL.\<close>

theorem nr_segment_set_parent_null_faults:
  "nr_segment_set_parent m (Some s) NULL = None \<longleftrightarrow> seg_parent (m s) \<noteq> NULL"
  by (auto simp: nr_segment_set_parent_def ancestor_loop.simps [of m NULL])

end
