(* ===== verification/SpanQueue.thy ===== *)
theory SpanQueue
  imports ExclusiveTime
begin

text \<open>
  The queue of span events for infinite tracing (\<^verbatim>\<open>axiom/nr_span_queue.c\<close>): events
  are collected into a batch, which is encoded and handed to a handler when it is full or
  too old. The encoder (generated protobuf code) and the handler are parameters: the
  encoder may fail, and the handler's answer is its only effect here. Every operation
  returns the encoded batches handed over and the events destroyed, in order, and writing
  past the end of a batch is \<open>None\<close>. A parameter \<open>now\<close> is a reading of the clock.
\<close>

section \<open>Data\<close>

text \<open>The counter \<open>used\<close> is the length of the list of spans.\<close>

record 'e nr_span_batch =
  batch_capacity :: nat
  batch_start_time :: nrtime
  batch_spans :: "'e list"

record ('e, 'b) nr_span_queue =
  batch_size :: nat
  batch_timeout :: nrtime
  batch_handler :: "'b \<Rightarrow> bool"
  current_batch :: "'e nr_span_batch ptr"

section \<open>Operations\<close>

definition nr_span_batch_create :: "nrtime \<Rightarrow> nat \<Rightarrow> 'e nr_span_batch" where
  "nr_span_batch_create now capacity =
     \<lparr>batch_capacity = capacity, batch_start_time = now, batch_spans = []\<rparr>"

definition nr_span_batch_destroy :: "'e nr_span_batch ptr ptr \<Rightarrow> 'e list \<times> 'e nr_span_batch ptr ptr" where
  "nr_span_batch_destroy batch_ptr =
     (case batch_ptr of Some (Some batch) \<Rightarrow> (batch_spans batch, Some NULL) | _ \<Rightarrow> ([], batch_ptr))"

definition nr_span_queue_create ::
  "nrtime \<Rightarrow> nat \<Rightarrow> nrtime \<Rightarrow> ('b \<Rightarrow> bool) ptr \<Rightarrow> ('e, 'b) nr_span_queue ptr" where
  "nr_span_queue_create now bsize timeout handler =
     (case handler of None \<Rightarrow> NULL
      | Some handle \<Rightarrow>
          if bsize = 0 \<or> timeout = 0 then NULL
          else Some \<lparr>batch_size = bsize, batch_timeout = timeout, batch_handler = handle,
                     current_batch = Some (nr_span_batch_create now bsize)\<rparr>)"

definition nr_span_queue_destroy ::
  "('e, 'b) nr_span_queue ptr ptr \<Rightarrow> 'e list \<times> ('e, 'b) nr_span_queue ptr ptr" where
  "nr_span_queue_destroy queue_ptr =
     (case queue_ptr of
        Some (Some queue) \<Rightarrow> (fst (nr_span_batch_destroy (Some (current_batch queue))), Some NULL)
      | _ \<Rightarrow> ([], queue_ptr))"

definition nr_span_queue_flush ::
  "('e list \<Rightarrow> 'b option) \<Rightarrow> nrtime \<Rightarrow> ('e, 'b) nr_span_queue ptr
     \<Rightarrow> (bool \<times> 'b list \<times> 'e list \<times> ('e, 'b) nr_span_queue ptr) option" where
  "nr_span_queue_flush encode now queue =
     (case queue of None \<Rightarrow> Some (False, [], [], NULL)
      | Some q \<Rightarrow>
          (case current_batch q of None \<Rightarrow> None
           | Some batch \<Rightarrow>
               let q = q\<lparr>current_batch := Some (nr_span_batch_create now (batch_size q))\<rparr>;
                   destroyed = fst (nr_span_batch_destroy (Some (Some batch)))
               in if length (batch_spans batch) = 0 then Some (True, [], destroyed, Some q)
                  else (case encode (batch_spans batch) of
                          None \<Rightarrow> Some (False, [], destroyed, Some q)
                        | Some encoded \<Rightarrow> Some (batch_handler q encoded, [encoded], destroyed, Some q))))"

definition nr_span_queue_push ::
  "('e list \<Rightarrow> 'b option) \<Rightarrow> nrtime \<Rightarrow> nrtime \<Rightarrow> ('e, 'b) nr_span_queue ptr \<Rightarrow> 'e ptr
     \<Rightarrow> (bool \<times> 'b list \<times> 'e list \<times> ('e, 'b) nr_span_queue ptr) option" where
  "nr_span_queue_push encode now now_flush queue event =
     (case (queue, event) of
        (Some q, Some e) \<Rightarrow>
          (case current_batch q of None \<Rightarrow> Some (False, [], [e], queue)
           | Some batch \<Rightarrow> do {
               (_, handled, destroyed, queue) \<leftarrow>
                 (if length (batch_spans batch) \<ge> batch_capacity batch
                     \<or> now > (batch_start_time batch + batch_timeout q) mod 2 ^ 64
                  then nr_span_queue_flush encode now_flush queue else Some (True, [], [], queue));
               q \<leftarrow> queue;
               batch \<leftarrow> current_batch q;
               (if length (batch_spans batch) < batch_capacity batch
                then Some (True, handled, destroyed,
                       Some (q\<lparr>current_batch := Some (batch\<lparr>batch_spans := batch_spans batch @ [e]\<rparr>)\<rparr>))
                else None)
             })
      | (_, Some e) \<Rightarrow> Some (False, [], [e], queue)
      | _ \<Rightarrow> Some (False, [], [], queue))"

section \<open>Batching\<close>

definition queue_inv :: "('e, 'b) nr_span_queue \<Rightarrow> bool" where
  "queue_inv q \<longleftrightarrow> 0 < batch_size q
     \<and> (\<exists>batch. current_batch q = Some batch \<and> batch_capacity batch = batch_size q
          \<and> length (batch_spans batch) \<le> batch_size q)"

definition queued :: "('e, 'b) nr_span_queue \<Rightarrow> 'e list" where
  "queued q = (case current_batch q of None \<Rightarrow> [] | Some batch \<Rightarrow> batch_spans batch)"

lemma queue_inv_create:
  assumes "nr_span_queue_create now bsize timeout handler = Some q"
  shows "queue_inv q" "queued q = []" "batch_size q = bsize"
  using assms by (auto simp: nr_span_queue_create_def queue_inv_def queued_def nr_span_batch_create_def
      split: option.splits if_splits)

definition encoded_batches :: "('e list \<Rightarrow> 'b option) \<Rightarrow> 'e list list \<Rightarrow> 'b list" where
  "encoded_batches encode batches = List.map_filter encode batches"

lemma nr_span_queue_flush_spec:
  assumes "queue_inv q"
  shows "\<exists>rv q'. nr_span_queue_flush encode now (Some q) =
      Some (rv, encoded_batches encode (if queued q = [] then [] else [queued q]), queued q, Some q')
    \<and> queue_inv q' \<and> queued q' = [] \<and> batch_size q' = batch_size q"
proof -
  from assms obtain b where "current_batch q = Some b" "0 < batch_size q" by (auto simp: queue_inv_def)
  then show ?thesis
    by (cases "encode (batch_spans b)")
      (auto simp: nr_span_queue_flush_def queued_def queue_inv_def nr_span_batch_create_def
        nr_span_batch_destroy_def encoded_batches_def map_filter_def Let_def)
qed

text \<open>A push adds the event to the batch, or starts a new batch with it once the old one has
  been handed over.\<close>

lemma nr_span_queue_push_spec:
  assumes inv: "queue_inv q"
  shows "\<exists>bs q'. nr_span_queue_push encode now now' (Some q) (Some e) =
      Some (True, encoded_batches encode bs, concat bs, Some q')
    \<and> queue_inv q' \<and> batch_size q' = batch_size q \<and> queued q @ [e] = concat bs @ queued q'
    \<and> (\<forall>b \<in> set bs. b \<noteq> [] \<and> length b \<le> batch_size q)"
proof -
  from inv obtain b where b: "current_batch q = Some b" "batch_capacity b = batch_size q" "0 < batch_size q"
    "length (batch_spans b) \<le> batch_size q" by (auto simp: queue_inv_def)
  let ?flush = "length (batch_spans b) \<ge> batch_capacity b \<or> now > (batch_start_time b + batch_timeout q) mod 2 ^ 64"
  show ?thesis
  proof (cases ?flush)
    case False
    with b show ?thesis
      by (intro exI [of _ "[]"]) (auto simp: nr_span_queue_push_def queue_inv_def queued_def encoded_batches_def
          map_filter_def)
  next
    case True
    let ?bs = "if queued q = [] then [] else [queued q]"
    from nr_span_queue_flush_spec [OF inv, of encode now'] obtain rv q' where
      q': "nr_span_queue_flush encode now' (Some q) = Some (rv, encoded_batches encode ?bs, queued q, Some q')"
      "queue_inv q'" "queued q' = []" "batch_size q' = batch_size q" by blast
    then obtain b' where b': "current_batch q' = Some b'" "batch_capacity b' = batch_size q"
      "batch_spans b' = []" by (auto simp: queue_inv_def queued_def)
    have "concat ?bs = queued q" by simp
    with True b b' q' show ?thesis
      by (intro exI [of _ ?bs]) (auto simp: nr_span_queue_push_def queue_inv_def queued_def)
  qed
qed

section \<open>Properties\<close>

fun push_spans ::
  "('e list \<Rightarrow> 'b option) \<Rightarrow> ('e, 'b) nr_span_queue ptr \<Rightarrow> (nrtime \<times> nrtime \<times> 'e) list
     \<Rightarrow> ('b list \<times> 'e list \<times> ('e, 'b) nr_span_queue ptr) option" where
  "push_spans encode queue [] = Some ([], [], queue)"
| "push_spans encode queue ((now, now', e) # es) = do {
     (_, handled, destroyed, queue) \<leftarrow> nr_span_queue_push encode now now' queue (Some e);
     (handled', destroyed', queue) \<leftarrow> push_spans encode queue es;
     Some (handled @ handled', destroyed @ destroyed', queue)
   }"

lemma push_spans_spec:
  assumes "queue_inv q"
  shows "\<exists>bs q'. push_spans encode (Some q) es = Some (encoded_batches encode bs, concat bs, Some q')
    \<and> queue_inv q' \<and> batch_size q' = batch_size q
    \<and> queued q @ map (snd \<circ> snd) es = concat bs @ queued q'
    \<and> (\<forall>b \<in> set bs. b \<noteq> [] \<and> length b \<le> batch_size q)"
  using assms
proof (induction es arbitrary: q)
  case Nil
  then show ?case by (intro exI [of _ "[]"]) (simp add: encoded_batches_def map_filter_def)
next
  case (Cons x es)
  obtain now now' e where x: "x = (now, now', e)" by (cases x) auto
  from nr_span_queue_push_spec [OF Cons.prems, of encode now now' e] obtain bs q1 where
    1: "nr_span_queue_push encode now now' (Some q) (Some e) = Some (True, encoded_batches encode bs, concat bs, Some q1)"
    "queue_inv q1" "batch_size q1 = batch_size q" "queued q @ [e] = concat bs @ queued q1"
    "\<forall>b \<in> set bs. b \<noteq> [] \<and> length b \<le> batch_size q" by blast
  from Cons.IH [OF 1(2)] obtain bs' q2 where
    2: "push_spans encode (Some q1) es = Some (encoded_batches encode bs', concat bs', Some q2)"
    "queue_inv q2" "batch_size q2 = batch_size q1" "queued q1 @ map (snd \<circ> snd) es = concat bs' @ queued q2"
    "\<forall>b \<in> set bs'. b \<noteq> [] \<and> length b \<le> batch_size q1" by blast
  have "queued q @ map (snd \<circ> snd) (x # es) = concat (bs @ bs') @ queued q2"
    using 1(4) 2(4) x by (metis (no_types, lifting) append.assoc append_Cons append_Nil comp_apply concat_append
        list.simps(9) snd_conv)
  moreover have "push_spans encode (Some q) (x # es) =
      Some (encoded_batches encode (bs @ bs'), concat (bs @ bs'), Some q2)"
    using 1(1) 2(1) x by (simp add: encoded_batches_def map_filter_def)
  ultimately show ?case using 1(3,5) 2(2,3,5) by (intro exI [of _ "bs @ bs'"] exI [of _ q2]) (auto simp: comp_def)
qed



end
