(* ===== verification/HashTree.thy ===== *)
theory HashTree
  imports Prelude
begin

text \<open>
  Binary search trees kept in arrays, children at greater indices than their parents: the
  walk down such a tree, shared by the tables that use them. A walk stops at a node that
  matches (\<open>Inl\<close>) or at a node with no child on the side searched (\<open>Inr\<close>).
\<close>

partial_function (option) walk :: "(nat \<Rightarrow> bool) \<Rightarrow> (nat \<Rightarrow> nat option) \<Rightarrow> nat \<Rightarrow> (nat + nat) option" where
  "walk match nxt i =
     (if match i then Some (Inl i)
      else case nxt i of None \<Rightarrow> Some (Inr i) | Some j \<Rightarrow> walk match nxt j)"

definition tree_shape :: "nat \<Rightarrow> (nat \<Rightarrow> nat option) \<Rightarrow> bool" where
  "tree_shape n nxt \<longleftrightarrow> (\<forall>i j. i < n \<longrightarrow> nxt i = Some j \<longrightarrow> i < j \<and> j < n)"

lemma tree_shapeD: "tree_shape n nxt \<Longrightarrow> i < n \<Longrightarrow> nxt i = Some j \<Longrightarrow> i < j \<and> j < n"
  unfolding tree_shape_def by blast

lemma tree_path_induct [consumes 2, case_names node]:
  assumes "tree_shape n nxt" and "i < n"
    and "\<And>i. i < n \<Longrightarrow> (\<And>j. nxt i = Some j \<Longrightarrow> j < n \<Longrightarrow> P j) \<Longrightarrow> P i"
  shows "P i"
  using assms(2)
proof (induction "n - i" arbitrary: i rule: less_induct)
  case less
  show ?case
  proof (rule assms(3) [OF less.prems])
    fix j
    assume "nxt i = Some j" "j < n"
    with tree_shapeD [OF assms(1) less.prems] have "i < j" by blast
    with \<open>j < n\<close> show "P j" using less.hyps [of j] less.prems by simp
  qed
qed

lemma walk_cases:
  assumes "tree_shape n nxt" and "i < n"
  shows "(\<exists>k < n. walk match nxt i = Some (Inl k) \<and> match k)
    \<or> (\<exists>k < n. walk match nxt i = Some (Inr k) \<and> nxt k = None)"
  using assms
proof (induction rule: tree_path_induct)
  case (node i)
  show ?case
  proof (cases "match i \<or> nxt i = None")
    case True
    with node(1) show ?thesis by (subst (1 2) walk.simps) auto
  next
    case False
    then obtain j where j: "nxt i = Some j" "\<not> match i" by auto
    with tree_shapeD [OF assms(1) node(1)] have "j < n" by blast
    moreover have "walk match nxt i = walk match nxt j" using j by (subst walk.simps) simp
    ultimately show ?thesis using node(2) [OF j(1)] by simp
  qed
qed

lemma walk_cong_below:
  assumes "tree_shape n nxt" and "i < n" and "\<And>k. k < n \<Longrightarrow> nxt' k = nxt k"
  shows "walk match nxt' i = walk match nxt i"
  using assms(1,2)
proof (induction rule: tree_path_induct)
  case (node i)
  have "nxt' i = nxt i" using assms(3) [OF node(1)] .
  moreover have "walk match nxt' j = walk match nxt j" if "nxt i = Some j" for j
    using node(2) [OF that] tree_shapeD [OF assms(1) node(1) that] by blast
  ultimately show ?case by (subst (1 2) walk.simps) (simp split: option.split)
qed

text \<open>More links and the same nodes: what was found is found.\<close>

lemma walk_extends:
  assumes "tree_shape n nxt" and "i < n"
    and same: "\<And>k. k < n \<Longrightarrow> match' k = match k"
    and links: "\<And>k j. k < n \<Longrightarrow> nxt k = Some j \<Longrightarrow> nxt' k = Some j"
    and "walk match nxt i = Some (Inl r)"
  shows "walk match' nxt' i = Some (Inl r)"
  using assms(1,2,5)
proof (induction rule: tree_path_induct)
  case (node i)
  show ?case
  proof (cases "match i")
    case True
    with node(1,3) same show ?thesis by (subst (asm) walk.simps, subst walk.simps) simp
  next
    case False
    with node(3) obtain j where j: "nxt i = Some j" "walk match nxt j = Some (Inl r)"
      by (subst (asm) walk.simps) (auto split: option.splits)
    with tree_shapeD [OF assms(1) node(1)] have "j < n" by blast
    with node(2) j links [OF node(1)] False same [OF node(1)] show ?thesis by (subst walk.simps) simp
  qed
qed

text \<open>A new node hung where the walk of its key ends is found.\<close>

lemma walk_new:
  assumes "tree_shape n nxt" and "i < n"
    and same: "\<And>k. k < n \<Longrightarrow> match' k = match k"
    and links: "\<And>k j. k < n \<Longrightarrow> nxt k = Some j \<Longrightarrow> nxt' k = Some j"
    and new: "nxt' p = Some n" "match' n"
    and "walk match nxt i = Some (Inr p)"
  shows "walk match' nxt' i = Some (Inl n)"
  using assms(1,2,7)
proof (induction rule: tree_path_induct)
  case (node i)
  have nm: "\<not> match i" using node(3) by (subst (asm) walk.simps) (auto split: if_splits)
  have end_walk: "walk match' nxt' n = Some (Inl n)" using new by (subst walk.simps) simp
  show ?case
  proof (cases "nxt i")
    case None
    with node(3) nm have "i = p" by (subst (asm) walk.simps) simp
    with end_walk new nm same [OF node(1)] show ?thesis by (subst walk.simps) simp
  next
    case (Some j)
    with node(3) nm have "walk match nxt j = Some (Inr p)" by (subst (asm) walk.simps) simp
    moreover have "j < n" using tree_shapeD [OF assms(1) node(1) Some] ..
    ultimately show ?thesis using node(2) [OF Some] links [OF node(1) Some] nm same [OF node(1)]
      by (subst walk.simps) simp
  qed
qed

text \<open>A walk that looks for nothing ends where an unsuccessful search ends.\<close>

lemma walk_nothing:
  assumes "tree_shape n nxt" and "i < n" and "walk match nxt i = Some (Inr p)"
  shows "walk (\<lambda>_. False) nxt i = Some (Inr p)"
  using assms
proof (induction rule: tree_path_induct)
  case (node i)
  have nm: "\<not> match i" using node(3) by (subst (asm) walk.simps) (auto split: if_splits)
  show ?case
  proof (cases "nxt i")
    case None
    with node(3) nm show ?thesis by (subst (asm) walk.simps, subst walk.simps) simp
  next
    case (Some j)
    with node(3) nm have "walk match nxt j = Some (Inr p)" by (subst (asm) walk.simps) simp
    moreover have "j < n" using tree_shapeD [OF assms(1) node(1) Some] ..
    ultimately show ?thesis using node(2) [OF Some] Some by (subst walk.simps) simp
  qed
qed

end
