(* ===== verification/Hash.thy ===== *)
theory Hash
  imports Prelude
begin

text \<open>
  The string hash of \<^verbatim>\<open>axiom/util_hash.c\<close>: MurmurHash3 on 32-bit words with a fixed
  seed. The characters are read as the little-endian machines the agent runs on read them.
\<close>

unbundle bit_operations_syntax

definition rotl32 :: "nat \<Rightarrow> uint32 \<Rightarrow> uint32" where
  "rotl32 r k = push_bit r k OR drop_bit (32 - r) k"

definition byte_at :: "string \<Rightarrow> nat \<Rightarrow> uint32" where
  "byte_at str i = of_char (str ! i)"

definition block_at :: "string \<Rightarrow> nat \<Rightarrow> uint32" where
  "block_at str i =
     byte_at str (4 * i) OR push_bit 8 (byte_at str (4 * i + 1))
     OR push_bit 16 (byte_at str (4 * i + 2)) OR push_bit 24 (byte_at str (4 * i + 3))"

definition mix_k :: "uint32 \<Rightarrow> uint32" where
  "mix_k k = rotl32 15 (k * 0xcc9e2d51) * 0x1b873593"

fun mkhash_blocks :: "string \<Rightarrow> nat list \<Rightarrow> uint32 \<Rightarrow> uint32" where
  "mkhash_blocks str [] hash = hash"
| "mkhash_blocks str (i # is) hash =
     mkhash_blocks str is (rotl32 13 (hash XOR mix_k (block_at str i)) * 5 + 0xe6546b64)"

definition mkhash_tail :: "string \<Rightarrow> nat \<Rightarrow> nat \<Rightarrow> uint32 \<Rightarrow> uint32" where
  "mkhash_tail str tail rest hash =
     (let k1 = (if rest = 3 then push_bit 16 (byte_at str (tail + 2)) else 0);
          k1 = (if rest \<ge> 2 then k1 XOR push_bit 8 (byte_at str (tail + 1)) else k1);
          k1 = (if rest \<ge> 1 then k1 XOR byte_at str tail else k1)
      in if rest \<ge> 1 then hash XOR mix_k k1 else hash)"

definition mkhash_final :: "uint32 \<Rightarrow> uint32" where
  "mkhash_final hash =
     (let hash = hash XOR drop_bit 16 hash;
          hash = hash * 0x85ebca6b;
          hash = hash XOR drop_bit 13 hash;
          hash = hash * 0xc2b2ae35
      in hash XOR drop_bit 16 hash)"

text \<open>The length argument is NULL, or the number of bytes to hash, 0 standing for
  \<open>nr_strlen\<close>; the second result is what is stored back.\<close>

definition nr_mkhash :: "string ptr \<Rightarrow> nat ptr \<Rightarrow> uint32 \<times> nat ptr" where
  "nr_mkhash str len =
     (case str of None \<Rightarrow> (0, map_option (\<lambda>_. 0) len)
      | Some s \<Rightarrow>
          if s = [] \<or> hd s = CHR 0x00 then (0, map_option (\<lambda>_. 0) len)
          else let str_len = (case len of Some n \<Rightarrow> if n = 0 then length s else n | None \<Rightarrow> length s);
                   num_blocks = str_len div 4;
                   hash = mkhash_blocks s [0..<num_blocks] 0x290848ab;
                   hash = mkhash_tail s (num_blocks * 4) (str_len mod 4) hash
               in (mkhash_final (hash XOR of_nat str_len), map_option (\<lambda>_. str_len) len))"

definition nr_hash_md5_low32 :: "string ptr \<Rightarrow> uint32" where
  "nr_hash_md5_low32 md5 =
     (case md5 of None \<Rightarrow> 0
      | Some m \<Rightarrow> push_bit 24 (byte_at m 12) OR push_bit 16 (byte_at m 13)
                  OR push_bit 8 (byte_at m 14) OR push_bit 0 (byte_at m 15))"

text \<open>The hash and the length of a whole string.\<close>

definition string_hash :: "string \<Rightarrow> uint32" where
  "string_hash s = fst (nr_mkhash (Some s) (Some 0))"

lemma nr_mkhash_length:
  "CHR 0x00 \<notin> set s \<Longrightarrow> nr_mkhash (Some s) (Some 0) = (string_hash s, Some (length s))"
  by (cases s) (auto simp: nr_mkhash_def string_hash_def Let_def)

lemma mkhash_blocks_cong:
  "(\<And>i j. i \<in> set is \<Longrightarrow> j < 4 \<Longrightarrow> s ! (4 * i + j) = t ! (4 * i + j)) \<Longrightarrow>
     mkhash_blocks s is h = mkhash_blocks t is h"
proof (induction "is" arbitrary: h)
  case (Cons i "is")
  have "s ! (4 * i + j) = t ! (4 * i + j)" if "j < 4" for j using Cons.prems [of i j] that by simp
  from this [of 0] this [of 1] this [of 2] this [of 3] have "block_at s i = block_at t i"
    by (simp add: block_at_def byte_at_def)
  with Cons show ?case by simp
qed simp

text \<open>The hash of \<open>n\<close> bytes depends on those bytes only: any two keys that agree on their
  first \<open>n\<close> bytes have the same hash, whatever follows them in memory.\<close>

theorem nr_mkhash_reads_prefix:
  assumes "0 < n" and "n \<le> length s" and "n \<le> length t" and "take n s = take n t"
  shows "nr_mkhash (Some s) (Some n) = nr_mkhash (Some t) (Some n)"
proof -
  have nth: "s ! i = t ! i" if "i < n" for i using assms that by (metis nth_take)
  have "mkhash_blocks s [0..<n div 4] h = mkhash_blocks t [0..<n div 4] h" for h
    by (rule mkhash_blocks_cong) (auto intro!: nth)
  moreover have "mkhash_tail s (n div 4 * 4) (n mod 4) h = mkhash_tail t (n div 4 * 4) (n mod 4) h" for h
  proof -
    have "byte_at s (n div 4 * 4 + j) = byte_at t (n div 4 * 4 + j)" if "j < n mod 4" for j
      unfolding byte_at_def by (subst nth) (use that div_mult_mod_eq [of n 4] in linarith, rule refl)
    from this [of 0] this [of 1] this [of 2] show ?thesis
      by (simp add: mkhash_tail_def Let_def)
  qed
  moreover have "s \<noteq> []" "t \<noteq> []" "hd s = hd t"
    using assms nth [of 0] by (cases s; cases t; simp)+
  ultimately show ?thesis using assms by (simp add: nr_mkhash_def Let_def)
qed

theorem nr_mkhash_reads_prefix_witness:
  "nr_mkhash (Some ''abcdefX'') (Some 6) = nr_mkhash (Some ''abcdefYZ'') (Some 6)
   \<and> string_hash ''abc'' \<noteq> string_hash ''abd''"
  by (intro conjI nr_mkhash_reads_prefix) (simp, simp, simp, simp, code_simp)

end
