(* ===== verification/StringPool.thy ===== *)
theory StringPool
  imports Hash
begin

text \<open>
  The string pool of \<^verbatim>\<open>axiom/util_string_pool.c\<close>: an array of entries that is at the
  same time a binary tree ordered by hash, and tables of string bytes. Indices start at 1 and
  0 is both "not found" and "no child". The strings are C strings: no NUL character occurs in
  them.
\<close>

section \<open>The pool\<close>

record nrstable =
  num_bytes_used :: nat
  num_bytes_allocated :: nat

record nrstring =
  ns_hash :: uint32
  ns_length :: int
  ns_left :: nat
  ns_right :: nat

record nrstrpool =
  num_entries :: nat
  pool_size :: nat
  pool_entries :: "nrstring list"
  pool_strings :: "string ptr list"
  pool_tables :: "nrstable list"

definition NR_STRPOOL_STARTING_SIZE :: nat where "NR_STRPOOL_STARTING_SIZE = 4096"
definition NR_STRPOOL_INCREASE_SIZE :: nat where "NR_STRPOOL_INCREASE_SIZE = 4096"
definition NR_STRPOOL_TABLE_SIZE :: nat where "NR_STRPOOL_TABLE_SIZE = 32768"

definition zero_entry :: nrstring where
  "zero_entry = \<lparr>ns_hash = 0, ns_length = 0, ns_left = 0, ns_right = 0\<rparr>"

definition nr_string_len :: "nrstrpool ptr \<Rightarrow> int \<Rightarrow> int" where
  "nr_string_len pool idx =
     (case pool of None \<Rightarrow> - 1
      | Some p \<Rightarrow> if idx \<le> 0 \<or> idx > int (num_entries p) then - 1
                  else ns_length (pool_entries p ! nat (idx - 1)))"

definition nr_string_hash :: "nrstrpool ptr \<Rightarrow> int \<Rightarrow> uint32" where
  "nr_string_hash pool idx =
     (case pool of None \<Rightarrow> 0
      | Some p \<Rightarrow> if idx \<le> 0 \<or> idx > int (num_entries p) then 0
                  else ns_hash (pool_entries p ! nat (idx - 1)))"

definition nr_string_get :: "nrstrpool ptr \<Rightarrow> int \<Rightarrow> string ptr" where
  "nr_string_get pool idx =
     (case pool of None \<Rightarrow> NULL
      | Some p \<Rightarrow> if idx \<le> 0 \<or> idx > int (num_entries p) then NULL
                  else pool_strings p ! nat (idx - 1))"

definition nr_string_pool_create :: nrstrpool where
  "nr_string_pool_create =
     \<lparr>num_entries = 0, pool_size = NR_STRPOOL_STARTING_SIZE,
      pool_entries = replicate NR_STRPOOL_STARTING_SIZE zero_entry,
      pool_strings = replicate NR_STRPOOL_STARTING_SIZE NULL, pool_tables = []\<rparr>"

definition nr_string_pool_destroy :: "nrstrpool ptr ptr \<Rightarrow> nrstrpool ptr ptr" where
  "nr_string_pool_destroy poolptr = (case poolptr of Some (Some _) \<Rightarrow> Some NULL | _ \<Rightarrow> poolptr)"

text \<open>The comparison of the two searches; \<open>nr_strcmp\<close> of a string and NULL is not 0.\<close>

definition entry_matches :: "nrstrpool \<Rightarrow> string \<Rightarrow> uint32 \<Rightarrow> int \<Rightarrow> nat \<Rightarrow> bool" where
  "entry_matches p str hash len idx \<longleftrightarrow>
     hash = ns_hash (pool_entries p ! (idx - 1)) \<and> len = ns_length (pool_entries p ! (idx - 1))
     \<and> Some str = pool_strings p ! (idx - 1)"

definition next_entry :: "nrstrpool \<Rightarrow> uint32 \<Rightarrow> nat \<Rightarrow> nat" where
  "next_entry p hash idx =
     (let entry = pool_entries p ! (idx - 1)
      in if ns_hash entry < hash then ns_left entry else ns_right entry)"

partial_function (option) find_loop :: "nrstrpool \<Rightarrow> string \<Rightarrow> uint32 \<Rightarrow> int \<Rightarrow> nat \<Rightarrow> nat option" where
  "find_loop p str hash len idx =
     (if idx > 0 then
        (if entry_matches p str hash len idx then Some idx
         else find_loop p str hash len (next_entry p hash idx))
      else Some 0)"

definition nr_string_find_internal ::
  "nrstrpool ptr \<Rightarrow> string ptr \<Rightarrow> uint32 \<Rightarrow> int \<Rightarrow> nat option" where
  "nr_string_find_internal pool str hash len =
     (case (pool, str) of
        (Some p, Some s) \<Rightarrow> if len < 0 then Some 0 else find_loop p s hash len 1
      | _ \<Rightarrow> Some 0)"

definition nr_strlen :: "string ptr \<Rightarrow> int" where
  "nr_strlen str = (case str of None \<Rightarrow> 0 | Some s \<Rightarrow> int (length s))"

definition nr_string_find :: "nrstrpool ptr \<Rightarrow> string ptr \<Rightarrow> nat option" where
  "nr_string_find pool str =
     (let (hash, len) = nr_mkhash str (Some 0) in nr_string_find_internal pool str hash (int (the len)))"

definition nr_string_find_with_hash :: "nrstrpool ptr \<Rightarrow> string ptr \<Rightarrow> uint32 \<Rightarrow> nat option" where
  "nr_string_find_with_hash pool str hash = nr_string_find_internal pool str hash (nr_strlen str)"

definition nr_string_find_with_hash_length ::
  "nrstrpool ptr \<Rightarrow> string ptr \<Rightarrow> uint32 \<Rightarrow> int \<Rightarrow> nat option" where
  "nr_string_find_with_hash_length pool str hash len = nr_string_find_internal pool str hash len"

text \<open>The loop of the insertion stops at a match (\<open>Inl\<close>) or at the parent of the new
  node (\<open>Inr\<close>).\<close>

partial_function (option) place_loop ::
  "nrstrpool \<Rightarrow> string \<Rightarrow> uint32 \<Rightarrow> int \<Rightarrow> nat \<Rightarrow> (nat + nat) option" where
  "place_loop p str hash len idx =
     (if entry_matches p str hash len idx then Some (Inl idx)
      else let nxt = next_entry p hash idx
           in if nxt = 0 then Some (Inr idx) else place_loop p str hash len nxt)"

definition grow_pool :: "nrstrpool \<Rightarrow> nrstrpool" where
  "grow_pool p =
     (if pool_size p = num_entries p then
        p\<lparr>pool_size := pool_size p + NR_STRPOOL_INCREASE_SIZE,
          pool_entries := pool_entries p @ replicate NR_STRPOOL_INCREASE_SIZE zero_entry,
          pool_strings := pool_strings p @ replicate NR_STRPOOL_INCREASE_SIZE NULL\<rparr>
      else p)"

text \<open>Storing the bytes: a new table when the first has no room for them and their NUL. The
  copy writes \<open>length str + 1\<close> bytes; past the end of the table it is an invalid access.\<close>

definition store_bytes :: "nrstable list \<Rightarrow> string \<Rightarrow> nat \<Rightarrow> nrstable list option" where
  "store_bytes tables str len =
     (let tables = (if tables = [] \<or> int (num_bytes_allocated (hd tables)) - int (num_bytes_used (hd tables))
                         < int len + 1
                    then \<lparr>num_bytes_used = 0,
                          num_bytes_allocated = (if len + 1 > NR_STRPOOL_TABLE_SIZE then len + 1
                                                 else NR_STRPOOL_TABLE_SIZE)\<rparr> # tables
                    else tables);
          table = hd tables
      in if num_bytes_used table + length str + 1 > num_bytes_allocated table then None
         else Some (table\<lparr>num_bytes_used := num_bytes_used table + len + 1\<rparr> # tl tables))"

definition link_entry :: "nrstrpool \<Rightarrow> uint32 \<Rightarrow> nat \<Rightarrow> nat \<Rightarrow> nrstrpool" where
  "link_entry p hash idx new_string =
     (if idx = 0 then p
      else let entry = pool_entries p ! (idx - 1)
           in p\<lparr>pool_entries := (pool_entries p)[idx - 1 :=
                  if ns_hash entry < hash then entry\<lparr>ns_left := new_string + 1\<rparr>
                  else entry\<lparr>ns_right := new_string + 1\<rparr>]\<rparr>)"

definition add_entry ::
  "nrstrpool \<Rightarrow> string \<Rightarrow> uint32 \<Rightarrow> nat \<Rightarrow> nat \<Rightarrow> (nat \<times> nrstrpool) option" where
  "add_entry p str hash len idx = do {
     let new_string = num_entries p;
     tables \<leftarrow> store_bytes (pool_tables p) str len;
     let p = p\<lparr>num_entries := num_entries p + 1,
               pool_entries := (pool_entries p)[new_string :=
                 \<lparr>ns_hash = hash, ns_length = int len, ns_left = 0, ns_right = 0\<rparr>],
               pool_strings := (pool_strings p)[new_string := Some str],
               pool_tables := tables\<rparr>;
     Some (new_string + 1, link_entry p hash idx new_string)
   }"

definition nr_string_add_internal ::
  "nrstrpool ptr \<Rightarrow> string ptr \<Rightarrow> uint32 \<Rightarrow> int \<Rightarrow> (nat \<times> nrstrpool ptr) option" where
  "nr_string_add_internal pool str hash len =
     (case (pool, str) of
        (Some p, Some s) \<Rightarrow>
          if len < 0 then Some (0, pool)
          else let p = grow_pool p in
          map_option (apsnd Some)
            (if num_entries p \<noteq> 0 then do {
               r \<leftarrow> place_loop p s hash len 1;
               (case r of Inl idx \<Rightarrow> Some (idx, p) | Inr idx \<Rightarrow> add_entry p s hash (nat len) idx)
             }
             else add_entry p s hash (nat len) 0)
      | _ \<Rightarrow> Some (0, pool))"

definition nr_string_add :: "nrstrpool ptr \<Rightarrow> string ptr \<Rightarrow> (nat \<times> nrstrpool ptr) option" where
  "nr_string_add pool str =
     (let (hash, len) = nr_mkhash str (Some 0) in nr_string_add_internal pool str hash (int (the len)))"

definition nr_string_add_with_hash ::
  "nrstrpool ptr \<Rightarrow> string ptr \<Rightarrow> uint32 \<Rightarrow> (nat \<times> nrstrpool ptr) option" where
  "nr_string_add_with_hash pool str hash = nr_string_add_internal pool str hash (nr_strlen str)"

definition nr_string_add_with_hash_length ::
  "nrstrpool ptr \<Rightarrow> string ptr \<Rightarrow> uint32 \<Rightarrow> int \<Rightarrow> (nat \<times> nrstrpool ptr) option" where
  "nr_string_add_with_hash_length pool str hash len = nr_string_add_internal pool str hash len"

definition nr_string_pool_apply ::
  "nrstrpool ptr \<Rightarrow> (string ptr \<Rightarrow> int \<Rightarrow> 's \<Rightarrow> 's) \<Rightarrow> 's \<Rightarrow> 's" where
  "nr_string_pool_apply pool apply_func s =
     (case pool of None \<Rightarrow> s
      | Some p \<Rightarrow> fold (\<lambda>i. apply_func (pool_strings p ! i) (ns_length (pool_entries p ! i)))
                    [0..<num_entries p] s)"

section \<open>The tree\<close>

text \<open>Children come later in the array than their parents.\<close>

definition pool_shape :: "nrstrpool \<Rightarrow> bool" where
  "pool_shape p \<longleftrightarrow> num_entries p \<le> pool_size p
     \<and> length (pool_entries p) = pool_size p \<and> length (pool_strings p) = pool_size p
     \<and> (num_entries p = 0 \<longrightarrow> pool_strings p ! 0 = NULL \<and> (\<forall>hash. next_entry p hash 1 = 0))
     \<and> (\<forall>i \<in> {1..num_entries p}. \<forall>hash. next_entry p hash i \<noteq> 0 \<longrightarrow>
          i < next_entry p hash i \<and> next_entry p hash i \<le> num_entries p)"

text \<open>Every stored string is found from the root under its own hash.\<close>

definition pool_inv :: "nrstrpool \<Rightarrow> bool" where
  "pool_inv p \<longleftrightarrow> pool_shape p
     \<and> (\<forall>i \<in> {1..num_entries p}. \<exists>s. pool_strings p ! (i - 1) = Some s
          \<and> place_loop p s (string_hash s) (int (length s)) 1 = Some (Inl i))
     \<and> (\<forall>t \<in> set (pool_tables p). num_bytes_used t \<le> num_bytes_allocated t)"

definition pool_list :: "nrstrpool \<Rightarrow> string list" where
  "pool_list p = map the (take (num_entries p) (pool_strings p))"

lemma pool_shape_next:
  "pool_shape p \<Longrightarrow> 1 \<le> i \<Longrightarrow> i \<le> num_entries p \<Longrightarrow> next_entry p hash i \<noteq> 0 \<Longrightarrow>
     i < next_entry p hash i \<and> next_entry p hash i \<le> num_entries p"
  by (simp add: pool_shape_def)

text \<open>Induction along the path of a search.\<close>

lemma path_induct [consumes 3, case_names node]:
  assumes "pool_shape p" and "1 \<le> idx" and "idx \<le> num_entries p"
    and "\<And>idx. 1 \<le> idx \<Longrightarrow> idx \<le> num_entries p \<Longrightarrow>
      (next_entry p hash idx \<noteq> 0 \<Longrightarrow> next_entry p hash idx \<le> num_entries p \<Longrightarrow>
         idx < next_entry p hash idx \<Longrightarrow> P (next_entry p hash idx)) \<Longrightarrow> P idx"
  shows "P idx"
  using assms(2,3)
proof (induction "num_entries p - idx" arbitrary: idx rule: less_induct)
  case less
  show ?case
  proof (rule assms(4) [OF less.prems])
    assume "next_entry p hash idx \<le> num_entries p" "idx < next_entry p hash idx"
    then show "P (next_entry p hash idx)" using less.hyps [of "next_entry p hash idx"] less.prems by simp
  qed
qed

lemma place_loop_cases:
  assumes "pool_shape p" and "1 \<le> idx" and "idx \<le> num_entries p"
  shows "(\<exists>i. place_loop p str hash len idx = Some (Inl i) \<and> 1 \<le> i \<and> i \<le> num_entries p
           \<and> entry_matches p str hash len i)
       \<or> (\<exists>i. place_loop p str hash len idx = Some (Inr i) \<and> 1 \<le> i \<and> i \<le> num_entries p
           \<and> next_entry p hash i = 0)"
  using assms
proof (induction rule: path_induct [where hash = hash])
  case (node idx)
  show ?case
  proof (cases "entry_matches p str hash len idx \<or> next_entry p hash idx = 0")
    case True
    with node show ?thesis by (subst (1 2) place_loop.simps) (auto simp: Let_def)
  next
    case False
    then have "place_loop p str hash len idx = place_loop p str hash len (next_entry p hash idx)"
      by (subst place_loop.simps) (simp add: Let_def)
    with False node pool_shape_next [OF assms(1) node(1,2), of hash] show ?thesis by simp
  qed
qed

lemma find_place:
  assumes "pool_shape p" and "1 \<le> idx" and "idx \<le> num_entries p"
  shows "find_loop p str hash len idx =
    (case place_loop p str hash len idx of Some (Inl i) \<Rightarrow> Some i | Some (Inr i) \<Rightarrow> Some 0 | None \<Rightarrow> None)"
  using assms
proof (induction rule: path_induct [where hash = hash])
  case (node idx)
  then show ?case
    using pool_shape_next [OF assms(1) node(1,2), of hash]
    by (subst find_loop.simps, subst place_loop.simps)
       (auto simp: Let_def find_loop.simps [of p str hash len 0])
qed

text \<open>A pool that keeps its entries and their links and only adds links where there were none
  finds what was found before.\<close>

definition extends :: "nrstrpool \<Rightarrow> nrstrpool \<Rightarrow> bool" where
  "extends p p' \<longleftrightarrow> (\<forall>i \<in> {1..num_entries p}. pool_strings p' ! (i - 1) = pool_strings p ! (i - 1)
     \<and> ns_hash (pool_entries p' ! (i - 1)) = ns_hash (pool_entries p ! (i - 1))
     \<and> ns_length (pool_entries p' ! (i - 1)) = ns_length (pool_entries p ! (i - 1))
     \<and> (\<forall>hash. next_entry p hash i \<noteq> 0 \<longrightarrow> next_entry p' hash i = next_entry p hash i))"

lemma extends_matches:
  "extends p p' \<Longrightarrow> 1 \<le> i \<Longrightarrow> i \<le> num_entries p \<Longrightarrow>
     entry_matches p' str hash len i = entry_matches p str hash len i"
  by (simp add: extends_def entry_matches_def)

lemma extends_next:
  "extends p p' \<Longrightarrow> 1 \<le> i \<Longrightarrow> i \<le> num_entries p \<Longrightarrow> next_entry p hash i \<noteq> 0 \<Longrightarrow>
     next_entry p' hash i = next_entry p hash i"
  by (simp add: extends_def)

lemma place_loop_extends:
  assumes "pool_shape p" and "1 \<le> idx" and "idx \<le> num_entries p" and ext: "extends p p'"
    and "place_loop p str hash len idx = Some (Inl i)"
  shows "place_loop p' str hash len idx = Some (Inl i)"
  using assms(1,2,3,5)
proof (induction rule: path_induct [where hash = hash])
  case (node idx)
  show ?case
  proof (cases "entry_matches p str hash len idx")
    case True
    with node extends_matches [OF ext node(1,2)] show ?thesis
      by (subst (asm) place_loop.simps, subst place_loop.simps) simp
  next
    case False
    with node(4) have nz: "next_entry p hash idx \<noteq> 0"
      by (subst (asm) place_loop.simps) (auto simp: Let_def split: if_splits)
    with False node(4) have "place_loop p str hash len (next_entry p hash idx) = Some (Inl i)"
      by (subst (asm) place_loop.simps) (simp add: Let_def)
    with node(3) nz pool_shape_next [OF assms(1) node(1,2) nz] False
      extends_matches [OF ext node(1,2)] extends_next [OF ext node(1,2) nz]
    show ?thesis by (subst place_loop.simps) (simp add: Let_def)
  qed
qed

section \<open>Adding an entry\<close>

text \<open>\<open>p'\<close> is \<open>p\<close> with one more entry hung below \<open>idx\<close>, or as the root.\<close>

definition grown_by :: "nrstrpool \<Rightarrow> nrstrpool \<Rightarrow> string \<Rightarrow> uint32 \<Rightarrow> int \<Rightarrow> nat \<Rightarrow> bool" where
  "grown_by p p' str hash len idx \<longleftrightarrow>
     extends p p' \<and> num_entries p' = num_entries p + 1 \<and> pool_size p' = pool_size p
     \<and> length (pool_entries p') = pool_size p' \<and> length (pool_strings p') = pool_size p'
     \<and> pool_strings p' = (pool_strings p)[num_entries p := Some str]
     \<and> entry_matches p' str hash len (num_entries p + 1)
     \<and> (idx \<noteq> 0 \<longrightarrow> next_entry p' hash idx = num_entries p + 1)
     \<and> (\<forall>h. next_entry p' h (num_entries p + 1) = 0)
     \<and> (\<forall>i \<in> {1..num_entries p}. \<forall>h. next_entry p' h i = next_entry p h i
          \<or> next_entry p' h i = num_entries p + 1)"

lemma link_entry_grown:
  assumes shape: "pool_shape p" and room: "num_entries p < pool_size p" and idx: "idx \<le> num_entries p"
    and none: "idx \<noteq> 0 \<Longrightarrow> next_entry p hash idx = 0"
  shows "grown_by p (link_entry (p\<lparr>num_entries := num_entries p + 1,
      pool_entries := (pool_entries p)[num_entries p :=
        \<lparr>ns_hash = hash, ns_length = len, ns_left = 0, ns_right = 0\<rparr>],
      pool_strings := (pool_strings p)[num_entries p := Some str], pool_tables := ts\<rparr>)
      hash idx (num_entries p)) str hash len idx"
proof -
  let ?n = "num_entries p" and ?e = "\<lparr>ns_hash = hash, ns_length = len, ns_left = 0, ns_right = 0\<rparr>"
  let ?p = "p\<lparr>num_entries := ?n + 1, pool_entries := (pool_entries p)[?n := ?e],
      pool_strings := (pool_strings p)[?n := Some str], pool_tables := ts\<rparr>"
  define q where "q = link_entry ?p hash idx ?n"
  have len: "length (pool_entries p) = pool_size p" "length (pool_strings p) = pool_size p"
    using shape by (simp_all add: pool_shape_def)
  have idx': "idx - 1 < ?n" if "idx \<noteq> 0" using that idx by simp
  have ent: "pool_entries q ! (i - 1) =
      (if i = ?n + 1 then ?e
       else if i = idx then (if ns_hash (pool_entries p ! (i - 1)) < hash
              then (pool_entries p ! (i - 1))\<lparr>ns_left := ?n + 1\<rparr>
              else (pool_entries p ! (i - 1))\<lparr>ns_right := ?n + 1\<rparr>)
       else pool_entries p ! (i - 1))" if "1 \<le> i" "i \<le> ?n + 1" for i
    using that len room idx idx' by (auto simp: q_def link_entry_def Let_def nth_list_update)
  have flds: "num_entries q = ?n + 1" "pool_size q = pool_size p"
    "pool_strings q = (pool_strings p)[?n := Some str]" "length (pool_entries q) = pool_size p"
    using len by (simp_all add: q_def link_entry_def Let_def)
  have "extends p q"
    unfolding extends_def
  proof (intro ballI)
    fix i
    assume i: "i \<in> {1..?n}"
    with ent [of i] have e: "pool_entries q ! (i - 1) =
      (if i = idx then (if ns_hash (pool_entries p ! (i - 1)) < hash
              then (pool_entries p ! (i - 1))\<lparr>ns_left := ?n + 1\<rparr>
              else (pool_entries p ! (i - 1))\<lparr>ns_right := ?n + 1\<rparr>)
       else pool_entries p ! (i - 1))" by simp
    have "\<forall>h. next_entry p h i \<noteq> 0 \<longrightarrow> next_entry q h i = next_entry p h i"
      using none e i unfolding next_entry_def Let_def by (auto split: if_splits)
    then show "pool_strings q ! (i - 1) = pool_strings p ! (i - 1)
        \<and> ns_hash (pool_entries q ! (i - 1)) = ns_hash (pool_entries p ! (i - 1))
        \<and> ns_length (pool_entries q ! (i - 1)) = ns_length (pool_entries p ! (i - 1))
        \<and> (\<forall>h. next_entry p h i \<noteq> 0 \<longrightarrow> next_entry q h i = next_entry p h i)"
      using e i flds(3) by auto
  qed
  moreover have "entry_matches q str hash len (?n + 1)"
    using ent [of "?n + 1"] flds room len by (simp add: entry_matches_def)
  moreover have "idx \<noteq> 0 \<Longrightarrow> next_entry q hash idx = ?n + 1"
    using ent [of idx] idx by (simp add: next_entry_def Let_def)
  moreover have "next_entry q h (?n + 1) = 0" for h
    using ent [of "?n + 1"] by (simp add: next_entry_def Let_def)
  moreover have "next_entry q h i = next_entry p h i \<or> next_entry q h i = ?n + 1"
    if "1 \<le> i" "i \<le> ?n" for h i
    using ent [of i] that by (simp add: next_entry_def Let_def)
  ultimately have "grown_by p q str hash len idx" unfolding grown_by_def using flds len by simp
  then show ?thesis by (simp add: q_def)
qed

lemma place_loop_new:
  assumes "pool_shape p" and "1 \<le> j" and "j \<le> num_entries p" and g: "grown_by p p' str hash len idx"
    and "idx \<noteq> 0" and "place_loop p str hash len j = Some (Inr idx)"
  shows "place_loop p' str hash len j = Some (Inl (num_entries p + 1))"
  using assms(1,2,3,6)
proof (induction rule: path_induct [where hash = hash])
  case (node j)
  let ?n = "num_entries p"
  have ext: "extends p p'" and nx: "next_entry p' hash idx = ?n + 1"
    and m: "entry_matches p' str hash len (?n + 1)"
    using g assms(5) by (simp_all add: grown_by_def)
  have new: "place_loop p' str hash len (?n + 1) = Some (Inl (?n + 1))"
    using m by (subst place_loop.simps) simp
  have nm: "\<not> entry_matches p str hash len j"
    using node(4) by (subst (asm) place_loop.simps) (auto split: if_splits)
  note nm' = nm [folded extends_matches [OF ext node(1,2)]]
  show ?case
  proof (cases "next_entry p hash j = 0")
    case True
    then have "j = idx" using node(4) nm by (subst (asm) place_loop.simps) (auto simp: Let_def)
    then show ?thesis using nx nm' new by (subst place_loop.simps) (simp add: Let_def)
  next
    case False
    with node(4) nm have "place_loop p str hash len (next_entry p hash j) = Some (Inr idx)"
      by (subst (asm) place_loop.simps) (simp add: Let_def)
    with node(3) False pool_shape_next [OF assms(1) node(1,2) False] nm'
      extends_next [OF ext node(1,2) False]
    show ?thesis by (subst place_loop.simps) (simp add: Let_def)
  qed
qed

lemma grown_shape:
  assumes "pool_shape p" and "num_entries p < pool_size p" and "grown_by p p' str hash len idx"
  shows "pool_shape p'"
proof -
  have "i < next_entry p' h i \<and> next_entry p' h i \<le> num_entries p'"
    if i: "i \<in> {1..num_entries p'}" "next_entry p' h i \<noteq> 0" for i h
  proof (cases "i = num_entries p + 1")
    case True
    with i assms(3) show ?thesis by (simp add: grown_by_def)
  next
    case False
    then have "1 \<le> i" "i \<le> num_entries p" using i assms(3) by (auto simp: grown_by_def)
    moreover from this have "next_entry p' h i = next_entry p h i \<or> next_entry p' h i = num_entries p + 1"
      using assms(3) by (simp add: grown_by_def)
    moreover have "num_entries p' = num_entries p + 1" using assms(3) by (simp add: grown_by_def)
    ultimately show ?thesis using i(2) pool_shape_next [OF assms(1), of i h] by auto
  qed
  then show ?thesis using assms unfolding pool_shape_def by (auto simp: grown_by_def)
qed

lemma pool_inv_entry:
  assumes "pool_inv p" and "1 \<le> i" and "i \<le> num_entries p"
  shows "pool_strings p ! (i - 1) = Some (pool_list p ! (i - 1))"
    "place_loop p (pool_list p ! (i - 1)) (string_hash (pool_list p ! (i - 1)))
       (int (length (pool_list p ! (i - 1)))) 1 = Some (Inl i)"
proof -
  obtain s where s: "pool_strings p ! (i - 1) = Some s"
    "place_loop p s (string_hash s) (int (length s)) 1 = Some (Inl i)"
    using assms unfolding pool_inv_def by (metis atLeastAtMost_iff)
  moreover have "pool_list p ! (i - 1) = s"
    using assms s(1) by (simp add: pool_list_def pool_inv_def pool_shape_def)
  ultimately show "pool_strings p ! (i - 1) = Some (pool_list p ! (i - 1))"
    "place_loop p (pool_list p ! (i - 1)) (string_hash (pool_list p ! (i - 1)))
       (int (length (pool_list p ! (i - 1)))) 1 = Some (Inl i)" by simp_all
qed

lemma length_pool_list: "pool_inv p \<Longrightarrow> length (pool_list p) = num_entries p"
  by (simp add: pool_list_def pool_inv_def pool_shape_def)

lemma pool_list_distinct:
  assumes "pool_inv p"
  shows "distinct (pool_list p)"
  unfolding distinct_conv_nth length_pool_list [OF assms]
proof (intro allI impI)
  fix i j
  assume "i < num_entries p" "j < num_entries p" "i \<noteq> j"
  then show "pool_list p ! i \<noteq> pool_list p ! j"
    using pool_inv_entry(2) [OF assms, of "Suc i"] pool_inv_entry(2) [OF assms, of "Suc j"] by auto
qed

text \<open>The search decides membership.\<close>

lemma place_loop_member:
  assumes inv: "pool_inv p" and "0 < num_entries p"
  shows "(\<exists>i. place_loop p s (string_hash s) (int (length s)) 1 = Some (Inl i) \<and> 1 \<le> i
            \<and> i \<le> num_entries p \<and> pool_list p ! (i - 1) = s)
       \<or> (s \<notin> set (pool_list p) \<and> (\<exists>i. place_loop p s (string_hash s) (int (length s)) 1 = Some (Inr i)
            \<and> 1 \<le> i \<and> i \<le> num_entries p \<and> next_entry p (string_hash s) i = 0))"
proof -
  have shape: "pool_shape p" using inv by (simp add: pool_inv_def)
  have mem: "\<exists>i. place_loop p s (string_hash s) (int (length s)) 1 = Some (Inl i)"
    if "s \<in> set (pool_list p)"
    using that pool_inv_entry(2) [OF inv, of "Suc i" for i]
    by (auto simp: in_set_conv_nth length_pool_list [OF inv])
  from place_loop_cases [OF shape _ _, of 1 s "string_hash s" "int (length s)"] assms(2)
  consider (found) i where "place_loop p s (string_hash s) (int (length s)) 1 = Some (Inl i)"
      "1 \<le> i" "i \<le> num_entries p" "entry_matches p s (string_hash s) (int (length s)) i"
    | (absent) i where "place_loop p s (string_hash s) (int (length s)) 1 = Some (Inr i)"
      "1 \<le> i" "i \<le> num_entries p" "next_entry p (string_hash s) i = 0" by auto
  then show ?thesis
  proof cases
    case found
    then show ?thesis using pool_inv_entry(1) [OF inv, of i] by (auto simp: entry_matches_def)
  next
    case absent
    then show ?thesis using mem by auto
  qed
qed

lemma pool_inv_extends:
  assumes inv: "pool_inv p" and ext: "extends p p'" and shape: "pool_shape p'"
    and tables: "\<forall>t \<in> set (pool_tables p'). num_bytes_used t \<le> num_bytes_allocated t"
    and new: "\<And>i. num_entries p < i \<Longrightarrow> i \<le> num_entries p' \<Longrightarrow> \<exists>s. pool_strings p' ! (i - 1) = Some s
      \<and> place_loop p' s (string_hash s) (int (length s)) 1 = Some (Inl i)"
  shows "pool_inv p'"
  unfolding pool_inv_def
proof (intro conjI shape tables ballI)
  fix i
  assume i: "i \<in> {1..num_entries p'}"
  show "\<exists>s. pool_strings p' ! (i - 1) = Some s
      \<and> place_loop p' s (string_hash s) (int (length s)) 1 = Some (Inl i)"
  proof (cases "i \<le> num_entries p")
    case True
    note e = pool_inv_entry [OF inv _ True]
    have "place_loop p' (pool_list p ! (i - 1)) (string_hash (pool_list p ! (i - 1)))
       (int (length (pool_list p ! (i - 1)))) 1 = Some (Inl i)"
      by (rule place_loop_extends [OF _ _ _ ext]) (use inv i True e(2) in \<open>auto simp: pool_inv_def\<close>)
    moreover have "pool_strings p' ! (i - 1) = Some (pool_list p ! (i - 1))"
      using ext i True e(1) by (simp add: extends_def)
    ultimately show ?thesis by blast
  next
    case False
    with i new show ?thesis by simp
  qed
qed

lemma grow_pool_spec:
  assumes "pool_inv p"
  shows "pool_inv (grow_pool p)" "pool_list (grow_pool p) = pool_list p"
    "num_entries (grow_pool p) < pool_size (grow_pool p)" "num_entries (grow_pool p) = num_entries p"
proof -
  have shape: "pool_shape p" using assms by (simp add: pool_inv_def)
  then have len: "length (pool_entries p) = pool_size p" "length (pool_strings p) = pool_size p"
    "num_entries p \<le> pool_size p" by (simp_all add: pool_shape_def)
  show n: "num_entries (grow_pool p) = num_entries p" by (simp add: grow_pool_def)
  show "num_entries (grow_pool p) < pool_size (grow_pool p)"
    using len by (simp add: grow_pool_def NR_STRPOOL_INCREASE_SIZE_def)
  have nth: "pool_entries (grow_pool p) ! (i - 1) = pool_entries p ! (i - 1)
      \<and> pool_strings (grow_pool p) ! (i - 1) = pool_strings p ! (i - 1)" if "i \<in> {1..num_entries p}" for i
  proof -
    have "i - 1 < num_entries p" using that by auto
    then show ?thesis using len by (simp add: grow_pool_def nth_append)
  qed
  then have ext: "extends p (grow_pool p)" by (simp add: extends_def next_entry_def)
  have "pool_shape (grow_pool p)"
  proof (cases "pool_size p = num_entries p \<and> num_entries p = 0")
    case True
    then show ?thesis using shape
      by (simp add: pool_shape_def grow_pool_def next_entry_def zero_entry_def Let_def
          NR_STRPOOL_INCREASE_SIZE_def)
  next
    case False
    then have "pool_entries (grow_pool p) ! 0 = pool_entries p ! 0"
      "pool_strings (grow_pool p) ! 0 = pool_strings p ! 0"
      using len by (auto simp: grow_pool_def nth_append)
    with nth shape len show ?thesis
      by (auto simp: pool_shape_def next_entry_def grow_pool_def)
  qed
  then show "pool_inv (grow_pool p)"
    by (rule pool_inv_extends [OF assms ext]) (use assms n in \<open>auto simp: pool_inv_def grow_pool_def\<close>)
  show "pool_list (grow_pool p) = pool_list p" using len by (simp add: pool_list_def grow_pool_def)
qed

lemma store_bytes_spec:
  assumes "\<forall>t \<in> set tables. num_bytes_used t \<le> num_bytes_allocated t"
  shows "\<exists>ts. store_bytes tables str (length str) = Some ts
    \<and> (\<forall>t \<in> set ts. num_bytes_used t \<le> num_bytes_allocated t)"
proof (cases "tables = [] \<or> int (num_bytes_allocated (hd tables)) - int (num_bytes_used (hd tables))
    < int (length str) + 1")
  case True
  then show ?thesis using assms by (auto simp: store_bytes_def Let_def NR_STRPOOL_TABLE_SIZE_def)
next
  case False
  then show ?thesis using assms by (cases tables) (auto simp: store_bytes_def Let_def)
qed

lemma add_entry_spec:
  assumes inv: "pool_inv p" and room: "num_entries p < pool_size p" and idx: "idx \<le> num_entries p"
    and place: "if num_entries p = 0 then idx = 0
      else idx \<noteq> 0 \<and> place_loop p s (string_hash s) (int (length s)) 1 = Some (Inr idx)
           \<and> next_entry p (string_hash s) idx = 0"
  shows "\<exists>p'. add_entry p s (string_hash s) (length s) idx = Some (num_entries p + 1, p') \<and> pool_inv p'
    \<and> pool_list p' = pool_list p @ [s]"
proof -
  let ?n = "num_entries p" and ?h = "string_hash s" and ?l = "int (length s)"
  from store_bytes_spec [of "pool_tables p" s] inv obtain ts where
    ts: "store_bytes (pool_tables p) s (length s) = Some ts"
      "\<forall>t \<in> set ts. num_bytes_used t \<le> num_bytes_allocated t"
    by (auto simp: pool_inv_def)
  have shape: "pool_shape p" using inv by (simp add: pool_inv_def)
  define p' where "p' = link_entry (p\<lparr>num_entries := ?n + 1,
      pool_entries := (pool_entries p)[?n := \<lparr>ns_hash = ?h, ns_length = ?l, ns_left = 0, ns_right = 0\<rparr>],
      pool_strings := (pool_strings p)[?n := Some s], pool_tables := ts\<rparr>) ?h idx ?n"
  have g: "grown_by p p' s ?h ?l idx"
    unfolding p'_def by (rule link_entry_grown [OF shape room idx]) (use place in \<open>auto split: if_splits\<close>)
  have "place_loop p' s ?h ?l 1 = Some (Inl (?n + 1))"
  proof (cases "?n = 0")
    case True
    with g show ?thesis by (subst place_loop.simps) (simp add: grown_by_def)
  next
    case False
    with place place_loop_new [OF shape _ _ g, of 1] show ?thesis by simp
  qed
  moreover have "pool_strings p' ! ?n = Some s" "num_entries p' = ?n + 1"
    using g room shape by (simp_all add: grown_by_def pool_shape_def)
  moreover have "pool_tables p' = ts" by (simp add: p'_def link_entry_def Let_def)
  ultimately have "pool_inv p'"
    using g ts(2) by (intro pool_inv_extends [OF inv _ grown_shape [OF shape room g]])
      (auto simp: grown_by_def le_Suc_eq)
  moreover have "pool_list p' = pool_list p @ [s]"
    using g room shape by (simp add: pool_list_def grown_by_def pool_shape_def take_Suc_conv_app_nth)
  moreover have "add_entry p s ?h (length s) idx = Some (?n + 1, p')"
    using ts(1) by (simp add: add_entry_def p'_def Let_def)
  ultimately show ?thesis by blast
qed

section \<open>Properties\<close>

lemma nr_string_get_eq:
  "pool_inv p \<Longrightarrow> nr_string_get (Some p) i =
     (if 1 \<le> i \<and> i \<le> int (length (pool_list p)) then Some (pool_list p ! nat (i - 1)) else NULL)"
  using pool_inv_entry(1) [of p "nat i"]
  by (auto simp: nr_string_get_def length_pool_list nat_diff_distrib)

definition c_string :: "string \<Rightarrow> bool" where
  "c_string s \<longleftrightarrow> CHR 0x00 \<notin> set s"

lemma pool_inv_create: "pool_inv nr_string_pool_create" "pool_list nr_string_pool_create = []"
  by (simp_all add: pool_inv_def pool_shape_def pool_list_def nr_string_pool_create_def
      NR_STRPOOL_STARTING_SIZE_def next_entry_def zero_entry_def Let_def)

lemma nr_string_find_spec:
  assumes "pool_inv p" and "c_string s"
  shows "\<exists>i. nr_string_find (Some p) (Some s) = Some i
    \<and> (if s \<in> set (pool_list p) then nr_string_get (Some p) (int i) = Some s else i = 0)"
proof -
  have f: "nr_string_find (Some p) (Some s) = find_loop p s (string_hash s) (int (length s)) 1"
    using nr_mkhash_length [of s] assms(2)
    by (simp add: nr_string_find_def nr_string_find_internal_def c_string_def)
  show ?thesis
  proof (cases "num_entries p = 0")
    case True
    then have "pool_strings p ! 0 = NULL" "next_entry p (string_hash s) 1 = 0"
      using assms(1) by (simp_all add: pool_inv_def pool_shape_def)
    then have "find_loop p s (string_hash s) (int (length s)) 1 = Some 0"
      by (subst find_loop.simps) (simp add: entry_matches_def find_loop.simps [of _ _ _ _ 0])
    then show ?thesis using True f length_pool_list [OF assms(1)] by simp
  next
    case False
    then have fp: "find_loop p s (string_hash s) (int (length s)) 1 =
      (case place_loop p s (string_hash s) (int (length s)) 1 of
         Some (Inl i) \<Rightarrow> Some i | Some (Inr i) \<Rightarrow> Some 0 | None \<Rightarrow> None)"
      using find_place [of p 1] assms(1) by (simp add: pool_inv_def)
    have "0 < num_entries p" using False by simp
    from place_loop_member [OF assms(1) this, of s] show ?thesis
    proof (elim disjE exE conjE)
      fix i
      assume i: "place_loop p s (string_hash s) (int (length s)) 1 = Some (Inl i)" "1 \<le> i"
        "i \<le> num_entries p" "pool_list p ! (i - 1) = s"
      then have "s \<in> set (pool_list p)" using length_pool_list [OF assms(1)]
        by (metis One_nat_def Suc_le_lessD Suc_pred le_simps(2) nth_mem)
      then show ?thesis using f fp i nr_string_get_eq [OF assms(1), of "int i"] length_pool_list [OF assms(1)]
        by (simp add: nat_diff_distrib)
    next
      fix i
      assume "s \<notin> set (pool_list p)" "place_loop p s (string_hash s) (int (length s)) 1 = Some (Inr i)"
      then show ?thesis using f fp by simp
    qed
  qed
qed

text \<open>The string pool interns strings: on every well-formed pool \<open>nr_string_find\<close> ends and
  returns the index of the string, or 0 exactly when the string is not in the pool, through
  any hash collisions.\<close>

theorem nr_string_find_correct:
  assumes "pool_inv p" and "c_string s"
  shows "\<exists>i. nr_string_find (Some p) (Some s) = Some i
    \<and> (if s \<in> set (pool_list p) then nr_string_get (Some p) (int i) = Some s else i = 0)"
  using assms by (rule nr_string_find_spec)

theorem nr_string_find_correct_witness:
  "nr_string_find (Some nr_string_pool_create) (Some ''main'') = Some 0"
  using nr_string_find_correct [OF pool_inv_create(1), of "''main''"] pool_inv_create(2)
  by (simp add: c_string_def)

lemma nr_string_add_spec:
  assumes inv: "pool_inv p" and s: "c_string s"
  shows "\<exists>i p'. nr_string_add (Some p) (Some s) = Some (i, Some p') \<and> pool_inv p'
    \<and> nr_string_get (Some p') (int i) = Some s
    \<and> pool_list p' = (if s \<in> set (pool_list p) then pool_list p else pool_list p @ [s])"
proof -
  let ?p = "grow_pool p" and ?h = "string_hash s" and ?l = "int (length s)"
  note g = grow_pool_spec [OF inv]
  note len = length_pool_list [OF g(1)]
  have add: "nr_string_add (Some p) (Some s) = map_option (apsnd Some)
      (if num_entries ?p \<noteq> 0 then do {
         r \<leftarrow> place_loop ?p s ?h ?l 1;
         (case r of Inl idx \<Rightarrow> Some (idx, ?p) | Inr idx \<Rightarrow> add_entry ?p s ?h (length s) idx)
       } else add_entry ?p s ?h (length s) 0)"
    using nr_mkhash_length [of s] s
    by (simp add: nr_string_add_def nr_string_add_internal_def c_string_def Let_def)
  have fresh: ?thesis if "add_entry ?p s ?h (length s) idx = Some (num_entries ?p + 1, p')"
    "nr_string_add (Some p) (Some s) = map_option (apsnd Some) (add_entry ?p s ?h (length s) idx)"
    "pool_inv p'" "pool_list p' = pool_list p @ [s]" "s \<notin> set (pool_list p)" for idx p'
    using that g len nr_string_get_eq [OF that(3), of "int (num_entries ?p + 1)"]
    by (auto simp: nth_append)
  show ?thesis
  proof (cases "num_entries ?p = 0")
    case True
    from add_entry_spec [OF g(1,3), of 0 s] True obtain p' where
      "add_entry ?p s ?h (length s) 0 = Some (num_entries ?p + 1, p')" "pool_inv p'"
      "pool_list p' = pool_list ?p @ [s]" by auto
    with fresh add True g(2) len show ?thesis by simp
  next
    case False
    then have "0 < num_entries ?p" by simp
    from place_loop_member [OF g(1) this, of s] show ?thesis
    proof (elim disjE exE conjE)
      fix i
      assume i: "place_loop ?p s ?h ?l 1 = Some (Inl i)" "1 \<le> i"
        "i \<le> num_entries ?p" "pool_list ?p ! (i - 1) = s"
      then have "s \<in> set (pool_list ?p)" using len
        by (metis One_nat_def Suc_le_lessD Suc_pred le_simps(2) nth_mem)
      with i add False g(1,2) nr_string_get_eq [OF g(1), of "int i"] len show ?thesis
        by (auto simp: nat_diff_distrib)
    next
      fix i
      assume i: "s \<notin> set (pool_list ?p)" "place_loop ?p s ?h ?l 1 = Some (Inr i)" "1 \<le> i"
        "i \<le> num_entries ?p" "next_entry ?p ?h i = 0"
      from add_entry_spec [OF g(1,3), of i s] i False obtain p' where
        "add_entry ?p s ?h (length s) i = Some (num_entries ?p + 1, p')" "pool_inv p'"
        "pool_list p' = pool_list ?p @ [s]" by auto
      with fresh add False g(2) i(1,2) show ?thesis by simp
    qed
  qed
qed

section \<open>Interning\<close>

fun intern_all :: "('p \<Rightarrow> 's \<Rightarrow> (nat \<times> 'p) option) \<Rightarrow> 'p \<Rightarrow> 's list \<Rightarrow> (nat list \<times> 'p) option" where
  "intern_all add p [] = Some ([], p)"
| "intern_all add p (s # ss) =
     Option.bind (add p s) (\<lambda>(i, p1). Option.bind (intern_all add p1 ss) (\<lambda>(is, p2). Some (i # is, p2)))"

text \<open>What a client of a pool relies on.\<close>

locale interner =
  fixes add :: "'p \<Rightarrow> 's \<Rightarrow> (nat \<times> 'p) option"
    and get :: "'p \<Rightarrow> nat \<Rightarrow> 's option"
    and invar :: "'p \<Rightarrow> bool"
    and ok :: "'s \<Rightarrow> bool"
  assumes add_law: "invar p \<Longrightarrow> ok s \<Longrightarrow>
      \<exists>i p'. add p s = Some (i, p') \<and> invar p' \<and> get p' i = Some s
        \<and> (\<forall>j t. get p j = Some t \<longrightarrow> get p' j = Some t)"
    and unique_law: "invar p \<Longrightarrow> get p i = Some s \<Longrightarrow> get p j = Some s \<Longrightarrow> i = j"
begin

lemma intern_all_law:
  "invar p \<Longrightarrow> \<forall>s \<in> set ss. ok s \<Longrightarrow>
     \<exists>is p'. intern_all add p ss = Some (is, p') \<and> invar p' \<and> length is = length ss
       \<and> (\<forall>k < length ss. get p' (is ! k) = Some (ss ! k))
       \<and> (\<forall>j t. get p j = Some t \<longrightarrow> get p' j = Some t)"
proof (induction ss arbitrary: p)
  case (Cons s ss)
  from add_law [OF Cons.prems(1), of s] Cons.prems(2) obtain i p1 where
    i: "add p s = Some (i, p1)" "invar p1" "get p1 i = Some s"
      "\<forall>j t. get p j = Some t \<longrightarrow> get p1 j = Some t" by auto
  from Cons.IH [OF i(2)] Cons.prems(2) obtain "is" p' where
    "intern_all add p1 ss = Some (is, p')" "invar p'" "length is = length ss"
    "\<forall>k < length ss. get p' (is ! k) = Some (ss ! k)"
    "\<forall>j t. get p1 j = Some t \<longrightarrow> get p' j = Some t" by auto
  with i show ?case by (auto simp: nth_Cons split: nat.split)
qed simp

lemma intern_indices:
  assumes "invar p" and "\<forall>s \<in> set ss. ok s"
  shows "\<exists>is p'. intern_all add p ss = Some (is, p') \<and> length is = length ss
    \<and> (\<forall>k < length ss. get p' (is ! k) = Some (ss ! k))
    \<and> (\<forall>k < length ss. \<forall>l < length ss. is ! k = is ! l \<longleftrightarrow> ss ! k = ss ! l)"
proof -
  from intern_all_law [OF assms] obtain "is" p' where *:
    "intern_all add p ss = Some (is, p')" "invar p'" "length is = length ss"
    "\<forall>k < length ss. get p' (is ! k) = Some (ss ! k)" by blast
  moreover have "is ! k = is ! l \<longleftrightarrow> ss ! k = ss ! l" if "k < length ss" "l < length ss" for k l
    using *(4) that unique_law [OF *(2), of "is ! k" "ss ! k" "is ! l"] by (metis option.inject)
  ultimately show ?thesis by blast
qed

end

definition pool_add :: "nrstrpool \<Rightarrow> string \<Rightarrow> (nat \<times> nrstrpool) option" where
  "pool_add p s = map_option (apsnd the) (nr_string_add (Some p) (Some s))"

interpretation sp: interner pool_add "\<lambda>p i. nr_string_get (Some p) (int i)" pool_inv c_string
proof
  fix p s
  assume inv: "pool_inv p" and "c_string s"
  from nr_string_add_spec [OF this] obtain i p' where
    *: "nr_string_add (Some p) (Some s) = Some (i, Some p')" "pool_inv p'"
      "nr_string_get (Some p') (int i) = Some s"
      "pool_list p' = (if s \<in> set (pool_list p) then pool_list p else pool_list p @ [s])" by blast
  have "nr_string_get (Some p') (int j) = Some t" if "nr_string_get (Some p) (int j) = Some t" for j t
    using that *(4) nr_string_get_eq [OF inv, of "int j"] nr_string_get_eq [OF *(2), of "int j"]
    by (auto simp: nth_append split: if_splits)
  with * show "\<exists>i p'. pool_add p s = Some (i, p') \<and> pool_inv p'
      \<and> nr_string_get (Some p') (int i) = Some s
      \<and> (\<forall>j t. nr_string_get (Some p) (int j) = Some t \<longrightarrow> nr_string_get (Some p') (int j) = Some t)"
    by (auto simp: pool_add_def)
next
  fix p i s j
  assume inv: "pool_inv p" and "nr_string_get (Some p) (int i) = Some s" "nr_string_get (Some p) (int j) = Some s"
  then have "1 \<le> i" "i \<le> length (pool_list p)" "1 \<le> j" "j \<le> length (pool_list p)"
    "pool_list p ! (i - 1) = pool_list p ! (j - 1)"
    using nr_string_get_eq [OF inv, of "int i"] nr_string_get_eq [OF inv, of "int j"]
    by (auto simp: nat_diff_distrib split: if_splits)
  with nth_eq_iff_index_eq [OF pool_list_distinct [OF inv], of "i - 1" "j - 1"] show "i = j" by auto
qed



end
