(* ===== verification/Hashmap.thy ===== *)
theory Hashmap
  imports Hash Vector
begin

text \<open>
  The hash table of \<^verbatim>\<open>axiom/util_hashmap.c\<close>. A bucket chain is the list of its
  entries in the order of the \<open>next\<close> pointers (the \<open>prev\<close> pointers are the same list
  read backwards); a key is the bytes of the key, its length the length of the list. Values
  handed to the destructor are returned. The table implements the interface
  \<open>dictionary\<close> of its clients.
\<close>

section \<open>The table\<close>

record 'v nr_hashmap =
  has_dtor :: bool
  log2_num_buckets :: nat
  buckets :: "(string \<times> 'v) list list"
  n_elements :: nat

datatype nr_status = NR_SUCCESS | NR_FAILURE

definition nr_hashmap_count_buckets :: "'v nr_hashmap \<Rightarrow> nat" where
  "nr_hashmap_count_buckets h = 2 ^ log2_num_buckets h"

definition nr_hashmap_create_internal :: "nat \<Rightarrow> bool \<Rightarrow> 'v nr_hashmap" where
  "nr_hashmap_create_internal log2 dtor_func =
     (let n = (if log2 = 0 then 8 else if log2 > 24 then 24 else log2)
      in \<lparr>has_dtor = dtor_func, log2_num_buckets = n, buckets = replicate (2 ^ n) [], n_elements = 0\<rparr>)"

definition nr_hashmap_create :: "bool \<Rightarrow> 'v nr_hashmap" where
  "nr_hashmap_create dtor_func = nr_hashmap_create_internal 0 dtor_func"

text \<open>The search for the number of address bits; \<open>fuel\<close> bounds it by the width of
  \<open>int\<close>, at which the shifted 1 becomes negative and, as a \<open>size_t\<close>, greater than
  any number of buckets.\<close>

fun ceil_log2_loop :: "nat \<Rightarrow> nat \<Rightarrow> nat \<Rightarrow> nat" where
  "ceil_log2_loop 0 actual_buckets n = actual_buckets"
| "ceil_log2_loop (Suc fuel) actual_buckets n =
     (if 2 ^ actual_buckets < n then ceil_log2_loop fuel (actual_buckets + 1) n else actual_buckets)"

definition nr_hashmap_create_buckets :: "nat \<Rightarrow> bool \<Rightarrow> 'v nr_hashmap" where
  "nr_hashmap_create_buckets n dtor_func =
     nr_hashmap_create_internal (if n = 0 then 0 else ceil_log2_loop 30 1 n) dtor_func"

definition nr_hashmap_hash_key :: "nat \<Rightarrow> string \<Rightarrow> nat" where
  "nr_hashmap_hash_key log2 key =
     unat (fst (nr_mkhash (Some key) (Some (length key))) AND (push_bit log2 1 - 1))"

text \<open>The bucket found is the position of its entry in the chain.\<close>

fun fetch_loop :: "string \<Rightarrow> (string \<times> 'v) list \<Rightarrow> nat \<Rightarrow> nat option" where
  "fetch_loop key [] i = None"
| "fetch_loop key ((k, v) # bs) i =
     (if length key = length k \<and> key = k then Some i else fetch_loop key bs (Suc i))"

definition nr_hashmap_fetch :: "'v nr_hashmap \<Rightarrow> nat \<Rightarrow> string \<Rightarrow> nat option" where
  "nr_hashmap_fetch h hash_key key = fetch_loop key (buckets h ! hash_key) 0"

definition nr_hashmap_add_internal :: "'v nr_hashmap \<Rightarrow> nat \<Rightarrow> string \<Rightarrow> 'v \<Rightarrow> 'v nr_hashmap" where
  "nr_hashmap_add_internal h hash_key key v =
     h\<lparr>buckets := (buckets h)[hash_key := (key, v) # buckets h ! hash_key],
       n_elements := n_elements h + 1\<rparr>"

text \<open>The values the destructor is called on.\<close>

definition nr_hashmap_destroy_bucket :: "bool \<Rightarrow> 'v \<Rightarrow> 'v list" where
  "nr_hashmap_destroy_bucket dtor_func v = (if dtor_func then [v] else [])"

definition nr_hashmap_destroy :: "'v nr_hashmap ptr ptr \<Rightarrow> 'v list \<times> 'v nr_hashmap ptr ptr" where
  "nr_hashmap_destroy hp =
     (case hp of Some (Some h) \<Rightarrow>
        (concat (map (\<lambda>b. concat (map (\<lambda>(k, v). nr_hashmap_destroy_bucket (has_dtor h) v) b)) (buckets h)),
         Some NULL)
      | _ \<Rightarrow> ([], hp))"

definition nr_hashmap_apply ::
  "'v nr_hashmap ptr \<Rightarrow> ('v \<Rightarrow> string \<Rightarrow> 's \<Rightarrow> 's) ptr \<Rightarrow> 's \<Rightarrow> 's" where
  "nr_hashmap_apply hashmap apply_func s =
     (case (hashmap, apply_func) of
        (Some h, Some f) \<Rightarrow> fold (\<lambda>b. fold (\<lambda>(k, v). f v k) b) (buckets h) s
      | _ \<Rightarrow> s)"

definition nr_hashmap_count :: "'v nr_hashmap ptr \<Rightarrow> nat" where
  "nr_hashmap_count hashmap = (case hashmap of None \<Rightarrow> 0 | Some h \<Rightarrow> n_elements h)"

definition nr_hashmap_delete ::
  "'v nr_hashmap ptr \<Rightarrow> string ptr \<Rightarrow> nr_status \<times> 'v list \<times> 'v nr_hashmap ptr" where
  "nr_hashmap_delete hashmap key =
     (case (hashmap, key) of
        (Some h, Some k) \<Rightarrow>
          if k = [] then (NR_FAILURE, [], hashmap)
          else let hash = nr_hashmap_hash_key (log2_num_buckets h) k; b = buckets h ! hash in
            (case nr_hashmap_fetch h hash k of
               None \<Rightarrow> (NR_FAILURE, [], hashmap)
             | Some i \<Rightarrow>
                 (NR_SUCCESS, nr_hashmap_destroy_bucket (has_dtor h) (snd (b ! i)),
                  Some (h\<lparr>buckets := (buckets h)[hash := take i b @ drop (Suc i) b],
                          n_elements := n_elements h - 1\<rparr>)))
      | _ \<Rightarrow> (NR_FAILURE, [], hashmap))"

text \<open>\<open>value_ptr\<close> is NULL or the old contents of the caller's variable.\<close>

definition nr_hashmap_get_into ::
  "'v nr_hashmap ptr \<Rightarrow> string ptr \<Rightarrow> 'v ptr ptr \<Rightarrow> bool \<times> 'v ptr ptr" where
  "nr_hashmap_get_into hashmap key value_ptr =
     (case (hashmap, key, value_ptr) of
        (Some h, Some k, Some _) \<Rightarrow>
          if k = [] then (False, value_ptr)
          else let hash = nr_hashmap_hash_key (log2_num_buckets h) k in
            (case nr_hashmap_fetch h hash k of
               None \<Rightarrow> (False, value_ptr)
             | Some i \<Rightarrow> (True, Some (Some (snd (buckets h ! hash ! i)))))
      | _ \<Rightarrow> (False, value_ptr))"

definition nr_hashmap_get :: "'v nr_hashmap ptr \<Rightarrow> string ptr \<Rightarrow> 'v ptr" where
  "nr_hashmap_get hashmap key =
     (case nr_hashmap_get_into hashmap key (Some NULL) of
        (True, Some v) \<Rightarrow> v | _ \<Rightarrow> NULL)"

definition nr_hashmap_has :: "'v nr_hashmap ptr \<Rightarrow> string ptr \<Rightarrow> bool" where
  "nr_hashmap_has hashmap key =
     (case (hashmap, key) of
        (Some h, Some k) \<Rightarrow>
          k \<noteq> [] \<and> nr_hashmap_fetch h (nr_hashmap_hash_key (log2_num_buckets h) k) k \<noteq> None
      | _ \<Rightarrow> False)"

definition nr_hashmap_set ::
  "'v nr_hashmap ptr \<Rightarrow> string ptr \<Rightarrow> 'v \<Rightarrow> nr_status \<times> 'v nr_hashmap ptr" where
  "nr_hashmap_set hashmap key v =
     (case (hashmap, key) of
        (Some h, Some k) \<Rightarrow>
          if k = [] then (NR_FAILURE, hashmap)
          else let hash = nr_hashmap_hash_key (log2_num_buckets h) k in
            if nr_hashmap_fetch h hash k \<noteq> None then (NR_FAILURE, hashmap)
            else (NR_SUCCESS, Some (nr_hashmap_add_internal h hash k v))
      | _ \<Rightarrow> (NR_FAILURE, hashmap))"

definition nr_hashmap_update ::
  "'v nr_hashmap ptr \<Rightarrow> string ptr \<Rightarrow> 'v \<Rightarrow> 'v list \<times> 'v nr_hashmap ptr" where
  "nr_hashmap_update hashmap key v =
     (case (hashmap, key) of
        (Some h, Some k) \<Rightarrow>
          if k = [] then ([], hashmap)
          else let hash = nr_hashmap_hash_key (log2_num_buckets h) k; b = buckets h ! hash in
            (case nr_hashmap_fetch h hash k of
               Some i \<Rightarrow> ((if has_dtor h then [snd (b ! i)] else []),
                          Some (h\<lparr>buckets := (buckets h)[hash := b[i := (fst (b ! i), v)]]\<rparr>))
             | None \<Rightarrow> ([], Some (nr_hashmap_add_internal h hash k v)))
      | _ \<Rightarrow> ([], hashmap))"

definition nr_hashmap_keys :: "'v nr_hashmap ptr \<Rightarrow> string nr_vector ptr option" where
  "nr_hashmap_keys hashmap =
     (case hashmap of None \<Rightarrow> Some NULL
      | Some h \<Rightarrow>
          nr_hashmap_apply hashmap
            (Some (\<lambda>v k keys. do { vec \<leftarrow> keys; (_, vec) \<leftarrow> nr_vector_push_back vec (Some k); Some vec }))
            (Some (nr_vector_create (of_nat (nr_hashmap_count hashmap)) True)))"

text \<open>An integer key is the eight bytes of its little-endian representation.\<close>

definition index_key :: "uint64 \<Rightarrow> string" where
  "index_key index = map (\<lambda>i. char_of (unat (drop_bit (8 * i) index))) [0..<8]"

definition nr_hashmap_index_get :: "'v nr_hashmap ptr \<Rightarrow> uint64 \<Rightarrow> 'v ptr" where
  "nr_hashmap_index_get hashmap index = nr_hashmap_get hashmap (Some (index_key index))"

definition nr_hashmap_index_set ::
  "'v nr_hashmap ptr \<Rightarrow> uint64 \<Rightarrow> 'v \<Rightarrow> nr_status \<times> 'v nr_hashmap ptr" where
  "nr_hashmap_index_set hashmap index v = nr_hashmap_set hashmap (Some (index_key index)) v"

definition nr_hashmap_index_update ::
  "'v nr_hashmap ptr \<Rightarrow> uint64 \<Rightarrow> 'v \<Rightarrow> 'v list \<times> 'v nr_hashmap ptr" where
  "nr_hashmap_index_update hashmap index v = nr_hashmap_update hashmap (Some (index_key index)) v"

definition nr_hashmap_index_delete ::
  "'v nr_hashmap ptr \<Rightarrow> uint64 \<Rightarrow> nr_status \<times> 'v list \<times> 'v nr_hashmap ptr" where
  "nr_hashmap_index_delete hashmap index = nr_hashmap_delete hashmap (Some (index_key index))"

section \<open>The contract of a dictionary\<close>

fun run_updates :: "('m \<Rightarrow> 'k \<Rightarrow> 'v \<Rightarrow> 'v list \<times> 'm) \<Rightarrow> ('k \<times> 'v) list \<Rightarrow> 'm \<Rightarrow> 'v list \<times> 'm" where
  "run_updates update [] m = ([], m)"
| "run_updates update ((k, v) # kvs) m =
     (let (ds, m) = update m k v; (ds', m) = run_updates update kvs m in (ds @ ds', m))"

locale dictionary =
  fixes lookup :: "'m \<Rightarrow> 'k \<Rightarrow> 'v option"
    and update :: "'m \<Rightarrow> 'k \<Rightarrow> 'v \<Rightarrow> 'v list \<times> 'm"
    and delete :: "'m \<Rightarrow> 'k \<Rightarrow> bool \<times> 'v list \<times> 'm"
    and size_of :: "'m \<Rightarrow> nat"
    and invar :: "'m \<Rightarrow> bool"
    and key_ok :: "'k \<Rightarrow> bool"
    and owns :: "'m \<Rightarrow> bool"
  assumes update_law: "invar m \<Longrightarrow> key_ok k \<Longrightarrow>
      invar (snd (update m k v)) \<and> owns (snd (update m k v)) = owns m
      \<and> lookup (snd (update m k v)) = (lookup m)(k \<mapsto> v)
      \<and> fst (update m k v) = (if owns m then (case lookup m k of None \<Rightarrow> [] | Some x \<Rightarrow> [x]) else [])"
    and delete_law: "invar m \<Longrightarrow> key_ok k \<Longrightarrow>
      invar (snd (snd (delete m k))) \<and> owns (snd (snd (delete m k))) = owns m
      \<and> lookup (snd (snd (delete m k))) = (lookup m)(k := None)
      \<and> fst (delete m k) = (lookup m k \<noteq> None)
      \<and> fst (snd (delete m k)) = (if owns m then (case lookup m k of None \<Rightarrow> [] | Some x \<Rightarrow> [x]) else [])"
    and size_law: "invar m \<Longrightarrow> size_of m = card (dom (lookup m)) \<and> finite (dom (lookup m))"
begin

text \<open>A sequence of updates: the last write to a key wins.\<close>

lemma run_updates_law:
  "invar m \<Longrightarrow> \<forall>(k, v) \<in> set kvs. key_ok k \<Longrightarrow>
     invar (snd (run_updates update kvs m)) \<and> owns (snd (run_updates update kvs m)) = owns m
     \<and> lookup (snd (run_updates update kvs m)) = lookup m ++ map_of (rev kvs)"
proof (induction kvs arbitrary: m)
  case (Cons kv kvs)
  obtain k v where kv: "kv = (k, v)" by (cases kv)
  obtain ds m1 where m1: "update m k v = (ds, m1)" by (cases "update m k v")
  with update_law [OF Cons.prems(1), of k v] Cons.prems(2) kv have
    "invar m1" "owns m1 = owns m" "lookup m1 = (lookup m)(k \<mapsto> v)" by auto
  with Cons.IH [of m1] Cons.prems(2) kv m1 show ?case
    by (auto simp: split_beta Let_def map_add_upd_left map_add_def fun_eq_iff split: option.splits)
qed simp

text \<open>Nothing written is lost: each value is in the map at the end or was destroyed.\<close>

lemma run_updates_ownership:
  "invar m \<Longrightarrow> \<forall>(k, v) \<in> set kvs. key_ok k \<Longrightarrow> owns m \<Longrightarrow>
     set (fst (run_updates update kvs m)) \<union> ran (lookup (snd (run_updates update kvs m)))
       = ran (lookup m) \<union> snd ` set kvs"
proof (induction kvs arbitrary: m)
  case (Cons kv kvs)
  obtain k v where kv: "kv = (k, v)" by (cases kv)
  obtain ds m1 where m1: "update m k v = (ds, m1)" by (cases "update m k v")
  with update_law [OF Cons.prems(1), of k v] Cons.prems(2,3) kv have
    u: "invar m1" "owns m1" "lookup m1 = (lookup m)(k \<mapsto> v)"
    "ds = (case lookup m k of None \<Rightarrow> [] | Some x \<Rightarrow> [x])" by auto
  have r: "set ds \<union> ran (lookup m1) = ran (lookup m) \<union> {v}"
    unfolding u(3,4) by (auto simp: ran_def split: option.splits if_splits; metis)
  obtain ds' m2 where m2: "run_updates update kvs m1 = (ds', m2)" by fastforce
  moreover have "\<forall>(k, v) \<in> set kvs. key_ok k" using Cons.prems(2) by simp
  ultimately have "set ds' \<union> ran (lookup m2) = ran (lookup m1) \<union> snd ` set kvs"
    using Cons.IH [OF u(1) _ u(2)] by simp
  with r m1 m2 kv show ?case by auto
qed simp

end

section \<open>The table implements it\<close>

definition bucket_of :: "'v nr_hashmap \<Rightarrow> string \<Rightarrow> (string \<times> 'v) list" where
  "bucket_of h k = buckets h ! nr_hashmap_hash_key (log2_num_buckets h) k"

definition hm_lookup :: "'v nr_hashmap \<Rightarrow> string \<Rightarrow> 'v option" where
  "hm_lookup h k = (if k = [] then None else map_of (bucket_of h k) k)"

definition hashmap_inv :: "'v nr_hashmap \<Rightarrow> bool" where
  "hashmap_inv h \<longleftrightarrow> log2_num_buckets h \<le> 24 \<and> length (buckets h) = nr_hashmap_count_buckets h
     \<and> (\<forall>i < length (buckets h). distinct (map fst (buckets h ! i))
          \<and> (\<forall>k \<in> fst ` set (buckets h ! i). k \<noteq> [] \<and> nr_hashmap_hash_key (log2_num_buckets h) k = i))
     \<and> n_elements h = sum_list (map length (buckets h))"

lemma hash_key_bound: "n \<le> 24 \<Longrightarrow> nr_hashmap_hash_key n k < 2 ^ n"
proof -
  assume "n \<le> 24"
  have "x AND (push_bit n 1 - 1) = take_bit n x" for x :: uint32
    by (simp add: take_bit_eq_mask mask_eq_exp_minus_1 push_bit_eq_mult)
  then show ?thesis
    by (simp add: nr_hashmap_hash_key_def unsigned_take_bit_eq)
qed

lemma fetch_loop_None: "fetch_loop key b i = None \<longleftrightarrow> map_of b key = None"
  by (induction key b i rule: fetch_loop.induct) auto

lemma fetch_loop_Some:
  "fetch_loop key b i = Some j \<Longrightarrow>
     \<exists>n v. j = i + n \<and> n < length b \<and> b ! n = (key, v) \<and> map_of b key = Some v"
proof (induction key b i rule: fetch_loop.induct)
  case (2 key k v bs i)
  show ?case
  proof (cases "key = k")
    case True
    with 2 show ?thesis by (intro exI [of _ 0]) auto
  next
    case False
    with 2 obtain n v where "j = Suc i + n" "n < length bs" "bs ! n = (key, v)" "map_of bs key = Some v"
      by auto
    with False show ?thesis by (intro exI [of _ "Suc n"]) auto
  qed
qed simp

lemma hashmap_inv_bucket:
  assumes "hashmap_inv h"
  shows "nr_hashmap_hash_key (log2_num_buckets h) k < length (buckets h)"
    "distinct (map fst (bucket_of h k))"
  using assms hash_key_bound [of "log2_num_buckets h" k]
  by (auto simp: hashmap_inv_def nr_hashmap_count_buckets_def bucket_of_def)

text \<open>Replacing the chain of one key by a chain with the same other keys.\<close>

lemma hashmap_inv_replace:
  assumes inv: "hashmap_inv h" and b: "distinct (map fst b)" and k: "k \<noteq> []"
    and keys: "fst ` set b \<subseteq> insert k (fst ` set (bucket_of h k))"
    and n: "n + length (bucket_of h k) = n_elements h + length b"
  shows "hashmap_inv (h\<lparr>buckets := (buckets h)[nr_hashmap_hash_key (log2_num_buckets h) k := b],
    n_elements := n\<rparr>)"
proof -
  let ?i = "nr_hashmap_hash_key (log2_num_buckets h) k"
  note i = hashmap_inv_bucket(1) [OF inv, of k]
  have "length (bucket_of h k) \<le> sum_list (map length (buckets h))"
    using i by (intro member_le_sum_list) (auto simp: bucket_of_def)
  then have "n = sum_list (map length ((buckets h)[?i := b]))"
    using n inv i by (simp add: map_update sum_list_update hashmap_inv_def bucket_of_def)
  moreover have "\<forall>j < length (buckets h). distinct (map fst ((buckets h)[?i := b] ! j))
      \<and> (\<forall>k' \<in> fst ` set ((buckets h)[?i := b] ! j). k' \<noteq> []
           \<and> nr_hashmap_hash_key (log2_num_buckets h) k' = j)"
  proof (intro allI impI)
    fix j
    assume j: "j < length (buckets h)"
    show "distinct (map fst ((buckets h)[?i := b] ! j)) \<and> (\<forall>k' \<in> fst ` set ((buckets h)[?i := b] ! j).
        k' \<noteq> [] \<and> nr_hashmap_hash_key (log2_num_buckets h) k' = j)"
    proof (cases "j = ?i")
      case True
      have "k' \<noteq> [] \<and> nr_hashmap_hash_key (log2_num_buckets h) k' = ?i" if "k' \<in> fst ` set b" for k'
        using that keys k inv i unfolding hashmap_inv_def bucket_of_def by blast
      with True b i show ?thesis by simp
    next
      case False
      with inv j show ?thesis by (simp add: hashmap_inv_def)
    qed
  qed
  ultimately show ?thesis using inv by (simp add: hashmap_inv_def nr_hashmap_count_buckets_def)
qed

lemma hm_lookup_replace:
  assumes inv: "hashmap_inv h" and k: "k \<noteq> []"
    and other: "\<And>k'. k' \<noteq> k \<Longrightarrow> map_of b k' = map_of (bucket_of h k) k'"
  shows "hm_lookup (h\<lparr>buckets := (buckets h)[nr_hashmap_hash_key (log2_num_buckets h) k := b],
    n_elements := n\<rparr>) = (hm_lookup h)(k := map_of b k)"
proof
  fix k'
  show "hm_lookup (h\<lparr>buckets := (buckets h)[nr_hashmap_hash_key (log2_num_buckets h) k := b],
    n_elements := n\<rparr>) k' = ((hm_lookup h)(k := map_of b k)) k'"
    using hashmap_inv_bucket(1) [OF inv, of k] k other [of k']
    by (cases "nr_hashmap_hash_key (log2_num_buckets h) k' = nr_hashmap_hash_key (log2_num_buckets h) k")
       (auto simp: hm_lookup_def bucket_of_def)
qed

lemma nr_hashmap_fetch_None:
  "k \<noteq> [] \<Longrightarrow> nr_hashmap_fetch h (nr_hashmap_hash_key (log2_num_buckets h) k) k = None
     \<longleftrightarrow> hm_lookup h k = None"
  by (simp add: nr_hashmap_fetch_def fetch_loop_None hm_lookup_def bucket_of_def)

lemma nr_hashmap_fetch_Some:
  assumes "k \<noteq> []" and "nr_hashmap_fetch h (nr_hashmap_hash_key (log2_num_buckets h) k) k = Some i"
  obtains v where "i < length (bucket_of h k)" "bucket_of h k ! i = (k, v)" "hm_lookup h k = Some v"
  using assms fetch_loop_Some [of k "bucket_of h k" 0 i]
  by (auto simp: nr_hashmap_fetch_def hm_lookup_def bucket_of_def)

lemma nr_hashmap_get_eq: "nr_hashmap_get (Some h) (Some k) = hm_lookup h k"
proof (cases "k = []")
  case False
  show ?thesis
  proof (cases "nr_hashmap_fetch h (nr_hashmap_hash_key (log2_num_buckets h) k) k")
    case None
    with False nr_hashmap_fetch_None [OF False, of h] show ?thesis
      by (simp add: nr_hashmap_get_def nr_hashmap_get_into_def)
  next
    case (Some i)
    with False show ?thesis
      by (auto simp: nr_hashmap_get_def nr_hashmap_get_into_def bucket_of_def
          elim!: nr_hashmap_fetch_Some [OF False])
  qed
qed (simp add: nr_hashmap_get_def nr_hashmap_get_into_def hm_lookup_def)

lemma nr_hashmap_add_spec:
  assumes "hashmap_inv h" and "k \<noteq> []" and "hm_lookup h k = None"
  shows "hashmap_inv (nr_hashmap_add_internal h (nr_hashmap_hash_key (log2_num_buckets h) k) k v)
    \<and> hm_lookup (nr_hashmap_add_internal h (nr_hashmap_hash_key (log2_num_buckets h) k) k v)
        = (hm_lookup h)(k \<mapsto> v)"
proof -
  have "distinct (map fst ((k, v) # bucket_of h k))"
    using hashmap_inv_bucket(2) [OF assms(1)] assms(2,3)
    by (auto simp: hm_lookup_def map_of_eq_None_iff)
  then show ?thesis
    using hashmap_inv_replace [OF assms(1), of "(k, v) # bucket_of h k" k "Suc (n_elements h)"]
      hm_lookup_replace [OF assms(1,2), of "(k, v) # bucket_of h k" "Suc (n_elements h)"] assms(2)
    by (auto simp: nr_hashmap_add_internal_def bucket_of_def)
qed

lemma map_of_update_value:
  "distinct (map fst b) \<Longrightarrow> i < length b \<Longrightarrow> b ! i = (k, x) \<Longrightarrow>
     map_of (b[i := (k, v)]) = (map_of b)(k \<mapsto> v)"
proof (induction b arbitrary: i)
  case (Cons a b)
  have "fst a \<noteq> k" if "i = Suc j" for j
    using Cons.prems that nth_mem [of j b] by (auto simp: rev_image_eqI)
  with Cons show ?case by (cases i) (auto simp: fun_eq_iff)
qed simp

lemma map_of_remove_at:
  "distinct (map fst b) \<Longrightarrow> i < length b \<Longrightarrow> b ! i = (k, x) \<Longrightarrow>
     map_of (take i b @ drop (Suc i) b) = (map_of b)(k := None)"
proof (induction b arbitrary: i)
  case (Cons a b)
  show ?case
  proof (cases i)
    case 0
    with Cons.prems have "map_of b k = None" by (auto simp: map_of_eq_None_iff)
    with 0 Cons.prems show ?thesis by (auto simp: fun_eq_iff)
  next
    case (Suc j)
    then have "fst a \<noteq> k" using Cons.prems nth_mem [of j b] by (auto simp: rev_image_eqI)
    then show ?thesis using Suc Cons by (cases a) (auto simp: fun_eq_iff map_add_def)
  qed
qed simp

lemma nr_hashmap_update_spec:
  assumes inv: "hashmap_inv h" and k: "k \<noteq> []"
  shows "\<exists>ds h'. nr_hashmap_update (Some h) (Some k) v = (ds, Some h') \<and> hashmap_inv h'
    \<and> has_dtor h' = has_dtor h \<and> hm_lookup h' = (hm_lookup h)(k \<mapsto> v)
    \<and> ds = (if has_dtor h then (case hm_lookup h k of None \<Rightarrow> [] | Some x \<Rightarrow> [x]) else [])"
proof (cases "nr_hashmap_fetch h (nr_hashmap_hash_key (log2_num_buckets h) k) k")
  case None
  then have "hm_lookup h k = None" using nr_hashmap_fetch_None [OF k, of h] by simp
  with nr_hashmap_add_spec [OF inv k this, of v] None k show ?thesis
    by (simp add: nr_hashmap_update_def nr_hashmap_add_internal_def Let_def)
next
  case (Some i)
  let ?b = "bucket_of h k"
  obtain x where i: "i < length ?b" "?b ! i = (k, x)" "hm_lookup h k = Some x"
    by (rule nr_hashmap_fetch_Some [OF k Some])
  let ?c = "?b[i := (k, v)]"
  have keys: "map fst ?c = map fst ?b" using i by (simp add: map_update list_update_same_conv)
  then have keyset: "fst ` set ?c = fst ` set ?b" by (metis list.set_map)
  have dist: "distinct (map fst ?b)" by (rule hashmap_inv_bucket(2) [OF inv])
  then have mo: "map_of ?c = (map_of ?b)(k \<mapsto> v)" using map_of_update_value i by metis
  have "hashmap_inv (h\<lparr>buckets := (buckets h)[nr_hashmap_hash_key (log2_num_buckets h) k := ?c],
      n_elements := n_elements h\<rparr>)"
    by (rule hashmap_inv_replace [OF inv _ k]) (use keys keyset dist in auto)
  moreover have "hm_lookup (h\<lparr>buckets := (buckets h)[nr_hashmap_hash_key (log2_num_buckets h) k := ?c],
      n_elements := n_elements h\<rparr>) = (hm_lookup h)(k \<mapsto> v)"
    using hm_lookup_replace [OF inv k, of ?c "n_elements h"] mo by simp
  moreover have "nr_hashmap_update (Some h) (Some k) v = ((if has_dtor h then [x] else []),
      Some (h\<lparr>buckets := (buckets h)[nr_hashmap_hash_key (log2_num_buckets h) k := ?c],
        n_elements := n_elements h\<rparr>))"
    using Some i k by (simp add: nr_hashmap_update_def bucket_of_def Let_def)
  ultimately show ?thesis using i(3) by auto
qed

lemma nr_hashmap_delete_spec:
  assumes inv: "hashmap_inv h" and k: "k \<noteq> []"
  shows "\<exists>ds h'. nr_hashmap_delete (Some h) (Some k) =
      ((if hm_lookup h k = None then NR_FAILURE else NR_SUCCESS), ds, Some h') \<and> hashmap_inv h'
    \<and> has_dtor h' = has_dtor h \<and> hm_lookup h' = (hm_lookup h)(k := None)
    \<and> ds = (if has_dtor h then (case hm_lookup h k of None \<Rightarrow> [] | Some x \<Rightarrow> [x]) else [])"
proof (cases "nr_hashmap_fetch h (nr_hashmap_hash_key (log2_num_buckets h) k) k")
  case None
  then have "hm_lookup h k = None" using nr_hashmap_fetch_None [OF k, of h] by simp
  moreover from this have "(hm_lookup h)(k := None) = hm_lookup h" by (simp add: fun_upd_idem)
  ultimately show ?thesis using None k inv by (simp add: nr_hashmap_delete_def)
next
  case (Some i)
  let ?b = "bucket_of h k"
  obtain x where i: "i < length ?b" "?b ! i = (k, x)" "hm_lookup h k = Some x"
    by (rule nr_hashmap_fetch_Some [OF k Some])
  let ?c = "take i ?b @ drop (Suc i) ?b"
  let ?h = "h\<lparr>buckets := (buckets h)[nr_hashmap_hash_key (log2_num_buckets h) k := ?c],
      n_elements := n_elements h - 1\<rparr>"
  have dist: "distinct (map fst ?b)" by (rule hashmap_inv_bucket(2) [OF inv])
  then have mo: "map_of ?c = (map_of ?b)(k := None)" using map_of_remove_at i by metis
  have "map fst ?b = map fst (take i ?b) @ k # map fst (drop (Suc i) ?b)"
    using i id_take_nth_drop [OF i(1)] by (metis fst_conv list.simps(9) map_append)
  with dist have dc: "distinct (map fst ?c)" by (metis distinct.simps(2) distinct_append
        map_append not_distinct_conv_prefix append_Cons Un_iff disjoint_insert(1) list.set(2) set_append)
  have "length ?b \<le> n_elements h"
    using hashmap_inv_bucket(1) [OF inv, of k] inv
    by (auto simp: hashmap_inv_def bucket_of_def intro!: member_le_sum_list)
  then have n: "n_elements h - 1 + length ?b = n_elements h + length ?c" using i(1) by simp
  have "hashmap_inv ?h"
    by (rule hashmap_inv_replace [OF inv dc k _ n]) (auto dest: in_set_takeD in_set_dropD)
  moreover have "hm_lookup ?h = (hm_lookup h)(k := None)"
    using hm_lookup_replace [OF inv k, of ?c "n_elements h - 1"] mo by simp
  moreover have "nr_hashmap_delete (Some h) (Some k) =
      (NR_SUCCESS, (if has_dtor h then [x] else []), Some ?h)"
    using Some i k by (simp add: nr_hashmap_delete_def bucket_of_def nr_hashmap_destroy_bucket_def Let_def)
  ultimately show ?thesis using i(3) by auto
qed

lemma nr_hashmap_set_spec:
  assumes inv: "hashmap_inv h" and k: "k \<noteq> []"
  shows "\<exists>h'. nr_hashmap_set (Some h) (Some k) v =
      (if hm_lookup h k = None then (NR_SUCCESS, Some h') else (NR_FAILURE, Some h))
    \<and> (hm_lookup h k = None \<longrightarrow> hashmap_inv h' \<and> hm_lookup h' = (hm_lookup h)(k \<mapsto> v))"
proof (cases "hm_lookup h k = None")
  case True
  with nr_hashmap_fetch_None [OF k, of h] nr_hashmap_add_spec [OF inv k True, of v] k show ?thesis
    by (simp add: nr_hashmap_set_def)
next
  case False
  with nr_hashmap_fetch_None [OF k, of h] k show ?thesis by (auto simp: nr_hashmap_set_def)
qed

lemma hm_lookup_dom:
  assumes "hashmap_inv h"
  shows "dom (hm_lookup h) = (\<Union>i < length (buckets h). fst ` set (buckets h ! i))"
proof (intro equalityI subsetI)
  fix k
  assume "k \<in> dom (hm_lookup h)"
  then have "k \<in> fst ` set (bucket_of h k)"
    by (auto simp: hm_lookup_def split: if_splits dest!: map_of_SomeD intro: rev_image_eqI)
  with hashmap_inv_bucket(1) [OF assms, of k]
  show "k \<in> (\<Union>i < length (buckets h). fst ` set (buckets h ! i))"
    by (auto simp: bucket_of_def)
next
  fix k
  assume "k \<in> (\<Union>i < length (buckets h). fst ` set (buckets h ! i))"
  then obtain i where i: "i < length (buckets h)" "k \<in> fst ` set (buckets h ! i)" by blast
  with assms have "k \<noteq> []" "nr_hashmap_hash_key (log2_num_buckets h) k = i"
    unfolding hashmap_inv_def by blast+
  with i(2) have "map_of (bucket_of h k) k \<noteq> None" by (simp add: map_of_eq_None_iff bucket_of_def)
  with \<open>k \<noteq> []\<close> show "k \<in> dom (hm_lookup h)" by (auto simp: hm_lookup_def)
qed

lemma hashmap_inv_key:
  "hashmap_inv h \<Longrightarrow> i < length (buckets h) \<Longrightarrow> k \<in> fst ` set (buckets h ! i) \<Longrightarrow>
     nr_hashmap_hash_key (log2_num_buckets h) k = i"
  unfolding hashmap_inv_def by blast

lemma n_elements_card:
  assumes inv: "hashmap_inv h"
  shows "n_elements h = card (dom (hm_lookup h)) \<and> finite (dom (hm_lookup h))"
proof -
  let ?K = "\<lambda>i. fst ` set (buckets h ! i)"
  have disj: "?K i \<inter> ?K j = {}" if "i < length (buckets h)" "j < length (buckets h)" "i \<noteq> j" for i j
    using hashmap_inv_key [OF inv that(1)] hashmap_inv_key [OF inv that(2)] that(3)
    by (metis disjoint_iff)
  have "card (\<Union>i < length (buckets h). ?K i) = (\<Sum>i < length (buckets h). card (?K i))"
    by (rule card_UN_disjoint) (simp, simp, intro ballI impI, rule disj, simp_all)
  also have "\<dots> = (\<Sum>i < length (buckets h). length (buckets h ! i))"
  proof (rule sum.cong [OF refl])
    fix i
    assume "i \<in> {..<length (buckets h)}"
    then have "distinct (map fst (buckets h ! i))" using inv by (simp add: hashmap_inv_def)
    then show "card (?K i) = length (buckets h ! i)" by (metis distinct_card length_map list.set_map)
  qed
  also have "\<dots> = n_elements h"
    using inv by (simp add: hashmap_inv_def sum_list_sum_nth atLeast0LessThan)
  finally show ?thesis using hm_lookup_dom [OF inv] by simp
qed

lemma hashmap_inv_create: "hashmap_inv (nr_hashmap_create_internal n d)"
  "hm_lookup (nr_hashmap_create_internal n d) = Map.empty"
proof -
  show inv: "hashmap_inv (nr_hashmap_create_internal n d)"
    by (simp add: hashmap_inv_def nr_hashmap_create_internal_def nr_hashmap_count_buckets_def Let_def)
  show "hm_lookup (nr_hashmap_create_internal n d) = Map.empty"
    using hm_lookup_dom [OF inv] by (auto simp: nr_hashmap_create_internal_def Let_def dom_def fun_eq_iff)
qed

definition hm_update :: "'v nr_hashmap \<Rightarrow> string \<Rightarrow> 'v \<Rightarrow> 'v list \<times> 'v nr_hashmap" where
  "hm_update h k v = apsnd the (nr_hashmap_update (Some h) (Some k) v)"

definition hm_delete :: "'v nr_hashmap \<Rightarrow> string \<Rightarrow> bool \<times> 'v list \<times> 'v nr_hashmap" where
  "hm_delete h k =
     (case nr_hashmap_delete (Some h) (Some k) of (st, ds, h') \<Rightarrow> (st = NR_SUCCESS, ds, the h'))"

interpretation hm: dictionary "\<lambda>(h :: 'v nr_hashmap) k. nr_hashmap_get (Some h) (Some k)" hm_update hm_delete
  "\<lambda>h. nr_hashmap_count (Some h)" hashmap_inv "\<lambda>k. k \<noteq> []" has_dtor
proof
  fix h :: "'v nr_hashmap" and k :: string and v :: 'v
  assume "hashmap_inv h" "k \<noteq> []"
  from nr_hashmap_update_spec [OF this, of v] show "hashmap_inv (snd (hm_update h k v))
      \<and> has_dtor (snd (hm_update h k v)) = has_dtor h
      \<and> (\<lambda>ka. nr_hashmap_get (Some (snd (hm_update h k v))) (Some ka)) =
          (\<lambda>k. nr_hashmap_get (Some h) (Some k))(k \<mapsto> v)
      \<and> fst (hm_update h k v) =
          (if has_dtor h then case nr_hashmap_get (Some h) (Some k) of None \<Rightarrow> [] | Some x \<Rightarrow> [x] else [])"
    by (auto simp: hm_update_def nr_hashmap_get_eq)
  from nr_hashmap_delete_spec [OF \<open>hashmap_inv h\<close> \<open>k \<noteq> []\<close>]
  show "hashmap_inv (snd (snd (hm_delete h k)))
      \<and> has_dtor (snd (snd (hm_delete h k))) = has_dtor h
      \<and> (\<lambda>ka. nr_hashmap_get (Some (snd (snd (hm_delete h k)))) (Some ka)) =
          (\<lambda>k. nr_hashmap_get (Some h) (Some k))(k := None)
      \<and> fst (hm_delete h k) = (nr_hashmap_get (Some h) (Some k) \<noteq> None)
      \<and> fst (snd (hm_delete h k)) =
          (if has_dtor h then case nr_hashmap_get (Some h) (Some k) of None \<Rightarrow> [] | Some x \<Rightarrow> [x] else [])"
    by (auto simp: hm_delete_def nr_hashmap_get_eq split: if_splits)
next
  fix h :: "'v nr_hashmap"
  assume "hashmap_inv h"
  then show "nr_hashmap_count (Some h) = card (dom (\<lambda>k. nr_hashmap_get (Some h) (Some k)))
      \<and> finite (dom (\<lambda>k. nr_hashmap_get (Some h) (Some k)))"
    using n_elements_card [of h] by (simp add: nr_hashmap_get_eq nr_hashmap_count_def)
qed

section \<open>Properties\<close>



text \<open>Deleting and setting: \<open>nr_hashmap_delete\<close> removes exactly the given key, reports
  whether it was there and destroys its value alone; \<open>nr_hashmap_set\<close> stores a value under
  a fresh key and refuses, changing nothing, when the key is in use.\<close>

theorem nr_hashmap_delete_set_correct:
  assumes "hashmap_inv h" and "k \<noteq> []"
  shows "\<exists>ds h1 h2. nr_hashmap_delete (Some h) (Some k) =
        ((if nr_hashmap_has (Some h) (Some k) then NR_SUCCESS else NR_FAILURE), ds, Some h1)
      \<and> hashmap_inv h1
      \<and> (\<lambda>j. nr_hashmap_get (Some h1) (Some j)) = (\<lambda>j. nr_hashmap_get (Some h) (Some j))(k := NULL)
      \<and> set ds = (if has_dtor h then set_option (nr_hashmap_get (Some h) (Some k)) else {})
      \<and> nr_hashmap_set (Some h) (Some k) v =
          (if nr_hashmap_has (Some h) (Some k) then (NR_FAILURE, Some h) else (NR_SUCCESS, Some h2))
      \<and> (\<not> nr_hashmap_has (Some h) (Some k) \<longrightarrow> hashmap_inv h2
          \<and> (\<lambda>j. nr_hashmap_get (Some h2) (Some j)) = (\<lambda>j. nr_hashmap_get (Some h) (Some j))(k \<mapsto> v))"
proof -
  have has: "nr_hashmap_has (Some h) (Some k) \<longleftrightarrow> hm_lookup h k \<noteq> None"
    using assms(2) nr_hashmap_fetch_None [OF assms(2), of h] by (simp add: nr_hashmap_has_def)
  from nr_hashmap_delete_spec [OF assms] obtain ds h1 where del:
    "nr_hashmap_delete (Some h) (Some k) =
       ((if hm_lookup h k = None then NR_FAILURE else NR_SUCCESS), ds, Some h1)" "hashmap_inv h1"
    "hm_lookup h1 = (hm_lookup h)(k := None)"
    and ds: "ds = (if has_dtor h then (case hm_lookup h k of None \<Rightarrow> [] | Some x \<Rightarrow> [x]) else [])" by blast
  from nr_hashmap_set_spec [OF assms, of v] obtain h2 where st:
    "nr_hashmap_set (Some h) (Some k) v =
      (if hm_lookup h k = None then (NR_SUCCESS, Some h2) else (NR_FAILURE, Some h))
     \<and> (hm_lookup h k = None \<longrightarrow> hashmap_inv h2 \<and> hm_lookup h2 = (hm_lookup h)(k \<mapsto> v))" ..
  have "set ds = (if has_dtor h then set_option (hm_lookup h k) else {})"
    using ds by (cases "hm_lookup h k"; cases "has_dtor h"; simp)
  note facts = this del st
  show ?thesis unfolding has nr_hashmap_get_eq
    by (rule exI [of _ ds], rule exI [of _ h1], rule exI [of _ h2]) (use facts in \<open>simp add: fun_eq_iff\<close>)
qed

theorem nr_hashmap_delete_set_correct_witness:
  "fst (nr_hashmap_delete (Some (nr_hashmap_create True :: int nr_hashmap)) (Some ''a'')) = NR_FAILURE"
proof -
  let ?h = "nr_hashmap_create True :: int nr_hashmap"
  have h: "hashmap_inv ?h" "hm_lookup ?h = Map.empty"
    by (simp_all add: nr_hashmap_create_def hashmap_inv_create)
  then have "\<not> nr_hashmap_has (Some ?h) (Some ''a'')"
    using nr_hashmap_fetch_None [of "''a''" ?h] by (simp add: nr_hashmap_has_def)
  with nr_hashmap_delete_set_correct [OF h(1), of "''a''" 1] show ?thesis by auto
qed

lemma index_key_inj: "index_key i = index_key j \<longleftrightarrow> i = j"
proof
  assume eq: "index_key i = index_key j"
  have "bit i n = bit j n" if n: "n < 64" for n
  proof -
    have q: "n div 8 < 8" using n by simp
    have "map (\<lambda>k. char_of (unat (drop_bit (8 * k) i))) [0..<8] ! (n div 8)
        = (map (\<lambda>k. char_of (unat (drop_bit (8 * k) j))) [0..<8] ! (n div 8) :: char)"
      using eq by (simp only: index_key_def)
    then have "char_of (unat (drop_bit (8 * (n div 8)) i)) = (char_of (unat (drop_bit (8 * (n div 8)) j)) :: char)"
      using q by (simp del: upt_Suc)
    then have "take_bit 8 (unat (drop_bit (8 * (n div 8)) i)) = take_bit 8 (unat (drop_bit (8 * (n div 8)) j))"
      by (simp add: char_of_eq_iff take_bit_eq_mod of_char_of)
    then have "bit (take_bit 8 (unat (drop_bit (8 * (n div 8)) i))) (n mod 8)
        = bit (take_bit 8 (unat (drop_bit (8 * (n div 8)) j))) (n mod 8)" by simp
    then show ?thesis using n by (simp add: bit_take_bit_iff bit_unsigned_iff bit_drop_bit_eq)
  qed
  then show "i = j" by (auto simp: bit_eq_iff)
qed simp

end
