(* ===== verification/Metrics.thy ===== *)
theory Metrics
  imports HashTree StringPool Hashmap
begin

text \<open>
  The metric tables of \<^verbatim>\<open>axiom/util_metrics.c\<close>: an array of metrics that is a binary
  tree ordered by the hash of their names, the names in a string pool. Metric values are
  64-bit and wrap. The result \<open>None\<close> of an operation would be a walk that does not end or
  an invalid access; the properties show that it does not occur.
\<close>

section \<open>Tables\<close>

record nrmetric =
  m_hash :: uint32
  m_left :: int
  m_right :: int
  m_flags :: uint32
  m_name_index :: nat
  mdata :: "uint64 list"

record nrmtable =
  t_number :: nat
  t_allocated :: nat
  t_max_size :: nat
  t_metrics :: "nrmetric list"
  t_strpool :: nrstrpool

definition NRM_COUNT :: nat where "NRM_COUNT = 0"
definition NRM_TOTAL :: nat where "NRM_TOTAL = 1"
definition NRM_EXCLUSIVE :: nat where "NRM_EXCLUSIVE = 2"
definition NRM_MIN :: nat where "NRM_MIN = 3"
definition NRM_MAX :: nat where "NRM_MAX = 4"
definition NRM_SUMSQUARES :: nat where "NRM_SUMSQUARES = 5"

lemmas nrm_attributes = NRM_COUNT_def NRM_TOTAL_def NRM_EXCLUSIVE_def NRM_MIN_def NRM_MAX_def
  NRM_SUMSQUARES_def

definition MET_IS_APDEX :: uint32 where "MET_IS_APDEX = 1"
definition MET_FORCED :: uint32 where "MET_FORCED = 2"
definition NR_TIME_MAX :: uint64 where "NR_TIME_MAX = - 1"
definition NRM_DEFAULT_MAX_SIZE :: nat where "NRM_DEFAULT_MAX_SIZE = 2048"

text \<open>The accessors, one per attribute.\<close>

definition nrm_attribute :: "nrmetric ptr \<Rightarrow> nat \<Rightarrow> uint64" where
  "nrm_attribute metric attribute = (case metric of None \<Rightarrow> 0 | Some m \<Rightarrow> mdata m ! attribute)"

definition zero_metric :: nrmetric where
  "zero_metric = \<lparr>m_hash = 0, m_left = 0, m_right = 0, m_flags = 0, m_name_index = 0,
     mdata = replicate 6 0\<rparr>"

definition nrm_table_create :: "int \<Rightarrow> nrmtable" where
  "nrm_table_create max_size =
     (let n = (if max_size \<le> 0 then NRM_DEFAULT_MAX_SIZE else nat max_size)
      in \<lparr>t_number = 0, t_allocated = n, t_max_size = n, t_metrics = replicate n zero_metric,
          t_strpool = nr_string_pool_create\<rparr>)"

definition nrm_table_destroy :: "nrmtable ptr ptr \<Rightarrow> nrmtable ptr ptr" where
  "nrm_table_destroy table_p = (case table_p of Some (Some _) \<Rightarrow> Some NULL | _ \<Rightarrow> table_p)"

definition nrm_is_apdex :: "nrmetric ptr \<Rightarrow> bool" where
  "nrm_is_apdex metric = (case metric of None \<Rightarrow> False | Some m \<Rightarrow> m_flags m AND MET_IS_APDEX \<noteq> 0)"

definition nrm_is_forced :: "nrmetric ptr \<Rightarrow> bool" where
  "nrm_is_forced metric = (case metric of None \<Rightarrow> False | Some m \<Rightarrow> MET_FORCED AND m_flags m \<noteq> 0)"

definition nrm_hash :: "string ptr \<Rightarrow> uint32" where
  "nrm_hash name = fst (nr_mkhash name NULL)"

section \<open>Searching\<close>

text \<open>A metric found is its index. Two NULL names compare equal.\<close>

partial_function (option) nrm_find_loop ::
  "nrmtable \<Rightarrow> string ptr \<Rightarrow> uint32 \<Rightarrow> int \<Rightarrow> nat option option" where
  "nrm_find_loop t name hash i =
     (if i \<noteq> - 1 then
        let metric = t_metrics t ! nat i in
        if hash = m_hash metric \<and> name = nr_string_get (Some (t_strpool t)) (int (m_name_index metric))
        then Some (Some (nat i))
        else nrm_find_loop t name hash (if m_hash metric < hash then m_left metric else m_right metric)
      else Some None)"

definition nrm_find_internal :: "nrmtable ptr \<Rightarrow> string ptr \<Rightarrow> uint32 \<Rightarrow> nat option option" where
  "nrm_find_internal table name hash =
     (case table of None \<Rightarrow> Some None
      | Some t \<Rightarrow> if t_number t = 0 \<or> t_metrics t = [] then Some None
                  else nrm_find_loop t name hash 0)"

definition nrm_find :: "nrmtable ptr \<Rightarrow> string ptr \<Rightarrow> nat option option" where
  "nrm_find table name = nrm_find_internal table name (nrm_hash name)"

definition nrm_get_metric :: "nrmtable ptr \<Rightarrow> int \<Rightarrow> nrmetric ptr" where
  "nrm_get_metric table i =
     (case table of None \<Rightarrow> NULL
      | Some t \<Rightarrow> if i \<ge> 0 \<and> i < int (t_number t) then Some (t_metrics t ! nat i) else NULL)"

definition nrm_is_full :: "nrmtable ptr \<Rightarrow> bool" where
  "nrm_is_full table = (case table of None \<Rightarrow> False | Some t \<Rightarrow> t_number t \<ge> t_max_size t)"

definition nrm_table_size :: "nrmtable ptr \<Rightarrow> nat" where
  "nrm_table_size table = (case table of None \<Rightarrow> 0 | Some t \<Rightarrow> t_number t)"

definition nrm_get_name :: "nrmtable ptr \<Rightarrow> nrmetric ptr \<Rightarrow> string ptr" where
  "nrm_get_name table met =
     (case (table, met) of
        (Some t, Some m) \<Rightarrow> nr_string_get (Some (t_strpool t)) (int (m_name_index m))
      | _ \<Rightarrow> NULL)"

section \<open>Creating\<close>

text \<open>The loop ends at the node below which the new metric hangs and links it there.\<close>

partial_function (option) nrm_create_loop :: "nrmtable \<Rightarrow> uint32 \<Rightarrow> nat \<Rightarrow> int \<Rightarrow> nrmtable option" where
  "nrm_create_loop t hash new_index i =
     (let test_metric = t_metrics t ! nat i in
      if m_hash test_metric < hash then
        (if m_left test_metric = - 1
         then Some (t\<lparr>t_metrics := (t_metrics t)[nat i := test_metric\<lparr>m_left := int new_index\<rparr>]\<rparr>)
         else nrm_create_loop t hash new_index (m_left test_metric))
      else
        (if m_right test_metric = - 1
         then Some (t\<lparr>t_metrics := (t_metrics t)[nat i := test_metric\<lparr>m_right := int new_index\<rparr>]\<rparr>)
         else nrm_create_loop t hash new_index (m_right test_metric)))"

definition fresh_metric :: "uint32 \<Rightarrow> nat \<Rightarrow> nrmetric" where
  "fresh_metric hash name_index =
     \<lparr>m_hash = hash, m_left = - 1, m_right = - 1, m_flags = 0, m_name_index = name_index,
      mdata = (replicate 6 0)[NRM_MIN := NR_TIME_MAX]\<rparr>"

definition nrm_grow :: "nrmtable \<Rightarrow> nrmtable" where
  "nrm_grow t =
     (if t_number t \<ge> t_allocated t
      then t\<lparr>t_allocated := t_allocated t + NRM_DEFAULT_MAX_SIZE,
             t_metrics := t_metrics t @ replicate NRM_DEFAULT_MAX_SIZE zero_metric\<rparr>
      else t)"

definition nrm_create ::
  "nrmtable ptr \<Rightarrow> string ptr \<Rightarrow> uint32 \<Rightarrow> (nat option \<times> nrmtable ptr) option" where
  "nrm_create table name hash =
     (case (table, name) of
        (Some t, Some s) \<Rightarrow> do {
          let t = nrm_grow t;
          let new_index = t_number t;
          (name_index, pool) \<leftarrow> nr_string_add (Some (t_strpool t)) name;
          let t = t\<lparr>t_number := t_number t + 1, t_strpool := the pool,
                    t_metrics := (t_metrics t)[new_index := fresh_metric hash name_index]\<rparr>;
          t \<leftarrow> (if new_index = 0 then Some t else nrm_create_loop t hash new_index 0);
          Some (Some new_index, Some t)
        }
      | _ \<Rightarrow> Some (None, table))"

section \<open>Adding\<close>

text \<open>
  \<open>on_full\<close> is what happens when a metric is dropped. For forced metrics it is not used;
  for others it force-adds the supportability metric, so that the mutual recursion of the
  code is two levels deep.
\<close>

definition update_metric :: "(nrmetric \<Rightarrow> nrmetric) \<Rightarrow> nat option \<times> nrmtable ptr \<Rightarrow> nrmtable ptr" where
  "update_metric f r =
     (case r of (Some i, Some t) \<Rightarrow> Some (t\<lparr>t_metrics := (t_metrics t)[i := f (t_metrics t ! i)]\<rparr>)
      | (_, table) \<Rightarrow> table)"

definition set_forced :: "nrmetric \<Rightarrow> nrmetric" where
  "set_forced m = m\<lparr>m_flags := m_flags m OR MET_FORCED\<rparr>"

definition find_or_create_with ::
  "(nrmtable ptr \<Rightarrow> nrmtable ptr option) \<Rightarrow> bool \<Rightarrow> nrmtable ptr \<Rightarrow> string ptr
     \<Rightarrow> (nat option \<times> nrmtable ptr) option" where
  "find_or_create_with on_full force table name =
     (let hash = nrm_hash name in
      if table = NULL \<or> name = NULL then Some (None, table)
      else do {
        found \<leftarrow> nrm_find_internal table name hash;
        if found = None \<and> nrm_is_full table \<and> \<not> force
        then do { table \<leftarrow> on_full table; Some (None, table) }
        else do {
          (metric, table) \<leftarrow> (if found = None then nrm_create table name hash else Some (found, table));
          Some (metric, if force then update_metric set_forced (metric, table) else table)
        }
      })"

definition add_data ::
  "uint64 \<Rightarrow> uint64 \<Rightarrow> uint64 \<Rightarrow> uint64 \<Rightarrow> uint64 \<Rightarrow> uint64 \<Rightarrow> nrmetric \<Rightarrow> nrmetric" where
  "add_data cnt tot exclusive mn mx sum_of_squares m =
     (let d = mdata m;
          d = d[NRM_COUNT := d ! NRM_COUNT + cnt];
          d = d[NRM_TOTAL := d ! NRM_TOTAL + tot];
          d = d[NRM_EXCLUSIVE := d ! NRM_EXCLUSIVE + exclusive];
          d = (if mn < d ! NRM_MIN then d[NRM_MIN := mn] else d);
          d = (if mx > d ! NRM_MAX then d[NRM_MAX := mx] else d);
          d = d[NRM_SUMSQUARES := d ! NRM_SUMSQUARES + sum_of_squares]
      in m\<lparr>mdata := d\<rparr>)"

definition add_internal_with ::
  "(nrmtable ptr \<Rightarrow> nrmtable ptr option) \<Rightarrow> bool \<Rightarrow> nrmtable ptr \<Rightarrow> string ptr
     \<Rightarrow> (nrmetric \<Rightarrow> nrmetric) \<Rightarrow> nrmtable ptr option" where
  "add_internal_with on_full force table name f =
     map_option (update_metric f) (find_or_create_with on_full force table name)"

definition nrm_force_add :: "nrmtable ptr \<Rightarrow> string ptr \<Rightarrow> uint64 \<Rightarrow> nrmtable ptr option" where
  "nrm_force_add table name duration =
     add_internal_with Some True table name
       (add_data 1 duration duration duration duration (duration * duration))"

definition drop_metric :: "nrmtable ptr \<Rightarrow> nrmtable ptr option" where
  "drop_metric table = nrm_force_add table (Some ''Supportability/MetricsDropped'') 0"

definition nrm_find_or_create ::
  "bool \<Rightarrow> nrmtable ptr \<Rightarrow> string ptr \<Rightarrow> (nat option \<times> nrmtable ptr) option" where
  "nrm_find_or_create force table name = find_or_create_with drop_metric force table name"

definition nrm_add_internal ::
  "bool \<Rightarrow> nrmtable ptr \<Rightarrow> string ptr \<Rightarrow> uint64 \<Rightarrow> uint64 \<Rightarrow> uint64 \<Rightarrow> uint64 \<Rightarrow> uint64 \<Rightarrow> uint64
     \<Rightarrow> nrmtable ptr option" where
  "nrm_add_internal force table name cnt tot exclusive mn mx sum_of_squares =
     map_option (update_metric (add_data cnt tot exclusive mn mx sum_of_squares))
       (nrm_find_or_create force table name)"

definition nrm_add_ex :: "nrmtable ptr \<Rightarrow> string ptr \<Rightarrow> uint64 \<Rightarrow> uint64 \<Rightarrow> nrmtable ptr option" where
  "nrm_add_ex table name duration exclusive =
     nrm_add_internal False table name 1 duration exclusive duration duration (duration * duration)"

definition nrm_force_add_ex :: "nrmtable ptr \<Rightarrow> string ptr \<Rightarrow> uint64 \<Rightarrow> uint64 \<Rightarrow> nrmtable ptr option" where
  "nrm_force_add_ex table name duration exclusive =
     nrm_add_internal True table name 1 duration exclusive duration duration (duration * duration)"

definition nrm_add :: "nrmtable ptr \<Rightarrow> string ptr \<Rightarrow> uint64 \<Rightarrow> nrmtable ptr option" where
  "nrm_add table name duration =
     nrm_add_internal False table name 1 duration duration duration duration (duration * duration)"

definition apdex_data ::
  "uint64 \<Rightarrow> uint64 \<Rightarrow> uint64 \<Rightarrow> uint64 \<Rightarrow> uint64 \<Rightarrow> nrmetric \<Rightarrow> nrmetric" where
  "apdex_data satisfying tolerating failing min_apdex max_apdex m =
     (let d = mdata m;
          d = d[NRM_COUNT := d ! NRM_COUNT + satisfying];
          d = d[NRM_TOTAL := d ! NRM_TOTAL + tolerating];
          d = d[NRM_EXCLUSIVE := d ! NRM_EXCLUSIVE + failing];
          d = (if min_apdex < d ! NRM_MIN then d[NRM_MIN := min_apdex] else d);
          d = (if max_apdex > d ! NRM_MAX then d[NRM_MAX := max_apdex] else d)
      in m\<lparr>m_flags := m_flags m OR MET_IS_APDEX, mdata := d\<rparr>)"

definition nrm_add_apdex_internal ::
  "bool \<Rightarrow> nrmtable ptr \<Rightarrow> string ptr \<Rightarrow> uint64 \<Rightarrow> uint64 \<Rightarrow> uint64 \<Rightarrow> uint64 \<Rightarrow> uint64
     \<Rightarrow> nrmtable ptr option" where
  "nrm_add_apdex_internal force table name satisfying tolerating failing min_apdex max_apdex =
     map_option (update_metric (apdex_data satisfying tolerating failing min_apdex max_apdex))
       (nrm_find_or_create force table name)"

definition nrm_add_apdex ::
  "nrmtable ptr \<Rightarrow> string ptr \<Rightarrow> uint64 \<Rightarrow> uint64 \<Rightarrow> uint64 \<Rightarrow> uint64 \<Rightarrow> nrmtable ptr option" where
  "nrm_add_apdex table name satisfying tolerating failing apdex =
     nrm_add_apdex_internal False table name satisfying tolerating failing apdex apdex"

definition nrm_force_add_apdex ::
  "nrmtable ptr \<Rightarrow> string ptr \<Rightarrow> uint64 \<Rightarrow> uint64 \<Rightarrow> uint64 \<Rightarrow> uint64 \<Rightarrow> nrmtable ptr option" where
  "nrm_force_add_apdex table name satisfying tolerating failing apdex =
     nrm_add_apdex_internal True table name satisfying tolerating failing apdex apdex"

definition nrm_duplicate_metric ::
  "nrmtable ptr \<Rightarrow> string ptr \<Rightarrow> string ptr \<Rightarrow> nrmtable ptr option" where
  "nrm_duplicate_metric table current_name new_name =
     (if table = NULL \<or> current_name = NULL \<or> new_name = NULL then Some table
      else do {
        found \<leftarrow> nrm_find table current_name;
        (case found of None \<Rightarrow> Some table
         | Some i \<Rightarrow>
             let metric = Some (t_metrics (the table) ! i) in
             nrm_add_internal (nrm_is_forced metric) table new_name
               (nrm_attribute metric NRM_COUNT) (nrm_attribute metric NRM_TOTAL)
               (nrm_attribute metric NRM_EXCLUSIVE) (nrm_attribute metric NRM_MIN)
               (nrm_attribute metric NRM_MAX) (nrm_attribute metric NRM_SUMSQUARES))
      })"

section \<open>Validation\<close>

definition metric_valid :: "nrmtable \<Rightarrow> nat \<Rightarrow> bool" where
  "metric_valid t i =
     (let metric = t_metrics t ! i; used = int (t_number t) in
      \<not> (m_left metric < - 1) \<and> \<not> (m_right metric < - 1)
      \<and> \<not> (m_left metric \<ge> used) \<and> \<not> (m_right metric \<ge> used)
      \<and> \<not> (m_left metric \<noteq> - 1 \<and> m_left metric \<le> int i)
      \<and> \<not> (m_right metric \<noteq> - 1 \<and> m_right metric \<le> int i)
      \<and> nr_string_get (Some (t_strpool t)) (int (m_name_index metric)) \<noteq> NULL)"

definition nrm_table_validate :: "nrmtable ptr \<Rightarrow> nr_status" where
  "nrm_table_validate table =
     (case table of None \<Rightarrow> NR_FAILURE
      | Some t \<Rightarrow>
          if t_number t > t_allocated t then NR_FAILURE
          else if t_number t \<noteq> 0 \<and> (t_metrics t = [] \<or> \<not> (\<forall>i \<in> set [0..<t_number t]. metric_valid t i))
          then NR_FAILURE else NR_SUCCESS)"

section \<open>The table as a map\<close>

definition metric_name :: "nrmtable \<Rightarrow> nat \<Rightarrow> string ptr" where
  "metric_name t i = nr_string_get (Some (t_strpool t)) (int (m_name_index (t_metrics t ! i)))"

definition metric_next :: "nrmtable \<Rightarrow> uint32 \<Rightarrow> nat \<Rightarrow> nat option" where
  "metric_next t hash i =
     (let m = t_metrics t ! i; c = (if m_hash m < hash then m_left m else m_right m)
      in if c = - 1 then None else Some (nat c))"

definition metric_match :: "nrmtable \<Rightarrow> string \<Rightarrow> nat \<Rightarrow> bool" where
  "metric_match t s i \<longleftrightarrow> string_hash s = m_hash (t_metrics t ! i) \<and> Some s = metric_name t i"

definition metrics_inv :: "nrmtable \<Rightarrow> bool" where
  "metrics_inv t \<longleftrightarrow> pool_inv (t_strpool t)
     \<and> t_number t \<le> t_allocated t \<and> length (t_metrics t) = t_allocated t \<and> 0 < t_allocated t
     \<and> (\<forall>i < t_number t. metric_valid t i \<and> length (mdata (t_metrics t ! i)) = 6
          \<and> (\<exists>s. metric_name t i = Some s \<and> walk (metric_match t s) (metric_next t (string_hash s)) 0 = Some (Inl i)))"

definition metric_map :: "nrmtable \<Rightarrow> string \<Rightarrow> (uint32 \<times> uint64 list) option" where
  "metric_map t = map_of (map (\<lambda>i. (the (metric_name t i), (m_flags (t_metrics t ! i), mdata (t_metrics t ! i))))
     [0..<t_number t])"

lemma nrm_hash_eq: "nrm_hash (Some s) = string_hash s"
  by (simp add: nrm_hash_def string_hash_def nr_mkhash_def Let_def)

lemma metric_validD:
  assumes "metric_valid t i" and "metric_next t hash i = Some j"
  shows "i < j \<and> j < t_number t"
proof -
  have "m_left (t_metrics t ! i) = - 1 \<or> int i < m_left (t_metrics t ! i)"
    "m_right (t_metrics t ! i) = - 1 \<or> int i < m_right (t_metrics t ! i)"
    "m_left (t_metrics t ! i) < int (t_number t)" "m_right (t_metrics t ! i) < int (t_number t)"
    using assms(1) by (auto simp: metric_valid_def Let_def)
  then show ?thesis using assms(2) by (auto simp: metric_next_def Let_def split: if_splits)
qed

lemma metrics_shape: "metrics_inv t \<Longrightarrow> tree_shape (t_number t) (metric_next t hash)"
  unfolding tree_shape_def metrics_inv_def using metric_validD by blast

lemma metrics_inv_name:
  assumes "metrics_inv t" and "i < t_number t"
  obtains s where "metric_name t i = Some s"
    "walk (metric_match t s) (metric_next t (string_hash s)) 0 = Some (Inl i)"
  using assms unfolding metrics_inv_def by blast

lemma metric_names_unique:
  assumes "metrics_inv t" and "i < t_number t" and "j < t_number t" and "metric_name t i = metric_name t j"
  shows "i = j"
  by (rule metrics_inv_name [OF assms(1,2)], rule metrics_inv_name [OF assms(1,3)]) (use assms(4) in auto)

lemma metric_map_eq:
  assumes "metrics_inv t"
  shows "metric_map t s = Some v \<longleftrightarrow>
    (\<exists>i < t_number t. metric_name t i = Some s \<and> v = (m_flags (t_metrics t ! i), mdata (t_metrics t ! i)))"
proof -
  let ?kv = "\<lambda>i. (the (metric_name t i), (m_flags (t_metrics t ! i), mdata (t_metrics t ! i)))"
  have nm: "metric_name t i = Some (the (metric_name t i))" if "i < t_number t" for i
    by (rule metrics_inv_name [OF assms that]) simp
  have "inj_on (\<lambda>i. the (metric_name t i)) {0..<t_number t}"
  proof (rule inj_onI)
    fix i j
    assume "i \<in> {0..<t_number t}" "j \<in> {0..<t_number t}" "the (metric_name t i) = the (metric_name t j)"
    then show "i = j" using nm [of i] nm [of j] metric_names_unique [OF assms, of i j] by simp
  qed
  then have "distinct (map fst (map ?kv [0..<t_number t]))" by (simp add: distinct_map comp_def)
  then have "metric_map t s = Some v \<longleftrightarrow> (s, v) \<in> set (map ?kv [0..<t_number t])"
    unfolding metric_map_def by (rule map_of_eq_Some_iff)
  also have "\<dots> \<longleftrightarrow> (\<exists>i < t_number t. s = the (metric_name t i)
      \<and> v = (m_flags (t_metrics t ! i), mdata (t_metrics t ! i)))" by auto
  also have "\<dots> \<longleftrightarrow> (\<exists>i < t_number t. metric_name t i = Some s
      \<and> v = (m_flags (t_metrics t ! i), mdata (t_metrics t ! i)))"
    using nm by (metis option.sel)
  finally show ?thesis .
qed

lemma nrm_find_loop_walk:
  assumes "metrics_inv t" and "i < t_number t"
  shows "nrm_find_loop t (Some s) (string_hash s) (int i) =
    (case walk (metric_match t s) (metric_next t (string_hash s)) i of
       Some (Inl k) \<Rightarrow> Some (Some k) | Some (Inr k) \<Rightarrow> Some None | None \<Rightarrow> None)"
  using metrics_shape [OF assms(1)] assms(2)
proof (induction rule: tree_path_induct [where nxt = "metric_next t (string_hash s)"])
  case (node i)
  let ?m = "t_metrics t ! i"
  let ?c = "if m_hash ?m < string_hash s then m_left ?m else m_right ?m"
  have valid: "metric_valid t i" using assms(1) node(1) by (simp add: metrics_inv_def)
  show ?case
  proof (cases "metric_match t s i")
    case True
    then show ?thesis
      by (subst nrm_find_loop.simps, subst walk.simps) (auto simp: metric_match_def metric_name_def Let_def)
  next
    case False
    have step: "nrm_find_loop t (Some s) (string_hash s) (int i) = nrm_find_loop t (Some s) (string_hash s) ?c"
      using False unfolding metric_match_def metric_name_def
      by (subst nrm_find_loop.simps) (auto simp: Let_def)
    show ?thesis
    proof (cases "?c = - 1")
      case True
      then have "metric_next t (string_hash s) i = None" by (simp add: metric_next_def Let_def)
      then show ?thesis using False step True
        by (subst walk.simps) (simp add: nrm_find_loop.simps [of t _ _ "- 1"])
    next
      case nz: False
      then have nx: "metric_next t (string_hash s) i = Some (nat ?c)" by (simp add: metric_next_def Let_def)
      moreover have "int (nat ?c) = ?c" using valid nz by (auto simp: metric_valid_def Let_def split: if_splits)
      ultimately show ?thesis
        using node(2) [OF nx] tree_shapeD [OF metrics_shape [OF assms(1)] node(1) nx] False step
        by (subst walk.simps) simp
    qed
  qed
qed

lemma nrm_find_spec:
  assumes inv: "metrics_inv t"
  shows "(\<exists>i < t_number t. nrm_find_internal (Some t) (Some s) (string_hash s) = Some (Some i)
            \<and> metric_name t i = Some s)
       \<or> (nrm_find_internal (Some t) (Some s) (string_hash s) = Some None
            \<and> (\<forall>i < t_number t. metric_name t i \<noteq> Some s)
            \<and> (t_number t \<noteq> 0 \<longrightarrow> (\<exists>p < t_number t. metric_next t (string_hash s) p = None
                 \<and> walk (metric_match t s) (metric_next t (string_hash s)) 0 = Some (Inr p))))"
proof (cases "t_number t = 0")
  case True
  then show ?thesis by (simp add: nrm_find_internal_def)
next
  case False
  let ?w = "walk (metric_match t s) (metric_next t (string_hash s)) 0"
  have f: "nrm_find_internal (Some t) (Some s) (string_hash s) =
      (case ?w of Some (Inl k) \<Rightarrow> Some (Some k) | Some (Inr k) \<Rightarrow> Some None | None \<Rightarrow> None)"
    using nrm_find_loop_walk [OF inv, of 0 s] False inv by (auto simp: nrm_find_internal_def metrics_inv_def)
  from walk_cases [OF metrics_shape [OF inv], of 0 "metric_match t s" "string_hash s"] False
  consider (found) k where "k < t_number t" "?w = Some (Inl k)" "metric_match t s k"
    | (absent) k where "k < t_number t" "?w = Some (Inr k)" "metric_next t (string_hash s) k = None" by auto
  then show ?thesis
  proof cases
    case found
    then show ?thesis using f by (auto simp: metric_match_def)
  next
    case absent
    have "metric_name t i \<noteq> Some s" if "i < t_number t" for i
      by (rule metrics_inv_name [OF inv that]) (use absent(2) in auto)
    then show ?thesis using f absent by (intro disjI2) auto
  qed
qed

section \<open>Creating a metric\<close>

definition link_metric :: "nrmtable \<Rightarrow> uint32 \<Rightarrow> nat \<Rightarrow> nat \<Rightarrow> nrmtable" where
  "link_metric t hash p new_index =
     (let m = t_metrics t ! p
      in t\<lparr>t_metrics := (t_metrics t)[p := if m_hash m < hash then m\<lparr>m_left := int new_index\<rparr>
                                          else m\<lparr>m_right := int new_index\<rparr>]\<rparr>)"

lemma nrm_create_loop_walk:
  assumes "tree_shape n (metric_next t hash)" and "i < n"
    and "walk (\<lambda>_. False) (metric_next t hash) i = Some (Inr p)"
  shows "nrm_create_loop t hash k (int i) = Some (link_metric t hash p k)"
  using assms
proof (induction rule: tree_path_induct)
  case (node i)
  let ?m = "t_metrics t ! i"
  let ?c = "if m_hash ?m < hash then m_left ?m else m_right ?m"
  show ?case
  proof (cases "?c = - 1")
    case True
    then have "metric_next t hash i = None" by (simp add: metric_next_def Let_def)
    then have "i = p" using node(3) by (subst (asm) walk.simps) simp
    with True show ?thesis
      by (subst nrm_create_loop.simps) (auto simp: link_metric_def Let_def split: if_splits)
  next
    case False
    then have nx: "metric_next t hash i = Some (nat ?c)" by (simp add: metric_next_def Let_def)
    then have "walk (\<lambda>_. False) (metric_next t hash) (nat ?c) = Some (Inr p)"
      using node(3) by (subst (asm) walk.simps) simp
    moreover have "int (nat c) = c" if "i < nat c" for c using that by simp
    with tree_shapeD [OF assms(1) node(1) nx] have "nat ?c < n" "int (nat ?c) = ?c" by blast+
    ultimately have "nrm_create_loop t hash k ?c = Some (link_metric t hash p k)"
      using node(2) [OF nx] by simp
    with False show ?thesis
      by (subst nrm_create_loop.simps) (auto simp: Let_def split: if_splits)
  qed
qed

text \<open>\<open>t'\<close> has one metric more than \<open>t\<close>, named \<open>s\<close>.\<close>

definition grown_by_metric :: "nrmtable \<Rightarrow> nrmtable \<Rightarrow> string \<Rightarrow> bool" where
  "grown_by_metric t t' s \<longleftrightarrow> t_number t' = t_number t + 1 \<and> t_number t' \<le> t_allocated t'
     \<and> length (t_metrics t') = t_allocated t' \<and> pool_inv (t_strpool t') \<and> t_max_size t' = t_max_size t
     \<and> (\<forall>i < t_number t. metric_name t' i = metric_name t i
          \<and> m_hash (t_metrics t' ! i) = m_hash (t_metrics t ! i)
          \<and> m_flags (t_metrics t' ! i) = m_flags (t_metrics t ! i)
          \<and> mdata (t_metrics t' ! i) = mdata (t_metrics t ! i)
          \<and> m_left (t_metrics t' ! i) \<in> {m_left (t_metrics t ! i), int (t_number t)}
          \<and> m_right (t_metrics t' ! i) \<in> {m_right (t_metrics t ! i), int (t_number t)}
          \<and> (\<forall>h j. metric_next t h i = Some j \<longrightarrow> metric_next t' h i = Some j))
     \<and> metric_name t' (t_number t) = Some s
     \<and> t_metrics t' ! t_number t = fresh_metric (string_hash s) (m_name_index (t_metrics t' ! t_number t))
     \<and> (t_number t \<noteq> 0 \<longrightarrow> (\<exists>p < t_number t. metric_next t' (string_hash s) p = Some (t_number t)
          \<and> walk (metric_match t s) (metric_next t (string_hash s)) 0 = Some (Inr p)))"

lemma grown_metrics_inv:
  assumes inv: "metrics_inv t" and g: "grown_by_metric t t' s"
  shows "metrics_inv t'"
proof -
  let ?n = "t_number t"
  have new: "metric_name t' ?n = Some s"
    "t_metrics t' ! ?n = fresh_metric (string_hash s) (m_name_index (t_metrics t' ! ?n))"
    using g by (simp_all add: grown_by_metric_def)
  have match: "metric_match t' u i = metric_match t u i" if "i < ?n" for u i
    using g that by (simp add: grown_by_metric_def metric_match_def)
  have links: "metric_next t' h i = Some j" if "i < ?n" "metric_next t h i = Some j" for h i j
    using g that by (simp add: grown_by_metric_def)
  have valid: "metric_valid t' i \<and> length (mdata (t_metrics t' ! i)) = 6" if i: "i < ?n + 1" for i
  proof (cases "i = ?n")
    case True
    have "m_left (t_metrics t' ! ?n) = - 1" "m_right (t_metrics t' ! ?n) = - 1"
      "length (mdata (t_metrics t' ! ?n)) = 6"
      by (subst new(2), simp add: fresh_metric_def)+
    with True new(1) show ?thesis by (simp add: metric_valid_def metric_name_def Let_def)
  next
    case False
    with i have i': "i < ?n" by simp
    then have "metric_valid t i" "length (mdata (t_metrics t ! i)) = 6" using inv by (simp_all add: metrics_inv_def)
    with g i' show ?thesis
      unfolding metric_valid_def metric_name_def [symmetric] Let_def grown_by_metric_def by auto
  qed
  have found: "\<exists>u. metric_name t' i = Some u \<and> walk (metric_match t' u) (metric_next t' (string_hash u)) 0 = Some (Inl i)"
    if i: "i < ?n + 1" for i
  proof (cases "i = ?n")
    case True
    have "m_hash (t_metrics t' ! ?n) = string_hash s" by (subst new(2)) (simp add: fresh_metric_def)
    then have "metric_match t' s ?n" using new(1) by (simp add: metric_match_def)
    moreover have "walk (metric_match t' s) (metric_next t' (string_hash s)) 0 = Some (Inl ?n)"
    proof (cases "?n = 0")
      case True
      then show ?thesis using \<open>metric_match t' s ?n\<close> by (subst walk.simps) simp
    next
      case False
      with g obtain p where "metric_next t' (string_hash s) p = Some ?n"
        "walk (metric_match t s) (metric_next t (string_hash s)) 0 = Some (Inr p)"
        by (auto simp: grown_by_metric_def)
      then show ?thesis
        using walk_new [OF metrics_shape [OF inv], of 0 "metric_match t' s" "metric_match t s"] False
          match links \<open>metric_match t' s ?n\<close> by blast
    qed
    ultimately show ?thesis using True new(1) by blast
  next
    case False
    with i have i': "i < ?n" by simp
    from metrics_inv_name [OF inv i'] obtain u where u: "metric_name t i = Some u"
      "walk (metric_match t u) (metric_next t (string_hash u)) 0 = Some (Inl i)" by blast
    have "walk (metric_match t' u) (metric_next t' (string_hash u)) 0 = Some (Inl i)"
      by (rule walk_extends [OF metrics_shape [OF inv] _ match links u(2)]) (use i' in auto)
    moreover have "metric_name t' i = Some u" using g i' u(1) by (simp add: grown_by_metric_def)
    ultimately show ?thesis by blast
  qed
  show ?thesis using g valid found by (auto simp: metrics_inv_def grown_by_metric_def)
qed


definition payload :: "nrmetric \<Rightarrow> uint32 \<times> uint64 list" where
  "payload m = (m_flags m, mdata m)"

definition new_payload :: "uint32 \<times> uint64 list" where
  "new_payload = (0, [0, 0, 0, NR_TIME_MAX, 0, 0])"

lemma min_NR_TIME_MAX [simp]: "min NR_TIME_MAX x = x"
  by (simp add: NR_TIME_MAX_def min_def) (auto intro: antisym)

lemma payload_fresh: "payload (fresh_metric h i) = new_payload"
  by (simp add: payload_def fresh_metric_def new_payload_def NRM_MIN_def numeral_eq_Suc)

lemma metric_map_grown:
  assumes inv: "metrics_inv t" and g: "grown_by_metric t t' s"
    and absent: "\<And>i. i < t_number t \<Longrightarrow> metric_name t i \<noteq> Some s"
  shows "metric_map t' = (metric_map t)(s \<mapsto> new_payload)"
proof -
  let ?kv = "\<lambda>t i. (the (metric_name t i), (m_flags (t_metrics t ! i), mdata (t_metrics t ! i)))"
  have old: "map (?kv t') [0..<t_number t] = map (?kv t) [0..<t_number t]"
    using g by (auto simp: grown_by_metric_def)
  have "payload (t_metrics t' ! t_number t) = new_payload"
    using g payload_fresh by (metis grown_by_metric_def)
  then have "?kv t' (t_number t) = (s, new_payload)"
    using g by (simp add: grown_by_metric_def payload_def)
  moreover have "[0..<t_number t'] = [0..<t_number t] @ [t_number t]" using g by (simp add: grown_by_metric_def)
  ultimately have "metric_map t' = [s \<mapsto> new_payload] ++ metric_map t"
    unfolding metric_map_def by (simp add: old)
  moreover have "metric_map t s = None" using metric_map_eq [OF inv, of s] absent by (metis option.exhaust)
  ultimately show ?thesis by (auto simp: map_add_def fun_eq_iff split: option.splits)
qed

lemma nrm_grow_spec:
  assumes "metrics_inv t"
  shows "t_number (nrm_grow t) = t_number t" "t_number t < t_allocated (nrm_grow t)"
    "length (t_metrics (nrm_grow t)) = t_allocated (nrm_grow t)"
    "i < t_number t \<Longrightarrow> t_metrics (nrm_grow t) ! i = t_metrics t ! i"
    "t_strpool (nrm_grow t) = t_strpool t" "t_max_size (nrm_grow t) = t_max_size t"
  using assms by (auto simp: nrm_grow_def metrics_inv_def NRM_DEFAULT_MAX_SIZE_def nth_append)

lemma link_metric_simps [simp]:
  "t_number (link_metric t h p k) = t_number t" "t_allocated (link_metric t h p k) = t_allocated t"
  "t_max_size (link_metric t h p k) = t_max_size t" "t_strpool (link_metric t h p k) = t_strpool t"
  "length (t_metrics (link_metric t h p k)) = length (t_metrics t)"
  by (simp_all add: link_metric_def Let_def)

lemma link_metric_nth:
  "p < length (t_metrics t) \<Longrightarrow> t_metrics (link_metric t h p k) ! i =
     (if i = p then (if m_hash (t_metrics t ! p) < h then (t_metrics t ! p)\<lparr>m_left := int k\<rparr>
                     else (t_metrics t ! p)\<lparr>m_right := int k\<rparr>) else t_metrics t ! i)"
  by (auto simp: link_metric_def Let_def nth_list_update)

lemma metric_next_cong:
  "t_metrics t' ! i = t_metrics t ! i \<Longrightarrow> metric_next t' h i = metric_next t h i"
  by (simp add: metric_next_def)

lemma pool_names_kept:
  assumes "pool_inv p" and "pool_inv p'"
    and "pool_list p' = (if s \<in> set (pool_list p) then pool_list p else pool_list p @ [s])"
    and "nr_string_get (Some p) i = Some u"
  shows "nr_string_get (Some p') i = Some u"
  using assms by (auto simp: nr_string_get_eq nth_append split: if_splits)

lemma nrm_create_spec:
  assumes inv: "metrics_inv t" and s: "c_string s"
    and absent: "nrm_find_internal (Some t) (Some s) (string_hash s) = Some None"
  shows "\<exists>t'. nrm_create (Some t) (Some s) (string_hash s) = Some (Some (t_number t), Some t')
    \<and> grown_by_metric t t' s"
proof -
  let ?n = "t_number t" and ?h = "string_hash s"
  note g = nrm_grow_spec [OF inv]
  have pool: "pool_inv (t_strpool t)" using inv by (simp add: metrics_inv_def)
  from nr_string_add_spec [OF pool s] obtain k p' where
    add: "nr_string_add (Some (t_strpool t)) (Some s) = Some (k, Some p')" and p': "pool_inv p'"
    and k: "nr_string_get (Some p') (int k) = Some s"
    and l: "pool_list p' = (if s \<in> set (pool_list (t_strpool t)) then pool_list (t_strpool t)
       else pool_list (t_strpool t) @ [s])" by blast
  define t1 where "t1 = (nrm_grow t)\<lparr>t_number := ?n + 1, t_strpool := p',
     t_metrics := (t_metrics (nrm_grow t))[?n := fresh_metric ?h k]\<rparr>"
  have t1: "t_number t1 = ?n + 1" "t_allocated t1 = t_allocated (nrm_grow t)" "t_max_size t1 = t_max_size t"
    "t_strpool t1 = p'" "length (t_metrics t1) = t_allocated t1" "?n < t_allocated t1"
    "t_metrics t1 ! ?n = fresh_metric ?h k"
    using g by (simp_all add: t1_def)
  have cell: "t_metrics t1 ! i = t_metrics t ! i" if "i < ?n" for i using that g(4) [OF that] by (simp add: t1_def)
  have name: "metric_name t1 i = metric_name t i" if i: "i < ?n" for i
  proof (rule metrics_inv_name [OF inv i])
    fix u
    assume "metric_name t i = Some u"
    then show ?thesis using pool_names_kept [OF pool p' l] cell [OF i] t1(4) by (simp add: metric_name_def)
  qed
  have nxt: "metric_next t1 h i = metric_next t h i" if "i < ?n" for h i
    by (rule metric_next_cong [OF cell [OF that]])
  have new_name: "metric_name t1 ?n = Some s" using t1(4,7) k by (simp add: metric_name_def fresh_metric_def)
  have create: "nrm_create (Some t) (Some s) ?h =
      (if ?n = 0 then Some (Some ?n, Some t1)
       else map_option (\<lambda>t'. (Some ?n, Some t')) (nrm_create_loop t1 ?h ?n 0))"
    using add g by (simp add: nrm_create_def t1_def Let_def map_conv_bind_option comp_def)
  show ?thesis
  proof (cases "?n = 0")
    case True
    then have "grown_by_metric t t1 s" unfolding grown_by_metric_def
      using t1 p' new_name by (simp add: fresh_metric_def)
    with create True show ?thesis by auto
  next
    case False
    with nrm_find_spec [OF inv, of s] absent obtain p where p: "p < ?n" "metric_next t ?h p = None"
      "walk (metric_match t s) (metric_next t ?h) 0 = Some (Inr p)"
      by (metis option.distinct(1) option.inject)
    have shape: "tree_shape ?n (metric_next t1 ?h)"
      unfolding tree_shape_def
    proof (intro allI impI)
      fix i j
      assume "i < ?n" "metric_next t1 ?h i = Some j"
      then show "i < j \<and> j < ?n"
        using tree_shapeD [OF metrics_shape [OF inv], of i ?h j] nxt [of i ?h] by argo
    qed
    have "walk (\<lambda>_. False) (metric_next t1 ?h) 0 = walk (\<lambda>_. False) (metric_next t ?h) 0"
      by (rule walk_cong_below [OF metrics_shape [OF inv]]) (use False nxt in auto)
    also have "\<dots> = Some (Inr p)"
      by (rule walk_nothing [OF metrics_shape [OF inv] _ p(3)]) (use False in simp)
    finally have "walk (\<lambda>_. False) (metric_next t1 ?h) 0 = Some (Inr p)" .
    with False nrm_create_loop_walk [OF shape, of 0 p ?n]
    have loop: "nrm_create_loop t1 ?h ?n 0 = Some (link_metric t1 ?h p ?n)" by simp
    have "p < length (t_metrics t1)" using p(1) t1(5,6) by simp
    note nth = link_metric_nth [OF this, of ?h ?n]
    have cells: "metric_name (link_metric t1 ?h p ?n) i = metric_name t i
          \<and> m_hash (t_metrics (link_metric t1 ?h p ?n) ! i) = m_hash (t_metrics t ! i)
          \<and> m_flags (t_metrics (link_metric t1 ?h p ?n) ! i) = m_flags (t_metrics t ! i)
          \<and> mdata (t_metrics (link_metric t1 ?h p ?n) ! i) = mdata (t_metrics t ! i)
          \<and> m_left (t_metrics (link_metric t1 ?h p ?n) ! i) \<in> {m_left (t_metrics t ! i), int ?n}
          \<and> m_right (t_metrics (link_metric t1 ?h p ?n) ! i) \<in> {m_right (t_metrics t ! i), int ?n}"
      if "i < ?n" for i
      using name [OF that] cell [OF that] nth [of i]
      by (cases "i = p") (simp_all add: metric_name_def)
    have next_kept: "metric_next (link_metric t1 ?h p ?n) h i = Some j"
      if "i < ?n" "metric_next t h i = Some j" for h i j
      using that p(2) cell [OF that(1)] nth [of i]
      by (cases "i = p") (auto simp: metric_next_def Let_def split: if_splits)
    have next_new: "metric_next (link_metric t1 ?h p ?n) ?h p = Some ?n"
      using nth [of p] by (simp add: metric_next_def Let_def)
    have fresh: "t_metrics (link_metric t1 ?h p ?n) ! ?n = fresh_metric ?h k" using nth [of ?n] t1(7) p(1) by simp
    then have "metric_name (link_metric t1 ?h p ?n) ?n = Some s" using t1(4) k
      by (simp add: metric_name_def fresh_metric_def)
    moreover have "fresh_metric ?h k = fresh_metric ?h (m_name_index (fresh_metric ?h k))"
      by (simp add: fresh_metric_def)
    ultimately have "grown_by_metric t (link_metric t1 ?h p ?n) s"
      unfolding grown_by_metric_def fresh using t1 p' p(1,3) cells next_kept next_new by auto
    with create False loop show ?thesis by simp
  qed
qed


section \<open>Adding to a metric\<close>

text \<open>The updates of \<open>update_metric\<close> change a metric's flags and data only.\<close>

definition data_update ::
  "(nrmetric \<Rightarrow> nrmetric) \<Rightarrow> (uint32 \<times> uint64 list \<Rightarrow> uint32 \<times> uint64 list) \<Rightarrow> bool" where
  "data_update f g \<longleftrightarrow> (\<forall>m. m_hash (f m) = m_hash m \<and> m_left (f m) = m_left m \<and> m_right (f m) = m_right m
     \<and> m_name_index (f m) = m_name_index m
     \<and> (length (mdata m) = 6 \<longrightarrow> payload (f m) = g (payload m) \<and> length (mdata (f m)) = 6))"

lemma data_updateD:
  assumes "data_update f g"
  shows "m_hash (f m) = m_hash m" "m_left (f m) = m_left m" "m_right (f m) = m_right m"
    "m_name_index (f m) = m_name_index m"
    "length (mdata m) = 6 \<Longrightarrow> payload (f m) = g (payload m)"
    "length (mdata m) = 6 \<Longrightarrow> length (mdata (f m)) = 6"
  using assms by (simp_all add: data_update_def)

lemma metric_map_payload:
  "metric_map t = map_of (map (\<lambda>i. (the (metric_name t i), payload (t_metrics t ! i))) [0..<t_number t])"
  by (simp add: metric_map_def payload_def)

lemma update_metric_spec:
  assumes inv: "metrics_inv t" and i: "i < t_number t" and s: "metric_name t i = Some s"
    and f: "data_update f g"
  shows "\<exists>t' v. update_metric f (Some i, Some t) = Some t' \<and> metrics_inv t' \<and> t_number t' = t_number t
    \<and> t_max_size t' = t_max_size t \<and> metric_name t' = metric_name t
    \<and> metric_map t s = Some v \<and> metric_map t' = (metric_map t)(s \<mapsto> g v)"
proof -
  let ?t = "t\<lparr>t_metrics := (t_metrics t)[i := f (t_metrics t ! i)]\<rparr>"
  have len: "i < length (t_metrics t)" using inv i by (simp add: metrics_inv_def)
  note fD = data_updateD [OF f]
  have nth: "t_metrics ?t ! j = (if j = i then f (t_metrics t ! i) else t_metrics t ! j)" for j
    using len by (simp add: nth_list_update)
  have same: "metric_name ?t = metric_name t" "metric_next ?t = metric_next t" "metric_match ?t = metric_match t"
    "metric_valid ?t = metric_valid t"
    unfolding metric_match_def metric_name_def metric_next_def metric_valid_def nth fun_eq_iff
    by (simp_all add: fD Let_def)
  have six: "length (mdata (t_metrics t ! j)) = 6" if "j < t_number t" for j
    using inv that by (simp add: metrics_inv_def)
  have six': "length (mdata (t_metrics ?t ! j)) = 6" if "j < t_number t" for j
    unfolding nth using six that fD(6) i by simp
  have inv': "metrics_inv ?t" unfolding metrics_inv_def same using inv six' by (simp add: metrics_inv_def)
  have v: "metric_map t s = Some (payload (t_metrics t ! i))"
    using metric_map_eq [OF inv] i s by (auto simp: payload_def)
  have "metric_map ?t u = ((metric_map t)(s \<mapsto> g (payload (t_metrics t ! i)))) u" for u
  proof (cases "u = s")
    case True
    have "metric_map ?t s = Some (payload (t_metrics ?t ! i))"
      using metric_map_eq [OF inv'] i s same(1) by (auto simp: payload_def)
    with True show ?thesis using fD(5) six i nth by simp
  next
    case False
    have "metric_map ?t u = Some w \<longleftrightarrow> metric_map t u = Some w" for w
      unfolding metric_map_eq [OF inv'] metric_map_eq [OF inv] same nth
      by (intro ex_cong1) (use s False in auto)
    with False show ?thesis by (metis fun_upd_other option.exhaust)
  qed
  then show ?thesis using inv' v same(1) by (auto simp: update_metric_def)
qed

lemma data_update_forced: "data_update set_forced (apfst (\<lambda>fl. fl OR MET_FORCED))"
  by (simp add: data_update_def set_forced_def payload_def)

text \<open>The effect of an addition on the six values of a metric.\<close>

definition merge_data ::
  "uint64 \<Rightarrow> uint64 \<Rightarrow> uint64 \<Rightarrow> uint64 \<Rightarrow> uint64 \<Rightarrow> uint64 \<Rightarrow> uint64 list \<Rightarrow> uint64 list" where
  "merge_data cnt tot exclusive mn mx sum_of_squares d =
     [d ! 0 + cnt, d ! 1 + tot, d ! 2 + exclusive, min (d ! 3) mn, max (d ! 4) mx, d ! 5 + sum_of_squares]"

lemma length_six:
  assumes "length d = 6"
  obtains a b c e f g where "d = [a, b, c, e, f, g]"
  using assms by (auto simp: numeral_eq_Suc length_Suc_conv)

lemma data_update_add:
  "data_update (add_data cnt tot exclusive mn mx sq) (apsnd (merge_data cnt tot exclusive mn mx sq))"
proof -
  have "mdata (add_data cnt tot exclusive mn mx sq m) = merge_data cnt tot exclusive mn mx sq (mdata m)"
    if "length (mdata m) = 6" for m
    by (rule length_six [OF that])
      (auto simp: add_data_def Let_def nrm_attributes merge_data_def numeral_eq_Suc min_def max_def)
  then show ?thesis
    by (auto simp: data_update_def payload_def add_data_def Let_def merge_data_def)
qed

lemma data_update_apdex:
  "data_update (apdex_data sat tol fail mn mx)
     (map_prod (\<lambda>fl. fl OR MET_IS_APDEX) (merge_data sat tol fail mn mx 0))"
proof -
  have "mdata (apdex_data sat tol fail mn mx m) = merge_data sat tol fail mn mx 0 (mdata m)"
    if "length (mdata m) = 6" for m
    by (rule length_six [OF that])
      (auto simp: apdex_data_def Let_def nrm_attributes merge_data_def numeral_eq_Suc min_def max_def)
  then show ?thesis
    by (auto simp: data_update_def payload_def apdex_data_def Let_def merge_data_def)
qed


text \<open>
  The abstract table: a map from names to flags and data. An addition changes the entry of
  the name (a new entry when there is none), and marks it when it is forced.
\<close>

definition spec_update ::
  "bool \<Rightarrow> string \<Rightarrow> (uint32 \<times> uint64 list \<Rightarrow> uint32 \<times> uint64 list)
     \<Rightarrow> (string \<Rightarrow> (uint32 \<times> uint64 list) option) \<Rightarrow> string \<Rightarrow> (uint32 \<times> uint64 list) option" where
  "spec_update force s g M =
     (let v = (case M s of None \<Rightarrow> new_payload | Some v \<Rightarrow> v)
      in M(s \<mapsto> g (if force then apfst (\<lambda>fl. fl OR MET_FORCED) v else v)))"

definition has_room :: "bool \<Rightarrow> nrmtable \<Rightarrow> string \<Rightarrow> bool" where
  "has_room force t s \<longleftrightarrow> force \<or> metric_map t s \<noteq> None \<or> t_number t < t_max_size t"

lemma metric_map_None:
  assumes "metrics_inv t"
  shows "metric_map t s = None \<longleftrightarrow> (\<forall>i < t_number t. metric_name t i \<noteq> Some s)"
  using metric_map_eq [OF assms, of s] by (metis option.exhaust option.distinct(1))

lemma find_or_create_present:
  assumes inv: "metrics_inv t" and s: "c_string s" and room: "has_room force t s"
  shows "\<exists>i t1 t'. find_or_create_with on_full force (Some t) (Some s) = Some (Some i, Some t')
    \<and> Some t' = (if force then update_metric set_forced (Some i, Some t1) else Some t1)
    \<and> metrics_inv t1 \<and> i < t_number t1 \<and> metric_name t1 i = Some s \<and> t_max_size t1 = t_max_size t
    \<and> t_number t1 = t_number t + (if metric_map t s = None then 1 else 0)
    \<and> metric_map t1 = (metric_map t)(s \<mapsto> case metric_map t s of None \<Rightarrow> new_payload | Some v \<Rightarrow> v)"
  using nrm_find_spec [OF inv, of s]
proof (elim disjE exE conjE)
  fix i
  assume i: "i < t_number t" "nrm_find_internal (Some t) (Some s) (string_hash s) = Some (Some i)"
    "metric_name t i = Some s"
  then obtain v where v: "metric_map t s = Some v" using metric_map_None [OF inv, of s] by auto
  have "find_or_create_with on_full force (Some t) (Some s) =
      Some (Some i, if force then update_metric set_forced (Some i, Some t) else Some t)"
    using i by (simp add: find_or_create_with_def nrm_hash_eq Let_def)
  moreover have "\<exists>t'. (if force then update_metric set_forced (Some i, Some t) else Some t) = Some t'"
    by (simp add: update_metric_def)
  then obtain t' where "(if force then update_metric set_forced (Some i, Some t) else Some t) = Some t'" ..
  ultimately show ?thesis using i inv v
    by - (rule exI [of _ i], rule exI [of _ t], rule exI [of _ t'], simp add: fun_upd_idem)
next
  assume a: "nrm_find_internal (Some t) (Some s) (string_hash s) = Some None"
    "\<forall>i < t_number t. metric_name t i \<noteq> Some s"
  from nrm_create_spec [OF inv s a(1)] obtain t1 where
    t1: "nrm_create (Some t) (Some s) (string_hash s) = Some (Some (t_number t), Some t1)"
    "grown_by_metric t t1 s" by blast
  have none: "metric_map t s = None" using metric_map_None [OF inv] a(2) by blast
  have "find_or_create_with on_full force (Some t) (Some s) = Some (Some (t_number t),
      if force then update_metric set_forced (Some (t_number t), Some t1) else Some t1)"
    using a(1) t1(1) room none
    by (auto simp: find_or_create_with_def nrm_hash_eq Let_def nrm_is_full_def has_room_def)
  moreover have "\<exists>t'. (if force then update_metric set_forced (Some (t_number t), Some t1) else Some t1) = Some t'"
    by (simp add: update_metric_def)
  then obtain t' where
    "(if force then update_metric set_forced (Some (t_number t), Some t1) else Some t1) = Some t'" ..
  moreover have "metrics_inv t1" using grown_metrics_inv [OF inv t1(2)] .
  moreover have "metric_map t1 = (metric_map t)(s \<mapsto> new_payload)"
    using metric_map_grown [OF inv t1(2)] a(2) by blast
  moreover have "t_number t1 = t_number t + 1" "metric_name t1 (t_number t) = Some s" "t_max_size t1 = t_max_size t"
    using t1(2) by (simp_all add: grown_by_metric_def)
  ultimately show ?thesis using none
    by - (rule exI [of _ "t_number t"], rule exI [of _ t1], rule exI [of _ t'], simp)
qed

lemma add_spec:
  assumes inv: "metrics_inv t" and s: "c_string s" and room: "has_room force t s" and f: "data_update f g"
  shows "\<exists>t'. map_option (update_metric f) (find_or_create_with on_full force (Some t) (Some s)) = Some (Some t')
    \<and> metrics_inv t' \<and> t_max_size t' = t_max_size t
    \<and> t_number t' = t_number t + (if metric_map t s = None then 1 else 0)
    \<and> metric_map t' = spec_update force s g (metric_map t)"
proof -
  let ?v = "case metric_map t s of None \<Rightarrow> new_payload | Some v \<Rightarrow> v"
  from find_or_create_present [OF inv s room, of on_full] obtain i t1 t2 where
    foc: "find_or_create_with on_full force (Some t) (Some s) = Some (Some i, Some t2)"
    and t2: "Some t2 = (if force then update_metric set_forced (Some i, Some t1) else Some t1)"
    and t1: "metrics_inv t1" "i < t_number t1" "metric_name t1 i = Some s" "t_max_size t1 = t_max_size t"
      "t_number t1 = t_number t + (if metric_map t s = None then 1 else 0)"
      "metric_map t1 = (metric_map t)(s \<mapsto> ?v)" by blast
  have t2': "metrics_inv t2 \<and> i < t_number t2 \<and> metric_name t2 i = Some s \<and> t_max_size t2 = t_max_size t
      \<and> t_number t2 = t_number t1
      \<and> metric_map t2 = (metric_map t)(s \<mapsto> if force then apfst (\<lambda>fl. fl OR MET_FORCED) ?v else ?v)"
  proof (cases force)
    case True
    with update_metric_spec [OF t1(1-3) data_update_forced] t2 t1 show ?thesis by auto
  next
    case False
    with t2 t1 show ?thesis by simp
  qed
  from update_metric_spec [of t2 i s f g] t2' f obtain t' v where
    "update_metric f (Some i, Some t2) = Some t'" "metrics_inv t'" "t_number t' = t_number t2"
    "t_max_size t' = t_max_size t2" "metric_map t2 s = Some v" "metric_map t' = (metric_map t2)(s \<mapsto> g v)" by blast
  with foc t2' t1(5) show ?thesis
    by (intro exI [of _ t']) (auto simp: spec_update_def Let_def)
qed

lemma find_or_create_full:
  assumes inv: "metrics_inv t" and "\<not> has_room force t s"
  shows "find_or_create_with on_full force (Some t) (Some s) = map_option (Pair None) (on_full (Some t))"
proof -
  have none: "metric_map t s = None" "\<not> force" "t_max_size t \<le> t_number t"
    using assms(2) unfolding has_room_def by (simp_all del: not_None_eq)
  then have "nrm_find_internal (Some t) (Some s) (string_hash s) = Some None"
    using nrm_find_spec [OF inv, of s] metric_map_None [OF inv, of s] by blast
  with none show ?thesis
    by (simp add: find_or_create_with_def nrm_hash_eq Let_def nrm_is_full_def map_conv_bind_option comp_def)
qed


lemma drop_metric_spec:
  assumes "metrics_inv t"
  shows "\<exists>t'. drop_metric (Some t) = Some (Some t') \<and> metrics_inv t' \<and> t_max_size t' = t_max_size t
    \<and> metric_map t' = spec_update True ''Supportability/MetricsDropped'' (apsnd (merge_data 1 0 0 0 0 0)) (metric_map t)"
  using add_spec [OF assms, of "''Supportability/MetricsDropped''" True
      "add_data 1 0 0 0 0 0" "apsnd (merge_data 1 0 0 0 0 0)" Some]
  unfolding drop_metric_def nrm_force_add_def add_internal_with_def
  by (auto simp: data_update_add has_room_def c_string_def simp del: map_option_eq_Some)

text \<open>What an addition promises: the entry of the name changes, or, when the table is full, the
  metric is new and it is not forced, the count of dropped metrics.\<close>

definition spec_add ::
  "nat \<Rightarrow> nat \<Rightarrow> bool \<Rightarrow> string \<Rightarrow> (uint32 \<times> uint64 list \<Rightarrow> uint32 \<times> uint64 list)
     \<Rightarrow> (string \<Rightarrow> (uint32 \<times> uint64 list) option) \<Rightarrow> string \<Rightarrow> (uint32 \<times> uint64 list) option" where
  "spec_add number max_size force s g M =
     (if force \<or> M s \<noteq> None \<or> number < max_size then spec_update force s g M
      else spec_update True ''Supportability/MetricsDropped'' (apsnd (merge_data 1 0 0 0 0 0)) M)"

lemma find_or_create_update:
  assumes inv: "metrics_inv t" and s: "c_string s" and f: "data_update f g"
  shows "\<exists>t'. map_option (update_metric f) (nrm_find_or_create force (Some t) (Some s)) = Some (Some t')
    \<and> metrics_inv t' \<and> t_max_size t' = t_max_size t
    \<and> metric_map t' = spec_add (t_number t) (t_max_size t) force s g (metric_map t)"
proof (cases "has_room force t s")
  case True
  then show ?thesis using add_spec [OF inv s True f, of drop_metric]
    by (auto simp: nrm_find_or_create_def spec_add_def has_room_def)
next
  case False
  then show ?thesis using drop_metric_spec [OF inv] find_or_create_full [OF inv False, of drop_metric]
    by (auto simp: nrm_find_or_create_def spec_add_def has_room_def update_metric_def)
qed

lemma metrics_inv_create: "metrics_inv (nrm_table_create n)" "metric_map (nrm_table_create n) = Map.empty"
  by (auto simp: metrics_inv_def nrm_table_create_def Let_def pool_inv_create NRM_DEFAULT_MAX_SIZE_def metric_map_def)

lemma metrics_inv_validate: "metrics_inv t \<Longrightarrow> nrm_table_validate (Some t) = NR_SUCCESS"
  by (auto simp: metrics_inv_def nrm_table_validate_def)

section \<open>Properties\<close>

text \<open>C12. Adding to a metric table ends without an invalid access on every well-formed table,
  leaves a table that \<open>nrm_table_validate\<close> accepts and that is well formed again, and changes
  the table as a map: counts, totals, exclusive times and squares are added (modulo
  \<open>2 ^ 64\<close>), minimum and maximum are kept, forced metrics are marked. A metric that is new,
  not forced, and finds the table full is dropped, and the forced metric
  \<open>Supportability/MetricsDropped\<close> counts it.\<close>

theorem nrm_add_internal_correct:
  assumes "metrics_inv t" and "c_string s"
  shows "\<exists>t'. nrm_add_internal force (Some t) (Some s) cnt tot exclusive mn mx sq = Some (Some t')
    \<and> metrics_inv t' \<and> nrm_table_validate (Some t') = NR_SUCCESS \<and> t_max_size t' = t_max_size t
    \<and> metric_map t' = spec_add (t_number t) (t_max_size t) force s
         (apsnd (merge_data cnt tot exclusive mn mx sq)) (metric_map t)"
  using find_or_create_update [OF assms data_update_add, where force = force] metrics_inv_validate
  by (fastforce simp: nrm_add_internal_def)

theorem nrm_add_internal_correct_witness:
  "\<exists>t'. nrm_add_internal False (Some (nrm_table_create 1)) (Some ''a'') 1 5 5 5 5 25 = Some (Some t')
    \<and> metric_map t' ''a'' = Some (0, [1, 5, 5, 5, 5, 25])"
  using nrm_add_internal_correct [OF metrics_inv_create(1) [of 1], of "''a''" False 1 5 5 5 5 25]
    metrics_inv_create(2) [of 1]
  by (auto simp: c_string_def spec_add_def spec_update_def new_payload_def merge_data_def Let_def
      nrm_table_create_def)

text \<open>Apdex metrics: the same table operation, with satisfying, tolerating and failing
  counts in place of count, total and exclusive time, and the metric marked as apdex.\<close>

theorem nrm_add_apdex_internal_correct:
  assumes "metrics_inv t" and "c_string s"
  shows "\<exists>t'. nrm_add_apdex_internal force (Some t) (Some s) sat tol fail mn mx = Some (Some t')
    \<and> metrics_inv t' \<and> t_max_size t' = t_max_size t
    \<and> metric_map t' = spec_add (t_number t) (t_max_size t) force s
         (map_prod (\<lambda>fl. fl OR MET_IS_APDEX) (merge_data sat tol fail mn mx 0)) (metric_map t)"
  using find_or_create_update [OF assms data_update_apdex, where force = force]
  by (simp add: nrm_add_apdex_internal_def)

theorem nrm_add_apdex_internal_correct_witness:
  "\<exists>t'. nrm_add_apdex_internal True (Some (nrm_table_create 1)) (Some ''a'') 1 0 0 7 7 = Some (Some t')
    \<and> metric_map t' ''a'' = Some (3, [1, 0, 0, 7, 7, 0])"
  using nrm_add_apdex_internal_correct [OF metrics_inv_create(1) [of 1], of "''a''" True 1 0 0 7 7]
    metrics_inv_create(2) [of 1]
  by (auto simp: c_string_def spec_add_def spec_update_def new_payload_def merge_data_def Let_def
      nrm_table_create_def MET_FORCED_def MET_IS_APDEX_def)

text \<open>C17. The limit of a table: of the metrics in it, those that were not forced are at most
  \<open>max_size\<close>, after any sequence of additions. A forced addition can only mark a metric, and an
  addition that is not forced creates one only below the limit.\<close>

definition unforced :: "nrmtable \<Rightarrow> string set" where
  "unforced t = {s. \<exists>v. metric_map t s = Some v \<and> fst v AND MET_FORCED = 0}"

fun nrm_adds :: "nrmtable ptr \<Rightarrow> (bool \<times> string \<times> uint64 \<times> uint64) list \<Rightarrow> nrmtable ptr option" where
  "nrm_adds table [] = Some table"
| "nrm_adds table ((force, s, duration, exclusive) # xs) = do {
     table \<leftarrow> (if force then nrm_force_add_ex table (Some s) duration exclusive
               else nrm_add_ex table (Some s) duration exclusive);
     nrm_adds table xs
   }"

lemma finite_metric_map: "finite (dom (metric_map t))"
  unfolding metric_map_def by (rule finite_dom_map_of)

lemma card_metric_map:
  assumes "metrics_inv t"
  shows "card (dom (metric_map t)) = t_number t"
proof -
  have "dom (metric_map t) = (\<lambda>i. the (metric_name t i)) ` {0..<t_number t}"
    unfolding metric_map_def by (simp add: dom_map_of_conv_image_fst image_image)
  moreover have "inj_on (\<lambda>i. the (metric_name t i)) {0..<t_number t}"
  proof (rule inj_onI)
    fix i j
    assume ij: "i \<in> {0..<t_number t}" "j \<in> {0..<t_number t}" "the (metric_name t i) = the (metric_name t j)"
    from metrics_inv_name [OF assms] ij(1,2) obtain a b
      where "metric_name t i = Some a" "metric_name t j = Some b" by (metis atLeastLessThan_iff)
    with ij metric_names_unique [OF assms, of i j] show "i = j" by simp
  qed
  ultimately show ?thesis by (simp add: card_image)
qed

lemma forced_flag: "(fl OR MET_FORCED) AND MET_FORCED \<noteq> (0::uint32)"
proof
  assume "(fl OR MET_FORCED) AND MET_FORCED = 0"
  then have "bit ((fl OR MET_FORCED) AND MET_FORCED) 1 = bit (0::uint32) 1" by simp
  then show False by (simp add: MET_FORCED_def bit_simps)
qed

lemma unforced_step:
  assumes inv: "metrics_inv t" and lim: "card (unforced t) \<le> t_max_size t" and pos: "0 < t_max_size t"
    and m: "metrics_inv t'" "metric_map t' = spec_add (t_number t) (t_max_size t) force s (apsnd h) (metric_map t)"
  shows "card (unforced t') \<le> t_max_size t"
proof -
  have fin: "finite (unforced t)"
    by (rule finite_subset [OF _ finite_metric_map [of t]]) (auto simp: unforced_def)
  show ?thesis
  proof (cases "\<not> force \<and> metric_map t s = None \<and> t_number t < t_max_size t")
    case True
    have "unforced t \<subseteq> dom (metric_map t)" by (auto simp: unforced_def)
    then have "card (unforced t) \<le> t_number t"
      using card_mono [OF finite_metric_map] card_metric_map [OF inv] by metis
    moreover have "unforced t' \<subseteq> insert s (unforced t)"
      unfolding unforced_def m(2) using True by (auto simp: spec_add_def spec_update_def Let_def)
    then have "card (unforced t') \<le> card (unforced t) + 1"
      using card_mono [of "insert s (unforced t)" "unforced t'"] card_insert_le_m1 fin
      by (metis Suc_eq_plus1 card_insert_if finite_insert le_Suc_eq)
    ultimately show ?thesis using True by simp
  next
    case False
    have "unforced t' \<subseteq> unforced t"
      unfolding unforced_def m(2) using False forced_flag
      by (auto simp: spec_add_def spec_update_def Let_def new_payload_def split: if_splits option.splits)
    with lim fin show ?thesis by (meson card_mono le_trans)
  qed
qed

theorem nrm_table_limit:
  assumes "list_all (\<lambda>(force, s, _). c_string s) ops"
  shows "\<exists>t'. nrm_adds (Some (nrm_table_create n)) ops = Some (Some t') \<and> metrics_inv t'
    \<and> t_max_size t' = t_max_size (nrm_table_create n) \<and> card (unforced t') \<le> t_max_size t'"
proof -
  have run: "\<exists>t'. nrm_adds (Some t) ops = Some (Some t') \<and> metrics_inv t'
      \<and> t_max_size t' = t_max_size t \<and> card (unforced t') \<le> t_max_size t'"
    if "metrics_inv t" "card (unforced t) \<le> t_max_size t" "0 < t_max_size t" for t
    using assms that
  proof (induction ops arbitrary: t)
    case Nil
    then show ?case by simp
  next
    case (Cons x xs)
    obtain force s d e where x: "x = (force, s, d, e)" by (cases x) auto
    with Cons.prems have s: "c_string s" by simp
    let ?h = "merge_data 1 d e d d (d * d)"
    from find_or_create_update [OF Cons.prems(2) s data_update_add [of 1 d e d d "d * d"], of force]
    obtain t1 where t1: "nrm_add_internal force (Some t) (Some s) 1 d e d d (d * d) = Some (Some t1)"
      "metrics_inv t1" "t_max_size t1 = t_max_size t"
      "metric_map t1 = spec_add (t_number t) (t_max_size t) force s (apsnd ?h) (metric_map t)"
      unfolding nrm_add_internal_def by blast
    have "card (unforced t1) \<le> t_max_size t1"
      using unforced_step [OF Cons.prems(2-4) t1(2,4)] t1(3) by simp
    with Cons.IH [of t1] Cons.prems t1 x show ?case
      by (cases force) (auto simp: nrm_force_add_ex_def nrm_add_ex_def)
  qed
  have "unforced (nrm_table_create n) = {}" using metrics_inv_create(2) [of n] by (simp add: unforced_def)
  moreover have "0 < t_max_size (nrm_table_create n)"
    by (simp add: nrm_table_create_def Let_def NRM_DEFAULT_MAX_SIZE_def)
  ultimately show ?thesis using run [OF metrics_inv_create(1) [of n]] by simp
qed

theorem nrm_table_limit_witness:
  "\<exists>t'. nrm_adds (Some (nrm_table_create 1)) [(False, ''a'', 1, 1), (False, ''b'', 1, 1)] = Some (Some t')
    \<and> card (unforced t') \<le> 1"
  using nrm_table_limit [of "[(False, ''a'', 1, 1), (False, ''b'', 1, 1)]" 1]
  by (auto simp: c_string_def nrm_table_create_def)

text \<open>\<open>nrm_duplicate_metric\<close> gives the new name the six values and the forced mark of the
  metric, but not the mark of an apdex metric: a duplicated apdex metric is a metric of times,
  whose satisfying, tolerating and failing counts read as count, total and exclusive time.\<close>

theorem nrm_duplicate_metric_correct:
  assumes inv: "metrics_inv t" and "c_string a" and b: "c_string b"
    and a: "metric_map t a = Some (fl, [c, tt, e, mn, mx, sq])"
  shows "\<exists>t'. nrm_duplicate_metric (Some t) (Some a) (Some b) = Some (Some t') \<and> metrics_inv t'
    \<and> metric_map t' = spec_add (t_number t) (t_max_size t) (MET_FORCED AND fl \<noteq> 0) b
         (apsnd (merge_data c tt e mn mx sq)) (metric_map t)"
proof -
  from a obtain i where i: "i < t_number t" "metric_name t i = Some a"
    "m_flags (t_metrics t ! i) = fl" "mdata (t_metrics t ! i) = [c, tt, e, mn, mx, sq]"
    unfolding metric_map_eq [OF inv] by auto
  have "nrm_find_internal (Some t) (Some a) (string_hash a) = Some (Some i)"
    using nrm_find_spec [OF inv, of a] i metric_names_unique [OF inv, of i] by metis
  then have "nrm_duplicate_metric (Some t) (Some a) (Some b) =
      nrm_add_internal (MET_FORCED AND fl \<noteq> 0) (Some t) (Some b) c tt e mn mx sq"
    using i by (simp add: nrm_duplicate_metric_def nrm_find_def nrm_hash_eq nrm_is_forced_def nrm_attribute_def
        nrm_attributes Let_def numeral_eq_Suc)
  then show ?thesis
    using find_or_create_update [OF inv b data_update_add [of c tt e mn mx sq], of "MET_FORCED AND fl \<noteq> 0"]
    unfolding nrm_add_internal_def by metis
qed

theorem nrm_duplicate_metric_correct_witness:
  "\<exists>t t'. nrm_add_apdex_internal False (Some (nrm_table_create 5)) (Some ''a'') 1 0 0 7 7 = Some (Some t)
    \<and> nrm_duplicate_metric (Some t) (Some ''a'') (Some ''b'') = Some (Some t')
    \<and> metric_map t' ''a'' = Some (MET_IS_APDEX, [1, 0, 0, 7, 7, 0])
    \<and> metric_map t' ''b'' = Some (0, [1, 0, 0, 7, 7, 0])"
proof -
  let ?t0 = "nrm_table_create 5"
  from find_or_create_update [OF metrics_inv_create(1) [of 5] _ data_update_apdex [of 1 0 0 7 7], of "''a''" False]
  obtain t where t: "nrm_add_apdex_internal False (Some ?t0) (Some ''a'') 1 0 0 7 7 = Some (Some t)"
    "metrics_inv t" "t_max_size t = 5"
    "metric_map t = spec_add 0 5 False ''a'' (map_prod (\<lambda>fl. fl OR MET_IS_APDEX) (merge_data 1 0 0 7 7 0)) Map.empty"
    using metrics_inv_create(2) [of 5]
    by (auto simp: nrm_add_apdex_internal_def c_string_def nrm_table_create_def simp del: map_option_eq_Some)
  then have m: "metric_map t = [''a'' \<mapsto> (MET_IS_APDEX, [1, 0, 0, 7, 7, 0])]"
    by (simp add: spec_add_def spec_update_def new_payload_def merge_data_def Let_def)
  then have "t_number t = 1" using card_metric_map [OF t(2)] by simp
  with nrm_duplicate_metric_correct [OF t(2), of "''a''" "''b''" MET_IS_APDEX 1 0 0 7 7 0] m t show ?thesis
    by (fastforce simp: c_string_def spec_add_def spec_update_def new_payload_def merge_data_def Let_def
        MET_IS_APDEX_def MET_FORCED_def)
qed

end
