(* ===== verification/MinMaxHeap.thy ===== *)
theory MinMaxHeap
  imports Sort
begin

text \<open>
  The min-max heap of \<^verbatim>\<open>axiom/util_minmax_heap.c\<close>: a double-ended priority queue in
  one array, optionally bounded. The agent samples with it: the segments and log events of
  a transaction go through a bounded heap, so its contract decides which of them are kept.
  Array indices start at 1 (cell 0 is never used). The elements handed to the
  destructor are returned as a list.
\<close>

section \<open>Data\<close>

record 'a nr_minmax_heap_element =
  el_used :: bool
  el_value :: "'a ptr"

record 'a nr_minmax_heap =
  heap_bound :: nat
  heap_capacity :: nat
  heap_used :: nat
  heap_elements :: "'a nr_minmax_heap_element list"
  heap_comparator :: "'a ptr \<Rightarrow> 'a ptr \<Rightarrow> int"
  heap_destructor :: bool

datatype compare_t = COMPARE_LESS_THAN | COMPARE_GREATER_THAN | COMPARE_EQUAL

definition NR_MINMAX_HEAP_CHUNK_SIZE :: nat where
  "NR_MINMAX_HEAP_CHUNK_SIZE = 64"

definition zero_cell :: "'a nr_minmax_heap_element" where
  "zero_cell = \<lparr>el_used = False, el_value = NULL\<rparr>"

section \<open>Index helpers\<close>

text \<open>\<^verbatim>\<open>nr_log2_64\<close> in its portable form: count the shifts until nothing is left.\<close>

fun nr_log2_64 :: "nat \<Rightarrow> nat" where
  "nr_log2_64 n = (if n div 2 = 0 then 0 else Suc (nr_log2_64 (n div 2)))"

declare nr_log2_64.simps [simp del]

definition is_min :: "nat \<Rightarrow> bool" where
  "is_min n \<longleftrightarrow> nr_log2_64 n mod 2 = 0"

definition parent :: "nat \<Rightarrow> nat" where
  "parent n = n div 2"

definition first_child :: "nat \<Rightarrow> nat" where
  "first_child n = n * 2"

definition second_child :: "nat \<Rightarrow> nat" where
  "second_child n = n * 2 + 1"

section \<open>Internal operations\<close>

definition value_at :: "'a nr_minmax_heap \<Rightarrow> nat \<Rightarrow> 'a ptr" where
  "value_at heap i = el_value (heap_elements heap ! i)"

definition compare :: "'a nr_minmax_heap \<Rightarrow> nat \<Rightarrow> nat \<Rightarrow> int" where
  "compare heap i j = heap_comparator heap (value_at heap i) (value_at heap j)"

definition compare_expect :: "'a nr_minmax_heap \<Rightarrow> nat \<Rightarrow> nat \<Rightarrow> compare_t \<Rightarrow> bool" where
  "compare_expect heap i j op =
     (case op of
        COMPARE_LESS_THAN \<Rightarrow> compare heap i j < 0
      | COMPARE_GREATER_THAN \<Rightarrow> compare heap i j > 0
      | COMPARE_EQUAL \<Rightarrow> compare heap i j = 0)"

definition swap :: "'a nr_minmax_heap \<Rightarrow> nat \<Rightarrow> nat \<Rightarrow> 'a nr_minmax_heap" where
  "swap heap i j =
     (let tmp = heap_elements heap ! i
      in heap\<lparr>heap_elements := (heap_elements heap)[i := heap_elements heap ! j, j := tmp]\<rparr>)"

function bubbleup_minmax :: "'a nr_minmax_heap \<Rightarrow> nat \<Rightarrow> compare_t \<Rightarrow> 'a nr_minmax_heap" where
  "bubbleup_minmax heap i op =
     (let grandparent = parent (parent i)
      in if grandparent = 0 then heap
         else if compare_expect heap i grandparent op
         then bubbleup_minmax (swap heap i grandparent) grandparent op
         else heap)"
  by pat_completeness auto
termination
  by (relation "measure (\<lambda>(heap, i, op). i)") (auto simp: parent_def)

declare bubbleup_minmax.simps [simp del]

definition bubbleup :: "'a nr_minmax_heap \<Rightarrow> nat \<Rightarrow> 'a nr_minmax_heap" where
  "bubbleup heap i =
     (let p = parent i
      in if p = 0 then heap
         else if is_min i then
           if compare heap i p > 0 then bubbleup_minmax (swap heap i p) p COMPARE_GREATER_THAN
           else bubbleup_minmax heap i COMPARE_LESS_THAN
         else
           if compare heap i p < 0 then bubbleup_minmax (swap heap i p) p COMPARE_LESS_THAN
           else bubbleup_minmax heap i COMPARE_GREATER_THAN)"

text \<open>
  The result is \<open>None\<close> where the code returns -1. One candidate replaces the index found
  so far when it is in use and compares as wanted; a candidate other than the first is only
  in use when the first is.
\<close>

definition better_index ::
  "'a nr_minmax_heap \<Rightarrow> compare_t \<Rightarrow> nat \<Rightarrow> nat option \<Rightarrow> nat option" where
  "better_index heap op k idx =
     (case idx of None \<Rightarrow> None
      | Some j \<Rightarrow> if k \<le> heap_used heap \<and> compare_expect heap k j op then Some k else idx)"

definition index_minmax_child_grandchild ::
  "'a nr_minmax_heap \<Rightarrow> nat \<Rightarrow> compare_t \<Rightarrow> nat option" where
  "index_minmax_child_grandchild heap i op =
     (let a = first_child i; b = second_child i;
          c = first_child a; d = second_child a;
          e = first_child b; f = second_child b;
          idx = (if a \<le> heap_used heap then Some a else None);
          idx = better_index heap op b idx;
          idx = better_index heap op c idx;
          idx = better_index heap op d idx;
          idx = better_index heap op e idx;
          idx = better_index heap op f idx
      in idx)"

lemma better_index_bound:
  "better_index heap op k idx = Some m \<Longrightarrow> idx = Some m \<or> (m = k \<and> k \<le> heap_used heap)"
  by (auto simp: better_index_def split: option.splits if_splits)

lemma index_minmax_bound:
  assumes "index_minmax_child_grandchild heap i op = Some m"
  shows "m \<le> heap_used heap"
  using assms unfolding index_minmax_child_grandchild_def Let_def
  by (auto dest!: better_index_bound split: if_splits)

lemma heap_used_swap [simp]:
  "heap_used (swap heap i j) = heap_used heap"
  "heap_bound (swap heap i j) = heap_bound heap"
  "heap_capacity (swap heap i j) = heap_capacity heap"
  "heap_comparator (swap heap i j) = heap_comparator heap"
  "heap_destructor (swap heap i j) = heap_destructor heap"
  "length (heap_elements (swap heap i j)) = length (heap_elements heap)"
  by (simp_all add: swap_def Let_def)

function trickledown_minmax ::
  "'a nr_minmax_heap \<Rightarrow> nat \<Rightarrow> compare_t \<Rightarrow> 'a nr_minmax_heap" where
  "trickledown_minmax heap i op =
     (case index_minmax_child_grandchild heap i op of
        None \<Rightarrow> heap
      | Some m \<Rightarrow>
          if m > second_child i then
            if compare_expect heap m i op then
              let heap1 = swap heap i m;
                  heap2 = (if \<not> compare_expect heap1 m (parent m) op
                           then swap heap1 m (parent m) else heap1)
              in trickledown_minmax heap2 m op
            else heap
          else if compare_expect heap m i op then swap heap i m
          else heap)"
  by pat_completeness auto
termination
  by (relation "measure (\<lambda>(heap, i, op). heap_used heap - i)")
     (auto simp: second_child_def dest!: index_minmax_bound)

declare trickledown_minmax.simps [simp del]

definition trickledown :: "'a nr_minmax_heap \<Rightarrow> nat \<Rightarrow> 'a nr_minmax_heap" where
  "trickledown heap i =
     (if is_min i then trickledown_minmax heap i COMPARE_LESS_THAN
      else trickledown_minmax heap i COMPARE_GREATER_THAN)"

section \<open>Public operations\<close>

definition nr_minmax_heap_create ::
  "int \<Rightarrow> ('a ptr \<Rightarrow> 'a ptr \<Rightarrow> int) ptr \<Rightarrow> bool \<Rightarrow> 'a nr_minmax_heap ptr" where
  "nr_minmax_heap_create bound comparator destructor =
     (case comparator of None \<Rightarrow> NULL
      | Some c \<Rightarrow>
          if bound = 1 \<or> bound < 0 then NULL
          else let cap = (if bound > 0 then nat bound + 1 else NR_MINMAX_HEAP_CHUNK_SIZE)
               in Some \<lparr>heap_bound = nat bound, heap_capacity = cap, heap_used = 0,
                        heap_elements = replicate cap zero_cell,
                        heap_comparator = c, heap_destructor = destructor\<rparr>)"

text \<open>The live cells in index order: what destruction and iteration visit.\<close>

definition live_values :: "'a nr_minmax_heap \<Rightarrow> 'a ptr list" where
  "live_values heap =
     map el_value (filter el_used (take (Suc (heap_used heap)) (heap_elements heap)))"

definition nr_minmax_heap_destroy ::
  "'a nr_minmax_heap ptr ptr \<Rightarrow> 'a ptr list \<times> 'a nr_minmax_heap ptr ptr" where
  "nr_minmax_heap_destroy heap_ptr =
     (case heap_ptr of None \<Rightarrow> ([], None)
      | Some None \<Rightarrow> ([], Some None)
      | Some (Some heap) \<Rightarrow> ((if heap_destructor heap then live_values heap else []), Some None))"

definition nr_minmax_heap_bound :: "'a nr_minmax_heap ptr \<Rightarrow> nat" where
  "nr_minmax_heap_bound heap = (case heap of None \<Rightarrow> 0 | Some h \<Rightarrow> heap_bound h)"

definition nr_minmax_heap_capacity :: "'a nr_minmax_heap ptr \<Rightarrow> nat" where
  "nr_minmax_heap_capacity heap = (case heap of None \<Rightarrow> 0 | Some h \<Rightarrow> heap_capacity h)"

definition nr_minmax_heap_size :: "'a nr_minmax_heap ptr \<Rightarrow> nat" where
  "nr_minmax_heap_size heap = (case heap of None \<Rightarrow> 0 | Some h \<Rightarrow> heap_used h)"

definition nr_minmax_heap_peek_min :: "'a nr_minmax_heap ptr \<Rightarrow> 'a ptr" where
  "nr_minmax_heap_peek_min heap =
     (case heap of None \<Rightarrow> NULL
      | Some h \<Rightarrow> if heap_used h = 0 then NULL else value_at h 1)"

definition nr_minmax_heap_peek_max :: "'a nr_minmax_heap ptr \<Rightarrow> 'a ptr" where
  "nr_minmax_heap_peek_max heap =
     (case heap of None \<Rightarrow> NULL
      | Some h \<Rightarrow>
          if heap_used h = 0 then NULL
          else if heap_used h = 1 then value_at h 1
          else if heap_used h = 2 then value_at h 2
          else if compare h 2 3 > 0 then value_at h 2
          else value_at h 3)"

text \<open>Clearing the \<open>used\<close> flag of a cell keeps its value.\<close>

definition clear_cell :: "'a nr_minmax_heap_element list \<Rightarrow> nat \<Rightarrow> 'a nr_minmax_heap_element list" where
  "clear_cell es i = es[i := (es ! i)\<lparr>el_used := False\<rparr>]"

text \<open>Move the last element to \<open>idx\<close>, give up its cell and restore the order.\<close>

definition remove_at :: "'a nr_minmax_heap \<Rightarrow> nat \<Rightarrow> 'a nr_minmax_heap" where
  "remove_at h idx =
     (let es = (heap_elements h)[idx := heap_elements h ! heap_used h];
          es = clear_cell es (heap_used h)
      in trickledown (h\<lparr>heap_elements := es, heap_used := heap_used h - 1\<rparr>) idx)"

definition nr_minmax_heap_pop_min ::
  "'a nr_minmax_heap ptr \<Rightarrow> 'a ptr \<times> 'a nr_minmax_heap ptr" where
  "nr_minmax_heap_pop_min heap =
     (case heap of None \<Rightarrow> (NULL, None)
      | Some h \<Rightarrow>
          if heap_used h = 0 then (NULL, heap)
          else if heap_used h = 1 then
            (value_at h 1,
             Some (h\<lparr>heap_used := 0, heap_elements := clear_cell (heap_elements h) 1\<rparr>))
          else (value_at h 1, Some (remove_at h 1)))"

definition nr_minmax_heap_pop_max ::
  "'a nr_minmax_heap ptr \<Rightarrow> 'a ptr \<times> 'a nr_minmax_heap ptr" where
  "nr_minmax_heap_pop_max heap =
     (case heap of None \<Rightarrow> (NULL, None)
      | Some h \<Rightarrow>
          if heap_used h = 0 then (NULL, heap)
          else if heap_used h \<le> 2 then
            (let idx = heap_used h
             in (value_at h idx,
                 Some (h\<lparr>heap_used := heap_used h - 1,
                         heap_elements := clear_cell (heap_elements h) idx\<rparr>)))
          else (let idx = (if compare h 2 3 < 0 then 3 else 2)
                in (value_at h idx, Some (remove_at h idx))))"

definition heap_push :: "'a nr_minmax_heap \<Rightarrow> 'a ptr \<Rightarrow> 'a nr_minmax_heap" where
  "heap_push h value =
     (let h1 = (if heap_used h + 1 \<ge> heap_capacity h
                then h\<lparr>heap_capacity := heap_capacity h * 2,
                       heap_elements := heap_elements h @ replicate (heap_capacity h) zero_cell\<rparr>
                else h);
          u = heap_used h + 1;
          h2 = h1\<lparr>heap_used := u,
                  heap_elements := (heap_elements h1)[u := \<lparr>el_used = True, el_value = value\<rparr>]\<rparr>
      in bubbleup h2 u)"

text \<open>The first component lists the values handed to the destructor.\<close>

definition nr_minmax_heap_insert ::
  "'a nr_minmax_heap ptr \<Rightarrow> 'a ptr \<Rightarrow> 'a ptr list \<times> 'a nr_minmax_heap ptr" where
  "nr_minmax_heap_insert heap value =
     (case heap of None \<Rightarrow> ([], None)
      | Some h \<Rightarrow>
          if heap_bound h \<noteq> 0 \<and> heap_used h \<ge> heap_bound h then
            if heap_comparator h (nr_minmax_heap_peek_min heap) value > 0
            then ((if heap_destructor h then [value] else []), heap)
            else (case nr_minmax_heap_pop_min heap of
                    (evicted, heap') \<Rightarrow>
                      ((if heap_destructor h then [evicted] else []),
                       map_option (\<lambda>h'. heap_push h' value) heap'))
          else ([], Some (heap_push h value)))"

text \<open>The iterator's return value is ignored; the user data is threaded through.\<close>

definition nr_minmax_heap_iterate ::
  "'a nr_minmax_heap ptr \<Rightarrow> ('a ptr \<Rightarrow> 's \<Rightarrow> 's) ptr \<Rightarrow> 's \<Rightarrow> 's" where
  "nr_minmax_heap_iterate heap callback s =
     (case (heap, callback) of
        (Some h, Some cb) \<Rightarrow> fold cb (live_values h) s
      | _ \<Rightarrow> s)"

definition nr_minmax_heap_set_destructor ::
  "'a nr_minmax_heap ptr \<Rightarrow> bool \<Rightarrow> 'a nr_minmax_heap ptr" where
  "nr_minmax_heap_set_destructor heap d = map_option (\<lambda>h. h\<lparr>heap_destructor := d\<rparr>) heap"

end
