(* ===== verification/MinMaxHeap_Order.thy ===== *)
theory MinMaxHeap_Order
  imports MinMaxHeap
begin

text \<open>
  The order of a min-max heap over a plain index function \<open>A\<close>: every node on a min
  level is at most all its descendants and every node on a max level at least all of them.
  The lemmas say how one exchange of the bubble-up and trickle-down loops moves the single
  place where this order may be violated. Everything is stated for a direction
  \<open>op\<close>, so that both kinds of level share one proof.
\<close>

section \<open>Levels and ancestors\<close>

definition kind :: "nat \<Rightarrow> compare_t" where
  "kind n = (if is_min n then COMPARE_LESS_THAN else COMPARE_GREATER_THAN)"

fun flip :: "compare_t \<Rightarrow> compare_t" where
  "flip COMPARE_LESS_THAN = COMPARE_GREATER_THAN"
| "flip COMPARE_GREATER_THAN = COMPARE_LESS_THAN"
| "flip COMPARE_EQUAL = COMPARE_EQUAL"

fun anc :: "nat \<Rightarrow> nat \<Rightarrow> bool" where
  "anc a j = (if j < 2 then False else a = j div 2 \<or> anc a (j div 2))"

declare anc.simps [simp del]

lemma anc_less: "anc a j \<Longrightarrow> a < j \<and> 0 < a"
proof (induction a j rule: anc.induct)
  case (1 a j)
  from "1.prems" have "2 \<le> j" and "a = j div 2 \<or> anc a (j div 2)"
    by (simp_all add: anc.simps [of a j] split: if_splits)
  with "1.IH" show ?case by fastforce
qed

lemma anc_trans: "anc a b \<Longrightarrow> anc b j \<Longrightarrow> anc a j"
proof (induction b j rule: anc.induct)
  case (1 b j)
  from "1.prems"(2) have "2 \<le> j" and "b = j div 2 \<or> anc b (j div 2)"
    by (simp_all add: anc.simps [of b j] split: if_splits)
  with "1.IH" "1.prems"(1) show ?case by (auto simp: anc.simps [of a j])
qed

lemma anc_parent_iff: "anc a j \<longleftrightarrow> 0 < parent j \<and> (a = parent j \<or> anc a (parent j))"
  by (subst anc.simps) (auto simp: parent_def)

lemma anc_parent: "0 < parent j \<Longrightarrow> anc (parent j) j"
  by (subst anc_parent_iff) simp

lemma parent_less: "0 < parent j \<Longrightarrow> parent j < j"
  by (simp add: parent_def)

lemma parent_eq_iff: "parent k = i \<longleftrightarrow> k = 2 * i \<or> k = 2 * i + 1"
  by (auto simp: parent_def)

lemma grandparent_eq_iff:
  "parent (parent k) = i \<longleftrightarrow> k = 4 * i \<or> k = 4 * i + 1 \<or> k = 4 * i + 2 \<or> k = 4 * i + 3"
  unfolding parent_eq_iff by auto

lemma kind_parent: "0 < parent j \<Longrightarrow> kind j = flip (kind (parent j))"
  using nr_log2_64.simps [of j] by (auto simp: kind_def is_min_def parent_def mod_Suc)

lemma kind_cases: "kind n = COMPARE_LESS_THAN \<or> kind n = COMPARE_GREATER_THAN"
  by (simp add: kind_def)

lemma flip_kind [simp]: "flip (flip op) = op" "kind n \<noteq> flip (kind n)" "flip (kind n) \<noteq> kind n"
  by (cases op; simp) (simp_all add: kind_def)

lemma kind_grandparent: "0 < parent (parent j) \<Longrightarrow> kind (parent (parent j)) = kind j"
  using kind_parent [of j] kind_parent [of "parent j"] by (simp add: parent_def)

text \<open>The ancestors of a node: its parent, its grandparent and the grandparent's.\<close>

lemma anc_grandparent_cases:
  assumes "anc a j"
  shows "a = parent j \<or> (0 < parent (parent j) \<and> (a = parent (parent j) \<or> anc a (parent (parent j))))"
  using assms by (metis anc_parent_iff)

text \<open>The descendants of a node: its children, its grandchildren and the grandchildren's.\<close>

lemma desc_cases:
  assumes "anc i d"
  shows "parent d = i \<or> parent (parent d) = i
    \<or> (\<exists>k. parent (parent k) = i \<and> anc k d \<and> k < d)"
  using assms
proof (induction d rule: less_induct)
  case (less d)
  then consider "i = parent d" | "anc i (parent d)" by (auto simp: anc_parent_iff [of i d])
  then show ?case
  proof cases
    case 2
    have lt: "parent d < d" and anc: "anc (parent d) d"
      using less.prems by (auto simp: anc_parent_iff [of i d] intro: anc_parent parent_less)
    from less.IH [OF lt 2] show ?thesis using anc anc_trans lt by (metis less_trans)
  qed simp
qed

section \<open>The order\<close>

definition leq :: "('v \<Rightarrow> 'v \<Rightarrow> int) \<Rightarrow> compare_t \<Rightarrow> 'v \<Rightarrow> 'v \<Rightarrow> bool" where
  "leq c op x y = (case op of COMPARE_LESS_THAN \<Rightarrow> c x y \<le> 0
     | COMPARE_GREATER_THAN \<Rightarrow> c y x \<le> 0 | COMPARE_EQUAL \<Rightarrow> c x y = 0)"

lemma leq_flip [simp]: "op \<noteq> COMPARE_EQUAL \<Longrightarrow> leq c (flip op) x y = leq c op y x"
  by (cases op) (simp_all add: leq_def)

lemma leq_flip_kind [simp]: "leq c (flip (kind n)) x y = leq c (kind n) y x"
  by (rule leq_flip) (simp add: kind_def)

lemma leq_trans:
  "comparator_ok c \<Longrightarrow> leq c (kind n) x y \<Longrightarrow> leq c (kind n) y z \<Longrightarrow> leq c (kind n) x z"
  by (auto simp: leq_def kind_def split: if_splits intro: comparator_ok_trans)

lemma leq_total: "comparator_ok c \<Longrightarrow> \<not> leq c (kind n) x y \<Longrightarrow> leq c (kind n) y x"
  using comparator_ok_total [of c x y] by (auto simp: leq_def kind_def)

definition dominates :: "('v \<Rightarrow> 'v \<Rightarrow> int) \<Rightarrow> (nat \<Rightarrow> 'v) \<Rightarrow> nat \<Rightarrow> nat \<Rightarrow> bool" where
  "dominates c A a j \<longleftrightarrow> leq c (kind a) (A a) (A j)"

definition heap_ok :: "('v \<Rightarrow> 'v \<Rightarrow> int) \<Rightarrow> (nat \<Rightarrow> 'v) \<Rightarrow> nat \<Rightarrow> bool" where
  "heap_ok c A n \<longleftrightarrow> (\<forall>a j. anc a j \<and> j \<le> n \<longrightarrow> dominates c A a j)"

text \<open>Ordered but for node \<open>i\<close> against its ancestors of the same kind.\<close>

definition except_up :: "('v \<Rightarrow> 'v \<Rightarrow> int) \<Rightarrow> (nat \<Rightarrow> 'v) \<Rightarrow> nat \<Rightarrow> nat \<Rightarrow> bool" where
  "except_up c A n i \<longleftrightarrow>
     (\<forall>a j. anc a j \<and> j \<le> n \<and> \<not> (j = i \<and> kind a = kind i) \<longrightarrow> dominates c A a j)"

text \<open>Ordered but for node \<open>i\<close> against its descendants.\<close>

definition except_down :: "('v \<Rightarrow> 'v \<Rightarrow> int) \<Rightarrow> (nat \<Rightarrow> 'v) \<Rightarrow> nat \<Rightarrow> nat \<Rightarrow> bool" where
  "except_down c A n i \<longleftrightarrow> (\<forall>a j. anc a j \<and> j \<le> n \<and> a \<noteq> i \<longrightarrow> dominates c A a j)"

lemma except_upD:
  "except_up c A n i \<Longrightarrow> anc a j \<Longrightarrow> j \<le> n \<Longrightarrow> j \<noteq> i \<or> kind a \<noteq> kind i \<Longrightarrow>
     leq c (kind a) (A a) (A j)"
  by (auto simp: except_up_def dominates_def)

lemma except_downD:
  "except_down c A n i \<Longrightarrow> anc a j \<Longrightarrow> j \<le> n \<Longrightarrow> a \<noteq> i \<Longrightarrow> leq c (kind a) (A a) (A j)"
  by (auto simp: except_down_def dominates_def)

section \<open>Moving up\<close>

lemma up_stop_top:
  assumes "except_up c A n i" and "parent (parent i) = 0"
  shows "heap_ok c A n"
  unfolding heap_ok_def
proof (intro allI impI)
  fix a j assume h: "anc a j \<and> j \<le> n"
  have "kind a \<noteq> kind i" if "j = i"
  proof -
    from h that have "a = parent i" "0 < parent i"
      using anc_grandparent_cases [of a i] assms(2) by (auto simp: anc_parent_iff [of a i])
    then show ?thesis using kind_parent [of i] by simp
  qed
  with h assms(1) show "dominates c A a j" by (auto simp: except_up_def)
qed

lemma up_stop:
  assumes c: "comparator_ok c" and ex: "except_up c A n i" and i: "i \<le> n"
    and g: "0 < parent (parent i)" and le: "leq c (kind i) (A (parent (parent i))) (A i)"
  shows "heap_ok c A n"
  unfolding heap_ok_def
proof (intro allI impI)
  fix a j assume h: "anc a j \<and> j \<le> n"
  let ?g = "parent (parent i)"
  have kg: "kind ?g = kind i" using kind_grandparent [OF g] .
  have "?g < i" using g by (simp add: parent_def)
  show "dominates c A a j"
  proof (cases "j = i \<and> kind a = kind i")
    case False
    with h ex show ?thesis by (auto simp: except_up_def)
  next
    case True
    then have "a \<noteq> parent i" using kind_parent [of i] g by (auto simp: parent_def)
    with h True have "a = ?g \<or> anc a ?g" using anc_grandparent_cases [of a i] by auto
    then show ?thesis
    proof
      assume "a = ?g"
      with True le show ?thesis by (simp add: dominates_def)
    next
      assume "anc a ?g"
      then have "leq c (kind a) (A a) (A ?g)"
        using \<open>?g < i\<close> i by (intro except_upD [OF ex]) auto
      with True le show ?thesis
        using leq_trans [OF c] by (auto simp: dominates_def)
    qed
  qed
qed

lemma up_step:
  assumes c: "comparator_ok c" and ex: "except_up c A n i" and i: "i \<le> n"
    and g: "0 < parent (parent i)" and gt: "\<not> leq c (kind i) (A (parent (parent i))) (A i)"
  shows "except_up c (A(i := A (parent (parent i)), parent (parent i) := A i)) n (parent (parent i))"
proof -
  let ?g = "parent (parent i)" and ?p = "parent i"
  let ?A = "A(i := A ?g, ?g := A i)"
  have kg: "kind ?g = kind i" using kind_grandparent [OF g] .
  have lt: "?g < ?p" "?p < i" using g by (simp_all add: parent_def)
  have ag: "anc ?g ?p" "anc ?p i" "anc ?g i"
    using g lt anc_parent [of ?p] anc_parent [of i] anc_trans [of ?g ?p i] by auto
  have kp: "kind ?p = flip (kind i)" using kind_parent [of i] lt
    by (cases "kind ?p") auto
  have le: "leq c (kind i) (A i) (A ?g)" using leq_total [OF c gt] .
  have "leq c (kind a) (?A a) (?A j)"
    if h: "anc a j" "j \<le> n" "\<not> (j = ?g \<and> kind a = kind ?g)" for a j
  proof -
    consider "j = i" | "j = ?g" | "j \<noteq> i" "j \<noteq> ?g" by blast
    then show ?thesis
    proof cases
      case 1
      with h(1) consider "a = ?p" | "a = ?g" | "anc a ?g" using anc_grandparent_cases by blast
      then show ?thesis
      proof cases
        case 1
        have "leq c (kind ?g) (A ?g) (A ?p)" using ag lt i by (intro except_upD [OF ex]) auto
        with 1 \<open>j = i\<close> kg kp lt show ?thesis by simp
      next
        case 2
        with \<open>j = i\<close> le kg lt show ?thesis by simp
      next
        case 3
        then have "leq c (kind a) (A a) (A ?g)" using lt i by (intro except_upD [OF ex]) auto
        with 3 \<open>j = i\<close> lt anc_less [OF 3] show ?thesis by simp
      qed
    next
      case 2
      with h have "kind a \<noteq> kind i" "anc a i" "a < ?g" using kg ag anc_trans anc_less by auto
      then have "leq c (kind a) (A a) (A i)" using i by (intro except_upD [OF ex]) auto
      with 2 \<open>a < ?g\<close> lt show ?thesis by simp
    next
      case 3
      consider "a = i" | "a = ?g" | "a \<noteq> i" "a \<noteq> ?g" by blast
      then show ?thesis
      proof cases
        case 1
        with h(1) have "anc ?g j" using ag anc_trans by blast
        then have "leq c (kind ?g) (A ?g) (A j)" using 3 h(2) by (intro except_upD [OF ex]) auto
        with 1 3 kg lt show ?thesis by simp
      next
        case 2
        with h have "leq c (kind ?g) (A ?g) (A j)" using 3 by (intro except_upD [OF ex]) auto
        with 2 3 kg le lt show ?thesis using leq_trans [OF c] by auto
      next
        case 3
        with h \<open>j \<noteq> i\<close> \<open>j \<noteq> ?g\<close> show ?thesis using except_upD [OF ex] by simp
      qed
    qed
  qed
  then show ?thesis by (auto simp: except_up_def dominates_def)
qed

section \<open>Moving down\<close>

text \<open>\<open>m\<close> is extreme among the children and grandchildren of \<open>i\<close>.\<close>

definition extreme_below ::
  "('v \<Rightarrow> 'v \<Rightarrow> int) \<Rightarrow> (nat \<Rightarrow> 'v) \<Rightarrow> nat \<Rightarrow> nat \<Rightarrow> nat \<Rightarrow> bool" where
  "extreme_below c A n i m \<longleftrightarrow> m \<le> n \<and> (parent m = i \<or> parent (parent m) = i) \<and>
     (\<forall>k \<le> n. parent k = i \<or> parent (parent k) = i \<longrightarrow> leq c (kind i) (A m) (A k))"

lemma extreme_below_desc:
  assumes c: "comparator_ok c" and ex: "except_down c A n i" and i: "0 < i"
    and m: "extreme_below c A n i m" and d: "anc i d" "d \<le> n"
  shows "leq c (kind i) (A m) (A d)"
  using desc_cases [OF d(1)]
proof (elim disjE exE conjE)
  fix k assume k: "parent (parent k) = i" "anc k d" "k < d"
  have "kind k = kind i" using kind_grandparent [of k] k(1) i by simp
  have "i < k" using k(1) i by (auto simp: parent_def)
  then have "leq c (kind k) (A k) (A d)" using k d by (intro except_downD [OF ex]) auto
  moreover have "leq c (kind i) (A m) (A k)" using m k d by (auto simp: extreme_below_def)
  ultimately show ?thesis using \<open>kind k = kind i\<close> leq_trans [OF c] by metis
qed (use m d in \<open>auto simp: extreme_below_def\<close>)

lemma down_stop:
  assumes c: "comparator_ok c" and ex: "except_down c A n i" and i: "0 < i"
    and m: "extreme_below c A n i m" and le: "leq c (kind i) (A i) (A m)"
  shows "heap_ok c A n"
  unfolding heap_ok_def dominates_def
proof (intro allI impI)
  fix a j assume h: "anc a j \<and> j \<le> n"
  show "leq c (kind a) (A a) (A j)"
  proof (cases "a = i")
    case True
    with h extreme_below_desc [OF c ex i m] le show ?thesis using leq_trans [OF c] by blast
  qed (use h except_downD [OF ex] in auto)
qed

lemma down_none:
  assumes "except_down c A n i" and "n < first_child i" and "0 < i"
  shows "heap_ok c A n"
  unfolding heap_ok_def dominates_def
proof (intro allI impI)
  fix a j assume h: "anc a j \<and> j \<le> n"
  have "\<not> anc i j"
  proof
    assume "anc i j"
    then have "i \<le> parent j" by (auto simp: anc_parent_iff [of i j] dest: anc_less)
    with h assms(2) show False by (auto simp: parent_def first_child_def)
  qed
  with h show "leq c (kind a) (A a) (A j)" using except_downD [OF assms(1)] by metis
qed

lemma child_facts:
  assumes "0 < i" and "parent m = i"
  shows "anc i m" and "i < m" and "kind m = flip (kind i)" and "anc a m \<longleftrightarrow> a = i \<or> anc a i"
  using assms anc_parent [of m] parent_less [of m] kind_parent [of m] anc_parent_iff [of a m]
  by auto

lemma down_child:
  assumes c: "comparator_ok c" and ex: "except_down c A n i" and i: "0 < i"
    and m: "extreme_below c A n i m" and pm: "parent m = i" and le: "leq c (kind i) (A m) (A i)"
  shows "heap_ok c (A(i := A m, m := A i)) n"
  unfolding heap_ok_def dominates_def
proof (intro allI impI)
  let ?A = "A(i := A m, m := A i)"
  fix a j assume "anc a j \<and> j \<le> n"
  then have h: "anc a j" "j \<le> n" by simp_all
  note cf = child_facts [OF i pm]
  have mn: "m \<le> n" using m by (simp add: extreme_below_def)
  note desc = extreme_below_desc [OF c ex i m]
  show "leq c (kind a) (?A a) (?A j)"
  proof (cases "a = i")
    case True
    with h cf le desc show ?thesis by (cases "j = m") (auto dest: anc_less)
  next
    case ai: False
    have old: "leq c (kind a) (A a) (A j)" using h ai except_downD [OF ex] by simp
    show ?thesis
    proof (cases "a = m")
      case True
      then have "leq c (kind i) (A j) (A m)" using old cf(3) by simp
      then have "leq c (kind i) (A j) (A i)" using le leq_trans [OF c] by blast
      with True h cf show ?thesis by (auto dest: anc_less)
    next
      case am: False
      consider "j = i" | "j = m" | "j \<noteq> i" "j \<noteq> m" by blast
      then show ?thesis
      proof cases
        case 1
        then have "leq c (kind a) (A a) (A m)"
          using h(1) cf mn ai anc_trans by (intro except_downD [OF ex]) auto
        with 1 ai am cf(2) show ?thesis by simp
      next
        case 2
        then have "anc a i" using h(1) cf(4) ai by simp
        then have "leq c (kind a) (A a) (A i)" using cf(2) mn ai by (intro except_downD [OF ex]) auto
        with 2 ai am show ?thesis by simp
      qed (use old ai am in simp)
    qed
  qed
qed

lemma grandchild_facts:
  assumes "0 < i" and "parent (parent m) = i"
  shows "anc i m" and "i < parent m" and "parent m < m" and "kind (parent m) = flip (kind i)"
    and "kind m = kind i" and "anc i (parent m)" and "anc (parent m) m"
    and "anc a m \<longleftrightarrow> a = parent m \<or> a = i \<or> anc a i"
    and "anc a (parent m) \<longleftrightarrow> a = i \<or> anc a i"
proof -
  have p: "0 < parent m" using assms by (auto simp: parent_def)
  note pf = child_facts [OF assms]
  show "anc i (parent m)" "i < parent m" "kind (parent m) = flip (kind i)"
    "anc a (parent m) \<longleftrightarrow> a = i \<or> anc a i" using pf by simp_all
  show "parent m < m" "anc (parent m) m" using p parent_less anc_parent by auto
  show "kind m = kind i" using kind_grandparent [of m] assms by simp
  show "anc a m \<longleftrightarrow> a = parent m \<or> a = i \<or> anc a i"
    using p anc_parent_iff [of a m] pf by auto
  show "anc i m" using p anc_parent_iff [of i m] pf by auto
qed

lemma down_grandchild:
  assumes c: "comparator_ok c" and ex: "except_down c A n i" and i: "0 < i"
    and m: "extreme_below c A n i m" and pm: "parent (parent m) = i"
    and le: "leq c (kind i) (A m) (A i)" and lp: "leq c (kind i) (A i) (A (parent m))"
  shows "except_down c (A(i := A m, m := A i)) n m"
  unfolding except_down_def dominates_def
proof (intro allI impI)
  let ?A = "A(i := A m, m := A i)" and ?p = "parent m"
  fix a j assume "anc a j \<and> j \<le> n \<and> a \<noteq> m"
  then have h: "anc a j" "j \<le> n" "a \<noteq> m" by simp_all
  note gf = grandchild_facts [OF i pm]
  have mn: "m \<le> n" using m by (simp add: extreme_below_def)
  show "leq c (kind a) (?A a) (?A j)"
  proof (cases "a = i")
    case True
    with h gf le extreme_below_desc [OF c ex i m] show ?thesis
      by (cases "j = m") (auto dest: anc_less)
  next
    case ai: False
    consider "j = i" | "j = m" | "j \<noteq> i" "j \<noteq> m" by blast
    then show ?thesis
    proof cases
      case 1
      then have "leq c (kind a) (A a) (A m)"
        using h(1) gf mn ai anc_trans by (intro except_downD [OF ex]) auto
      with 1 ai h(3) gf show ?thesis by simp
    next
      case 2
      then consider "a = ?p" | "anc a i" using h(1) gf(8) ai by blast
      then show ?thesis
      proof cases
        case 1
        with 2 gf lp h ai show ?thesis by simp
      next
        case anc: 2
        then have "leq c (kind a) (A a) (A i)" using gf mn ai by (intro except_downD [OF ex]) auto
        with 2 ai h(3) show ?thesis by simp
      qed
    next
      case 3
      with h ai except_downD [OF ex] show ?thesis by simp
    qed
  qed
qed

lemma down_grandchild_exchange:
  assumes c: "comparator_ok c" and ex: "except_down c A n i" and i: "0 < i"
    and m: "extreme_below c A n i m" and pm: "parent (parent m) = i"
    and le: "leq c (kind i) (A m) (A i)" and lp: "leq c (kind i) (A (parent m)) (A i)"
  shows "except_down c (A(i := A m, m := A (parent m), parent m := A i)) n m"
  unfolding except_down_def dominates_def
proof (intro allI impI)
  let ?p = "parent m"
  let ?A = "A(i := A m, m := A ?p, ?p := A i)"
  fix a j assume "anc a j \<and> j \<le> n \<and> a \<noteq> m"
  then have h: "anc a j" "j \<le> n" "a \<noteq> m" by simp_all
  note gf = grandchild_facts [OF i pm]
  have mn: "m \<le> n" using m by (simp add: extreme_below_def)
  note desc = extreme_below_desc [OF c ex i m]
  consider "a = i" | "a = ?p" | "a \<noteq> i" "a \<noteq> ?p" by blast
  then show "leq c (kind a) (?A a) (?A j)"
  proof cases
    case 1
    have "leq c (kind i) (A m) (A ?p)" using desc gf mn by simp
    with 1 h gf le desc show ?thesis by (cases "j = m"; cases "j = ?p") (auto dest: anc_less)
  next
    case 2
    have "leq c (kind i) (A j) (A i)" if "j \<noteq> m"
    proof -
      have "leq c (kind ?p) (A ?p) (A j)" using h 2 gf by (intro except_downD [OF ex]) auto
      then show ?thesis using gf lp leq_trans [OF c] by auto
    qed
    with 2 h gf lp show ?thesis by (cases "j = m") (auto dest: anc_less)
  next
    case 3
    consider "j = i" | "j = m" | "j = ?p" | "j \<noteq> i" "j \<noteq> m" "j \<noteq> ?p" by blast
    then show ?thesis
    proof cases
      case 1
      then have "leq c (kind a) (A a) (A m)"
        using h(1) gf mn 3 anc_trans by (intro except_downD [OF ex]) auto
      with 1 3 h(3) gf show ?thesis by simp
    next
      case 2
      then have "leq c (kind a) (A a) (A ?p)"
        using h(1) gf mn 3 by (intro except_downD [OF ex]) auto
      with 2 3 h(3) gf show ?thesis by simp
    next
      case j: 3
      then have "leq c (kind a) (A a) (A i)"
        using h(1) gf mn 3 by (intro except_downD [OF ex]) auto
      with j 3 h(3) gf show ?thesis by simp
    next
      case 4
      with h 3 except_downD [OF ex] show ?thesis by simp
    qed
  qed
qed

section \<open>What the order gives\<close>

lemma anc_root: "1 < j \<Longrightarrow> anc 1 j"
proof (induction j rule: less_induct)
  case (less j)
  show ?case
  proof (cases "j < 4")
    case True
    with less.prems have "parent j = 1" by (auto simp: parent_def)
    then show ?thesis by (subst anc_parent_iff) simp
  next
    case False
    then have "1 < parent j" "parent j < j" by (auto simp: parent_def)
    with less.IH show ?thesis by (subst anc_parent_iff) auto
  qed
qed

lemma heap_ok_min:
  assumes "comparator_ok c" and "heap_ok c A n" and "1 \<le> j" and "j \<le> n"
  shows "c (A 1) (A j) \<le> 0"
proof (cases "j = 1")
  case True
  with comparator_ok_total [OF assms(1), of "A 1" "A 1"] show ?thesis by simp
next
  case False
  with assms have "leq c (kind 1) (A 1) (A j)"
    using anc_root [of j] by (auto simp: heap_ok_def dominates_def)
  then show ?thesis by (simp add: leq_def kind_def is_min_def nr_log2_64.simps)
qed

lemma anc_second_level: "3 < j \<Longrightarrow> anc 2 j \<or> anc 3 j"
proof (induction j rule: less_induct)
  case (less j)
  show ?case
  proof (cases "j < 8")
    case True
    with less.prems have "parent j = 2 \<or> parent j = 3" by (auto simp: parent_def)
    then show ?thesis using anc_parent_iff [of 2 j] anc_parent_iff [of 3 j] by auto
  next
    case False
    then have "3 < parent j" "parent j < j" by (auto simp: parent_def)
    with less.IH [of "parent j"] show ?thesis
      using anc_parent_iff [of 2 j] anc_parent_iff [of 3 j] by auto
  qed
qed

lemma heap_ok_max:
  assumes c: "comparator_ok c" and ok: "heap_ok c A n" and j: "1 \<le> j" "j \<le> n"
    and m: "n \<le> 2 \<Longrightarrow> m = n"
      "2 < n \<Longrightarrow> (m = 2 \<or> m = 3) \<and> c (A 2) (A m) \<le> 0 \<and> c (A 3) (A m) \<le> 0"
  shows "c (A j) (A m) \<le> 0"
proof -
  have le: "c (A j) (A k) \<le> 0" if "anc k j" "k = 2 \<or> k = 3" for k
  proof -
    have "\<not> is_min k"
      using that(2) by (auto simp: is_min_def nr_log2_64.simps [of 2] nr_log2_64.simps [of 3]
          nr_log2_64.simps [of "Suc 0"])
    moreover have "leq c (kind k) (A k) (A j)" using ok that(1) j by (auto simp: heap_ok_def dominates_def)
    ultimately show ?thesis by (simp add: leq_def kind_def)
  qed
  have refl: "c (A k) (A k) \<le> 0" for k using comparator_ok_total [OF c, of "A k" "A k"] by simp
  show ?thesis
  proof (cases "n \<le> 2")
    case True
    then have "j = n \<or> (j = 1 \<and> n = 2)" using j by auto
    with True m show ?thesis using heap_ok_min [OF c ok, of 2] refl by auto
  next
    case False
    have big: "c (A 2) (A m) \<le> 0" "c (A 3) (A m) \<le> 0"
      using m(2) False by simp_all
    consider "j = 1" | "j = 2 \<or> j = 3" | "3 < j" using j by linarith
    then show ?thesis
    proof cases
      case 1
      have "1 \<le> m" "m \<le> n" using m(2) False by auto
      with 1 show ?thesis using heap_ok_min [OF c ok] by blast
    next
      case 2
      with big show ?thesis by auto
    next
      case 3
      from anc_second_level [OF this] show ?thesis
        using le big comparator_ok_trans [OF c] by blast
    qed
  qed
qed

end
