(* ===== verification/MinMaxHeap_Correct.thy ===== *)
theory MinMaxHeap_Correct
  imports MinMaxHeap_Order
begin

text \<open>
  The array operations of the min-max heap against its order and its contents, the
  double-ended priority queue interface they implement, and what a bounded heap keeps.
\<close>

section \<open>Invariant and contents\<close>

definition flags_ok :: "'a nr_minmax_heap \<Rightarrow> bool" where
  "flags_ok h \<longleftrightarrow> length (heap_elements h) = heap_capacity h \<and> heap_used h < heap_capacity h
     \<and> (\<forall>i < heap_capacity h. el_used (heap_elements h ! i) \<longleftrightarrow> 1 \<le> i \<and> i \<le> heap_used h)"

definition bound_ok :: "'a nr_minmax_heap \<Rightarrow> bool" where
  "bound_ok h \<longleftrightarrow> (heap_bound h \<noteq> 0 \<longrightarrow>
     2 \<le> heap_bound h \<and> heap_used h \<le> heap_bound h \<and> heap_capacity h = Suc (heap_bound h))"

definition heap_inv :: "'a nr_minmax_heap \<Rightarrow> bool" where
  "heap_inv h \<longleftrightarrow> comparator_ok (heap_comparator h) \<and> flags_ok h \<and> bound_ok h
     \<and> heap_ok (heap_comparator h) (value_at h) (heap_used h)"

text \<open>The values in the heap: those iteration and destruction visit.\<close>

definition contents :: "'a nr_minmax_heap \<Rightarrow> 'a ptr multiset" where
  "contents h = mset (live_values h)"

lemma flags_okD:
  "flags_ok h \<Longrightarrow> i \<le> heap_used h \<Longrightarrow> i < length (heap_elements h)"
  "flags_ok h \<Longrightarrow> 1 \<le> i \<Longrightarrow> i \<le> heap_used h \<Longrightarrow> el_used (heap_elements h ! i)"
  by (auto simp: flags_ok_def)

lemma live_values_eq:
  assumes "flags_ok h"
  shows "live_values h = map (value_at h) [1..<Suc (heap_used h)]"
proof -
  let ?es = "heap_elements h" and ?n = "heap_used h"
  have "take (Suc ?n) ?es = map ((!) ?es) [0..<Suc ?n]"
    using assms by (intro nth_equalityI) (auto simp: flags_ok_def simp del: upt_Suc)
  also have "\<dots> = ?es ! 0 # map ((!) ?es) [1..<Suc ?n]"
    by (subst upt_conv_Cons) simp_all
  finally have "filter el_used (take (Suc ?n) ?es) = map ((!) ?es) [1..<Suc ?n]"
    using assms by (auto simp: flags_ok_def filter_map o_def intro!: filter_True)
  then show ?thesis by (simp add: live_values_def value_at_def o_def)
qed

lemma contents_mem:
  "flags_ok h \<Longrightarrow> x \<in># contents h \<longleftrightarrow> (\<exists>i. 1 \<le> i \<and> i \<le> heap_used h \<and> x = value_at h i)"
  by (auto simp: contents_def live_values_eq less_Suc_eq_le)

lemma size_contents: "flags_ok h \<Longrightarrow> size (contents h) = heap_used h"
  by (simp add: contents_def live_values_eq)

section \<open>Exchanging cells\<close>

text \<open>Two heaps that only differ in the order of their live cells.\<close>

definition same_but_order :: "'a nr_minmax_heap \<Rightarrow> 'a nr_minmax_heap \<Rightarrow> bool" where
  "same_but_order h h' \<longleftrightarrow> flags_ok h' \<and> contents h' = contents h \<and> heap_used h' = heap_used h
     \<and> heap_bound h' = heap_bound h \<and> heap_capacity h' = heap_capacity h
     \<and> heap_comparator h' = heap_comparator h \<and> heap_destructor h' = heap_destructor h"

lemma same_but_order_refl [simp]: "flags_ok h \<Longrightarrow> same_but_order h h"
  by (simp add: same_but_order_def)

lemma same_but_order_trans:
  "same_but_order h1 h2 \<Longrightarrow> same_but_order h2 h3 \<Longrightarrow> same_but_order h1 h3"
  by (simp add: same_but_order_def)

lemma value_at_swap:
  "i < length (heap_elements h) \<Longrightarrow> j < length (heap_elements h) \<Longrightarrow>
     value_at (swap h i j) = (value_at h)(i := value_at h j, j := value_at h i)"
  by (auto simp: value_at_def swap_def Let_def nth_list_update)

lemma swap_same:
  assumes "flags_ok h" and "1 \<le> i" "i \<le> heap_used h" and "1 \<le> j" "j \<le> heap_used h"
  shows "same_but_order h (swap h i j)"
proof -
  let ?es = "heap_elements h"
  have lt: "i < length ?es" "j < length ?es" using assms flags_okD by blast+
  have "mset (take (Suc (heap_used h)) (?es[i := ?es ! j, j := ?es ! i]))
      = mset (take (Suc (heap_used h)) ?es)"
    using assms lt mset_swap [of j "take (Suc (heap_used h)) ?es" i]
    by (simp add: take_update_swap)
  then have "contents (swap h i j) = contents h"
    by (simp add: contents_def live_values_def swap_def Let_def)
  moreover have "flags_ok (swap h i j)"
    using assms lt by (auto simp: flags_ok_def swap_def Let_def nth_list_update)
  ultimately show ?thesis by (simp add: same_but_order_def)
qed

lemma compare_expect_leq:
  assumes "comparator_ok (heap_comparator h)"
  shows "compare_expect h i j (kind k) \<longleftrightarrow>
     \<not> leq (heap_comparator h) (kind k) (value_at h j) (value_at h i)"
proof -
  have "heap_comparator h x y < 0 \<longleftrightarrow> 0 < heap_comparator h y x" for x y
    using assms by (simp add: comparator_ok_def)
  then show ?thesis
    by (auto simp: compare_expect_def compare_def leq_def kind_def not_le)
qed

section \<open>Bubbling up\<close>

lemma bubbleup_minmax_correct:
  assumes "comparator_ok (heap_comparator h)" and "flags_ok h" and "1 \<le> i" and "i \<le> heap_used h"
    and "op = kind i" and "except_up (heap_comparator h) (value_at h) (heap_used h) i"
  shows "same_but_order h (bubbleup_minmax h i op)
    \<and> heap_ok (heap_comparator h) (value_at (bubbleup_minmax h i op)) (heap_used h)"
  using assms
proof (induction h i op rule: bubbleup_minmax.induct)
  case (1 h i op)
  let ?g = "parent (parent i)" and ?c = "heap_comparator h"
  note unf = bubbleup_minmax.simps [of h i "kind i"]
  show ?case
  proof (cases "?g = 0")
    case True
    with "1.prems" show ?thesis
      using up_stop_top [of ?c "value_at h" "heap_used h" i] by (simp add: unf)
  next
    case g: False
    have kg: "kind ?g = kind i" using g kind_grandparent by simp
    have gi: "?g \<le> i" by (simp add: parent_def)
    show ?thesis
    proof (cases "compare_expect h i ?g op")
      case False
      then have "leq ?c (kind i) (value_at h ?g) (value_at h i)"
        using "1.prems" compare_expect_leq [of h i ?g i] by simp
      with False g "1.prems" show ?thesis
        using up_stop [of ?c "value_at h" "heap_used h" i] by (simp add: unf)
    next
      case True
      then have gt: "\<not> leq ?c (kind i) (value_at h ?g) (value_at h i)"
        using "1.prems" compare_expect_leq [of h i ?g i] by simp
      let ?h = "swap h i ?g"
      have same: "same_but_order h ?h" using "1.prems" g gi by (intro swap_same) auto
      have va: "value_at ?h = (value_at h)(i := value_at h ?g, ?g := value_at h i)"
        using "1.prems" gi by (intro value_at_swap) (auto intro: flags_okD)
      have "except_up ?c (value_at ?h) (heap_used h) ?g"
        unfolding va using "1.prems" g gt by (intro up_step) auto
      with same "1.prems" g gi kg have
        "same_but_order ?h (bubbleup_minmax ?h ?g op)
         \<and> heap_ok ?c (value_at (bubbleup_minmax ?h ?g op)) (heap_used h)"
        using "1.IH" [OF refl g True] by (simp add: same_but_order_def)
      with same True g show ?thesis using same_but_order_trans
        by (auto simp: bubbleup_minmax.simps [of h i op] Let_def)
    qed
  qed
qed

lemma bubbleup_correct:
  assumes c: "comparator_ok (heap_comparator h)" and fl: "flags_ok h" and n: "1 \<le> heap_used h"
    and ok: "heap_ok (heap_comparator h) (value_at h) (heap_used h - 1)"
  shows "same_but_order h (bubbleup h (heap_used h))
    \<and> heap_ok (heap_comparator h) (value_at (bubbleup h (heap_used h))) (heap_used h)"
proof -
  let ?n = "heap_used h" and ?c = "heap_comparator h" and ?A = "value_at h"
  let ?p = "parent ?n"
  have old: "leq ?c (kind a) (?A a) (?A j)" if "anc a j" "j < ?n" for a j
    using ok that by (auto simp: heap_ok_def dominates_def)
  show ?thesis
  proof (cases "?p = 0")
    case True
    then have "?n = 1" using n by (auto simp: parent_def)
    then have "heap_ok ?c ?A ?n" by (auto simp: heap_ok_def dest: anc_less)
    with True fl show ?thesis by (simp add: bubbleup_def)
  next
    case p: False
    have pn: "?p < ?n" using p parent_less by simp
    have kp: "kind ?p = flip (kind ?n)" using p kind_parent [of ?n] by simp
    show ?thesis
    proof (cases "leq ?c (kind ?n) (?A ?n) (?A ?p)")
      case True
      have "except_up ?c ?A ?n ?n"
        unfolding except_up_def dominates_def
      proof (intro allI impI)
        fix a j assume h: "anc a j \<and> j \<le> ?n \<and> \<not> (j = ?n \<and> kind a = kind ?n)"
        show "leq ?c (kind a) (?A a) (?A j)"
        proof (cases "j = ?n")
          case False
          with h old show ?thesis by simp
        next
          case j: True
          then have ka: "kind a = flip (kind ?n)" using h by (auto simp: kind_def split: if_splits)
          from h j consider "a = ?p" | "anc a ?p" by (auto simp: anc_parent_iff [of a ?n])
          then show ?thesis
          proof cases
            case 1
            with True j kp show ?thesis by simp
          next
            case 2
            then have "leq ?c (kind ?n) (?A ?p) (?A a)" using old [OF 2 pn] ka by simp
            with True j ka show ?thesis using leq_trans [OF c] by simp
          qed
        qed
      qed
      from bubbleup_minmax_correct [OF c fl n order.refl refl this] show ?thesis
        using True p c by (auto simp: bubbleup_def Let_def compare_def leq_def kind_def
            comparator_ok_def split: if_splits)
    next
      case False
      then have gt: "leq ?c (kind ?n) (?A ?p) (?A ?n)" by (rule leq_total [OF c])
      let ?h = "swap h ?n ?p"
      have same: "same_but_order h ?h" using fl n p pn by (intro swap_same) auto
      have va: "value_at ?h = ?A(?n := ?A ?p, ?p := ?A ?n)"
        using fl pn by (intro value_at_swap) (auto intro: flags_okD)
      have "except_up ?c (value_at ?h) ?n ?p"
        unfolding except_up_def dominates_def va
      proof (intro allI impI)
        fix a j assume "anc a j \<and> j \<le> ?n \<and> \<not> (j = ?p \<and> kind a = kind ?p)"
        then have h: "anc a j" "j \<le> ?n" "\<not> (j = ?p \<and> kind a = kind ?p)" by simp_all
        then have a: "a < j" "a \<noteq> ?n" using anc_less by fastforce+
        consider "j = ?n" | "j = ?p" | "j \<noteq> ?n" "j \<noteq> ?p" by blast
        then show "leq ?c (kind a) ((?A(?n := ?A ?p, ?p := ?A ?n)) a)
            ((?A(?n := ?A ?p, ?p := ?A ?n)) j)"
        proof cases
          case 1
          with h(1) consider "a = ?p" | "anc a ?p" by (auto simp: anc_parent_iff [of a ?n])
          then show ?thesis
          proof cases
            case 1
            with \<open>j = ?n\<close> kp gt pn show ?thesis by simp
          next
            case 2
            with \<open>j = ?n\<close> old [OF 2 pn] anc_less [OF 2] pn show ?thesis by simp
          qed
        next
          case 2
          then have "kind a = kind ?n" using h kp kind_cases [of a] kind_cases [of ?n]
            by auto
          moreover have "leq ?c (kind a) (?A a) (?A ?p)" using h(1) 2 pn old by simp
          ultimately have "leq ?c (kind a) (?A a) (?A ?n)" using gt leq_trans [OF c] by metis
          with 2 a pn show ?thesis by simp
        next
          case 3
          then have "leq ?c (kind a) (?A a) (?A j)" using h old by simp
          moreover from this have "a = ?p \<Longrightarrow> leq ?c (kind a) (?A ?n) (?A j)"
            using kp gt leq_trans [OF c, of ?n "?A j" "?A ?p" "?A ?n"] by simp
          ultimately show ?thesis using 3 a by simp
        qed
      qed
      with same fl c have "same_but_order ?h (bubbleup_minmax ?h ?p (kind ?p))
          \<and> heap_ok ?c (value_at (bubbleup_minmax ?h ?p (kind ?p))) ?n"
        using bubbleup_minmax_correct [of ?h ?p "kind ?p"] p pn
        by (simp add: same_but_order_def)
      moreover have "bubbleup h ?n = bubbleup_minmax ?h ?p (kind ?p)"
        using False p kp c by (auto simp: bubbleup_def Let_def compare_def leq_def kind_def
            comparator_ok_def split: if_splits)
      ultimately show ?thesis using same same_but_order_trans by auto
    qed
  qed
qed

section \<open>Trickling down\<close>

lemma better_index_correct:
  assumes "comparator_ok (heap_comparator h)"
  shows "\<exists>r. better_index h (kind i) k (Some j) = Some r \<and> (r = j \<or> (r = k \<and> k \<le> heap_used h))
    \<and> leq (heap_comparator h) (kind i) (value_at h r) (value_at h j)
    \<and> (k \<le> heap_used h \<longrightarrow> leq (heap_comparator h) (kind i) (value_at h r) (value_at h k))"
proof -
  let ?leq = "leq (heap_comparator h) (kind i)"
  have refl: "?leq x x" for x using leq_total [OF assms, of i x x] by blast
  show ?thesis
  proof (cases "k \<le> heap_used h \<and> compare_expect h k j (kind i)")
    case True
    then have "?leq (value_at h k) (value_at h j)"
      using compare_expect_leq [OF assms, of k j i] leq_total [OF assms] by blast
    with True refl show ?thesis by (simp add: better_index_def)
  next
    case False
    then have "k \<le> heap_used h \<longrightarrow> ?leq (value_at h j) (value_at h k)"
      using compare_expect_leq [OF assms, of k j i] by blast
    with False refl show ?thesis by (auto simp: better_index_def)
  qed
qed

lemma index_minmax_None:
  "index_minmax_child_grandchild h i op = None \<longleftrightarrow> heap_used h < first_child i"
proof -
  have "better_index h op k idx = None \<longleftrightarrow> idx = None" for k idx
    by (simp add: better_index_def split: option.split)
  then show ?thesis by (simp add: index_minmax_child_grandchild_def Let_def not_le)
qed

lemma index_minmax_extreme:
  assumes c: "comparator_ok (heap_comparator h)" and i: "0 < i"
    and m: "index_minmax_child_grandchild h i (kind i) = Some m"
  shows "extreme_below (heap_comparator h) (value_at h) (heap_used h) i m
    \<and> (second_child i < m \<longleftrightarrow> parent (parent m) = i) \<and> (\<not> second_child i < m \<longleftrightarrow> parent m = i)"
proof -
  let ?leq = "\<lambda>j k. leq (heap_comparator h) (kind i) (value_at h j) (value_at h k)"
  let ?n = "heap_used h"
  define a b where "a = 2 * i" and "b = 2 * i + 1"
  define c1 d1 e1 f1 where "c1 = 4 * i" and "d1 = 4 * i + 1" and "e1 = 4 * i + 2" and "f1 = 4 * i + 3"
  note defs = a_def b_def c1_def d1_def e1_def f1_def
  have idx: "a = first_child i" "b = second_child i" "c1 = first_child a" "d1 = second_child a"
    "e1 = first_child b" "f1 = second_child b"
    by (simp_all add: defs first_child_def second_child_def)
  have an: "a \<le> ?n" using m index_minmax_None [of h i "kind i"] idx(1) by (cases "a \<le> ?n") auto
  have lt: "?leq x y \<Longrightarrow> ?leq y z \<Longrightarrow> ?leq x z" for x y z using leq_trans [OF c] by blast
  obtain r1 where r1: "better_index h (kind i) b (Some a) = Some r1" "r1 = a \<or> (r1 = b \<and> b \<le> ?n)"
    "?leq r1 a" "b \<le> ?n \<longrightarrow> ?leq r1 b" using better_index_correct [OF c] by blast
  obtain r2 where r2: "better_index h (kind i) c1 (Some r1) = Some r2" "r2 = r1 \<or> (r2 = c1 \<and> c1 \<le> ?n)"
    "?leq r2 r1" "c1 \<le> ?n \<longrightarrow> ?leq r2 c1" using better_index_correct [OF c] by blast
  obtain r3 where r3: "better_index h (kind i) d1 (Some r2) = Some r3" "r3 = r2 \<or> (r3 = d1 \<and> d1 \<le> ?n)"
    "?leq r3 r2" "d1 \<le> ?n \<longrightarrow> ?leq r3 d1" using better_index_correct [OF c] by blast
  obtain r4 where r4: "better_index h (kind i) e1 (Some r3) = Some r4" "r4 = r3 \<or> (r4 = e1 \<and> e1 \<le> ?n)"
    "?leq r4 r3" "e1 \<le> ?n \<longrightarrow> ?leq r4 e1" using better_index_correct [OF c] by blast
  obtain r5 where r5: "better_index h (kind i) f1 (Some r4) = Some r5" "r5 = r4 \<or> (r5 = f1 \<and> f1 \<le> ?n)"
    "?leq r5 r4" "f1 \<le> ?n \<longrightarrow> ?leq r5 f1" using better_index_correct [OF c] by blast
  have "m = r5"
    using m an r1(1) r2(1) r3(1) r4(1) r5(1)
    by (simp add: index_minmax_child_grandchild_def Let_def flip: idx)
  then have mem: "m \<in> {a, b, c1, d1, e1, f1}" "m \<le> ?n"
    using an r1(2) r2(2) r3(2) r4(2) r5(2) by auto
  have l4: "?leq m r4" using r5(3) \<open>m = r5\<close> by simp
  have l3: "?leq m r3" using lt [OF l4 r4(3)] .
  have l2: "?leq m r2" using lt [OF l3 r3(3)] .
  have l1: "?leq m r1" using lt [OF l2 r2(3)] .
  have "?leq m k" if "k \<le> ?n" "k \<in> {a, b, c1, d1, e1, f1}" for k
    using that r1(3,4) r2(4) r3(4) r4(4) r5(4) lt [OF l1] lt [OF l2] lt [OF l3] lt [OF l4]
    unfolding \<open>m = r5\<close> by auto
  moreover have "parent k = i \<or> parent (parent k) = i \<longleftrightarrow> k \<in> {a, b, c1, d1, e1, f1}" for k
    unfolding parent_eq_iff defs by auto
  moreover have "second_child i < m \<longleftrightarrow> parent (parent m) = i" "\<not> second_child i < m \<longleftrightarrow> parent m = i"
    using mem(1) i by (auto simp: second_child_def parent_def defs)
  ultimately show ?thesis using mem(2) \<open>m \<in> _\<close> by (auto simp: extreme_below_def)
qed

lemma trickledown_minmax_correct:
  assumes "comparator_ok (heap_comparator h)" and "flags_ok h" and "0 < i" and "op = kind i"
    and "except_down (heap_comparator h) (value_at h) (heap_used h) i"
  shows "same_but_order h (trickledown_minmax h i op)
    \<and> heap_ok (heap_comparator h) (value_at (trickledown_minmax h i op)) (heap_used h)"
  using assms
proof (induction h i op rule: trickledown_minmax.induct)
  case (1 h i op)
  let ?c = "heap_comparator h" and ?A = "value_at h" and ?n = "heap_used h"
  note c = "1.prems"(1) and fl = "1.prems"(2) and i = "1.prems"(3) and op = "1.prems"(4)
    and ex = "1.prems"(5)
  note unf = trickledown_minmax.simps [of h i op]
  show ?case
  proof (cases "index_minmax_child_grandchild h i op")
    case None
    then have "heap_ok ?c ?A ?n" using down_none [OF ex _ i] by (simp add: index_minmax_None)
    with None fl show ?thesis by (simp add: unf)
  next
    case (Some m)
    from index_minmax_extreme [OF c i] Some op have
      m: "extreme_below ?c ?A ?n i m" and gc: "second_child i < m \<longleftrightarrow> parent (parent m) = i"
      and ch: "\<not> second_child i < m \<longleftrightarrow> parent m = i" by auto
    have mn: "m \<le> ?n" using m by (simp add: extreme_below_def)
    have ce: "compare_expect h m i op \<longleftrightarrow> \<not> leq ?c (kind i) (?A i) (?A m)"
      using compare_expect_leq [OF c] op by simp
    show ?thesis
    proof (cases "compare_expect h m i op")
      case False
      then have "heap_ok ?c ?A ?n" using ce down_stop [OF c ex i m] by blast
      with Some False fl show ?thesis by (simp add: unf)
    next
      case True
      then have le: "leq ?c (kind i) (?A m) (?A i)" using ce leq_total [OF c] by blast
      have mi: "1 \<le> m" "i \<le> ?n"
        using gc ch i mn by (auto simp: parent_def)
      let ?h1 = "swap h i m"
      have s1: "same_but_order h ?h1" using fl i mi mn by (intro swap_same) auto
      have v1: "value_at ?h1 = ?A(i := ?A m, m := ?A i)"
        using fl mi mn by (intro value_at_swap) (auto intro: flags_okD)
      show ?thesis
      proof (cases "second_child i < m")
        case False
        then have "heap_ok ?c (value_at ?h1) ?n"
          unfolding v1 using ch down_child [OF c ex i m _ le] by simp
        with Some True False s1 show ?thesis by (simp add: unf)
      next
        case g: True
        let ?p = "parent m"
        note gf = grandchild_facts [OF i gc [THEN iffD1, OF g]]
        have ne: "?p \<noteq> i" "?p \<noteq> m" "i \<noteq> m" using gf by auto
        let ?h2 = "if \<not> compare_expect ?h1 m ?p op then swap ?h1 m ?p else ?h1"
        have c1: "comparator_ok (heap_comparator ?h1)" using c by simp
        have ce2: "compare_expect ?h1 m ?p op \<longleftrightarrow> \<not> leq ?c (kind i) (?A ?p) (?A i)"
          using compare_expect_leq [OF c1, of m ?p i] op ne v1 by simp
        have pn: "1 \<le> ?p" "?p \<le> ?n" using gf mn by auto
        have s2: "same_but_order h ?h2"
        proof (cases "compare_expect ?h1 m ?p op")
          case False
          have "same_but_order ?h1 (swap ?h1 m ?p)"
            using s1 pn mi mn by (intro swap_same) (auto simp: same_but_order_def)
          with s1 False show ?thesis using same_but_order_trans by auto
        qed (use s1 in simp)
        have "except_down ?c (value_at ?h2) ?n m"
        proof (cases "compare_expect ?h1 m ?p op")
          case True
          then have "leq ?c (kind i) (?A i) (?A ?p)" using ce2 leq_total [OF c] by blast
          with True show ?thesis
            using down_grandchild [OF c ex i m gc [THEN iffD1, OF g] le] v1 by simp
        next
          case False
          have "value_at (swap ?h1 m ?p) = ?A(i := ?A m, m := ?A ?p, ?p := ?A i)"
            using s1 pn mn v1 ne
            by (subst value_at_swap) (auto intro!: flags_okD fl)
          with False show ?thesis
            using down_grandchild_exchange [OF c ex i m gc [THEN iffD1, OF g] le] ce2 by simp
        qed
        with s2 c op gf(5) mi have "same_but_order ?h2 (trickledown_minmax ?h2 m op)
            \<and> heap_ok ?c (value_at (trickledown_minmax ?h2 m op)) ?n"
          using "1.IH" [OF Some g True refl refl] by (simp add: same_but_order_def)
        moreover have "trickledown_minmax h i op = trickledown_minmax ?h2 m op"
          using Some g True by (simp add: unf Let_def)
        ultimately show ?thesis using s2 same_but_order_trans by (auto simp del: if_split)
      qed
    qed
  qed
qed

lemma trickledown_correct:
  assumes "comparator_ok (heap_comparator h)" and "flags_ok h" and "0 < i"
    and "except_down (heap_comparator h) (value_at h) (heap_used h) i"
  shows "same_but_order h (trickledown h i)
    \<and> heap_ok (heap_comparator h) (value_at (trickledown h i)) (heap_used h)"
  using trickledown_minmax_correct [OF assms(1-3) refl assms(4)]
  by (auto simp: trickledown_def kind_def split: if_splits)

section \<open>The public operations\<close>

lemma heap_inv_create:
  assumes "comparator_ok c" and "bound = 0 \<or> 2 \<le> bound"
  shows "\<exists>h. nr_minmax_heap_create bound (Some c) d = Some h \<and> heap_inv h \<and> contents h = {#}
    \<and> heap_bound h = nat bound \<and> heap_comparator h = c \<and> heap_destructor h = d"
proof -
  have "heap_ok c A 0" for A :: "nat \<Rightarrow> 'a ptr" by (auto simp: heap_ok_def dest: anc_less)
  then show ?thesis using assms
    by (auto simp: nr_minmax_heap_create_def heap_inv_def flags_ok_def bound_ok_def contents_def
        live_values_def zero_cell_def NR_MINMAX_HEAP_CHUNK_SIZE_def Let_def)
qed

lemma heap_push_correct:
  assumes inv: "heap_inv h" and room: "heap_bound h \<noteq> 0 \<longrightarrow> heap_used h < heap_bound h"
  shows "heap_inv (heap_push h x) \<and> contents (heap_push h x) = add_mset x (contents h)
    \<and> heap_bound (heap_push h x) = heap_bound h \<and> heap_comparator (heap_push h x) = heap_comparator h
    \<and> heap_destructor (heap_push h x) = heap_destructor h"
proof -
  let ?u = "Suc (heap_used h)" and ?c = "heap_comparator h"
  define h1 where "h1 = (if heap_used h + 1 \<ge> heap_capacity h
                then h\<lparr>heap_capacity := heap_capacity h * 2,
                       heap_elements := heap_elements h @ replicate (heap_capacity h) zero_cell\<rparr>
                else h)"
  define h2 where "h2 = h1\<lparr>heap_used := ?u,
    heap_elements := (heap_elements h1)[?u := \<lparr>el_used = True, el_value = x\<rparr>]\<rparr>"
  have fl: "flags_ok h" using inv by (simp add: heap_inv_def)
  have h1: "length (heap_elements h1) = heap_capacity h1" "?u < heap_capacity h1"
    "heap_used h1 = heap_used h" "heap_bound h1 = heap_bound h" "heap_comparator h1 = ?c"
    "heap_destructor h1 = heap_destructor h"
    "\<forall>i < heap_capacity h1. el_used (heap_elements h1 ! i) \<longleftrightarrow> 1 \<le> i \<and> i \<le> heap_used h"
    "\<forall>i \<le> heap_used h. heap_elements h1 ! i = heap_elements h ! i"
    using fl by (auto simp: h1_def flags_ok_def nth_append zero_cell_def)
  have fl2: "flags_ok h2" using h1 by (auto simp: flags_ok_def h2_def nth_list_update)
  have va: "value_at h2 i = value_at h i" if "i \<le> heap_used h" for i
    using h1 that by (simp add: value_at_def h2_def)
  have vu: "value_at h2 ?u = x" using h1 by (simp add: value_at_def h2_def)
  have "live_values h2 = live_values h @ [x]"
    using fl fl2 va vu unfolding live_values_eq [OF fl] live_values_eq [OF fl2]
    by (auto simp: h2_def)
  then have c2: "contents h2 = add_mset x (contents h)" by (simp add: contents_def)
  have "heap_ok ?c (value_at h2) (heap_used h)"
    unfolding heap_ok_def dominates_def
  proof (intro allI impI)
    fix a j assume h: "anc a j \<and> j \<le> heap_used h"
    then have "a \<le> heap_used h" using anc_less [of a j] by linarith
    with h inv va show "leq ?c (kind a) (value_at h2 a) (value_at h2 j)"
      by (simp add: heap_inv_def heap_ok_def dominates_def)
  qed
  then have "same_but_order h2 (bubbleup h2 ?u) \<and> heap_ok ?c (value_at (bubbleup h2 ?u)) ?u"
    using bubbleup_correct [of h2] fl2 inv h1 by (simp add: h2_def heap_inv_def)
  moreover have "heap_push h x = bubbleup h2 ?u"
    by (simp add: heap_push_def h1_def h2_def Let_def)
  moreover have "heap_bound h \<noteq> 0 \<longrightarrow> heap_capacity h1 = heap_capacity h"
    using inv room by (auto simp: h1_def heap_inv_def bound_ok_def)
  ultimately show ?thesis
    using inv c2 h1 room
    by (auto simp: same_but_order_def heap_inv_def bound_ok_def h2_def)
qed

lemma remove_at_correct:
  assumes inv: "heap_inv h" and idx: "1 \<le> idx" "idx \<le> heap_used h" and n: "2 \<le> heap_used h"
    and top: "\<And>a. anc a idx \<Longrightarrow> a = 1"
  shows "heap_inv (remove_at h idx) \<and> contents (remove_at h idx) = contents h - {# value_at h idx #}
    \<and> heap_used (remove_at h idx) = heap_used h - 1
    \<and> heap_bound (remove_at h idx) = heap_bound h \<and> heap_comparator (remove_at h idx) = heap_comparator h
    \<and> heap_destructor (remove_at h idx) = heap_destructor h"
proof -
  let ?n = "heap_used h" and ?c = "heap_comparator h" and ?es = "heap_elements h"
  define h1 where "h1 = h\<lparr>heap_elements := clear_cell (?es[idx := ?es ! ?n]) ?n, heap_used := ?n - 1\<rparr>"
  have fl: "flags_ok h" and c: "comparator_ok ?c" and ok: "heap_ok ?c (value_at h) ?n"
    using inv by (simp_all add: heap_inv_def)
  have lt: "idx < length ?es" "?n < length ?es" using fl idx flags_okD by auto
  have fl1: "flags_ok h1"
    using fl idx n lt by (auto simp: flags_ok_def h1_def clear_cell_def nth_list_update)
  have va: "value_at h1 = (value_at h)(idx := value_at h ?n)"
    using lt by (auto simp: value_at_def h1_def clear_cell_def nth_list_update)
  have c1: "contents h1 = contents h - {# value_at h idx #}"
  proof -
    let ?f = "value_at h"
    have l: "live_values h = map ?f [1..<?n] @ [?f ?n]"
      using fl n by (simp add: live_values_eq upt_Suc_append)
    have l1: "live_values h1 = map (?f(idx := ?f ?n)) [1..<?n]"
      using fl1 n va by (simp add: live_values_eq h1_def)
    show ?thesis
    proof (cases "idx = ?n")
      case True
      then show ?thesis using l l1 by (simp add: contents_def)
    next
      case False
      then have "map (?f(idx := ?f ?n)) [1..<?n] = (map ?f [1..<?n])[idx - 1 := ?f ?n]"
        using idx by (intro nth_equalityI) (auto simp: nth_list_update)
      moreover have "mset ((map ?f [1..<?n])[idx - 1 := ?f ?n])
          = add_mset (?f ?n) (mset (map ?f [1..<?n]) - {# ?f idx #})"
        using False idx by (subst mset_update) auto
      moreover have "?f idx \<in># mset (map ?f [1..<?n])" using False idx by auto
      ultimately show ?thesis using l l1 by (simp add: contents_def)
    qed
  qed
  have "except_down ?c (value_at h1) (?n - 1) idx"
    unfolding except_down_def dominates_def
  proof (intro allI impI)
    fix a j assume h: "anc a j \<and> j \<le> ?n - 1 \<and> a \<noteq> idx"
    show "leq ?c (kind a) (value_at h1 a) (value_at h1 j)"
    proof (cases "j = idx")
      case False
      with h ok n va show ?thesis by (auto simp: heap_ok_def dominates_def)
    next
      case True
      with h top have "a = 1" by blast
      moreover have "leq ?c (kind 1) (value_at h 1) (value_at h ?n)"
        using ok anc_root [of ?n] n by (simp add: heap_ok_def dominates_def)
      ultimately show ?thesis using True h va by simp
    qed
  qed
  then have "same_but_order h1 (trickledown h1 idx) \<and> heap_ok ?c (value_at (trickledown h1 idx)) (?n - 1)"
    using trickledown_correct [of h1 idx] c fl1 idx by (simp add: h1_def)
  moreover have "remove_at h idx = trickledown h1 idx"
    by (simp add: remove_at_def h1_def Let_def)
  ultimately show ?thesis
    using inv c1 by (auto simp: same_but_order_def heap_inv_def bound_ok_def h1_def)
qed

lemma peek_min_correct:
  assumes "heap_inv h" and "contents h \<noteq> {#}"
  shows "nr_minmax_heap_peek_min (Some h) \<in># contents h
    \<and> (\<forall>y \<in># contents h. heap_comparator h (nr_minmax_heap_peek_min (Some h)) y \<le> 0)"
proof -
  have fl: "flags_ok h" and n: "1 \<le> heap_used h"
    using assms size_contents [of h] by (auto simp: heap_inv_def nonempty_has_size)
  then show ?thesis using assms heap_ok_min [of "heap_comparator h" "value_at h" "heap_used h"]
    by (auto simp: nr_minmax_heap_peek_min_def contents_mem heap_inv_def)
qed

lemma peek_max_correct:
  assumes "heap_inv h" and "contents h \<noteq> {#}"
  shows "nr_minmax_heap_peek_max (Some h) \<in># contents h
    \<and> (\<forall>y \<in># contents h. heap_comparator h y (nr_minmax_heap_peek_max (Some h)) \<le> 0)"
proof -
  let ?c = "heap_comparator h" and ?A = "value_at h" and ?n = "heap_used h"
  have fl: "flags_ok h" and n: "1 \<le> ?n" and c: "comparator_ok ?c" and ok: "heap_ok ?c ?A ?n"
    using assms size_contents [of h] by (auto simp: heap_inv_def nonempty_has_size)
  define m where "m = (if ?n \<le> 2 then ?n else if ?c (?A 2) (?A 3) > 0 then 2 else 3)"
  have "nr_minmax_heap_peek_max (Some h) = ?A m"
    using n by (auto simp: nr_minmax_heap_peek_max_def m_def compare_def le_Suc_eq numeral_2_eq_2)
  moreover have "?c (?A j) (?A m) \<le> 0" if "1 \<le> j" "j \<le> ?n" for j
  proof (rule heap_ok_max [OF c ok that])
    have "?c x x \<le> 0" for x using comparator_ok_total [OF c, of x x] by simp
    then show "2 < ?n \<Longrightarrow> (m = 2 \<or> m = 3) \<and> ?c (?A 2) (?A m) \<le> 0 \<and> ?c (?A 3) (?A m) \<le> 0"
      using c by (auto simp: m_def comparator_ok_def not_less intro: order_less_imp_le)
  qed (simp add: m_def)
  moreover have "1 \<le> m" "m \<le> ?n" using n by (auto simp: m_def)
  ultimately show ?thesis using fl by (auto simp: contents_mem)
qed

lemma pop_min_correct:
  assumes inv: "heap_inv h" and ne: "contents h \<noteq> {#}"
  shows "\<exists>h'. nr_minmax_heap_pop_min (Some h) = (nr_minmax_heap_peek_min (Some h), Some h')
    \<and> heap_inv h' \<and> contents h' = contents h - {# nr_minmax_heap_peek_min (Some h) #}
    \<and> heap_bound h' = heap_bound h \<and> heap_comparator h' = heap_comparator h
    \<and> heap_destructor h' = heap_destructor h"
proof -
  have fl: "flags_ok h" and n: "1 \<le> heap_used h"
    using assms size_contents [of h] by (auto simp: heap_inv_def nonempty_has_size)
  show ?thesis
  proof (cases "heap_used h = 1")
    case True
    let ?h = "h\<lparr>heap_used := 0, heap_elements := clear_cell (heap_elements h) 1\<rparr>"
    have "flags_ok ?h" using fl True by (auto simp: flags_ok_def clear_cell_def nth_list_update)
    then have "heap_inv ?h" "contents ?h = {#}"
      using inv True by (auto simp: heap_inv_def bound_ok_def heap_ok_def contents_def live_values_eq
          dest: anc_less)
    moreover have "contents h = {# value_at h 1 #}"
      using fl True by (simp add: contents_def live_values_eq)
    ultimately show ?thesis using True
      by (simp add: nr_minmax_heap_pop_min_def nr_minmax_heap_peek_min_def)
  next
    case False
    then have "2 \<le> heap_used h" using n by simp
    with remove_at_correct [OF inv, of 1] False n show ?thesis
      by (auto simp: nr_minmax_heap_pop_min_def nr_minmax_heap_peek_min_def dest: anc_less)
  qed
qed

lemma pop_max_correct:
  assumes inv: "heap_inv h" and ne: "contents h \<noteq> {#}"
  shows "\<exists>x h'. nr_minmax_heap_pop_max (Some h) = (x, Some h') \<and> x \<in># contents h
    \<and> (\<forall>y \<in># contents h. heap_comparator h y x \<le> 0)
    \<and> heap_inv h' \<and> contents h' = contents h - {# x #}
    \<and> heap_bound h' = heap_bound h \<and> heap_comparator h' = heap_comparator h
    \<and> heap_destructor h' = heap_destructor h"
proof -
  let ?c = "heap_comparator h" and ?A = "value_at h" and ?n = "heap_used h"
  have fl: "flags_ok h" and n: "1 \<le> ?n" and c: "comparator_ok ?c" and ok: "heap_ok ?c ?A ?n"
    using assms size_contents [of h] by (auto simp: heap_inv_def nonempty_has_size)
  define m where "m = (if ?n \<le> 2 then ?n else if ?c (?A 2) (?A 3) < 0 then 3 else 2)"
  have m: "1 \<le> m" "m \<le> ?n" using n by (auto simp: m_def)
  have max: "?c (?A j) (?A m) \<le> 0" if "1 \<le> j" "j \<le> ?n" for j
  proof (rule heap_ok_max [OF c ok that])
    have "?c x x \<le> 0" for x using comparator_ok_total [OF c, of x x] by simp
    then show "2 < ?n \<Longrightarrow> (m = 2 \<or> m = 3) \<and> ?c (?A 2) (?A m) \<le> 0 \<and> ?c (?A 3) (?A m) \<le> 0"
      using c by (auto simp: m_def comparator_ok_def not_less intro: order_less_imp_le)
  qed (simp add: m_def)
  show ?thesis
  proof (cases "?n \<le> 2")
    case True
    let ?h = "h\<lparr>heap_used := ?n - 1, heap_elements := clear_cell (heap_elements h) ?n\<rparr>"
    have fl': "flags_ok ?h" using fl n by (auto simp: flags_ok_def clear_cell_def nth_list_update)
    have va: "value_at ?h = ?A"
      using fl by (auto simp: value_at_def clear_cell_def nth_list_update flags_ok_def)
    have "heap_inv ?h"
      using inv fl' va by (auto simp: heap_inv_def bound_ok_def heap_ok_def)
    moreover have "contents ?h = contents h - {# ?A ?n #}"
      using fl fl' va n by (simp add: contents_def live_values_eq upt_Suc_append)
    moreover have "nr_minmax_heap_pop_max (Some h) = (?A ?n, Some ?h)"
      using True n by (simp add: nr_minmax_heap_pop_max_def Let_def)
    ultimately show ?thesis using True fl m max by (auto simp: m_def contents_mem)
  next
    case False
    have "anc a m \<Longrightarrow> a = 1" for a
      using False anc_parent_iff [of a m] anc_parent_iff [of a 1]
      by (auto simp: m_def parent_def split: if_splits)
    with remove_at_correct [OF inv m] False have rm: "heap_inv (remove_at h m)"
      "contents (remove_at h m) = contents h - {# ?A m #}" "heap_bound (remove_at h m) = heap_bound h"
      "heap_comparator (remove_at h m) = ?c" "heap_destructor (remove_at h m) = heap_destructor h"
      by auto
    moreover have "nr_minmax_heap_pop_max (Some h) = (?A m, Some (remove_at h m))"
      using False by (simp add: nr_minmax_heap_pop_max_def Let_def m_def compare_def)
    ultimately show ?thesis using fl m max by (auto simp: contents_mem)
  qed
qed

section \<open>The interface: a bounded double-ended priority queue\<close>

fun insert_all :: "('q \<Rightarrow> 'v \<Rightarrow> 'v list \<times> 'q) \<Rightarrow> 'q \<Rightarrow> 'v list \<Rightarrow> 'v list \<times> 'q" where
  "insert_all ins q [] = ([], q)"
| "insert_all ins q (x # xs) =
     (case ins q x of (ds, q') \<Rightarrow> (case insert_all ins q' xs of (ds', q'') \<Rightarrow> (ds @ ds', q'')))"

fun drain :: "('q \<Rightarrow> 'v \<times> 'q) \<Rightarrow> nat \<Rightarrow> 'q \<Rightarrow> 'v list" where
  "drain pop 0 q = []"
| "drain pop (Suc n) q = (case pop q of (x, q') \<Rightarrow> x # drain pop n q')"

locale bounded_pq =
  fixes ins :: "'q \<Rightarrow> 'v \<Rightarrow> 'v list \<times> 'q"
    and least :: "'q \<Rightarrow> 'v"
    and pop_least :: "'q \<Rightarrow> 'v \<times> 'q"
    and items :: "'q \<Rightarrow> 'v multiset"
    and limit :: "'q \<Rightarrow> nat"
    and invar :: "'q \<Rightarrow> bool"
    and cmp :: "'q \<Rightarrow> 'v \<Rightarrow> 'v \<Rightarrow> int"
    and owns :: "'q \<Rightarrow> bool"
    and conf :: "'q \<Rightarrow> 'q \<Rightarrow> bool"
  assumes cmp_ok: "invar q \<Longrightarrow> comparator_ok (cmp q)"
    and conf_law: "conf q q' \<longleftrightarrow> limit q' = limit q \<and> cmp q' = cmp q \<and> owns q' = owns q"
    and limit_invar: "invar q \<Longrightarrow> limit q \<noteq> 0 \<Longrightarrow> 0 < limit q \<and> size (items q) \<le> limit q"
    and least_law: "invar q \<Longrightarrow> items q \<noteq> {#} \<Longrightarrow>
      least q \<in># items q \<and> (\<forall>y \<in># items q. cmp q (least q) y \<le> 0)"
    and pop_law: "invar q \<Longrightarrow> items q \<noteq> {#} \<Longrightarrow>
      \<exists>q'. pop_least q = (least q, q') \<and> invar q' \<and> conf q q'
         \<and> items q' = items q - {# least q #}"
    and ins_room: "invar q \<Longrightarrow> limit q = 0 \<or> size (items q) < limit q \<Longrightarrow>
      \<exists>q'. ins q x = ([], q') \<and> invar q' \<and> conf q q' \<and> items q' = add_mset x (items q)"
    and ins_reject: "invar q \<Longrightarrow> limit q \<noteq> 0 \<Longrightarrow> size (items q) = limit q \<Longrightarrow>
      0 < cmp q (least q) x \<Longrightarrow> ins q x = (if owns q then [x] else [], q)"
    and ins_evict: "invar q \<Longrightarrow> limit q \<noteq> 0 \<Longrightarrow> size (items q) = limit q \<Longrightarrow>
      cmp q (least q) x \<le> 0 \<Longrightarrow>
      \<exists>q'. ins q x = (if owns q then [least q] else [], q') \<and> invar q' \<and> conf q q'
         \<and> items q' = add_mset x (items q - {# least q #})"
begin

text \<open>One insertion: the multiset \<open>E\<close> of at most one value is given up, and nothing
  given up is above anything kept.\<close>

lemma ins_law:
  assumes "invar q"
  shows "\<exists>E q'. ins q x = (fst (ins q x), q') \<and> invar q' \<and> conf q q'
    \<and> items q' + E = add_mset x (items q) \<and> (owns q \<longrightarrow> mset (fst (ins q x)) = E)
    \<and> size E = (if limit q \<noteq> 0 \<and> size (items q) = limit q then 1 else 0)
    \<and> (\<forall>e \<in># E. \<forall>k \<in># items q'. cmp q e k \<le> 0)
    \<and> (\<forall>d. (\<forall>k \<in># items q. cmp q d k \<le> 0) \<longrightarrow> E \<noteq> {#} \<longrightarrow> (\<forall>k \<in># items q'. cmp q d k \<le> 0))"
proof (cases "limit q = 0 \<or> size (items q) < limit q")
  case True
  with ins_room [OF assms True, of x] show ?thesis by (intro exI [of _ "{#}"]) auto
next
  case False
  then have full: "limit q \<noteq> 0" "size (items q) = limit q" using limit_invar [OF assms] by auto
  then have ne: "items q \<noteq> {#}" by auto
  note l = least_law [OF assms ne]
  show ?thesis
  proof (cases "0 < cmp q (least q) x")
    case True
    have "cmp q x (least q) \<le> 0" using True cmp_ok [OF assms] unfolding comparator_ok_def
      by (metis linorder_not_less order_less_imp_le)
    then have "\<forall>k \<in># items q. cmp q x k \<le> 0"
      using l comparator_ok_trans [OF cmp_ok [OF assms]] by blast
    with ins_reject [OF assms full True] full assms show ?thesis
      by (intro exI [of _ "{# x #}"] exI [of _ q]) (auto simp: conf_law)
  next
    case ev: False
    then have le: "cmp q (least q) x \<le> 0" by simp
    from ins_evict [OF assms full le] obtain q' where q':
      "ins q x = (if owns q then [least q] else [], q')" "invar q'" "conf q q'"
      "items q' = add_mset x (items q - {# least q #})" by blast
    have kept: "k \<in># items q' \<Longrightarrow> k = x \<or> k \<in># items q" for k
      using q'(4) by (auto dest: in_diffD)
    have "items q' + {# least q #} = add_mset x (items q)" using l q'(4) by simp
    moreover have "cmp q d x \<le> 0" if "\<forall>k \<in># items q. cmp q d k \<le> 0" for d
      using that l le comparator_ok_trans [OF cmp_ok [OF assms]] by blast
    ultimately show ?thesis using q' full kept l le
      by (intro exI [of _ "{# least q #}"] exI [of _ q']) auto
  qed
qed

lemma insert_all_law:
  assumes "invar q" and "\<forall>d \<in># D. \<forall>k \<in># items q. cmp q d k \<le> 0"
    and "D \<noteq> {#} \<Longrightarrow> limit q \<noteq> 0 \<and> size (items q) = limit q"
  shows "\<exists>E q'. insert_all ins q xs = (fst (insert_all ins q xs), q') \<and> invar q' \<and> conf q q'
    \<and> items q' + E = items q + mset xs \<and> (owns q \<longrightarrow> mset (fst (insert_all ins q xs)) = E)
    \<and> (E \<noteq> {#} \<or> D \<noteq> {#} \<longrightarrow> limit q \<noteq> 0 \<and> size (items q') = limit q)
    \<and> (\<forall>e \<in># D + E. \<forall>k \<in># items q'. cmp q e k \<le> 0)"
  using assms
proof (induction xs arbitrary: q D)
  case Nil
  then show ?case by (intro exI [of _ "{#}"]) (auto simp: conf_law)
next
  case (Cons x xs)
  from ins_law [OF Cons.prems(1), of x] obtain E1 q1 where i:
    "ins q x = (fst (ins q x), q1)" "invar q1" "conf q q1"
    "items q1 + E1 = add_mset x (items q)" "owns q \<longrightarrow> mset (fst (ins q x)) = E1"
    "size E1 = (if limit q \<noteq> 0 \<and> size (items q) = limit q then 1 else 0)"
    "\<forall>e \<in># E1. \<forall>k \<in># items q1. cmp q e k \<le> 0"
    "\<forall>d. (\<forall>k \<in># items q. cmp q d k \<le> 0) \<longrightarrow> E1 \<noteq> {#} \<longrightarrow> (\<forall>k \<in># items q1. cmp q d k \<le> 0)"
    by blast
  have sz: "size (items q1) + size E1 = Suc (size (items q))"
    using arg_cong [OF i(4), of size] by simp
  have D: "D \<noteq> {#} \<Longrightarrow> E1 \<noteq> {#}" using Cons.prems(3) i(6) by auto
  have full: "E1 \<noteq> {#} \<Longrightarrow> limit q \<noteq> 0 \<and> size (items q1) = limit q"
    using i(6) sz by (auto split: if_splits)
  have same: "limit q1 = limit q" "cmp q1 = cmp q" "owns q1 = owns q"
    using i(3) by (simp_all add: conf_law)
  have "\<forall>d \<in># D + E1. \<forall>k \<in># items q1. cmp q1 d k \<le> 0"
    unfolding same using Cons.prems(2) D i(7,8) by (auto dest: multi_member_split)
  moreover have "D + E1 \<noteq> {#} \<Longrightarrow> limit q1 \<noteq> 0 \<and> size (items q1) = limit q1"
    using D full same by auto
  ultimately obtain E2 q2 where r: "insert_all ins q1 xs = (fst (insert_all ins q1 xs), q2)"
    "invar q2" "conf q1 q2" "items q2 + E2 = items q1 + mset xs"
    "owns q1 \<longrightarrow> mset (fst (insert_all ins q1 xs)) = E2"
    "E2 \<noteq> {#} \<or> D + E1 \<noteq> {#} \<longrightarrow> limit q1 \<noteq> 0 \<and> size (items q2) = limit q1"
    "\<forall>e \<in># (D + E1) + E2. \<forall>k \<in># items q2. cmp q1 e k \<le> 0"
    using Cons.IH [OF i(2), of "D + E1"] by blast
  have fs: "insert_all ins q (x # xs) = (fst (ins q x) @ fst (insert_all ins q1 xs), q2)"
    using i(1) r(1) by (auto split: prod.splits)
  moreover have "items q2 + (E1 + E2) = items q + mset (x # xs)"
  proof -
    have "items q2 + (E1 + E2) = (items q1 + mset xs) + E1" using r(4) by (simp add: ac_simps)
    also have "\<dots> = (items q1 + E1) + mset xs" by (simp add: ac_simps)
    finally show ?thesis using i(4) by simp
  qed
  moreover have "conf q q2" using i(3) r(3) by (simp add: conf_law)
  ultimately show ?case using i(5) r same
    by (intro exI [of _ "E1 + E2"] exI [of _ q2]) auto
qed

text \<open>Popping until nothing is left sorts.\<close>

lemma drain_law:
  "invar q \<Longrightarrow> n = size (items q) \<Longrightarrow>
     mset (drain pop_least n q) = items q \<and> sorted_wrt (\<lambda>x y. cmp q x y \<le> 0) (drain pop_least n q)"
proof (induction n arbitrary: q)
  case 0
  then show ?case by simp
next
  case (Suc n)
  then have ne: "items q \<noteq> {#}" by auto
  from pop_law [OF Suc.prems(1) ne] obtain q' where q':
    "pop_least q = (least q, q')" "invar q'" "conf q q'" "items q' = items q - {# least q #}"
    by blast
  note l = least_law [OF Suc.prems(1) ne]
  have "n = size (items q')" using Suc.prems(2) l q'(4) by (simp add: size_Diff_singleton)
  from Suc.IH [OF q'(2) this] have IH: "mset (drain pop_least n q') = items q'"
    "sorted_wrt (\<lambda>x y. cmp q x y \<le> 0) (drain pop_least n q')"
    using q'(3) by (simp_all add: conf_law)
  have "\<forall>y \<in> set (drain pop_least n q'). cmp q (least q) y \<le> 0"
    using l IH(1) q'(4) by (metis in_diffD set_mset_mset)
  with IH l q' show ?case by simp
qed

end

section \<open>The min-max heap implements the interface\<close>

definition heap_items :: "'a nr_minmax_heap ptr \<Rightarrow> 'a ptr multiset" where
  "heap_items q = (case q of None \<Rightarrow> {#} | Some h \<Rightarrow> contents h)"

definition heap_ptr_inv :: "'a nr_minmax_heap ptr \<Rightarrow> bool" where
  "heap_ptr_inv q = (case q of None \<Rightarrow> False | Some h \<Rightarrow> heap_inv h)"

definition heap_cmp :: "'a nr_minmax_heap ptr \<Rightarrow> 'a ptr \<Rightarrow> 'a ptr \<Rightarrow> int" where
  "heap_cmp q = heap_comparator (the q)"

definition heap_owns :: "'a nr_minmax_heap ptr \<Rightarrow> bool" where
  "heap_owns q = heap_destructor (the q)"

definition heap_conf :: "'a nr_minmax_heap ptr \<Rightarrow> 'a nr_minmax_heap ptr \<Rightarrow> bool" where
  "heap_conf q q' \<longleftrightarrow> nr_minmax_heap_bound q' = nr_minmax_heap_bound q
     \<and> heap_cmp q' = heap_cmp q \<and> heap_owns q' = heap_owns q"

lemmas heap_ptr_defs = heap_ptr_inv_def heap_cmp_def heap_owns_def heap_conf_def
  nr_minmax_heap_bound_def heap_items_def

lemma heap_ptr_invE:
  assumes "heap_ptr_inv q"
  obtains h where "q = Some h" "heap_inv h" "size (contents h) = heap_used h"
    "heap_bound h \<noteq> 0 \<longrightarrow> heap_used h \<le> heap_bound h"
  using assms size_contents
  by (auto simp: heap_ptr_inv_def heap_inv_def bound_ok_def split: option.splits)

lemma insert_room_correct:
  assumes "heap_ptr_inv q" and "nr_minmax_heap_bound q = 0 \<or> size (heap_items q) < nr_minmax_heap_bound q"
  shows "\<exists>q'. nr_minmax_heap_insert q x = ([], q') \<and> heap_ptr_inv q'
    \<and> heap_conf q q' \<and> heap_items q' = add_mset x (heap_items q)"
proof -
  obtain h where h: "q = Some h" "heap_inv h" "size (contents h) = heap_used h"
    using heap_ptr_invE [OF assms(1)] by metis
  with assms(2) have "heap_bound h \<noteq> 0 \<longrightarrow> heap_used h < heap_bound h"
    by (auto simp: heap_ptr_defs)
  with heap_push_correct [OF h(2), of x] h show ?thesis
    by (auto simp: nr_minmax_heap_insert_def heap_ptr_defs)
qed

lemma insert_reject_correct:
  assumes "heap_ptr_inv q" and "nr_minmax_heap_bound q \<noteq> 0"
    and "size (heap_items q) = nr_minmax_heap_bound q"
    and "0 < heap_cmp q (nr_minmax_heap_peek_min q) x"
  shows "nr_minmax_heap_insert q x = (if heap_owns q then [x] else [], q)"
proof -
  obtain h where "q = Some h" "size (contents h) = heap_used h"
    using heap_ptr_invE [OF assms(1)] by metis
  with assms show ?thesis by (auto simp: nr_minmax_heap_insert_def heap_ptr_defs)
qed

lemma insert_evict_correct:
  assumes "heap_ptr_inv q" and "nr_minmax_heap_bound q \<noteq> 0"
    and "size (heap_items q) = nr_minmax_heap_bound q"
    and "heap_cmp q (nr_minmax_heap_peek_min q) x \<le> 0"
  shows "\<exists>q'. nr_minmax_heap_insert q x = (if heap_owns q then [nr_minmax_heap_peek_min q] else [], q')
    \<and> heap_ptr_inv q' \<and> heap_conf q q'
    \<and> heap_items q' = add_mset x (heap_items q - {# nr_minmax_heap_peek_min q #})"
proof -
  obtain h where h: "q = Some h" "heap_inv h" "size (contents h) = heap_used h"
    using heap_ptr_invE [OF assms(1)] by metis
  have full: "heap_bound h \<noteq> 0" "heap_used h = heap_bound h" and ne: "contents h \<noteq> {#}"
    using assms(2,3) h by (auto simp: heap_ptr_defs)
  from pop_min_correct [OF h(2) ne] obtain h' where h':
    "nr_minmax_heap_pop_min (Some h) = (nr_minmax_heap_peek_min (Some h), Some h')" "heap_inv h'"
    "contents h' = contents h - {# nr_minmax_heap_peek_min (Some h) #}"
    "heap_bound h' = heap_bound h" "heap_comparator h' = heap_comparator h"
    "heap_destructor h' = heap_destructor h" by auto
  have "heap_used h' < heap_bound h'"
    using size_contents [of h'] h h' full peek_min_correct [OF h(2) ne]
    by (auto simp: heap_inv_def size_Diff_singleton)
  with heap_push_correct [OF h'(2), of x] h h' full assms(4) show ?thesis
    by (auto simp: nr_minmax_heap_insert_def heap_ptr_defs)
qed

lemma ptr_peek_min_correct:
  assumes "heap_ptr_inv q" and "heap_items q \<noteq> {#}"
  shows "nr_minmax_heap_peek_min q \<in># heap_items q
    \<and> (\<forall>y \<in># heap_items q. heap_cmp q (nr_minmax_heap_peek_min q) y \<le> 0)"
proof -
  obtain h where "q = Some h" "heap_inv h" using heap_ptr_invE [OF assms(1)] by metis
  with peek_min_correct [of h] assms(2) show ?thesis by (simp add: heap_ptr_defs)
qed

lemma ptr_pop_min_correct:
  assumes "heap_ptr_inv q" and "heap_items q \<noteq> {#}"
  shows "\<exists>q'. nr_minmax_heap_pop_min q = (nr_minmax_heap_peek_min q, q') \<and> heap_ptr_inv q'
    \<and> heap_conf q q' \<and> heap_items q' = heap_items q - {# nr_minmax_heap_peek_min q #}"
proof -
  obtain h where "q = Some h" "heap_inv h" using heap_ptr_invE [OF assms(1)] by metis
  with pop_min_correct [of h] assms(2) show ?thesis by (auto simp: heap_ptr_defs)
qed

lemma ptr_limit_correct:
  assumes "heap_ptr_inv q" and "nr_minmax_heap_bound q \<noteq> 0"
  shows "0 < nr_minmax_heap_bound q \<and> size (heap_items q) \<le> nr_minmax_heap_bound q"
proof -
  obtain h where "q = Some h" "size (contents h) = heap_used h"
    "heap_bound h \<noteq> 0 \<longrightarrow> heap_used h \<le> heap_bound h" using heap_ptr_invE [OF assms(1)] by metis
  with assms(2) show ?thesis by (simp add: heap_ptr_defs)
qed

interpretation mmh: bounded_pq nr_minmax_heap_insert nr_minmax_heap_peek_min nr_minmax_heap_pop_min
  heap_items nr_minmax_heap_bound heap_ptr_inv heap_cmp heap_owns heap_conf
proof
  show "heap_ptr_inv q \<Longrightarrow> comparator_ok (heap_cmp q)" for q :: "'a nr_minmax_heap ptr"
    by (auto simp: heap_ptr_defs heap_inv_def split: option.splits)
  show "heap_conf q q' \<longleftrightarrow> nr_minmax_heap_bound q' = nr_minmax_heap_bound q
      \<and> heap_cmp q' = heap_cmp q \<and> heap_owns q' = heap_owns q" for q q' :: "'a nr_minmax_heap ptr"
    by (simp add: heap_conf_def)
qed (simp_all add: ptr_limit_correct ptr_peek_min_correct ptr_pop_min_correct insert_room_correct
  insert_reject_correct insert_evict_correct)

section \<open>Properties\<close>

text \<open>A comparator on pointers to integers, used to evaluate the operations on examples.\<close>

definition int_ptr_cmp :: "int ptr \<Rightarrow> int ptr \<Rightarrow> int" where
  "int_ptr_cmp x y = (case x of None \<Rightarrow> 0 | Some a \<Rightarrow> a) - (case y of None \<Rightarrow> 0 | Some b \<Rightarrow> b)"

lemma int_ptr_cmp_ok: "comparator_ok int_ptr_cmp"
  by (simp add: comparator_ok_def int_ptr_cmp_def)

text \<open>C30. On every well-formed, non-empty min-max heap \<open>nr_minmax_heap_pop_min\<close> removes
  exactly one least element and returns it, \<open>nr_minmax_heap_pop_max\<close> exactly one
  greatest element, and both leave a well-formed heap: all other elements stay, and the
  order of the whole array is restored for any comparator, ties included.\<close>

theorem minmax_heap_pop_extremes:
  assumes "heap_inv h" and "contents h \<noteq> {#}"
  shows "(\<exists>x h'. nr_minmax_heap_pop_min (Some h) = (x, Some h') \<and> heap_inv h'
      \<and> x \<in># contents h \<and> contents h' = contents h - {# x #}
      \<and> (\<forall>y \<in># contents h. heap_comparator h x y \<le> 0))
    \<and> (\<exists>x h'. nr_minmax_heap_pop_max (Some h) = (x, Some h') \<and> heap_inv h'
      \<and> x \<in># contents h \<and> contents h' = contents h - {# x #}
      \<and> (\<forall>y \<in># contents h. heap_comparator h y x \<le> 0))"
  using pop_min_correct [OF assms] peek_min_correct [OF assms] pop_max_correct [OF assms] by metis

theorem minmax_heap_pop_extremes_witness:
  "\<exists>h' x. nr_minmax_heap_pop_max
     (Some \<lparr>heap_bound = 0, heap_capacity = 3, heap_used = 2,
            heap_elements = [zero_cell, \<lparr>el_used = True, el_value = Some 4\<rparr>,
                             \<lparr>el_used = True, el_value = Some 7\<rparr>],
            heap_comparator = int_ptr_cmp, heap_destructor = False\<rparr>) = (x, Some h')
     \<and> heap_inv h' \<and> x = Some 7"
proof -
  let ?h = "\<lparr>heap_bound = 0, heap_capacity = 3, heap_used = 2,
            heap_elements = [zero_cell, \<lparr>el_used = True, el_value = Some 4\<rparr>,
                             \<lparr>el_used = True, el_value = Some 7\<rparr>],
            heap_comparator = int_ptr_cmp, heap_destructor = False\<rparr>"
  have fl: "flags_ok ?h" by (simp add: flags_ok_def zero_cell_def less_Suc_eq numeral_eq_Suc)
  have "heap_ok int_ptr_cmp (value_at ?h) 2"
    unfolding heap_ok_def dominates_def
  proof (intro allI impI)
    fix a j assume h: "anc a j \<and> j \<le> 2"
    with anc_less [of a j] have "a = 1" "j = 2" by auto
    then show "leq int_ptr_cmp (kind a) (value_at ?h a) (value_at ?h j)"
      by (simp add: leq_def kind_def is_min_def nr_log2_64.simps value_at_def int_ptr_cmp_def)
  qed
  with fl have inv: "heap_inv ?h" by (simp add: heap_inv_def bound_ok_def int_ptr_cmp_ok)
  have c: "contents ?h = {# Some 4, Some 7 #}"
    by (simp add: contents_def live_values_def zero_cell_def numeral_eq_Suc)
  from minmax_heap_pop_extremes [OF inv] obtain x h' where
    "nr_minmax_heap_pop_max (Some ?h) = (x, Some h')" "heap_inv h'" "x \<in># {# Some 4, Some 7 #}"
    "\<forall>y \<in># {# Some 4, Some 7 #}. int_ptr_cmp y x \<le> 0" by (auto simp: c)
  then show ?thesis by (auto simp: int_ptr_cmp_def)
qed

text \<open>C3. Sampling through a bounded heap: after any sequence of insertions into a fresh heap
  with bound \<open>b \<ge> 2\<close>, the heap holds \<open>min b n\<close> of the \<open>n\<close> values, every
  other value has been handed to the destructor exactly once, and no value given up is
  greater than one that is kept.\<close>

theorem bounded_heap_keeps_largest:
  assumes "comparator_ok c" and "2 \<le> bound"
    and "insert_all nr_minmax_heap_insert (nr_minmax_heap_create bound (Some c) True) xs = (ds, q)"
  shows "heap_items q + mset ds = mset xs
    \<and> size (heap_items q) = min (nat bound) (length xs)
    \<and> (\<forall>d \<in> set ds. \<forall>k \<in># heap_items q. c d k \<le> 0)"
proof -
  from heap_inv_create [OF assms(1), of bound True] assms(2) obtain h where h:
    "nr_minmax_heap_create bound (Some c) True = Some h" "heap_inv h" "contents h = {#}"
    "heap_bound h = nat bound" "heap_comparator h = c" "heap_destructor h" by auto
  have q0: "heap_ptr_inv (Some h)" "heap_items (Some h) = {#}" "heap_cmp (Some h) = c"
    "heap_owns (Some h)" "nr_minmax_heap_bound (Some h) = nat bound"
    using h by (simp_all add: heap_ptr_defs)
  have "insert_all nr_minmax_heap_insert (Some h) xs = (ds, q)" using assms(3) h(1) by simp
  with mmh.insert_all_law [OF q0(1), of "{#}" xs] q0 have r: "heap_ptr_inv q" "heap_conf (Some h) q"
    "heap_items q + mset ds = mset xs" "ds \<noteq> [] \<longrightarrow> size (heap_items q) = nat bound"
    "\<forall>e \<in> set ds. \<forall>k \<in># heap_items q. c e k \<le> 0" by auto
  have "size (heap_items q) \<le> nat bound"
    using ptr_limit_correct [OF r(1)] r(2) q0(5) assms(2) by (simp add: heap_conf_def)
  moreover have "size (heap_items q) + length ds = length xs"
    using arg_cong [OF r(3), of size] by simp
  ultimately show ?thesis using r(3-5) by (cases "ds = []") auto
qed

theorem bounded_heap_keeps_largest_witness:
  "\<exists>ds q. insert_all nr_minmax_heap_insert (nr_minmax_heap_create 2 (Some int_ptr_cmp) True)
     [Some 5, Some 1, Some 9, Some 7] = (ds, q) \<and> size (heap_items q) = 2 \<and> length ds = 2"
proof -
  obtain ds q where r: "insert_all nr_minmax_heap_insert (nr_minmax_heap_create 2 (Some int_ptr_cmp) True)
     [Some 5, Some 1, Some 9, Some 7] = (ds, q)" by fastforce
  from bounded_heap_keeps_largest [OF int_ptr_cmp_ok _ r] have
    "heap_items q + mset ds = mset [Some 5, Some 1, Some 9, Some 7]" "size (heap_items q) = 2" by simp_all
  moreover from arg_cong [OF this(1), of size] have "size (heap_items q) + length ds = 4" by simp
  ultimately show ?thesis using r by auto
qed

text \<open>An unbounded heap sorts: inserting any values into a fresh heap and popping the
  minimum as often returns a permutation of them in comparator order, whatever
  reallocations the insertions make.\<close>

theorem unbounded_heap_sorts:
  assumes "comparator_ok c"
    and "insert_all nr_minmax_heap_insert (nr_minmax_heap_create 0 (Some c) d) xs = (ds, q)"
  shows "mset (drain nr_minmax_heap_pop_min (length xs) q) = mset xs
    \<and> sorted_wrt (\<lambda>x y. c x y \<le> 0) (drain nr_minmax_heap_pop_min (length xs) q)"
proof -
  from heap_inv_create [OF assms(1), of 0 d] obtain h where h:
    "nr_minmax_heap_create 0 (Some c) d = Some h" "heap_inv h" "contents h = {#}"
    "heap_bound h = 0" "heap_comparator h = c" by auto
  have q0: "heap_ptr_inv (Some h)" "heap_items (Some h) = {#}" "heap_cmp (Some h) = c"
    "nr_minmax_heap_bound (Some h) = 0" using h by (simp_all add: heap_ptr_defs)
  have "insert_all nr_minmax_heap_insert (Some h) xs = (ds, q)" using assms(2) h(1) by simp
  with mmh.insert_all_law [OF q0(1), of "{#}" xs] q0 have
    r: "heap_ptr_inv q" "heap_conf (Some h) q" "heap_items q = mset xs" by auto
  then show ?thesis using mmh.drain_law [OF r(1) refl] q0(3) by (simp add: heap_conf_def)
qed

theorem unbounded_heap_sorts_witness:
  "drain nr_minmax_heap_pop_min 2
     (snd (insert_all nr_minmax_heap_insert (nr_minmax_heap_create 0 (Some int_ptr_cmp) False)
       [Some 2, Some 1])) = [Some 1, Some 2]"
proof -
  let ?i = "insert_all nr_minmax_heap_insert (nr_minmax_heap_create 0 (Some int_ptr_cmp) False)
       [Some 2, Some 1]"
  let ?l = "drain nr_minmax_heap_pop_min 2 (snd ?i)"
  from unbounded_heap_sorts [OF int_ptr_cmp_ok, of False "[Some 2, Some 1]" "fst ?i" "snd ?i"]
  have m: "mset ?l = {# Some 2, Some 1 #}" and s: "sorted_wrt (\<lambda>x y. int_ptr_cmp x y \<le> 0) ?l"
    by (simp_all add: numeral_2_eq_2)
  from arg_cong [OF m, of size] obtain a b where l: "?l = [a, b]"
    by (auto simp: length_Suc_conv numeral_2_eq_2)
  have "{a, b} = {Some 2, Some 1}" using arg_cong [OF m, of set_mset] l by simp
  with l s show ?thesis by (auto simp: int_ptr_cmp_def doubleton_eq_iff)
qed

end
