(* ===== verification/Txn.thy ===== *)
theory Txn
  imports SegmentForest SpanQueue Metrics MinMaxHeap_Correct
begin

text \<open>
  The part of a transaction (\<^verbatim>\<open>axiom/nr_txn.h\<close>, \<^verbatim>\<open>nr_txn.c\<close>) that
  keeps its segments: the slab they live in, the stacks of current segments (one for the
  main context and one per asynchronous context, found through a hash map), the metric
  tables and the queue of span events. The segments of one transaction are the memory
  \<open>txn_mem\<close>; stacks that were allocated are named by numbers in \<open>stack_mem\<close>. The clock is a
  sequence of readings and \<open>guids\<close> the sequence of random identifiers. \<open>span_details\<close> stands
  for the fields of a span event that come from distributed tracing, attributes and the type
  of the segment, and \<open>encode\<close> for the generated protobuf code; the batches handed to the
  daemon are collected in \<open>sent_batches\<close>. The result \<open>None\<close> is an invalid access or a loop
  that does not end.
\<close>

declare split_paired_All [simp del] split_paired_Ex [simp del]

section \<open>The state\<close>

definition NR_STACK_DEFAULT_CAPACITY :: size_t where "NR_STACK_DEFAULT_CAPACITY = 32"

record 'e nr_span_event =
  span_guid :: "string ptr"
  span_name :: "string ptr"
  span_timestamp :: nrtime
  span_duration :: nrtime
  span_parent_id :: "string ptr"
  span_entry_point :: bool
  span_error :: "nr_segment_error ptr"
  span_rest :: 'e

record ('e, 'b) nrtxn =
  txn_id :: nat
  txn_mem :: seg_mem
  segment_slab :: nr_slab
  trace_strings :: nrstrpool
  parent_stacks :: "nat nr_hashmap"
  stack_mem :: "nat \<Rightarrow> sid nr_vector"
  stack_next :: nat
  default_parent_stack :: "sid nr_vector"
  force_current_segment :: "sid ptr"
  segment_root :: "sid ptr"
  segment_heap :: "sid nr_minmax_heap ptr"
  segment_count :: nat
  unscoped_metrics :: "nrmtable ptr"
  scoped_metrics :: "nrmtable ptr"
  max_segments :: nat
  recording :: bool
  abs_start_time :: nrtime
  distributed_tracing_enabled :: bool
  span_events_enabled :: bool
  dt_is_sampled :: bool
  dt_inbound_guid :: "string ptr"
  span_queue :: "('e nr_span_event, 'b) nr_span_queue ptr"
  sent_batches :: "'b list"
  span_details :: "nr_segment \<Rightarrow> 'e"
  encode :: "'e nr_span_event list \<Rightarrow> 'b option"
  guids :: "nat \<Rightarrow> string"
  guid_next :: nat
  clock :: "nat \<Rightarrow> nrtime"
  ticks :: nat

definition nr_get_time :: "('e, 'b) nrtxn \<Rightarrow> nrtime \<times> ('e, 'b) nrtxn" where
  "nr_get_time t = (clock t (ticks t), t\<lparr>ticks := ticks t + 1\<rparr>)"

definition nr_txn_now_rel :: "('e, 'b) nrtxn \<Rightarrow> nrtime \<times> ('e, 'b) nrtxn" where
  "nr_txn_now_rel t = (case nr_get_time t of (now, t) \<Rightarrow> (nr_time_duration (abs_start_time t) now, t))"

section \<open>The stacks of current segments\<close>

definition stack_at :: "('e, 'b) nrtxn \<Rightarrow> nat ptr \<Rightarrow> sid nr_vector ptr" where
  "stack_at t p = map_option (stack_mem t) p"

definition set_stack :: "('e, 'b) nrtxn \<Rightarrow> nat \<Rightarrow> sid nr_vector \<Rightarrow> ('e, 'b) nrtxn" where
  "set_stack t p v = t\<lparr>stack_mem := (stack_mem t)(p := v)\<rparr>"

abbreviation context_stack :: "('e, 'b) nrtxn \<Rightarrow> nat \<Rightarrow> nat ptr" where
  "context_stack t c \<equiv> nr_hashmap_index_get (Some (parent_stacks t)) (of_nat c)"

definition nr_txn_get_current_segment :: "('e, 'b) nrtxn \<Rightarrow> string ptr \<Rightarrow> sid ptr option" where
  "nr_txn_get_current_segment t async_context =
     (case async_context of
        Some _ \<Rightarrow> do {
          async_context_idx \<leftarrow> nr_string_find (Some (trace_strings t)) async_context;
          (if async_context_idx = 0 then Some NULL
           else Some (nr_stack_get_top (stack_at t (context_stack t async_context_idx))))
        }
      | None \<Rightarrow>
          if force_current_segment t \<noteq> NULL then Some (force_current_segment t)
          else Some (nr_stack_get_top (Some (default_parent_stack t))))"

definition push_default :: "('e, 'b) nrtxn \<Rightarrow> sid \<Rightarrow> ('e, 'b) nrtxn option" where
  "push_default t s = do {
     stack \<leftarrow> nr_stack_push (Some (default_parent_stack t)) (Some s);
     stack \<leftarrow> stack;
     Some (t\<lparr>default_parent_stack := stack\<rparr>)
   }"

definition push_context :: "('e, 'b) nrtxn \<Rightarrow> nat \<Rightarrow> sid \<Rightarrow> ('e, 'b) nrtxn option" where
  "push_context t p s = do {
     stack \<leftarrow> nr_stack_push (stack_at t (Some p)) (Some s);
     stack \<leftarrow> stack;
     Some (set_stack t p stack)
   }"

definition nr_txn_set_current_segment ::
  "('e, 'b) nrtxn \<Rightarrow> sid ptr \<Rightarrow> ('e, 'b) nrtxn option" where
  "nr_txn_set_current_segment t segment =
     (case segment of None \<Rightarrow> Some t
      | Some s \<Rightarrow>
          let key = seg_async_context (txn_mem t s) in
          if key \<noteq> 0 then
            (case context_stack t key of
               Some p \<Rightarrow> push_context t p s
             | None \<Rightarrow>
                 let p = stack_next t;
                     stack = snd (nr_stack_init (Some (stack_mem t p)) NR_STACK_DEFAULT_CAPACITY);
                     t = (set_stack t p (the stack))\<lparr>stack_next := p + 1\<rparr>
                 in (case nr_hashmap_index_set (Some (parent_stacks t)) (of_nat key) p of
                       (NR_SUCCESS, h) \<Rightarrow> push_context (t\<lparr>parent_stacks := the h\<rparr>) p s
                     | (NR_FAILURE, h) \<Rightarrow>
                         Some (set_stack (t\<lparr>parent_stacks := the h\<rparr>) p
                           (the (nr_stack_destroy_fields stack)))))
          else push_default t s)"

definition remove_current :: "('e, 'b) nrtxn \<Rightarrow> sid \<Rightarrow> ('e, 'b) nrtxn" where
  "remove_current t s =
     (let c = seg_async_context (txn_mem t s) in
      if c \<noteq> 0 then
        (case context_stack t c of
           None \<Rightarrow> t
         | Some p \<Rightarrow> set_stack t p (the (snd (nr_stack_remove_topmost (stack_at t (Some p)) (Some s)))))
      else t\<lparr>default_parent_stack :=
               the (snd (nr_stack_remove_topmost (Some (default_parent_stack t)) (Some s)))\<rparr>)"

section \<open>Span events\<close>

definition nr_txn_should_create_span_events :: "('e, 'b) nrtxn \<Rightarrow> bool" where
  "nr_txn_should_create_span_events t \<longleftrightarrow>
     (span_queue t \<noteq> NULL \<or> dt_is_sampled t) \<and> distributed_tracing_enabled t \<and> span_events_enabled t"

definition nr_segment_ensure_id :: "('e, 'b) nrtxn \<Rightarrow> sid \<Rightarrow> string ptr \<times> ('e, 'b) nrtxn" where
  "nr_segment_ensure_id t s =
     (let t = (if seg_id (txn_mem t s) = NULL \<and> nr_txn_should_create_span_events t
               then t\<lparr>txn_mem := (txn_mem t)(s := (txn_mem t s)\<lparr>seg_id := Some (guids t (guid_next t))\<rparr>),
                      guid_next := guid_next t + 1\<rparr>
               else t)
      in (seg_id (txn_mem t s), t))"

definition nr_txn_time_rel_to_abs :: "('e, 'b) nrtxn \<Rightarrow> nrtime \<Rightarrow> nrtime" where
  "nr_txn_time_rel_to_abs t relative_time = (abs_start_time t + relative_time) mod 2 ^ 64"

definition nr_segment_to_span_event ::
  "('e, 'b) nrtxn \<Rightarrow> sid ptr \<Rightarrow> 'e nr_span_event ptr \<times> ('e, 'b) nrtxn" where
  "nr_segment_to_span_event t segment =
     (case segment of None \<Rightarrow> (NULL, t)
      | Some s \<Rightarrow>
          if seg_stop_time (txn_mem t s) = 0 then (NULL, t)
          else if seg_start_time (txn_mem t s) > seg_stop_time (txn_mem t s) then (NULL, t)
          else (case nr_segment_ensure_id t s of
              (None, t) \<Rightarrow> (NULL, t)
            | (Some guid, t) \<Rightarrow>
                let seg = txn_mem t s;
                    (parent_id, entry, t) =
                      (case seg_parent seg of
                         Some p \<Rightarrow> (case nr_segment_ensure_id t p of (pid, t) \<Rightarrow> (pid, False, t))
                       | None \<Rightarrow> (dt_inbound_guid t, True, t))
                in (Some \<lparr>span_guid = Some guid,
                      span_name = nr_string_get (Some (trace_strings t)) (int (seg_name seg)),
                      span_timestamp = nr_txn_time_rel_to_abs t (seg_start_time seg),
                      span_duration = nr_time_duration (seg_start_time seg) (seg_stop_time seg),
                      span_parent_id = parent_id, span_entry_point = entry, span_error = seg_error seg,
                      span_rest = span_details t seg\<rparr>, t)))"

definition queue_span :: "('e, 'b) nrtxn \<Rightarrow> sid \<Rightarrow> ('e, 'b) nrtxn option" where
  "queue_span t s =
     (if span_queue t \<noteq> NULL \<and> seg_name (txn_mem t s) \<noteq> 0 then do {
        let (event, t) = nr_segment_to_span_event t (Some s);
        let (now, t) = nr_get_time t;
        let (now_flush, t) = nr_get_time t;
        (ok, sent, _, queue) \<leftarrow> nr_span_queue_push (encode t) now now_flush (span_queue t) event;
        let t = t\<lparr>span_queue := queue, sent_batches := sent_batches t @ sent\<rparr>;
        (if ok then do {
           metrics \<leftarrow> nrm_force_add (unscoped_metrics t) (Some ''Supportability/InfiniteTracing/Span/Seen'') 0;
           Some (t\<lparr>unscoped_metrics := metrics\<rparr>)
         }
         else Some t)
      }
      else Some t)"

definition nr_txn_retire_current_segment ::
  "('e, 'b) nrtxn \<Rightarrow> sid ptr \<Rightarrow> ('e, 'b) nrtxn option" where
  "nr_txn_retire_current_segment t segment =
     (case segment of None \<Rightarrow> Some t | Some s \<Rightarrow> queue_span (remove_current t s) s)"

definition zero_segment :: nr_segment where
  "zero_segment = \<lparr>seg_txn = NULL, seg_parent = NULL, seg_children = packed_init, seg_child_ix = 0,
     seg_color = NR_SEGMENT_WHITE, seg_start_time = 0, seg_stop_time = 0, seg_name = 0,
     seg_async_context = 0, seg_id = NULL, seg_metrics = NULL, seg_exclusive_time = NULL,
     seg_priority = 0, seg_error = NULL\<rparr>"

text \<open>The objects of a slab are zeroed when they are handed out.\<close>

definition nr_txn_allocate_segment :: "('e, 'b) nrtxn \<Rightarrow> sid ptr \<times> ('e, 'b) nrtxn" where
  "nr_txn_allocate_segment t =
     (case nr_slab_next (Some (segment_slab t)) of
        (Some s, slab) \<Rightarrow> (Some s, t\<lparr>segment_slab := the slab, txn_mem := (txn_mem t)(s := zero_segment)\<rparr>)
      | (None, slab) \<Rightarrow> (NULL, t\<lparr>segment_slab := the slab\<rparr>))"

section \<open>An example\<close>

text \<open>A transaction without spans, with a given segment limit, for the examples.\<close>

definition example_txn :: "nat \<Rightarrow> (unit, unit) nrtxn" where
  "example_txn limit = \<lparr>txn_id = 1, txn_mem = \<lambda>_. zero_segment,
     segment_slab = \<lparr>pages = [], free_list = nr_vector_init_impl 128 False, object_size = 0, page_size = 0, slab_count = 0\<rparr>,
     trace_strings = nr_string_pool_create, parent_stacks = nr_hashmap_create True,
     stack_mem = \<lambda>_. nr_vector_init_impl 32 False, stack_next = 0,
     default_parent_stack = nr_vector_init_impl 32 False, force_current_segment = NULL, segment_root = NULL,
     segment_heap = NULL, segment_count = 0, unscoped_metrics = NULL, scoped_metrics = NULL, max_segments = limit,
     recording = False, abs_start_time = 0, distributed_tracing_enabled = False, span_events_enabled = False,
     dt_is_sampled = False, dt_inbound_guid = NULL, span_queue = NULL, sent_batches = [], span_details = \<lambda>_. (),
     encode = \<lambda>_. NULL, guids = \<lambda>_. [], guid_next = 0, clock = of_nat, ticks = 0\<rparr>"

end
