(* ===== verification/Segment.thy ===== *)
theory Segment
  imports Txn
begin

text \<open>
  The life of a segment (\<^verbatim>\<open>axiom/nr_segment.c\<close>): it is started below a parent,
  given a name, timing and metrics, and ended or discarded. A transaction with a limit on
  its segments keeps the ended ones in a bounded heap, whose destructor discards the segment
  of least priority.
\<close>

section \<open>Fields of one segment\<close>

definition set_seg :: "('e, 'b) nrtxn \<Rightarrow> sid \<Rightarrow> (nr_segment \<Rightarrow> nr_segment) \<Rightarrow> ('e, 'b) nrtxn" where
  "set_seg t s f = t\<lparr>txn_mem := (txn_mem t)(s := f (txn_mem t s))\<rparr>"

definition nr_segment_set_timing ::
  "('e, 'b) nrtxn \<Rightarrow> sid ptr \<Rightarrow> nrtime \<Rightarrow> nrtime \<Rightarrow> bool \<times> ('e, 'b) nrtxn" where
  "nr_segment_set_timing t segment start duration =
     (case segment of None \<Rightarrow> (False, t)
      | Some s \<Rightarrow> (True, set_seg t s
          (\<lambda>seg. seg\<lparr>seg_start_time := start, seg_stop_time := (start + duration) mod 2 ^ 64\<rparr>)))"

definition nr_segment_set_name ::
  "('e, 'b) nrtxn \<Rightarrow> sid ptr \<Rightarrow> string ptr \<Rightarrow> (bool \<times> ('e, 'b) nrtxn) option" where
  "nr_segment_set_name t segment name =
     (case (segment, name) of
        (Some s, Some _) \<Rightarrow> do {
          (ix, pool) \<leftarrow> nr_string_add (Some (trace_strings t)) name;
          Some (True, set_seg (t\<lparr>trace_strings := the pool\<rparr>) s (\<lambda>seg. seg\<lparr>seg_name := ix\<rparr>))
        }
      | _ \<Rightarrow> Some (False, t))"

definition nr_segment_add_metric ::
  "('e, 'b) nrtxn \<Rightarrow> sid ptr \<Rightarrow> string ptr \<Rightarrow> bool \<Rightarrow> (bool \<times> ('e, 'b) nrtxn) option" where
  "nr_segment_add_metric t segment name scoped =
     (case (segment, name) of
        (Some s, Some nm) \<Rightarrow> do {
          let metrics = (case seg_metrics (txn_mem t s) of
              None \<Rightarrow> nr_vector_create 4 True | Some v \<Rightarrow> Some v);
          (ok, metrics) \<leftarrow> nr_vector_push_back metrics (Some \<lparr>sm_name = nm, sm_scoped = scoped\<rparr>);
          Some (ok, set_seg t s (\<lambda>seg. seg\<lparr>seg_metrics := metrics\<rparr>))
        }
      | _ \<Rightarrow> Some (False, t))"

definition nr_segment_set_priority_flag ::
  "('e, 'b) nrtxn \<Rightarrow> sid ptr \<Rightarrow> 32 word \<Rightarrow> ('e, 'b) nrtxn" where
  "nr_segment_set_priority_flag t segment flag =
     (case segment of None \<Rightarrow> t
      | Some s \<Rightarrow> set_seg t s (\<lambda>seg. seg\<lparr>seg_priority := seg_priority seg OR flag\<rparr>))"

definition nr_segment_get_priority_flag :: "('e, 'b) nrtxn \<Rightarrow> sid ptr \<Rightarrow> 32 word" where
  "nr_segment_get_priority_flag t segment =
     (case segment of None \<Rightarrow> 0 | Some s \<Rightarrow> seg_priority (txn_mem t s))"

definition nr_segment_set_error ::
  "('e, 'b) nrtxn \<Rightarrow> sid ptr \<Rightarrow> string ptr \<Rightarrow> string ptr \<Rightarrow> ('e, 'b) nrtxn" where
  "nr_segment_set_error t segment message class =
     (case segment of None \<Rightarrow> t
      | Some s \<Rightarrow>
          if message = NULL \<and> class = NULL then t
          else set_seg t s (\<lambda>seg. seg\<lparr>seg_error := Some \<lparr>error_message = message, error_class = class\<rparr>\<rparr>))"

section \<open>Starting\<close>

definition add_child_to :: "('e, 'b) nrtxn \<Rightarrow> sid \<Rightarrow> sid \<Rightarrow> ('e, 'b) nrtxn option" where
  "add_child_to t p s = do {
     (_, m) \<leftarrow> nr_segment_children_add (txn_mem t) (Some p) (Some s);
     Some (t\<lparr>txn_mem := m\<rparr>)
   }"

definition init_fields ::
  "('e, 'b) nrtxn \<Rightarrow> sid \<Rightarrow> string ptr \<Rightarrow> ('e, 'b) nrtxn option" where
  "init_fields t s async_context = do {
     let t = set_seg t s (\<lambda>seg. seg\<lparr>seg_color := NR_SEGMENT_WHITE, seg_txn := Some (txn_id t),
               seg_error := NULL\<rparr>);
     let (now, t) = nr_txn_now_rel t;
     let t = set_seg t s (\<lambda>seg. seg\<lparr>seg_start_time := now\<rparr>);
     t \<leftarrow> (case async_context of
             Some _ \<Rightarrow> do {
               (ix, pool) \<leftarrow> nr_string_add (Some (trace_strings t)) async_context;
               Some (set_seg (t\<lparr>trace_strings := the pool\<rparr>) s (\<lambda>seg. seg\<lparr>seg_async_context := ix\<rparr>))
             }
           | None \<Rightarrow> Some (set_seg t s (\<lambda>seg. seg\<lparr>seg_async_context := 0\<rparr>)));
     Some (t\<lparr>txn_mem := nr_segment_children_init (txn_mem t) (Some s)\<rparr>)
   }"

text \<open>The parent when none is given: the current segment of the context, or of the main context.\<close>

definition init_current :: "('e, 'b) nrtxn \<Rightarrow> string ptr \<Rightarrow> sid ptr option" where
  "init_current t async_context = do {
     current_segment \<leftarrow> nr_txn_get_current_segment t async_context;
     (if current_segment = NULL \<and> async_context \<noteq> NULL
      then nr_txn_get_current_segment t NULL else Some current_segment)
   }"

definition init_parent ::
  "('e, 'b) nrtxn \<Rightarrow> sid \<Rightarrow> sid ptr \<Rightarrow> string ptr \<Rightarrow> ('e, 'b) nrtxn option" where
  "init_parent t s par async_context =
     (case par of
        Some p \<Rightarrow> add_child_to (set_seg t s (\<lambda>seg. seg\<lparr>seg_parent := Some p\<rparr>)) p s
      | None \<Rightarrow> do {
          current_segment \<leftarrow> init_current t async_context;
          let t = set_seg t s (\<lambda>seg. seg\<lparr>seg_parent := current_segment\<rparr>);
          t \<leftarrow> (case current_segment of None \<Rightarrow> Some t | Some c \<Rightarrow> add_child_to t c s);
          nr_txn_set_current_segment t (Some s)
        })"

definition nr_segment_init ::
  "('e, 'b) nrtxn \<Rightarrow> sid ptr \<Rightarrow> sid ptr \<Rightarrow> string ptr \<Rightarrow> (bool \<times> ('e, 'b) nrtxn) option" where
  "nr_segment_init t segment par async_context =
     (case segment of None \<Rightarrow> Some (False, t)
      | Some s \<Rightarrow> do {
          t \<leftarrow> init_fields t s async_context;
          t \<leftarrow> init_parent t s par async_context;
          Some (True, t)
        })"

definition nr_segment_start ::
  "('e, 'b) nrtxn \<Rightarrow> sid ptr \<Rightarrow> string ptr \<Rightarrow> (sid ptr \<times> ('e, 'b) nrtxn) option" where
  "nr_segment_start t par async_context =
     (if \<not> recording t then Some (NULL, t)
      else case nr_txn_allocate_segment t of
          (None, t) \<Rightarrow> Some (NULL, t)
        | (Some s, t) \<Rightarrow> do {
            (_, t) \<leftarrow> nr_segment_init t (Some s) par async_context;
            Some (Some s, t)
          })"

section \<open>Discarding\<close>

text \<open>The metrics of a segment, merged into the tables of the transaction.\<close>

fun merge_metrics ::
  "nr_segment_metric ptr list \<Rightarrow> nrtime \<Rightarrow> nrtime \<Rightarrow> ('e, 'b) nrtxn \<Rightarrow> ('e, 'b) nrtxn option" where
  "merge_metrics [] duration exclusive t = Some t"
| "merge_metrics (sm # sms) duration exclusive t =
     (case sm of None \<Rightarrow> None
      | Some m \<Rightarrow> do {
          t \<leftarrow> (if sm_scoped m then do {
                    table \<leftarrow> nrm_add_ex (scoped_metrics t) (Some (sm_name m)) (of_nat duration) (of_nat exclusive);
                    Some (t\<lparr>scoped_metrics := table\<rparr>)
                  }
                else do {
                    table \<leftarrow> nrm_add_ex (unscoped_metrics t) (Some (sm_name m)) (of_nat duration) (of_nat exclusive);
                    Some (t\<lparr>unscoped_metrics := table\<rparr>)
                  });
          merge_metrics sms duration exclusive t
        })"

definition segment_metric_list :: "('e, 'b) nrtxn \<Rightarrow> sid \<Rightarrow> nr_segment_metric ptr list" where
  "segment_metric_list t s =
     (let v = seg_metrics (txn_mem t s)
      in map (\<lambda>i. nr_vector_get v (of_nat i)) [0..<unat (nr_vector_size v)])"

definition ensure_exclusive :: "('e, 'b) nrtxn \<Rightarrow> sid \<Rightarrow> ('e, 'b) nrtxn" where
  "ensure_exclusive t s =
     set_seg t s (\<lambda>seg. seg\<lparr>seg_exclusive_time :=
       the (snd (nr_exclusive_time_ensure (Some (seg_exclusive_time seg))
         (unat (nr_segment_children_size (txn_mem t) (Some s))) (seg_start_time seg) (seg_stop_time seg)))\<rparr>)"

definition add_exclusive_child :: "('e, 'b) nrtxn \<Rightarrow> sid \<Rightarrow> sid \<Rightarrow> ('e, 'b) nrtxn" where
  "add_exclusive_child t p s =
     set_seg t p (\<lambda>seg. seg\<lparr>seg_exclusive_time :=
       snd (nr_exclusive_time_add_child (seg_exclusive_time seg)
         (seg_start_time (txn_mem t s)) (seg_stop_time (txn_mem t s)))\<rparr>)"

definition add_children_of :: "('e, 'b) nrtxn \<Rightarrow> sid \<Rightarrow> ('e, 'b) nrtxn" where
  "add_children_of t s =
     fold (\<lambda>i t. case nr_segment_children_get (txn_mem t) (Some s) (of_nat i) of
         None \<Rightarrow> t
       | Some c \<Rightarrow> if seg_async_context (txn_mem t c) = seg_async_context (txn_mem t s)
                   then add_exclusive_child t s c else t)
       [0..<unat (nr_segment_children_size (txn_mem t) (Some s))] t"

definition merge_children_time :: "('e, 'b) nrtxn \<Rightarrow> sid \<Rightarrow> ('e, 'b) nrtxn" where
  "merge_children_time t s =
     (if nr_segment_children_size (txn_mem t) (Some s) \<noteq> 0
      then add_children_of (ensure_exclusive t s) s else t)"

definition merge_exclusive_time :: "('e, 'b) nrtxn \<Rightarrow> sid \<Rightarrow> nrtime \<Rightarrow> nrtime \<times> ('e, 'b) nrtxn" where
  "merge_exclusive_time t s duration =
     (case seg_exclusive_time (txn_mem t s) of
        None \<Rightarrow> (duration, t)
      | Some et \<Rightarrow> (case nr_exclusive_time_calculate (Some et) of
          (x, et') \<Rightarrow> (x, set_seg t s (\<lambda>seg. seg\<lparr>seg_exclusive_time := et'\<rparr>))))"

definition merge_parent_time :: "('e, 'b) nrtxn \<Rightarrow> sid \<Rightarrow> sid \<Rightarrow> ('e, 'b) nrtxn" where
  "merge_parent_time t p s =
     (if seg_async_context (txn_mem t p) = seg_async_context (txn_mem t s)
      then add_exclusive_child (ensure_exclusive t p) p s else t)"

definition nr_segment_discard_merge_metrics ::
  "('e, 'b) nrtxn \<Rightarrow> sid \<Rightarrow> ('e, 'b) nrtxn option" where
  "nr_segment_discard_merge_metrics t s =
     (let seg = txn_mem t s in
      case seg_parent seg of
        None \<Rightarrow> Some t
      | Some p \<Rightarrow>
          if seg_txn seg = NULL then Some t
          else if seg_stop_time seg < seg_start_time seg then Some t
          else let duration = nr_time_duration (seg_start_time seg) (seg_stop_time seg) in
          if max_segments t > 1 then merge_metrics (segment_metric_list t s) duration 0 t
          else
            let t = merge_children_time t s;
                (exclusive_time, t) = merge_exclusive_time t s duration;
                t = merge_parent_time t p s
            in merge_metrics (segment_metric_list t s) duration exclusive_time t)"

text \<open>The fields of a segment that own memory.\<close>

definition nr_segment_destroy_fields :: "nr_segment \<Rightarrow> nr_segment" where
  "nr_segment_destroy_fields seg =
     seg\<lparr>seg_id := NULL,
         seg_metrics := (case snd (snd (nr_vector_destroy (Some (seg_metrics seg)))) of
             Some v \<Rightarrow> v | None \<Rightarrow> NULL),
         seg_exclusive_time := the (snd (nr_exclusive_time_destroy (Some (seg_exclusive_time seg))))\<rparr>"

definition nr_segment_discard ::
  "('e, 'b) nrtxn \<Rightarrow> sid ptr ptr \<Rightarrow> (bool \<times> sid ptr ptr \<times> ('e, 'b) nrtxn) option" where
  "nr_segment_discard t segment_ptr =
     (case segment_ptr of
        Some (Some s) \<Rightarrow>
          if seg_txn (txn_mem t s) = NULL then Some (False, segment_ptr, t)
          else if seg_parent (txn_mem t s) = NULL then Some (False, segment_ptr, t)
          else do {
            t \<leftarrow> nr_txn_retire_current_segment t (Some s);
            t \<leftarrow> (if nr_vector_size (seg_metrics (txn_mem t s)) \<noteq> 0
                  then nr_segment_discard_merge_metrics t s else Some t);
            let q = seg_parent (txn_mem t s);
            let (removed, m) = nr_segment_children_remove (txn_mem t) q (Some s);
            let t = t\<lparr>txn_mem := m\<rparr>;
            (if \<not> removed then Some (False, segment_ptr, t)
             else do {
               (_, m) \<leftarrow> nr_segment_children_reparent (txn_mem t) (Some s) (seg_parent (txn_mem t s));
               let m = nr_segment_children_deinit m (Some s);
               let m = m(s := nr_segment_destroy_fields (m s));
               (_, slab) \<leftarrow> nr_slab_release (Some (segment_slab t)) (Some s);
               Some (True, Some NULL, t\<lparr>segment_slab := the slab, txn_mem := m(s := zero_segment)\<rparr>)
             })
          }
      | _ \<Rightarrow> Some (False, segment_ptr, t))"

definition nr_segment_discard_wrapper :: "('e, 'b) nrtxn \<Rightarrow> sid ptr \<Rightarrow> ('e, 'b) nrtxn option" where
  "nr_segment_discard_wrapper t segment =
     (case segment of None \<Rightarrow> Some t
      | Some _ \<Rightarrow> do {
          (ok, _, t) \<leftarrow> nr_segment_discard t (Some segment);
          Some (if ok then t\<lparr>segment_count := segment_count t - 1\<rparr> else t)
        })"

section \<open>Ending\<close>

text \<open>The difference of two times is unsigned and wraps.\<close>

definition segment_duration :: "seg_mem \<Rightarrow> sid \<Rightarrow> nat" where
  "segment_duration m s = nat ((int (seg_stop_time (m s)) - int (seg_start_time (m s))) mod 2 ^ 64)"

definition nr_segment_duration_comparator :: "seg_mem \<Rightarrow> sid \<Rightarrow> sid \<Rightarrow> int" where
  "nr_segment_duration_comparator m a b =
     (if segment_duration m a < segment_duration m b then -1
      else if segment_duration m a > segment_duration m b then 1 else 0)"

text \<open>The address of an object is greater than NULL.\<close>

definition comparator_null_check :: "(sid \<Rightarrow> sid \<Rightarrow> int) \<Rightarrow> sid ptr \<Rightarrow> sid ptr \<Rightarrow> int" where
  "comparator_null_check cmp a b =
     (case (a, b) of (Some x, Some y) \<Rightarrow> cmp x y | (None, Some _) \<Rightarrow> -1 | (Some _, None) \<Rightarrow> 1 | (None, None) \<Rightarrow> 0)"

definition nr_segment_wrapped_duration_comparator :: "seg_mem \<Rightarrow> sid ptr \<Rightarrow> sid ptr \<Rightarrow> int" where
  "nr_segment_wrapped_duration_comparator m = comparator_null_check (nr_segment_duration_comparator m)"

definition nr_segment_span_priority_comparator :: "seg_mem \<Rightarrow> sid \<Rightarrow> sid \<Rightarrow> int" where
  "nr_segment_span_priority_comparator m a b =
     (if sint (seg_priority (m a)) > sint (seg_priority (m b)) then 1
      else if sint (seg_priority (m a)) < sint (seg_priority (m b)) then -1
      else nr_segment_duration_comparator m a b)"

definition nr_segment_wrapped_span_priority_comparator :: "seg_mem \<Rightarrow> sid ptr \<Rightarrow> sid ptr \<Rightarrow> int" where
  "nr_segment_wrapped_span_priority_comparator m = comparator_null_check (nr_segment_span_priority_comparator m)"

text \<open>A comparator reads the segments it compares, so the heap gets it for the current memory.\<close>

definition heap_in :: "seg_mem \<Rightarrow> sid nr_minmax_heap \<Rightarrow> sid nr_minmax_heap" where
  "heap_in m h = h\<lparr>heap_comparator := nr_segment_wrapped_span_priority_comparator m\<rparr>"

fun discard_all :: "sid ptr list \<Rightarrow> ('e, 'b) nrtxn \<Rightarrow> ('e, 'b) nrtxn option" where
  "discard_all [] t = Some t"
| "discard_all (s # ss) t = do { t \<leftarrow> nr_segment_discard_wrapper t s; discard_all ss t }"

definition nr_segment_end ::
  "('e, 'b) nrtxn \<Rightarrow> sid ptr ptr \<Rightarrow> (bool \<times> sid ptr ptr \<times> ('e, 'b) nrtxn) option" where
  "nr_segment_end t segment_ptr =
     (case segment_ptr of
        Some (Some s) \<Rightarrow>
          if seg_txn (txn_mem t s) = NULL then Some (False, segment_ptr, t)
          else do {
            let t = (if seg_stop_time (txn_mem t s) = 0
                     then (case nr_get_time t of
                         (now, t) \<Rightarrow> set_seg t s
                           (\<lambda>seg. seg\<lparr>seg_stop_time := nr_time_duration (abs_start_time t) now\<rparr>))
                     else t);
            let t = t\<lparr>segment_count := segment_count t + 1\<rparr>;
            t \<leftarrow> nr_txn_retire_current_segment t (Some s);
            let (evicted, heap) =
              nr_minmax_heap_insert (map_option (heap_in (txn_mem t)) (segment_heap t)) (Some s);
            t \<leftarrow> discard_all evicted (t\<lparr>segment_heap := heap\<rparr>);
            Some (True, Some NULL, t)
          }
      | _ \<Rightarrow> Some (False, segment_ptr, t))"

section \<open>Ending what is left on the stacks\<close>

text \<open>A stack of the transaction: the default one, or an allocated one.\<close>

datatype stack_ref = Default_Stack | Context_Stack nat

definition get_stack :: "('e, 'b) nrtxn \<Rightarrow> stack_ref \<Rightarrow> sid nr_vector" where
  "get_stack t r = (case r of Default_Stack \<Rightarrow> default_parent_stack t | Context_Stack p \<Rightarrow> stack_mem t p)"

definition put_stack :: "('e, 'b) nrtxn \<Rightarrow> stack_ref \<Rightarrow> sid nr_vector \<Rightarrow> ('e, 'b) nrtxn" where
  "put_stack t r v =
     (case r of Default_Stack \<Rightarrow> t\<lparr>default_parent_stack := v\<rparr> | Context_Stack p \<Rightarrow> set_stack t p v)"

partial_function (option) nr_txn_end_segments_in_stack ::
  "stack_ref \<Rightarrow> ('e, 'b) nrtxn \<Rightarrow> ('e, 'b) nrtxn option" where
  "nr_txn_end_segments_in_stack stack t =
     (if nr_stack_is_empty (Some (get_stack t stack)) then Some t
      else case nr_stack_pop (Some (get_stack t stack)) of
          (segment, v) \<Rightarrow>
            (let t = put_stack t stack (the v) in
             if segment_root t = segment then nr_txn_end_segments_in_stack stack t
             else Option.bind (nr_segment_end t (Some segment))
                    (\<lambda>r. nr_txn_end_segments_in_stack stack (snd (snd r)))))"

definition nr_txn_finalize_parent_stacks :: "('e, 'b) nrtxn \<Rightarrow> ('e, 'b) nrtxn option" where
  "nr_txn_finalize_parent_stacks t = do {
     t \<leftarrow> nr_hashmap_apply (Some (parent_stacks t))
       (Some (\<lambda>p _ t. Option.bind t (nr_txn_end_segments_in_stack (Context_Stack p)))) (Some t);
     nr_txn_end_segments_in_stack Default_Stack t
   }"

end
