(* ===== verification/SegmentLife.thy ===== *)
theory SegmentLife
  imports Segment
begin

text \<open>
  The invariant of a transaction's segments and the proof that starting, ending and
  discarding segments keep it: every pointer is to a live segment of the slab, the segments
  form a forest, the stacks of current segments hold live segments of their context, once.
\<close>

section \<open>The invariant\<close>

definition table_ok :: "nrmtable ptr \<Rightarrow> bool" where
  "table_ok table = (case table of None \<Rightarrow> True | Some m \<Rightarrow> metrics_inv m)"

definition queue_ok :: "('e, 'b) nr_span_queue ptr \<Rightarrow> bool" where
  "queue_ok queue = (case queue of None \<Rightarrow> True | Some q \<Rightarrow> queue_inv q)"

definition metric_list_ok :: "nr_segment_metric nr_vector ptr \<Rightarrow> bool" where
  "metric_list_ok v = (case v of None \<Rightarrow> True
     | Some v \<Rightarrow> vector_inv v \<and> (\<forall>x \<in> set (vec_list v). \<exists>m. x = Some m \<and> c_string (sm_name m)))"

definition seg_ok :: "nat \<Rightarrow> nr_segment \<Rightarrow> bool" where
  "seg_ok i seg \<longleftrightarrow> seg_txn seg = Some i \<and> metric_list_ok (seg_metrics seg) \<and> seg_async_context seg < 2 ^ 31"

text \<open>The segments of an asynchronous context, the current one first; 0 is the main context.\<close>

definition ctx_content :: "('e, 'b) nrtxn \<Rightarrow> nat \<Rightarrow> sid list" where
  "ctx_content t c =
     (if c = 0 then stack_content (Some (default_parent_stack t))
      else case hm_lookup (parent_stacks t) (index_key (of_nat c)) of
          None \<Rightarrow> [] | Some p \<Rightarrow> stack_content (Some (stack_mem t p)))"

text \<open>The keys of the map of stacks.\<close>

definition context_key :: "string \<Rightarrow> bool" where
  "context_key k \<longleftrightarrow> (\<exists>c. 0 < c \<and> c < 2 ^ 31 \<and> k = index_key (of_nat c))"

definition stacks_inv :: "sid set \<Rightarrow> ('e, 'b) nrtxn \<Rightarrow> bool" where
  "stacks_inv L t \<longleftrightarrow> hashmap_inv (parent_stacks t) \<and> stack_inv (Some (default_parent_stack t))
     \<and> (\<forall>k p. hm_lookup (parent_stacks t) k = Some p \<longrightarrow> p < stack_next t \<and> stack_inv (Some (stack_mem t p)) \<and> context_key k)
     \<and> (\<forall>k l p. hm_lookup (parent_stacks t) k = Some p \<longrightarrow> hm_lookup (parent_stacks t) l = Some p \<longrightarrow> k = l)
     \<and> (\<forall>c < 2 ^ 31. distinct (ctx_content t c)
          \<and> (\<forall>s \<in> set (ctx_content t c). s \<in> L \<and> seg_async_context (txn_mem t s) = c))"

definition txn_inv :: "sid set \<Rightarrow> ('e, 'b) nrtxn \<Rightarrow> bool" where
  "txn_inv L t \<longleftrightarrow> forest L (txn_mem t) \<and> slab_inv (segment_slab t) L
     \<and> (\<forall>s \<in> L. seg_ok (txn_id t) (txn_mem t s)) \<and> pool_inv (trace_strings t) \<and> stacks_inv L t
     \<and> table_ok (unscoped_metrics t) \<and> table_ok (scoped_metrics t) \<and> queue_ok (span_queue t)"

text \<open>The fields that the operations on stacks, metrics and spans leave alone.\<close>

definition frame :: "('e, 'b) nrtxn \<Rightarrow> _" where
  "frame t = ((txn_id t, segment_slab t, trace_strings t, force_current_segment t),
     (segment_root t, segment_heap t, segment_count t, max_segments t), (recording t, abs_start_time t))"

lemma frameD:
  assumes "frame t' = frame t"
  shows "txn_id t' = txn_id t" "segment_slab t' = segment_slab t" "trace_strings t' = trace_strings t"
    "force_current_segment t' = force_current_segment t" "segment_root t' = segment_root t"
    "segment_heap t' = segment_heap t" "segment_count t' = segment_count t"
    "max_segments t' = max_segments t" "recording t' = recording t" "abs_start_time t' = abs_start_time t"
  using assms by (simp_all add: frame_def)

section \<open>Memory\<close>

text \<open>Two memories with the same links.\<close>

definition same_links :: "seg_mem \<Rightarrow> seg_mem \<Rightarrow> bool" where
  "same_links m m' \<longleftrightarrow> (\<forall>u. seg_children (m' u) = seg_children (m u) \<and> seg_parent (m' u) = seg_parent (m u)
     \<and> seg_child_ix (m' u) = seg_child_ix (m u))"

lemma links_cong: "same_links m m' \<Longrightarrow> links L D m \<Longrightarrow> links L D m'"
  unfolding same_links_def links_def by simp

lemma forest_cong:
  assumes "same_links m m'" and "forest L m"
  shows "forest L m'"
proof -
  have "parents_of m' = parents_of m" using assms(1) by (auto simp: same_links_def)
  with assms links_cong show ?thesis by (simp add: forest_def)
qed

section \<open>The stacks\<close>

lemma stack_at_simps [simp]: "stack_at t NULL = NULL" "stack_at t (Some p) = Some (stack_mem t p)"
  by (simp_all add: stack_at_def)

lemma index_key_of_nat:
  assumes "c < 2 ^ 31" and "d < 2 ^ 31"
  shows "index_key (of_nat c) = index_key (of_nat d) \<longleftrightarrow> c = d"
proof -
  have "unat (of_nat c :: uint64) = c" "unat (of_nat d :: uint64) = d" using assms by (simp_all add: unat_of_nat)
  then show ?thesis by (metis index_key_inj)
qed

lemma stacks_invD:
  assumes "stacks_inv L t"
  shows "hashmap_inv (parent_stacks t)" "stack_inv (Some (default_parent_stack t))"
    "hm_lookup (parent_stacks t) k = Some p \<Longrightarrow> p < stack_next t \<and> stack_inv (Some (stack_mem t p)) \<and> context_key k"
    "hm_lookup (parent_stacks t) k = Some p \<Longrightarrow> hm_lookup (parent_stacks t) l = Some p \<Longrightarrow> k = l"
    "c < 2 ^ 31 \<Longrightarrow> distinct (ctx_content t c)"
    "c < 2 ^ 31 \<Longrightarrow> s \<in> set (ctx_content t c) \<Longrightarrow> s \<in> L"
    "c < 2 ^ 31 \<Longrightarrow> s \<in> set (ctx_content t c) \<Longrightarrow> seg_async_context (txn_mem t s) = c"
  using assms unfolding stacks_inv_def by blast+

lemma remove_current_spec:
  assumes inv: "stacks_inv L t" and c: "seg_async_context (txn_mem t s) < 2 ^ 31"
  shows "stacks_inv L (remove_current t s) \<and> txn_mem (remove_current t s) = txn_mem t
    \<and> frame (remove_current t s) = frame t
    \<and> (\<forall>c < 2 ^ 31. ctx_content (remove_current t s) c = remove1 s (ctx_content t c))
    \<and> unscoped_metrics (remove_current t s) = unscoped_metrics t
    \<and> scoped_metrics (remove_current t s) = scoped_metrics t
    \<and> span_queue (remove_current t s) = span_queue t \<and> parent_stacks (remove_current t s) = parent_stacks t"
proof -
  let ?c = "seg_async_context (txn_mem t s)" and ?t = "remove_current t s"
  have other: "remove1 s (ctx_content t d) = ctx_content t d" if "d < 2 ^ 31" "d \<noteq> ?c" for d
    using stacks_invD(7) [OF inv that(1), of s] that(2) by (intro remove1_idem) auto
  have "ctx_content ?t d = remove1 s (ctx_content t d) \<and> stack_inv (Some (default_parent_stack ?t))
      \<and> (\<forall>p. stack_inv (Some (stack_mem t p)) \<longrightarrow> stack_inv (Some (stack_mem ?t p)))" if d: "d < 2 ^ 31" for d
  proof (cases "?c = 0")
    case True
    from nr_stack_remove_topmost_spec [OF stacks_invD(2) [OF inv], of s] obtain v where
      "snd (nr_stack_remove_topmost (Some (default_parent_stack t)) (Some s)) = Some v"
      "stack_inv (Some v)" "stack_content (Some v) = remove1 s (stack_content (Some (default_parent_stack t)))"
      by (metis snd_conv stack_inv_def option.simps(4) option.exhaust)
    with True other [OF d] show ?thesis
      by (auto simp: remove_current_def ctx_content_def split: option.splits)
  next
    case False
    show ?thesis
    proof (cases "hm_lookup (parent_stacks t) (index_key (of_nat ?c))")
      case None
      with False other [OF d] stacks_invD(2) [OF inv] show ?thesis
        by (cases "d = ?c")
          (auto simp: remove_current_def ctx_content_def nr_hashmap_index_get_def nr_hashmap_get_eq)
    next
      case (Some p)
      from stacks_invD(3) [OF inv Some] have "stack_inv (Some (stack_mem t p))" by blast
      from nr_stack_remove_topmost_spec [OF this, of s] obtain v where
        v: "snd (nr_stack_remove_topmost (Some (stack_mem t p)) (Some s)) = Some v"
        "stack_inv (Some v)" "stack_content (Some v) = remove1 s (stack_content (Some (stack_mem t p)))"
        by (metis snd_conv stack_inv_def option.simps(4) option.exhaust)
      then have t: "?t = set_stack t p v"
        using False Some by (simp add: remove_current_def nr_hashmap_index_get_def nr_hashmap_get_eq)
      have "ctx_content ?t d = remove1 s (ctx_content t d)"
      proof (cases "d = ?c")
        case True
        with False Some v(3) show ?thesis by (simp add: t set_stack_def ctx_content_def)
      next
        case ne: False
        have "q \<noteq> p" if "hm_lookup (parent_stacks t) (index_key (of_nat d)) = Some q" for q
          using stacks_invD(4) [OF inv that, of "index_key (of_nat ?c)"] Some index_key_of_nat [OF d c] ne by auto
        then have "ctx_content ?t d = ctx_content t d"
          by (auto simp: t set_stack_def ctx_content_def split: option.splits)
        with other [OF d ne] show ?thesis by simp
      qed
      with v(2) stacks_invD(2) [OF inv] show ?thesis by (simp add: t set_stack_def)
    qed
  qed
  note st = this
  have same: "parent_stacks ?t = parent_stacks t" "stack_next ?t = stack_next t" "txn_mem ?t = txn_mem t"
    "frame ?t = frame t" "unscoped_metrics ?t = unscoped_metrics t" "scoped_metrics ?t = scoped_metrics t"
    "span_queue ?t = span_queue t"
    by (auto simp: remove_current_def Let_def set_stack_def frame_def split: option.splits)
  have sub: "set (remove1 s xs) \<subseteq> set xs" for xs :: "sid list" by (rule set_remove1_subset)
  have "stacks_inv L ?t"
    unfolding stacks_inv_def same
  proof (intro conjI allI impI ballI)
    show "hashmap_inv (parent_stacks t)" by (rule stacks_invD(1) [OF inv])
    show "stack_inv (Some (default_parent_stack ?t))" using st [of 0] by simp
  next
    fix k p
    assume k: "hm_lookup (parent_stacks t) k = Some p"
    show "p < stack_next t" "context_key k" using stacks_invD(3) [OF inv k] by blast+
    show "stack_inv (Some (stack_mem ?t p))" using stacks_invD(3) [OF inv k] st [of 0] by simp
    fix l
    assume "hm_lookup (parent_stacks t) l = Some p"
    with k show "k = l" by (rule stacks_invD(4) [OF inv])
  next
    fix c :: nat
    assume c: "c < 2 ^ 31"
    show "distinct (ctx_content ?t c)" using st [OF c] stacks_invD(5) [OF inv c] by (simp add: distinct_remove1)
    fix u
    assume "u \<in> set (ctx_content ?t c)"
    then have "u \<in> set (ctx_content t c)" using st [OF c] sub by auto
    then show "u \<in> L" "seg_async_context (txn_mem t u) = c"
      using stacks_invD(6,7) [OF inv c] by blast+
  qed
  with st same show ?thesis by blast
qed


lemma stack_size: "stack_inv (Some v) \<Longrightarrow> unat (nr_vector_size (Some v)) = length (stack_content (Some v))"
  by (simp add: stack_inv_def stack_content_def nr_vector_size_def length_vec_list)

lemma stack_content_room:
  assumes "stack_inv (Some v)" and "distinct (stack_content (Some v))" and "set (stack_content (Some v)) \<subseteq> L"
    and "finite L" and "card L < 2 ^ 60"
  shows "0 < stack_room (Some v)"
proof -
  have "length (stack_content (Some v)) \<le> card L"
    using assms(2-4) by (metis card_mono distinct_card)
  with assms(5) stack_size [OF assms(1)] show ?thesis by (simp add: stack_room_def)
qed

lemma nr_stack_init_spec:
  "\<exists>v. snd (nr_stack_init (Some old) NR_STACK_DEFAULT_CAPACITY) = Some v \<and> stack_inv (Some v)
     \<and> stack_content (Some v) = []"
  by (simp add: nr_stack_init_def nr_vector_init_def NR_STACK_DEFAULT_CAPACITY_def stack_inv_def stack_content_def
      vec_list_def vector_inv_def nr_vector_init_impl_def Let_def)

lemma push_spec:
  assumes "stack_inv (Some v)" and "0 < stack_room (Some v)"
  shows "\<exists>w. nr_stack_push (Some v) (Some s) = Some (Some w) \<and> stack_inv (Some w)
    \<and> stack_content (Some w) = s # stack_content (Some v)"
proof -
  from nr_stack_push_spec [OF assms, of s] obtain s' where s': "nr_stack_push (Some v) (Some s) = Some s'"
    "stack_inv s'" "stack_content s' = s # stack_content (Some v)" by blast
  then show ?thesis by (cases s') (auto simp: stack_inv_def)
qed

text \<open>Extending the stack of one context.\<close>

lemma stacks_inv_push:
  assumes inv: "stacks_inv L t"
    and h: "hashmap_inv (parent_stacks t')" "stack_inv (Some (default_parent_stack t'))"
      "\<And>k p. hm_lookup (parent_stacks t') k = Some p \<Longrightarrow> p < stack_next t' \<and> stack_inv (Some (stack_mem t' p)) \<and> context_key k"
      "\<And>k l p. hm_lookup (parent_stacks t') k = Some p \<Longrightarrow> hm_lookup (parent_stacks t') l = Some p \<Longrightarrow> k = l"
    and m: "txn_mem t' = txn_mem t"
    and s: "s \<in> L" "seg_async_context (txn_mem t s) = c" "s \<notin> set (ctx_content t c)"
    and st: "\<And>d. d < 2 ^ 31 \<Longrightarrow> ctx_content t' d = (if d = c then s # ctx_content t c else ctx_content t d)"
  shows "stacks_inv L t'"
  unfolding stacks_inv_def m
proof (intro conjI allI impI ballI)
  fix d :: nat
  assume d: "d < 2 ^ 31"
  show "distinct (ctx_content t' d)" using st [OF d] stacks_invD(5) [OF inv d] s(3) by auto
  fix u
  assume "u \<in> set (ctx_content t' d)"
  then show "u \<in> L" "seg_async_context (txn_mem t u) = d"
    using st [OF d] stacks_invD(6,7) [OF inv d, of u] s by (auto split: if_splits)
qed (use h in blast)+

lemma nr_txn_set_current_segment_spec:
  assumes inv: "stacks_inv L t" and L: "finite L" "card L < 2 ^ 60"
    and s: "s \<in> L" "seg_async_context (txn_mem t s) = c" "c < 2 ^ 31" "s \<notin> set (ctx_content t c)"
  shows "\<exists>t'. nr_txn_set_current_segment t (Some s) = Some t' \<and> stacks_inv L t' \<and> txn_mem t' = txn_mem t
    \<and> frame t' = frame t \<and> unscoped_metrics t' = unscoped_metrics t \<and> scoped_metrics t' = scoped_metrics t
    \<and> span_queue t' = span_queue t
    \<and> (\<forall>d < 2 ^ 31. ctx_content t' d = (if d = c then s # ctx_content t c else ctx_content t d))"
proof -
  have room: "0 < stack_room (Some v)" if "stack_inv (Some v)" "stack_content (Some v) = ctx_content t d" "d < 2 ^ 31" for v d
    by (rule stack_content_room [OF that(1) _ _ L]) (use that stacks_invD(5,6) [OF inv that(3)] in auto)
  show ?thesis
  proof (cases "c = 0")
    case True
    from push_spec [OF stacks_invD(2) [OF inv] room [of _ 0], of s] stacks_invD(2) [OF inv] obtain w where
      w: "nr_stack_push (Some (default_parent_stack t)) (Some s) = Some (Some w)" "stack_inv (Some w)"
        "stack_content (Some w) = s # stack_content (Some (default_parent_stack t))"
      by (auto simp: ctx_content_def)
    let ?t = "t\<lparr>default_parent_stack := w\<rparr>"
    have st: "ctx_content ?t d = (if d = c then s # ctx_content t c else ctx_content t d)" for d
      using w(3) True by (simp add: ctx_content_def split: option.split)
    have "stacks_inv L ?t"
      by (rule stacks_inv_push [OF inv _ _ _ _ _ s(1,2,4) st])
        (use stacks_invD [OF inv] w(2) in auto)
    moreover have "nr_txn_set_current_segment t (Some s) = Some ?t"
      using True s(2) w(1) by (simp add: nr_txn_set_current_segment_def push_default_def)
    ultimately show ?thesis using st by (intro exI [of _ ?t]) (simp add: frame_def)
  next
    case False
    note lk = nr_hashmap_index_get_def nr_hashmap_get_eq
    show ?thesis
    proof (cases "hm_lookup (parent_stacks t) (index_key (of_nat c))")
      case (Some p)
      have p: "p < stack_next t" "stack_inv (Some (stack_mem t p))" using stacks_invD(3) [OF inv Some] by auto
      have cc: "ctx_content t c = stack_content (Some (stack_mem t p))" using Some False by (simp add: ctx_content_def)
      from push_spec [OF p(2) room [OF p(2) cc [symmetric] s(3)], of s] obtain w where
        w: "nr_stack_push (Some (stack_mem t p)) (Some s) = Some (Some w)" "stack_inv (Some w)"
          "stack_content (Some w) = s # stack_content (Some (stack_mem t p))" by blast
      let ?t = "set_stack t p w"
      have st: "ctx_content ?t d = (if d = c then s # ctx_content t c else ctx_content t d)" if d: "d < 2 ^ 31" for d
      proof (cases "d = c")
        case True
        with w(3) Some False cc show ?thesis by (simp add: ctx_content_def set_stack_def)
      next
        case ne: False
        have "q \<noteq> p" if "hm_lookup (parent_stacks t) (index_key (of_nat d)) = Some q" for q
          using stacks_invD(4) [OF inv that, of "index_key (of_nat c)"] Some index_key_of_nat [OF d s(3)] ne by auto
        with ne show ?thesis by (auto simp: set_stack_def ctx_content_def split: option.splits)
      qed
      have "stacks_inv L ?t"
        by (rule stacks_inv_push [OF inv _ _ _ _ _ s(1,2,4) st])
          (use stacks_invD [OF inv] w(2) in \<open>auto simp: set_stack_def\<close>)
      moreover have "nr_txn_set_current_segment t (Some s) = Some ?t"
        using False s(2) w(1) Some by (simp add: nr_txn_set_current_segment_def push_context_def lk)
      ultimately show ?thesis using st by (intro exI [of _ ?t]) (simp add: frame_def set_stack_def)
    next
      case None
      let ?p = "stack_next t"
      from nr_stack_init_spec obtain v where v: "snd (nr_stack_init (Some (stack_mem t ?p)) NR_STACK_DEFAULT_CAPACITY) = Some v"
        "stack_inv (Some v)" "stack_content (Some v) = []" by blast
      from push_spec [OF v(2), of s] v(2,3) stack_content_room [OF v(2) _ _ L] obtain w where
        w: "nr_stack_push (Some v) (Some s) = Some (Some w)" "stack_inv (Some w)" "stack_content (Some w) = [s]" by auto
      have k: "index_key (of_nat c) \<noteq> []" by (simp add: index_key_def)
      have ck: "context_key (index_key (of_nat c))" using False s(3) unfolding context_key_def by blast
      from nr_hashmap_set_spec [OF stacks_invD(1) [OF inv] k, of ?p] None obtain h where
        h: "nr_hashmap_set (Some (parent_stacks t)) (Some (index_key (of_nat c))) ?p = (NR_SUCCESS, Some h)"
        "hashmap_inv h" "hm_lookup h = (hm_lookup (parent_stacks t))(index_key (of_nat c) \<mapsto> ?p)" by auto
      let ?t = "t\<lparr>stack_mem := (stack_mem t)(?p := w), stack_next := ?p + 1, parent_stacks := h\<rparr>"
      have old: "q \<noteq> ?p" if "hm_lookup (parent_stacks t) l = Some q" for l q
        using stacks_invD(3) [OF inv that] by auto
      have st: "ctx_content ?t d = (if d = c then s # ctx_content t c else ctx_content t d)" if d: "d < 2 ^ 31" for d
      proof (cases "d = c")
        case True
        with w(3) None False h(3) show ?thesis by (simp add: ctx_content_def)
      next
        case ne: False
        have "index_key (of_nat d) \<noteq> index_key (of_nat c)" using index_key_of_nat [OF d s(3)] ne by simp
        with ne h(3) old show ?thesis by (auto simp: ctx_content_def split: option.splits)
      qed
      have "stacks_inv L ?t"
        by (rule stacks_inv_push [OF inv _ _ _ _ _ s(1,2,4) st])
          (use stacks_invD [OF inv] w(2) h(2,3) old ck in \<open>auto split: if_splits dest: stacks_invD(3,4) [OF inv]\<close>)
      moreover have "nr_txn_set_current_segment t (Some s) = Some ?t"
        using False s(2) w(1) v(1) h(1) None
        by (simp add: nr_txn_set_current_segment_def push_context_def lk nr_hashmap_index_set_def set_stack_def Let_def)
      ultimately show ?thesis using st by (intro exI [of _ ?t]) (simp add: frame_def)
    qed
  qed
qed


section \<open>Operations that change neither links nor stacks\<close>

definition stacks_of :: "('e, 'b) nrtxn \<Rightarrow> _" where
  "stacks_of t = (parent_stacks t, stack_mem t, stack_next t, default_parent_stack t)"

text \<open>The fields of segments that the invariant reads.\<close>

definition same_shape :: "seg_mem \<Rightarrow> seg_mem \<Rightarrow> bool" where
  "same_shape m m' \<longleftrightarrow> same_links m m' \<and> (\<forall>u. seg_txn (m' u) = seg_txn (m u)
     \<and> seg_metrics (m' u) = seg_metrics (m u) \<and> seg_async_context (m' u) = seg_async_context (m u)
     \<and> seg_start_time (m' u) = seg_start_time (m u) \<and> seg_stop_time (m' u) = seg_stop_time (m u)
     \<and> seg_name (m' u) = seg_name (m u) \<and> seg_priority (m' u) = seg_priority (m u))"

lemma same_shape_refl [simp]: "same_shape m m"
  by (simp add: same_shape_def same_links_def)

lemma same_shape_trans: "same_shape m m1 \<Longrightarrow> same_shape m1 m2 \<Longrightarrow> same_shape m m2"
  by (simp add: same_shape_def same_links_def)

lemma same_shape_parents: "same_shape m m' \<Longrightarrow> parents_of m' = parents_of m"
  by (auto simp: same_shape_def same_links_def)

lemma ctx_content_cong: "stacks_of t' = stacks_of t \<Longrightarrow> ctx_content t' = ctx_content t"
  by (simp add: stacks_of_def ctx_content_def fun_eq_iff cong: option.case_cong)

lemma stacks_inv_cong:
  assumes "stacks_inv L t" and "stacks_of t' = stacks_of t"
    and "\<And>s. s \<in> L \<Longrightarrow> seg_async_context (txn_mem t' s) = seg_async_context (txn_mem t s)"
  shows "stacks_inv L t'"
  using assms(1) ctx_content_cong [OF assms(2)] assms(2,3) unfolding stacks_inv_def stacks_of_def
  by (metis prod.inject)

lemma txn_invD:
  assumes "txn_inv L t"
  shows "forest L (txn_mem t)" "slab_inv (segment_slab t) L" "s \<in> L \<Longrightarrow> seg_ok (txn_id t) (txn_mem t s)"
    "pool_inv (trace_strings t)" "stacks_inv L t" "table_ok (unscoped_metrics t)" "table_ok (scoped_metrics t)"
    "queue_ok (span_queue t)"
  using assms by (simp_all add: txn_inv_def)

text \<open>\<open>t'\<close> differs from \<open>t\<close> in tables, queue, clock and fields the invariant does not read.\<close>

definition side_effects :: "sid set \<Rightarrow> ('e, 'b) nrtxn \<Rightarrow> ('e, 'b) nrtxn \<Rightarrow> bool" where
  "side_effects L t t' \<longleftrightarrow> txn_inv L t' \<and> frame t' = frame t \<and> stacks_of t' = stacks_of t
     \<and> same_shape (txn_mem t) (txn_mem t')"

lemma side_effectsI:
  assumes "txn_inv L t" and "frame t' = frame t" and "stacks_of t' = stacks_of t"
    and "same_shape (txn_mem t) (txn_mem t')"
    and "table_ok (unscoped_metrics t')" and "table_ok (scoped_metrics t')" and "queue_ok (span_queue t')"
  shows "side_effects L t t'"
proof -
  have "seg_ok (txn_id t') (txn_mem t' s)" if "s \<in> L" for s
    using txn_invD(3) [OF assms(1) that] assms(4) frameD(1) [OF assms(2)] by (simp add: seg_ok_def same_shape_def)
  moreover have "stacks_inv L t'"
    by (rule stacks_inv_cong [OF txn_invD(5) [OF assms(1)] assms(3)]) (use assms(4) in \<open>simp add: same_shape_def\<close>)
  moreover have "forest L (txn_mem t')"
    by (rule forest_cong [OF _ txn_invD(1) [OF assms(1)]]) (use assms(4) in \<open>simp add: same_shape_def\<close>)
  ultimately show ?thesis
    using assms txn_invD(2,4) [OF assms(1)] frameD(2,3) [OF assms(2)] by (simp add: side_effects_def txn_inv_def)
qed

lemma side_effects_trans: "side_effects L t t1 \<Longrightarrow> side_effects L t1 t2 \<Longrightarrow> side_effects L t t2"
  by (auto simp: side_effects_def intro: same_shape_trans)

lemma side_effects_step:
  "side_effects L t t1 \<Longrightarrow> (txn_inv L t1 \<Longrightarrow> side_effects L t1 t2) \<Longrightarrow> side_effects L t t2"
  by (meson side_effects_def side_effects_trans)

lemma side_effects_refl: "txn_inv L t \<Longrightarrow> side_effects L t t"
  by (simp add: side_effects_def)

lemma nrm_add_ok:
  assumes "table_ok table" and "c_string s"
  shows "\<exists>table'. nrm_add_internal force table (Some s) cnt tot exclusive mn mx sq = Some table' \<and> table_ok table'"
proof (cases table)
  case None
  then show ?thesis
    by (simp add: nrm_add_internal_def nrm_find_or_create_def find_or_create_with_def update_metric_def table_ok_def
        Let_def)
next
  case (Some m)
  with assms find_or_create_update [of m s _ _ force, OF _ _ data_update_add] show ?thesis
    unfolding nrm_add_internal_def table_ok_def by fastforce
qed

lemma nrm_force_add_ok:
  assumes "table_ok table" and "c_string s"
  shows "\<exists>table'. nrm_force_add table (Some s) d = Some table' \<and> table_ok table'"
proof (cases table)
  case None
  then show ?thesis
    by (simp add: nrm_force_add_def add_internal_with_def find_or_create_with_def update_metric_def table_ok_def Let_def)
next
  case (Some m)
  with assms add_spec [of m s True, OF _ _ _ data_update_add] show ?thesis
    unfolding nrm_force_add_def add_internal_with_def table_ok_def has_room_def by fastforce
qed

lemma ensure_id_effects:
  assumes "txn_inv L t"
  shows "side_effects L t (snd (nr_segment_ensure_id t s))"
  using txn_invD [OF assms]
  by (intro side_effectsI [OF assms])
    (auto simp: nr_segment_ensure_id_def Let_def frame_def stacks_of_def same_shape_def same_links_def)

lemma to_span_event_effects:
  assumes "txn_inv L t"
  shows "side_effects L t (snd (nr_segment_to_span_event t (Some s)))"
proof -
  have 1: "side_effects L t (snd (nr_segment_ensure_id t s))" by (rule ensure_id_effects [OF assms])
  then have "side_effects L t (snd (nr_segment_ensure_id (snd (nr_segment_ensure_id t s)) q))" for q
    using ensure_id_effects side_effects_def side_effects_trans by metis
  with 1 side_effects_refl [OF assms] show ?thesis
    by (auto simp: nr_segment_to_span_event_def Let_def split: option.splits prod.splits) (metis snd_conv)+
qed

lemma queue_span_effects:
  assumes inv: "txn_inv L t"
  shows "\<exists>t'. queue_span t s = Some t' \<and> side_effects L t t'"
proof (cases "span_queue t \<noteq> NULL \<and> seg_name (txn_mem t s) \<noteq> 0")
  case False
  then show ?thesis using side_effects_refl [OF inv] by (auto simp: queue_span_def)
next
  case True
  obtain event t1 where e: "nr_segment_to_span_event t (Some s) = (event, t1)" by fastforce
  from to_span_event_effects [OF inv, of s] e have t1: "side_effects L t t1" by simp
  let ?t2 = "t1\<lparr>ticks := ticks t1 + 2\<rparr>"
  have inv1: "txn_inv L t1" using t1 by (simp add: side_effects_def)
  have "\<exists>ok sent ds q. nr_span_queue_push (encode t1) (clock t1 (ticks t1)) (clock t1 (ticks t1 + 1)) (span_queue t1) event
      = Some (ok, sent, ds, q) \<and> queue_ok q"
  proof (cases "span_queue t1")
    case None
    then show ?thesis by (cases event) (auto simp: nr_span_queue_push_def queue_ok_def)
  next
    case (Some q)
    with txn_invD(8) [OF inv1] have q: "queue_inv q" by (simp add: queue_ok_def)
    show ?thesis
    proof (cases event)
      case None
      with Some q show ?thesis by (auto simp: nr_span_queue_push_def queue_ok_def)
    next
      case (Some ev)
      with \<open>span_queue t1 = Some q\<close> nr_span_queue_push_spec [OF q, of "encode t1" "clock t1 (ticks t1)"
          "clock t1 (ticks t1 + 1)" ev] show ?thesis by (fastforce simp: queue_ok_def)
    qed
  qed
  then obtain ok sent ds q where push: "nr_span_queue_push (encode t1) (clock t1 (ticks t1)) (clock t1 (ticks t1 + 1))
      (span_queue t1) event = Some (ok, sent, ds, q)" and q: "queue_ok q" by blast
  let ?t3 = "?t2\<lparr>span_queue := q, sent_batches := sent_batches t1 @ sent\<rparr>"
  from nrm_force_add_ok [OF txn_invD(6) [OF inv1], of "''Supportability/InfiniteTracing/Span/Seen''" 0]
  obtain table where table: "nrm_force_add (unscoped_metrics t1) (Some ''Supportability/InfiniteTracing/Span/Seen'') 0
      = Some table" "table_ok table" by (auto simp: c_string_def)
  have "queue_span t s = Some (if ok then ?t3\<lparr>unscoped_metrics := table\<rparr> else ?t3)"
    using True e push table(1) by (simp add: queue_span_def nr_get_time_def)
  moreover have "side_effects L t1 (if ok then ?t3\<lparr>unscoped_metrics := table\<rparr> else ?t3)"
    using txn_invD [OF inv1] q table(2)
    by (intro side_effectsI [OF inv1]) (auto simp: frame_def stacks_of_def)
  ultimately show ?thesis using side_effects_trans [OF t1] by blast
qed


lemma nr_txn_retire_current_segment_spec:
  assumes inv: "txn_inv L t" and s: "s \<in> L"
  shows "\<exists>t'. nr_txn_retire_current_segment t (Some s) = Some t' \<and> txn_inv L t' \<and> frame t' = frame t
    \<and> same_shape (txn_mem t) (txn_mem t') \<and> (\<forall>c < 2 ^ 31. ctx_content t' c = remove1 s (ctx_content t c))
    \<and> parent_stacks t' = parent_stacks t"
proof -
  let ?t = "remove_current t s"
  have "seg_async_context (txn_mem t s) < 2 ^ 31" using txn_invD(3) [OF inv s] by (simp add: seg_ok_def)
  note rc = remove_current_spec [OF txn_invD(5) [OF inv] this]
  then have "txn_inv L ?t" using inv frameD [of ?t t] by (simp add: txn_inv_def)
  from queue_span_effects [OF this, of s] obtain t' where t': "queue_span ?t s = Some t'" "side_effects L ?t t'" by blast
  then have "ctx_content t' = ctx_content ?t" by (intro ctx_content_cong) (simp add: side_effects_def)
  moreover have "parent_stacks t' = parent_stacks ?t" using t'(2) by (simp add: side_effects_def stacks_of_def)
  ultimately show ?thesis using t' rc by (simp add: nr_txn_retire_current_segment_def side_effects_def)
qed

section \<open>Merging the metrics of a segment\<close>

lemma merge_metrics_effects:
  assumes "txn_inv L t" and "\<forall>x \<in> set sms. \<exists>m. x = Some m \<and> c_string (sm_name m)"
  shows "\<exists>t'. merge_metrics sms d e t = Some t' \<and> side_effects L t t'"
  using assms
proof (induction sms arbitrary: t)
  case Nil
  then show ?case by (simp add: side_effects_refl)
next
  case (Cons x sms)
  then obtain m where m: "x = Some m" "c_string (sm_name m)" by auto
  have "\<exists>t1. (if sm_scoped m then do {
                table \<leftarrow> nrm_add_ex (scoped_metrics t) (Some (sm_name m)) (of_nat d) (of_nat e);
                Some (t\<lparr>scoped_metrics := table\<rparr>)
              }
              else do {
                table \<leftarrow> nrm_add_ex (unscoped_metrics t) (Some (sm_name m)) (of_nat d) (of_nat e);
                Some (t\<lparr>unscoped_metrics := table\<rparr>)
              }) = Some t1 \<and> side_effects L t t1"
  proof (cases "sm_scoped m")
    case True
    from nrm_add_ok [OF txn_invD(7) [OF Cons.prems(1)] m(2)] obtain table where
      "nrm_add_ex (scoped_metrics t) (Some (sm_name m)) (of_nat d) (of_nat e) = Some table" "table_ok table"
      unfolding nrm_add_ex_def by blast
    with True txn_invD [OF Cons.prems(1)] show ?thesis
      by (auto intro!: side_effectsI [OF Cons.prems(1)] simp: frame_def stacks_of_def)
  next
    case False
    from nrm_add_ok [OF txn_invD(6) [OF Cons.prems(1)] m(2)] obtain table where
      "nrm_add_ex (unscoped_metrics t) (Some (sm_name m)) (of_nat d) (of_nat e) = Some table" "table_ok table"
      unfolding nrm_add_ex_def by blast
    with False txn_invD [OF Cons.prems(1)] show ?thesis
      by (auto intro!: side_effectsI [OF Cons.prems(1)] simp: frame_def stacks_of_def)
  qed
  then obtain t1 where t1: "merge_metrics (x # sms) d e t = merge_metrics sms d e t1" "side_effects L t t1"
    using m(1) by auto
  have "txn_inv L t1" using t1(2) by (simp add: side_effects_def)
  with Cons.IH [of t1] Cons.prems(2) obtain t' where "merge_metrics sms d e t1 = Some t'" "side_effects L t1 t'"
    by auto
  with t1 side_effects_trans [OF t1(2)] show ?case by auto
qed

lemma segment_metric_list_ok:
  assumes "txn_inv L t" and "s \<in> L"
  shows "\<forall>x \<in> set (segment_metric_list t s). \<exists>m. x = Some m \<and> c_string (sm_name m)"
proof (cases "seg_metrics (txn_mem t s)")
  case None
  then show ?thesis by (simp add: segment_metric_list_def nr_vector_size_def)
next
  case (Some v)
  with txn_invD(3) [OF assms] have v: "vector_inv v" "\<forall>x \<in> set (vec_list v). \<exists>m. x = Some m \<and> c_string (sm_name m)"
    by (simp_all add: seg_ok_def metric_list_ok_def)
  have "nr_vector_get (Some v) (of_nat i) = vec_list v ! i" if "i < unat (used v)" for i
  proof -
    have "unat (of_nat i :: size_t) = i" using that unat_64_lt [of "used v"] by (simp add: unat_of_nat)
    with that show ?thesis using nr_vector_get_spec [OF v(1)] length_vec_list [OF v(1)] by simp
  qed
  then have "set (segment_metric_list t s) \<subseteq> set (vec_list v)"
    using Some length_vec_list [OF v(1)] by (auto simp: segment_metric_list_def nr_vector_size_def)
  with v(2) show ?thesis by blast
qed

text \<open>Only the exclusive times of segments change.\<close>

lemma exclusive_effects:
  assumes "txn_inv L t"
  shows "side_effects L t (set_seg t s (\<lambda>seg. seg\<lparr>seg_exclusive_time := f seg\<rparr>))"
  using txn_invD [OF assms]
  by (intro side_effectsI [OF assms])
    (auto simp: set_seg_def frame_def stacks_of_def same_shape_def same_links_def)

lemma add_children_effects:
  assumes "txn_inv L t"
  shows "side_effects L t (add_children_of t s)"
proof -
  let ?f = "\<lambda>i t. case nr_segment_children_get (txn_mem t) (Some s) (of_nat i) of
         None \<Rightarrow> t
       | Some c \<Rightarrow> if seg_async_context (txn_mem t c) = seg_async_context (txn_mem t s)
                   then add_exclusive_child t s c else t"
  have step: "side_effects L t (?f i t)" if "txn_inv L t" for t :: "('a, 'b) nrtxn" and i :: nat
    using exclusive_effects [OF that] side_effects_refl [OF that]
    by (auto simp: add_exclusive_child_def split: option.splits)
  have "side_effects L t (fold ?f is t)" if "txn_inv L t" for "is" and t :: "('a, 'b) nrtxn"
    using that
  proof (induction "is" arbitrary: t)
    case Nil
    then show ?case by (simp add: side_effects_refl)
  next
    case (Cons i "is")
    from step [OF Cons.prems, of i] have "side_effects L t (?f i t)" .
    moreover from this Cons.IH [of "?f i t"] have "side_effects L (?f i t) (fold ?f is (?f i t))"
      by (simp add: side_effects_def)
    ultimately show ?case using side_effects_trans by simp blast
  qed
  with assms show ?thesis by (simp add: add_children_of_def)
qed

lemma ensure_exclusive_effects: "txn_inv L t \<Longrightarrow> side_effects L t (ensure_exclusive t s)"
  unfolding ensure_exclusive_def by (rule exclusive_effects)

lemma merge_children_time_effects: "txn_inv L t \<Longrightarrow> side_effects L t (merge_children_time t s)"
  using side_effects_step [OF ensure_exclusive_effects add_children_effects, of L t s s] side_effects_refl [of L t]
  by (auto simp: merge_children_time_def)

lemma merge_exclusive_time_effects: "txn_inv L t \<Longrightarrow> side_effects L t (snd (merge_exclusive_time t s d))"
  using exclusive_effects [of L t s] side_effects_refl [of L t]
  by (auto simp: merge_exclusive_time_def split: option.splits prod.splits)

lemma merge_parent_time_effects:
  assumes "txn_inv L t"
  shows "side_effects L t (merge_parent_time t p s)"
proof -
  have "side_effects L t (add_exclusive_child (ensure_exclusive t p) p s)"
    unfolding add_exclusive_child_def
    by (rule side_effects_step [OF ensure_exclusive_effects [OF assms] exclusive_effects])
  with side_effects_refl [OF assms] show ?thesis by (simp add: merge_parent_time_def)
qed

lemma discard_merge_metrics_effects:
  assumes inv: "txn_inv L t" and s: "s \<in> L"
  shows "\<exists>t'. nr_segment_discard_merge_metrics t s = Some t' \<and> side_effects L t t'"
proof -
  let ?seg = "txn_mem t s"
  let ?d = "nr_time_duration (seg_start_time ?seg) (seg_stop_time ?seg)"
  consider (skip) "seg_parent ?seg = NULL \<or> seg_txn ?seg = NULL \<or> seg_stop_time ?seg < seg_start_time ?seg"
    | (limited) p where "seg_parent ?seg = Some p" "max_segments t > 1"
    | (full) p where "seg_parent ?seg = Some p" "\<not> max_segments t > 1" by (metis option.exhaust)
  then show ?thesis
  proof cases
    case skip
    then have "nr_segment_discard_merge_metrics t s = Some t"
      by (auto simp: nr_segment_discard_merge_metrics_def Let_def split: option.splits)
    with side_effects_refl [OF inv] show ?thesis by blast
  next
    case limited
    then show ?thesis
      using side_effects_refl [OF inv] merge_metrics_effects [OF inv segment_metric_list_ok [OF inv s], of ?d 0]
      by (auto simp: nr_segment_discard_merge_metrics_def Let_def)
  next
    case full
    let ?t1 = "merge_children_time t s"
    let ?x = "merge_exclusive_time ?t1 s ?d"
    let ?t3 = "merge_parent_time (snd ?x) p s"
    have 3: "side_effects L t ?t3"
      by (rule side_effects_step [OF side_effects_step [OF merge_children_time_effects [OF inv]
            merge_exclusive_time_effects] merge_parent_time_effects])
    then have inv3: "txn_inv L ?t3" by (simp add: side_effects_def)
    from merge_metrics_effects [OF inv3 segment_metric_list_ok [OF inv3 s], of ?d "fst ?x"] obtain t' where
      t': "merge_metrics (segment_metric_list ?t3 s) ?d (fst ?x) ?t3 = Some t'" "side_effects L ?t3 t'" by blast
    have "nr_segment_discard_merge_metrics t s \<in> {Some t, Some t'}"
      using full t'(1) by (simp add: nr_segment_discard_merge_metrics_def Let_def split_def)
    with side_effects_trans [OF 3 t'(2)] side_effects_refl [OF inv] show ?thesis by blast
  qed
qed


section \<open>Discarding\<close>

lemma links_outside:
  assumes "links L D m" and "x \<notin> L"
  shows "links L D (m(x := v))"
proof (rule linksI [OF links_finite [OF assms(1)]])
  fix u
  assume u: "u \<in> L"
  with assms(2) have ux: "u \<noteq> x" by blast
  then show "children_inv (seg_children ((m(x := v)) u))" using links_children_inv [OF assms(1) u] by simp
  show "kids (m(x := v)) u ! i \<in> L - D \<and> seg_parent ((m(x := v)) (kids (m(x := v)) u ! i)) = Some u
      \<and> unat (seg_child_ix ((m(x := v)) (kids (m(x := v)) u ! i))) = i" if "i < length (kids (m(x := v)) u)" for i
    using that ux links_kid [OF assms(1) u, of i] assms(2) by (cases "kids m u ! i = x") auto
  fix p
  assume "u \<notin> D" "seg_parent ((m(x := v)) u) = Some p"
  with u ux links_parent [OF assms(1), of u p] assms(2)
  show "p \<in> L \<and> unat (seg_child_ix ((m(x := v)) u)) < length (kids (m(x := v)) p)
      \<and> kids (m(x := v)) p ! unat (seg_child_ix ((m(x := v)) u)) = u" by (cases "p = x") auto
qed

lemma rooted_cong_on:
  assumes "rooted par t" and "t \<in> A" and "\<And>u. u \<in> A \<Longrightarrow> par' u = par u"
    and "\<And>u v. u \<in> A \<Longrightarrow> par u = Some v \<Longrightarrow> v \<in> A"
  shows "rooted par' t"
  using assms(1,2)
proof (induction rule: rooted.induct)
  case (root t)
  then show ?case using assms(3) by (intro rooted.root) simp
next
  case (step t u)
  then show ?case using assms(3,4) by (intro rooted.step [of _ t u]) auto
qed

lemma same_dataD:
  assumes "same_data m m'"
  shows "seg_txn (m' u) = seg_txn (m u)" "seg_metrics (m' u) = seg_metrics (m u)"
    "seg_async_context (m' u) = seg_async_context (m u)" "seg_start_time (m' u) = seg_start_time (m u)"
    "seg_stop_time (m' u) = seg_stop_time (m u)" "seg_name (m' u) = seg_name (m u)"
    "seg_priority (m' u) = seg_priority (m u)"
proof -
  from assms obtain ch ix p where "m' u = (m u)\<lparr>seg_children := ch, seg_child_ix := ix, seg_parent := p\<rparr>"
    unfolding same_data_def by blast
  then show "seg_txn (m' u) = seg_txn (m u)" "seg_metrics (m' u) = seg_metrics (m u)"
    "seg_async_context (m' u) = seg_async_context (m u)" "seg_start_time (m' u) = seg_start_time (m u)"
    "seg_stop_time (m' u) = seg_stop_time (m u)" "seg_name (m' u) = seg_name (m u)"
    "seg_priority (m' u) = seg_priority (m u)" by simp_all
qed

lemma forest_bypass:
  assumes F: "forest L m" and s: "s \<in> L" and q: "seg_parent (m s) = Some q"
    and L2: "links (L - {s}) {} m2"
    and par: "parents_of m2 = (\<lambda>u. if u \<in> set (kids m s) then Some q else seg_parent (m u))"
  shows "forest (L - {s}) (m2(s := z))"
    and "u \<in> L \<Longrightarrow> seg_parent (m2 u) = (if seg_parent (m u) = Some s then Some q else seg_parent (m u))"
proof -
  have L: "links L {} m" and R: "\<And>u. u \<in> L \<Longrightarrow> rooted (parents_of m) u" using F by (auto simp: forest_def)
  have sq: "q \<noteq> s" using rooted_not_own_parent [OF R [OF s]] q by auto
  have par2: "seg_parent (m2 u) = (if seg_parent (m u) = Some s then Some q else seg_parent (m u))"
    if "u \<in> L" for u
  proof -
    have "u \<in> set (kids m s) \<longleftrightarrow> seg_parent (m u) = Some s"
      using links_set_kids [OF L s] that by auto
    with par show ?thesis by (simp add: fun_eq_iff)
  qed
  then show "u \<in> L \<Longrightarrow> seg_parent (m2 u) = (if seg_parent (m u) = Some s then Some q else seg_parent (m u))" .
  let ?par = "\<lambda>u. if parents_of m u = Some s then parents_of m s else parents_of m u"
  have "rooted (parents_of (m2(s := z))) u" if u: "u \<in> L - {s}" for u
  proof (rule rooted_cong_on [of ?par u "L - {s}"])
    show "rooted ?par u" by (rule rooted_bypass) (use R u q sq in auto)
    show "u \<in> L - {s}" by (rule u)
    show "parents_of (m2(s := z)) v = ?par v" if "v \<in> L - {s}" for v
      using that par2 [of v] q by simp
    show "w \<in> L - {s}" if "v \<in> L - {s}" "?par v = Some w" for v w
      using that links_parent(1) [OF L, of v w] links_parent(1) [OF L, of s q] q sq s by (auto split: if_splits)
  qed
  with links_outside [OF L2, of s] show "forest (L - {s}) (m2(s := z))" by (simp add: forest_def)
qed


lemma ctx_removed:
  assumes "stacks_inv L t" and "c < 2 ^ 31"
  shows "s \<notin> set (remove1 s (ctx_content t c))"
  using stacks_invD(5) [OF assms] by simp

lemma nr_segment_discard_spec:
  assumes inv: "txn_inv L t" and s: "s \<in> L" and q: "seg_parent (txn_mem t s) = Some q"
    and room: "length (vec_list (free_list (segment_slab t))) < 2 ^ 60"
  shows "\<exists>t'. nr_segment_discard t (Some (Some s)) = Some (True, Some NULL, t') \<and> txn_inv (L - {s}) t'
    \<and> (\<forall>u \<in> L - {s}. seg_parent (txn_mem t' u) =
          (if seg_parent (txn_mem t u) = Some s then Some q else seg_parent (txn_mem t u)))
    \<and> (\<forall>c < 2 ^ 31. ctx_content t' c = remove1 s (ctx_content t c))
    \<and> frame t' = frame (t\<lparr>segment_slab := segment_slab t'\<rparr>)
    \<and> (\<forall>u. u \<noteq> s \<longrightarrow> segment_duration (txn_mem t') u = segment_duration (txn_mem t) u
          \<and> seg_priority (txn_mem t' u) = seg_priority (txn_mem t u))
    \<and> length (vec_list (free_list (segment_slab t'))) = Suc (length (vec_list (free_list (segment_slab t))))
    \<and> seg_txn (txn_mem t' s) = NULL \<and> parent_stacks t' = parent_stacks t"
proof -
  have txn: "seg_txn (txn_mem t s) = Some (txn_id t)" using txn_invD(3) [OF inv s] by (simp add: seg_ok_def)
  from nr_txn_retire_current_segment_spec [OF inv s] obtain t1 where
    t1: "nr_txn_retire_current_segment t (Some s) = Some t1" "txn_inv L t1" "frame t1 = frame t"
      "same_shape (txn_mem t) (txn_mem t1)" "\<And>c. c < 2 ^ 31 \<Longrightarrow> ctx_content t1 c = remove1 s (ctx_content t c)"
      "parent_stacks t1 = parent_stacks t" by blast
  have "\<exists>t2. (if nr_vector_size (seg_metrics (txn_mem t1 s)) \<noteq> 0 then nr_segment_discard_merge_metrics t1 s else Some t1)
      = Some t2 \<and> side_effects L t1 t2"
    using discard_merge_metrics_effects [OF t1(2) s] side_effects_refl [OF t1(2)] by simp
  then obtain t2 where
    t2: "(if nr_vector_size (seg_metrics (txn_mem t1 s)) \<noteq> 0 then nr_segment_discard_merge_metrics t1 s else Some t1)
      = Some t2" "side_effects L t1 t2" by blast
  let ?m = "txn_mem t2"
  have inv2: "txn_inv L t2" using t2(2) by (simp add: side_effects_def)
  have shape: "same_shape (txn_mem t) ?m" using t1(4) t2(2) same_shape_trans by (auto simp: side_effects_def)
  have frame2: "frame t2 = frame t" using t1(3) t2(2) by (simp add: side_effects_def)
  have ps2: "parent_stacks t2 = parent_stacks t" using t1(6) t2(2) by (simp add: side_effects_def stacks_of_def)
  have par: "seg_parent (?m u) = seg_parent (txn_mem t u)" for u using shape by (simp add: same_shape_def same_links_def)
  have cc: "ctx_content t2 c = remove1 s (ctx_content t c)" if "c < 2 ^ 31" for c
    using t1(5) [OF that] t2(2) ctx_content_cong [of t2 t1] by (simp add: side_effects_def)
  note F = txn_invD(1) [OF inv2]
  have L: "links L {} ?m" using F by (simp add: forest_def)
  have q2: "seg_parent (?m s) = Some q" using par q by simp
  have sq: "s \<noteq> q" using rooted_not_own_parent [of "parents_of ?m" s] F s q2 by (auto simp: forest_def)
  from links_bypass [OF L s q2 sq] obtain m1 m2 where
    rem: "nr_segment_children_remove ?m (Some q) (Some s) = (True, m1)"
    and rep: "nr_segment_children_reparent m1 (Some s) (Some q) = Some (True, m2)"
    and L2: "links (L - {s}) {} m2"
    and par2: "parents_of m2 = (\<lambda>u. if u \<in> set (kids ?m s) then Some q else seg_parent (?m u))"
    and d: "same_data ?m m1" "same_data m1 m2" and par1: "parents_of m1 = parents_of ?m" by blast
  have "seg_parent (m1 s) = Some q" using par1 q2 by (simp add: fun_eq_iff)
  from nr_slab_release_spec [OF txn_invD(2) [OF inv2] s] room frameD(2) [OF frame2] obtain slab where
    slab: "nr_slab_release (Some (segment_slab t2)) (Some s) = Some (True, Some slab)" "slab_inv slab (L - {s})"
    "length (vec_list (free_list slab)) = Suc (length (vec_list (free_list (segment_slab t))))" by auto
  let ?t = "t2\<lparr>segment_slab := slab, txn_mem := m2(s := zero_segment)\<rparr>"
  have deinit: "(nr_segment_children_deinit m2 (Some s))(s := z) = m2(s := z)" for z
    by (auto simp: nr_segment_children_deinit_def nr_segment_children_init_def set_children_def fun_eq_iff
        split: nr_segment_children.splits)
  have run: "nr_segment_discard t (Some (Some s)) = Some (True, Some NULL, ?t)"
    using txn q t1(1) t2(1) q2 rem rep slab(1) \<open>seg_parent (m1 s) = Some q\<close>
    by (simp add: nr_segment_discard_def deinit Let_def split del: if_split)
  have data: "seg_txn (m2 u) = seg_txn (?m u)" "seg_metrics (m2 u) = seg_metrics (?m u)"
    "seg_async_context (m2 u) = seg_async_context (?m u)" "seg_start_time (m2 u) = seg_start_time (?m u)"
    "seg_stop_time (m2 u) = seg_stop_time (?m u)" "seg_priority (m2 u) = seg_priority (?m u)" for u
    using same_dataD [OF d(1)] same_dataD [OF d(2)] by simp_all
  have st: "ctx_content ?t c = remove1 s (ctx_content t c)" if "c < 2 ^ 31" for c
    using cc [OF that] ctx_content_cong [of ?t t2] by (simp add: stacks_of_def)
  have "stacks_inv (L - {s}) ?t"
    unfolding stacks_inv_def
  proof (intro conjI allI impI ballI)
    fix c :: nat
    assume c: "c < 2 ^ 31"
    show "distinct (ctx_content ?t c)" using st [OF c] stacks_invD(5) [OF txn_invD(5) [OF inv] c] by (simp add: distinct_remove1)
    fix u
    assume "u \<in> set (ctx_content ?t c)"
    then have "u \<in> set (ctx_content t2 c)" "u \<noteq> s"
      using st [OF c] cc [OF c] ctx_removed [OF txn_invD(5) [OF inv] c, of s] by auto
    then show "u \<in> L - {s}" "seg_async_context (txn_mem ?t u) = c"
      using stacks_invD(6,7) [OF txn_invD(5) [OF inv2] c, of u] data(3) by auto
  qed (use stacks_invD(1-4) [OF txn_invD(5) [OF inv2]] in auto)
  then have "txn_inv (L - {s}) ?t"
    using forest_bypass(1) [OF F s q2 L2 par2] slab(2) txn_invD [OF inv2] data
    by (auto simp: txn_inv_def seg_ok_def)
  moreover have "\<forall>u \<in> L - {s}. seg_parent (txn_mem ?t u) =
      (if seg_parent (txn_mem t u) = Some s then Some q else seg_parent (txn_mem t u))"
    using forest_bypass(2) [OF F s q2 L2 par2] par by simp
  moreover have "\<forall>u. u \<noteq> s \<longrightarrow> segment_duration (txn_mem ?t) u = segment_duration (txn_mem t) u
      \<and> seg_priority (txn_mem ?t u) = seg_priority (txn_mem t u)"
    using shape data by (simp add: segment_duration_def same_shape_def)
  ultimately show ?thesis using run st frame2 slab(3) ps2 by (intro exI [of _ ?t]) (simp add: frame_def zero_segment_def)
qed


end
