(* ===== verification/SegmentStart.thy ===== *)
theory SegmentStart
  imports SegmentLife
begin

text \<open>
  Starting a segment: a fresh object of the slab becomes a child of the parent that was
  given, or of the current segment, and the current segment of its context.
\<close>

section \<open>Starting\<close>

definition top_of :: "'a list \<Rightarrow> 'a ptr" where
  "top_of xs = (case xs of [] \<Rightarrow> NULL | x # _ \<Rightarrow> Some x)"

text \<open>The current segment of the main context.\<close>

definition main_current :: "('e, 'b) nrtxn \<Rightarrow> sid ptr" where
  "main_current t =
     (if force_current_segment t \<noteq> NULL then force_current_segment t else top_of (ctx_content t 0))"

lemma get_current_main:
  "stacks_inv L t \<Longrightarrow> nr_txn_get_current_segment t NULL = Some (main_current t)"
  using nr_stack_get_top_spec [OF stacks_invD(2), of L t]
  by (simp add: nr_txn_get_current_segment_def main_current_def top_of_def ctx_content_def)

lemma nr_string_find_index:
  assumes "pool_inv p" and "c_string c" and "nr_string_get (Some p) (int ix) = Some c"
  shows "nr_string_find (Some p) (Some c) = Some ix \<and> ix \<noteq> 0"
proof -
  note get = nr_string_get_eq [OF assms(1)]
  have ix: "1 \<le> ix" "ix - 1 < length (pool_list p)" "pool_list p ! (ix - 1) = c"
    using assms(3) get [of "int ix"] by (auto simp: nat_diff_distrib split: if_splits)
  then have "c \<in> set (pool_list p)" by (metis nth_mem)
  with nr_string_find_spec [OF assms(1,2)] obtain i where i: "nr_string_find (Some p) (Some c) = Some i"
    "nr_string_get (Some p) (int i) = Some c" by auto
  then have "1 \<le> i" "i - 1 < length (pool_list p)" "pool_list p ! (i - 1) = c"
    using get [of "int i"] by (auto simp: nat_diff_distrib split: if_splits)
  then have "i = ix" using ix nth_eq_iff_index_eq [OF pool_list_distinct [OF assms(1)]] by fastforce
  with i ix show ?thesis by simp
qed

lemma get_current_context:
  assumes st: "stacks_inv L t" and p: "pool_inv (trace_strings t)" "c_string c"
    and ix: "nr_string_get (Some (trace_strings t)) (int ix) = Some c"
  shows "nr_txn_get_current_segment t (Some c) = Some (top_of (ctx_content t ix))"
proof -
  have f: "nr_string_find (Some (trace_strings t)) (Some c) = Some ix" "ix \<noteq> 0"
    using nr_string_find_index [OF p ix] by auto
  show ?thesis
  proof (cases "hm_lookup (parent_stacks t) (index_key (of_nat ix))")
    case None
    with f show ?thesis
      by (simp add: nr_txn_get_current_segment_def nr_hashmap_index_get_def nr_hashmap_get_eq top_of_def ctx_content_def
          nr_stack_get_top_def nr_vector_size_def)
  next
    case (Some q)
    with f nr_stack_get_top_spec [of "Some (stack_mem t q)"] stacks_invD(3) [OF st Some] show ?thesis
      by (simp add: nr_txn_get_current_segment_def nr_hashmap_index_get_def nr_hashmap_get_eq top_of_def ctx_content_def)
  qed
qed

lemma forest_isolated:
  assumes F: "forest L m" and s: "s \<notin> L" and seg: "seg_parent seg = NULL" "seg_children seg = packed_init"
    and card: "Suc (card L) < 2 ^ 60"
  shows "forest (insert s L) (m(s := seg))"
proof -
  have L: "links L {} m" using F by (simp add: forest_def)
  note L' = links_outside [OF L s, of seg]
  have fin: "finite L" using links_finite [OF L] by simp
  have kids: "kids (m(s := seg)) s = []" using seg(2) by (simp add: packed_init_inv)
  have "links (insert s L) {} (m(s := seg))"
  proof (rule linksI)
    show "finite (insert s L)" "card (insert s L) < 2 ^ 60" using fin card s by simp_all
    fix u
    assume u: "u \<in> insert s L"
    show "children_inv (seg_children ((m(s := seg)) u))"
      using u links_children_inv [OF L', of u] seg(2) s by (cases "u = s") (auto simp: packed_init_inv)
    show "kids (m(s := seg)) u ! i \<in> insert s L - {} \<and> seg_parent ((m(s := seg)) (kids (m(s := seg)) u ! i)) = Some u
      \<and> unat (seg_child_ix ((m(s := seg)) (kids (m(s := seg)) u ! i))) = i" if "i < length (kids (m(s := seg)) u)" for i
    proof (cases "u = s")
      case True
      with that kids show ?thesis by simp
    next
      case False
      with u have "u \<in> L" by simp
      from links_kid [OF L' this that] show ?thesis by blast
    qed
    fix p
    assume par: "seg_parent ((m(s := seg)) u) = Some p"
    then have "u \<in> L - {}" using u seg(1) by (cases "u = s") auto
    from links_parent [OF L' this par] show "p \<in> insert s L \<and> unat (seg_child_ix ((m(s := seg)) u)) < length (kids (m(s := seg)) p)
      \<and> kids (m(s := seg)) p ! unat (seg_child_ix ((m(s := seg)) u)) = u" by blast
  qed
  moreover have "rooted (parents_of (m(s := seg))) u" if "u \<in> insert s L" for u
  proof (cases "u = s")
    case True
    with seg(1) show ?thesis by (intro rooted.root) simp
  next
    case False
    with that have u: "u \<in> L" by simp
    show ?thesis
    proof (rule rooted_cong_on [of "parents_of m" u L])
      show "rooted (parents_of m) u" "u \<in> L" using F u by (simp_all add: forest_def)
      show "parents_of (m(s := seg)) v = parents_of m v" if "v \<in> L" for v using that s by auto
      show "w \<in> L" if "v \<in> L" "parents_of m v = Some w" for v w using links_parent(1) [OF L, of v w] that by simp
    qed
  qed
  ultimately show ?thesis by (simp add: forest_def)
qed


lemma links_detached_parent:
  assumes "links L {s} m"
  shows "links L {s} (m(s := (m s)\<lparr>seg_parent := p\<rparr>))" (is "links L {s} ?m")
proof -
  have k: "kids ?m u = kids m u" "seg_child_ix (?m u) = seg_child_ix (m u)" for u by simp_all
  have par: "seg_parent (?m u) = seg_parent (m u)" if "u \<noteq> s" for u using that by simp
  show ?thesis
  proof (rule linksI [OF links_finite [OF assms]])
    fix u
    assume u: "u \<in> L"
    show "children_inv (seg_children (?m u))" using links_children_inv [OF assms u] by auto
    show "kids ?m u ! i \<in> L - {s} \<and> seg_parent (?m (kids ?m u ! i)) = Some u
        \<and> unat (seg_child_ix (?m (kids ?m u ! i))) = i" if "i < length (kids ?m u)" for i
      unfolding k using links_kid [OF assms u, of i] that par [of "kids m u ! i"] unfolding k by simp
    fix q
    assume "u \<notin> {s}" "seg_parent (?m u) = Some q"
    with u links_parent [OF assms, of u q] show "q \<in> L \<and> unat (seg_child_ix (?m u)) < length (kids ?m q)
        \<and> kids ?m q ! unat (seg_child_ix (?m u)) = u" unfolding k by simp
  qed
qed

lemma not_ancestor_leaf:
  assumes L: "links L {} m" and s: "s \<in> L" "kids m s = []" and p: "p \<in> L" "p \<noteq> s"
  shows "\<not> ancestor_of (parents_of m) s p"
proof
  assume "ancestor_of (parents_of m) s p"
  then show False
  proof (cases rule: rtranclp.cases)
    case rtrancl_refl
    with p(2) show False by simp
  next
    case (rtrancl_into_rtrancl x)
    from rtrancl_into_rtrancl(1) have "x \<in> L"
    proof (induction rule: rtranclp_induct)
      case base
      show ?case by (rule p(1))
    next
      case (step y z)
      then show ?case using links_parent(1) [OF L, of y z] by simp
    qed
    with rtrancl_into_rtrancl(2) have "x \<in> set (kids m s)" using links_set_kids [OF L s(1)] by simp
    with s(2) show False by simp
  qed
qed

text \<open>Hanging an isolated segment below another.\<close>

lemma forest_attach:
  assumes F: "forest L m" and s: "s \<in> L" "seg_parent (m s) = NULL" "kids m s = []" and p: "p \<in> L" "p \<noteq> s"
  shows "\<exists>m'. nr_segment_children_add (m(s := (m s)\<lparr>seg_parent := Some p\<rparr>)) (Some p) (Some s) = Some (True, m')
    \<and> forest L m' \<and> parents_of m' = (parents_of m)(s := Some p) \<and> same_data m m'"
proof -
  let ?m = "m(s := (m s)\<lparr>seg_parent := Some p\<rparr>)"
  have L: "links L {} m" and R: "\<And>u. u \<in> L \<Longrightarrow> rooted (parents_of m) u" using F by (auto simp: forest_def)
  have "links L {s} m" by (rule links_detached [OF L s(2)])
  from links_link [OF links_detached_parent [OF this] s(1) p(1), of "Some p"] obtain m' ch ix where
    add: "nr_segment_children_add ?m (Some p) (Some s) = Some (True, m')"
    and L': "links L {} (m'(s := (m' s)\<lparr>seg_parent := Some p\<rparr>))"
    and m': "m' = set_children (nr_segment_set_child_ix ?m (Some s) ix) p ch" by blast
  have par: "parents_of m' = (parents_of m)(s := Some p)"
    by (auto simp: m' set_children_def nr_segment_set_child_ix_def fun_eq_iff)
  then have "m'(s := (m' s)\<lparr>seg_parent := Some p\<rparr>) = m'" by (auto simp: fun_eq_iff)
  with L' have "links L {} m'" by simp
  moreover have "rooted (parents_of m') u" if "u \<in> L" for u
  proof -
    have "\<not> ancestor_of (parents_of m) s p" by (rule not_ancestor_leaf [OF L s(1,3) p])
    then show ?thesis unfolding par by (rule rooted_set_parent [OF R [OF p(1)] _ R [OF that]])
  qed
  moreover have "same_data m m'" unfolding m'
    by (rule same_data_trans [OF same_data_trans [OF same_data_parent same_data_child_ix] same_data_set_children])
  ultimately show ?thesis using add par by (auto simp: forest_def)
qed


lemma attach_spec:
  assumes inv: "txn_inv L t" and s: "s \<in> L" "seg_parent (txn_mem t s) = NULL" "kids (txn_mem t) s = []"
    and p: "p \<in> L" "p \<noteq> s"
  shows "\<exists>t'. add_child_to (set_seg t s (\<lambda>seg. seg\<lparr>seg_parent := Some p\<rparr>)) p s = Some t' \<and> txn_inv L t'
    \<and> frame t' = frame t \<and> stacks_of t' = stacks_of t \<and> same_data (txn_mem t) (txn_mem t')
    \<and> parents_of (txn_mem t') = (parents_of (txn_mem t))(s := Some p)"
proof -
  from forest_attach [OF txn_invD(1) [OF inv] s p] obtain m' where
    m': "nr_segment_children_add ((txn_mem t)(s := (txn_mem t s)\<lparr>seg_parent := Some p\<rparr>)) (Some p) (Some s) = Some (True, m')"
    "forest L m'" "parents_of m' = (parents_of (txn_mem t))(s := Some p)" "same_data (txn_mem t) m'" by blast
  let ?t = "t\<lparr>txn_mem := m'\<rparr>"
  note d = same_dataD [OF m'(4)]
  have "stacks_inv L ?t"
    by (rule stacks_inv_cong [OF txn_invD(5) [OF inv]]) (simp_all add: stacks_of_def d)
  then have "txn_inv L ?t" using m'(2) txn_invD [OF inv] by (auto simp: txn_inv_def seg_ok_def d)
  with m' show ?thesis
    by (intro exI [of _ ?t]) (simp add: add_child_to_def set_seg_def frame_def stacks_of_def)
qed

definition new_segment :: "nat \<Rightarrow> nrtime \<Rightarrow> nat \<Rightarrow> nr_segment" where
  "new_segment i now ix =
     zero_segment\<lparr>seg_txn := Some i, seg_start_time := now, seg_async_context := ix\<rparr>"

definition context_ok :: "string ptr \<Rightarrow> nat \<Rightarrow> nrstrpool \<Rightarrow> bool" where
  "context_ok async_context ix pool = (case async_context of None \<Rightarrow> ix = 0
     | Some c \<Rightarrow> c_string c \<and> nr_string_get (Some pool) (int ix) = Some c)"

lemma init_fields_spec:
  assumes pool: "pool_inv (trace_strings t)" and ctx: "\<forall>c. async_context = Some c \<longrightarrow> c_string c"
    and z: "txn_mem t s = zero_segment"
  shows "\<exists>ix pool now. init_fields t s async_context = Some (t\<lparr>ticks := ticks t + 1, trace_strings := pool,
      txn_mem := (txn_mem t)(s := new_segment (txn_id t) now ix)\<rparr>)
    \<and> pool_inv pool \<and> ix \<le> length (pool_list pool) \<and> length (pool_list pool) \<le> Suc (length (pool_list (trace_strings t)))
    \<and> context_ok async_context ix pool"
proof -
  let ?now = "nr_time_duration (abs_start_time t) (clock t (ticks t))"
  have seg: "zero_segment\<lparr>seg_color := NR_SEGMENT_WHITE, seg_txn := Some i, seg_error := NULL, seg_start_time := now,
      seg_async_context := ix, seg_children := packed_init\<rparr> = new_segment i now ix" for i now ix
    by (simp add: new_segment_def zero_segment_def)
  note unf = init_fields_def nr_txn_now_rel_def nr_get_time_def set_seg_def z nr_segment_children_init_def set_children_def
  show ?thesis
  proof (cases async_context)
    case None
    then have "init_fields t s async_context = Some (t\<lparr>ticks := ticks t + 1, trace_strings := trace_strings t,
        txn_mem := (txn_mem t)(s := new_segment (txn_id t) ?now 0)\<rparr>)"
      by (simp add: unf seg)
    with None pool show ?thesis by (fastforce simp: context_ok_def)
  next
    case (Some c)
    with ctx nr_string_add_spec [OF pool, of c] obtain ix pool' where a:
      "nr_string_add (Some (trace_strings t)) (Some c) = Some (ix, Some pool')" "pool_inv pool'"
      "nr_string_get (Some pool') (int ix) = Some c"
      "pool_list pool' = (if c \<in> set (pool_list (trace_strings t)) then pool_list (trace_strings t)
         else pool_list (trace_strings t) @ [c])" by blast
    then have "init_fields t s async_context = Some (t\<lparr>ticks := ticks t + 1, trace_strings := pool',
        txn_mem := (txn_mem t)(s := new_segment (txn_id t) ?now ix)\<rparr>)"
      using Some by (simp add: unf seg)
    moreover have "ix \<le> length (pool_list pool')"
      using a(3) nr_string_get_eq [OF a(2), of "int ix"] by (simp split: if_splits)
    moreover have "length (pool_list pool') \<le> Suc (length (pool_list (trace_strings t)))" using a(4) by simp
    ultimately show ?thesis using Some ctx a by (fastforce simp: context_ok_def)
  qed
qed


definition start_parent :: "('e, 'b) nrtxn \<Rightarrow> string ptr \<Rightarrow> nat \<Rightarrow> sid ptr" where
  "start_parent t async_context c =
     (if async_context = NULL \<or> ctx_content t c = [] then main_current t else top_of (ctx_content t c))"

lemma txn_inv_fresh:
  assumes inv: "txn_inv L t" and s: "s \<notin> L" and card: "Suc (card L) < 2 ^ 60"
    and slab: "slab_inv slab (insert s L)" and pool: "pool_inv pool" and ix: "ix < 2 ^ 31"
    and t': "t' = t\<lparr>segment_slab := slab, txn_mem := (txn_mem t)(s := new_segment (txn_id t) now ix),
      ticks := k, trace_strings := pool\<rparr>"
  shows "txn_inv (insert s L) t'" "ctx_content t' = ctx_content t"
proof -
  show cc: "ctx_content t' = ctx_content t" by (rule ctx_content_cong) (simp add: t' stacks_of_def)
  have new: "seg_parent (new_segment i now ix) = NULL" "seg_children (new_segment i now ix) = packed_init"
    "seg_ok i (new_segment i now ix)" for i
    using ix by (simp_all add: new_segment_def zero_segment_def seg_ok_def metric_list_ok_def)
  note st = stacks_invD [OF txn_invD(5) [OF inv]]
  have "stacks_inv (insert s L) t'"
    unfolding stacks_inv_def cc
  proof (intro conjI allI impI ballI)
    fix c u
    assume c: "c < (2::nat) ^ 31" and u: "u \<in> set (ctx_content t c)"
    with st(6) [OF c u] s show "u \<in> insert s L" "seg_async_context (txn_mem t' u) = c"
      using st(7) [OF c u] by (auto simp: t')
  qed (use st(1-5) in \<open>auto simp: t'\<close>)
  then show "txn_inv (insert s L) t'"
    using forest_isolated [OF txn_invD(1) [OF inv] s new(1,2) card] slab pool txn_invD [OF inv] new(3) s
    by (auto simp: txn_inv_def t')
qed

lemma init_parent_spec:
  assumes inv: "txn_inv L t" and s: "s \<in> L" "seg_parent (txn_mem t s) = NULL" "kids (txn_mem t) s = []"
    and fresh: "\<And>c. c < 2 ^ 31 \<Longrightarrow> s \<notin> set (ctx_content t c)"
    and ctx: "context_ok async_context c (trace_strings t)" "seg_async_context (txn_mem t s) = c" "c < 2 ^ 31"
    and par: "par \<noteq> Some s" "\<forall>p. par = Some p \<longrightarrow> p \<in> L"
    and force: "\<forall>f. force_current_segment t = Some f \<longrightarrow> f \<in> L - {s}"
  shows "\<exists>t'. init_parent t s par async_context = Some t' \<and> txn_inv L t' \<and> frame t' = frame t
    \<and> same_data (txn_mem t) (txn_mem t')
    \<and> parents_of (txn_mem t') = (parents_of (txn_mem t))
        (s := case par of None \<Rightarrow> start_parent t async_context c | Some p \<Rightarrow> Some p)
    \<and> (\<forall>d < 2 ^ 31. ctx_content t' d = (if par = NULL \<and> d = c then s # ctx_content t d else ctx_content t d))"
proof (cases par)
  case (Some p)
  with par have "p \<in> L" "p \<noteq> s" by auto
  from attach_spec [OF inv s this] obtain t' where
    "add_child_to (set_seg t s (\<lambda>seg. seg\<lparr>seg_parent := Some p\<rparr>)) p s = Some t'" "txn_inv L t'"
    "frame t' = frame t" "stacks_of t' = stacks_of t" "same_data (txn_mem t) (txn_mem t')"
    "parents_of (txn_mem t') = (parents_of (txn_mem t))(s := Some p)" by blast
  with Some ctx_content_cong [of t' t] show ?thesis by (simp add: init_parent_def)
next
  case None
  let ?q = "start_parent t async_context c"
  note st = txn_invD(5) [OF inv]
  have q: "?q = NULL \<or> (\<exists>p \<in> L. ?q = Some p \<and> p \<noteq> s)"
  proof -
    have top: "top_of (ctx_content t d) = NULL \<or> (\<exists>p \<in> L. top_of (ctx_content t d) = Some p \<and> p \<noteq> s)"
      if "d < 2 ^ 31" for d
      using stacks_invD(6) [OF st that] fresh [OF that] by (cases "ctx_content t d") (auto simp: top_of_def)
    have "main_current t = NULL \<or> (\<exists>p \<in> L. main_current t = Some p \<and> p \<noteq> s)"
      using top [of 0] force by (cases "force_current_segment t") (auto simp: main_current_def)
    with top [OF ctx(3)] show ?thesis by (auto simp: start_parent_def)
  qed
  have cur: "init_current t async_context = Some ?q"
  proof (cases async_context)
    case None
    then show ?thesis using get_current_main [OF st] by (simp add: start_parent_def init_current_def)
  next
    case (Some a)
    with ctx(1) get_current_context [OF st txn_invD(4) [OF inv], of a c]
    have "nr_txn_get_current_segment t (Some a) = Some (top_of (ctx_content t c))" by (simp add: context_ok_def)
    with Some get_current_main [OF st] show ?thesis
      by (cases "ctx_content t c") (auto simp: start_parent_def top_of_def init_current_def)
  qed
  have "\<exists>t1. (case ?q of None \<Rightarrow> Some (set_seg t s (\<lambda>seg. seg\<lparr>seg_parent := ?q\<rparr>))
        | Some p \<Rightarrow> add_child_to (set_seg t s (\<lambda>seg. seg\<lparr>seg_parent := ?q\<rparr>)) p s) = Some t1
      \<and> txn_inv L t1 \<and> frame t1 = frame t \<and> stacks_of t1 = stacks_of t \<and> same_data (txn_mem t) (txn_mem t1)
      \<and> parents_of (txn_mem t1) = (parents_of (txn_mem t))(s := ?q)"
  proof (cases ?q)
    case None
    have "(txn_mem t s)\<lparr>seg_parent := NULL\<rparr> = txn_mem t s" using s(2) by (cases "txn_mem t s") simp
    then have "set_seg t s (\<lambda>seg. seg\<lparr>seg_parent := NULL\<rparr>) = t" by (simp add: set_seg_def)
    with None inv s(2) same_data_refl [of "txn_mem t"] show ?thesis by (auto simp: fun_eq_iff)
  next
    case (Some p)
    with q attach_spec [OF inv s, of p] show ?thesis by auto
  qed
  then obtain t1 where t1: "(case ?q of None \<Rightarrow> Some (set_seg t s (\<lambda>seg. seg\<lparr>seg_parent := ?q\<rparr>))
        | Some p \<Rightarrow> add_child_to (set_seg t s (\<lambda>seg. seg\<lparr>seg_parent := ?q\<rparr>)) p s) = Some t1"
    "txn_inv L t1" "frame t1 = frame t" "stacks_of t1 = stacks_of t" "same_data (txn_mem t) (txn_mem t1)"
    "parents_of (txn_mem t1) = (parents_of (txn_mem t))(s := ?q)" by blast
  have cc: "ctx_content t1 = ctx_content t" by (rule ctx_content_cong [OF t1(4)])
  have L: "finite L" "card L < 2 ^ 60" using txn_invD(1) [OF inv] links_finite by (auto simp: forest_def)
  have "seg_async_context (txn_mem t1 s) = c" using same_dataD(3) [OF t1(5)] ctx(2) by simp
  from nr_txn_set_current_segment_spec [OF txn_invD(5) [OF t1(2)] L s(1) this ctx(3)] fresh [OF ctx(3)] cc
  obtain t' where t': "nr_txn_set_current_segment t1 (Some s) = Some t'" "stacks_inv L t'" "txn_mem t' = txn_mem t1"
    "frame t' = frame t1" "unscoped_metrics t' = unscoped_metrics t1" "scoped_metrics t' = scoped_metrics t1"
    "span_queue t' = span_queue t1"
    "\<forall>d < 2 ^ 31. ctx_content t' d = (if d = c then s # ctx_content t1 c else ctx_content t1 d)" by auto
  have "txn_inv L t'" using t1(2) t' frameD(1-3) [OF t'(4)] by (simp add: txn_inv_def)
  moreover have "init_parent t s par async_context = Some t'"
    using None cur t1(1) t'(1) by (simp add: init_parent_def)
  ultimately show ?thesis using None t' t1 cc by simp
qed


lemma nr_segment_start_spec:
  assumes inv: "txn_inv L t" and rec: "recording t" and card: "Suc (card L) < 2 ^ 60"
    and pool: "Suc (length (pool_list (trace_strings t))) < 2 ^ 31"
    and ctx: "\<forall>c. async_context = Some c \<longrightarrow> c_string c"
    and par: "\<forall>p. par = Some p \<longrightarrow> p \<in> L" and force: "\<forall>f. force_current_segment t = Some f \<longrightarrow> f \<in> L"
  shows "\<exists>s t' c. nr_segment_start t par async_context = Some (Some s, t') \<and> s \<notin> L \<and> txn_inv (insert s L) t'
    \<and> seg_async_context (txn_mem t' s) = c \<and> context_ok async_context c (trace_strings t')
    \<and> (\<forall>u \<in> L. seg_parent (txn_mem t' u) = seg_parent (txn_mem t u))
    \<and> seg_parent (txn_mem t' s) = (case par of None \<Rightarrow> start_parent t async_context c | Some p \<Rightarrow> Some p)
    \<and> (\<forall>d < 2 ^ 31. ctx_content t' d = (if par = NULL \<and> d = c then s # ctx_content t d else ctx_content t d))
    \<and> frame t' = frame (t\<lparr>segment_slab := segment_slab t', trace_strings := trace_strings t'\<rparr>)
    \<and> (\<forall>u \<in> L. segment_duration (txn_mem t') u = segment_duration (txn_mem t) u
          \<and> seg_priority (txn_mem t' u) = seg_priority (txn_mem t u))
    \<and> seg_stop_time (txn_mem t' s) = 0 \<and> seg_exclusive_time (txn_mem t' s) = NULL
    \<and> length (pool_list (trace_strings t')) \<le> Suc (length (pool_list (trace_strings t)))
    \<and> length (vec_list (free_list (segment_slab t'))) \<le> length (vec_list (free_list (segment_slab t)))"
proof -
  from nr_slab_next_spec [OF txn_invD(2) [OF inv]] obtain s slab where
    slab: "nr_slab_next (Some (segment_slab t)) = (Some s, Some slab)" "s \<notin> L" "slab_inv slab (insert s L)"
    "length (vec_list (free_list slab)) \<le> length (vec_list (free_list (segment_slab t)))" by blast
  let ?t0 = "t\<lparr>segment_slab := slab, txn_mem := (txn_mem t)(s := zero_segment)\<rparr>"
  from init_fields_spec [of ?t0 async_context s] txn_invD(4) [OF inv] ctx obtain ix pool' now where
    f: "init_fields ?t0 s async_context = Some (?t0\<lparr>ticks := ticks t + 1, trace_strings := pool',
        txn_mem := (txn_mem t)(s := new_segment (txn_id t) now ix)\<rparr>)"
    "pool_inv pool'" "ix \<le> length (pool_list pool')"
    "length (pool_list pool') \<le> Suc (length (pool_list (trace_strings t)))" "context_ok async_context ix pool'"
    by auto
  define t1 where "t1 = t\<lparr>segment_slab := slab, txn_mem := (txn_mem t)(s := new_segment (txn_id t) now ix),
      ticks := ticks t + 1, trace_strings := pool'\<rparr>"
  have ix: "ix < 2 ^ 31" using f(3,4) pool by linarith
  have f1: "init_fields ?t0 s async_context = Some t1" using f(1) by (simp add: t1_def)
  note t1 = txn_inv_fresh [OF inv slab(2) card slab(3) f(2) ix t1_def]
  have seg: "txn_mem t1 s = new_segment (txn_id t) now ix" "force_current_segment t1 = force_current_segment t"
    "trace_strings t1 = pool'" by (simp_all add: t1_def)
  have sp: "start_parent t1 async_context ix = start_parent t async_context ix"
    by (simp add: start_parent_def main_current_def t1(2) seg)
  have new: "seg_parent (txn_mem t1 s) = NULL" "kids (txn_mem t1) s = []" "seg_async_context (txn_mem t1 s) = ix"
    "seg_stop_time (txn_mem t1 s) = 0" "seg_exclusive_time (txn_mem t1 s) = NULL"
    by (simp_all add: seg new_segment_def zero_segment_def packed_init_inv)
  have fresh: "s \<notin> set (ctx_content t1 c)" if "c < 2 ^ 31" for c
    using stacks_invD(6) [OF txn_invD(5) [OF inv] that, of s] slab(2) t1(2) by auto
  have par': "par \<noteq> Some s" "\<forall>p. par = Some p \<longrightarrow> p \<in> insert s L" using par slab(2) by auto
  have force': "\<forall>f. force_current_segment t1 = Some f \<longrightarrow> f \<in> insert s L - {s}" using force slab(2) seg by auto
  from init_parent_spec [OF t1(1) insertI1 new(1,2) fresh _ new(3) ix par' force', of async_context] f(5) seg
  obtain t' where t': "init_parent t1 s par async_context = Some t'" "txn_inv (insert s L) t'" "frame t' = frame t1"
    "same_data (txn_mem t1) (txn_mem t')"
    "parents_of (txn_mem t') = (parents_of (txn_mem t1))
        (s := case par of None \<Rightarrow> start_parent t async_context ix | Some p \<Rightarrow> Some p)"
    "\<And>d. d < 2 ^ 31 \<Longrightarrow> ctx_content t' d = (if par = NULL \<and> d = ix then s # ctx_content t d else ctx_content t d)"
    unfolding sp t1(2) by auto
  note d = same_dataD [OF t'(4)]
  have old: "txn_mem t1 u = txn_mem t u" if "u \<in> L" for u using that slab(2) by (auto simp: t1_def)
  have "nr_segment_start t par async_context = Some (Some s, t')"
    using rec slab(1) f1 t'(1) by (simp add: nr_segment_start_def nr_txn_allocate_segment_def nr_segment_init_def)
  moreover have "\<forall>u \<in> L. seg_parent (txn_mem t' u) = seg_parent (txn_mem t u)"
    "seg_parent (txn_mem t' s) = (case par of None \<Rightarrow> start_parent t async_context ix | Some p \<Rightarrow> Some p)"
    using t'(5) old slab(2) by (auto simp: fun_eq_iff)
  moreover have "frame t' = frame (t\<lparr>segment_slab := segment_slab t', trace_strings := trace_strings t'\<rparr>)"
    "trace_strings t' = pool'" "segment_slab t' = slab"
    using t'(3) by (simp_all add: frame_def t1_def)
  moreover have "\<forall>u \<in> L. segment_duration (txn_mem t') u = segment_duration (txn_mem t) u
      \<and> seg_priority (txn_mem t' u) = seg_priority (txn_mem t u)"
    using d old by (simp add: segment_duration_def)
  moreover have "seg_async_context (txn_mem t' s) = ix" "seg_stop_time (txn_mem t' s) = 0"
    using d new by simp_all
  moreover have "seg_exclusive_time (txn_mem t' s) = NULL"
  proof -
    from t'(4) obtain ch ix p where "txn_mem t' s = (txn_mem t1 s)\<lparr>seg_children := ch, seg_child_ix := ix, seg_parent := p\<rparr>"
      unfolding same_data_def by blast
    then show ?thesis using new(5) by simp
  qed
  ultimately show ?thesis using slab(2,4) t'(2,6) f(4,5) by blast
qed


end
