(* ===== verification/SegmentEnd.thy ===== *)
theory SegmentEnd
  imports SegmentStart
begin

text \<open>
  Ending a segment: it leaves its stack and enters the heap of ended segments, which may
  evict, and so discard, the segment of least priority.
\<close>

section \<open>The heap of ended segments\<close>

lemma span_priority_ok: "comparator_ok (nr_segment_wrapped_span_priority_comparator m)"
proof -
  let ?c = "nr_segment_wrapped_span_priority_comparator m"
  define lt where "lt a b \<longleftrightarrow> sint (seg_priority (m a)) < sint (seg_priority (m b))
    \<or> sint (seg_priority (m a)) = sint (seg_priority (m b)) \<and> segment_duration m a < segment_duration m b" for a b
  have c: "?c (Some a) (Some b) = (if lt a b then -1 else if lt b a then 1 else 0)" for a b
    by (auto simp: nr_segment_wrapped_span_priority_comparator_def comparator_null_check_def
        nr_segment_span_priority_comparator_def nr_segment_duration_comparator_def lt_def)
  have n: "?c None (Some b) = -1" "?c (Some b) None = 1" "?c None None = 0" for b
    by (simp_all add: nr_segment_wrapped_span_priority_comparator_def comparator_null_check_def)
  have asym: "lt a b \<Longrightarrow> \<not> lt b a" for a b unfolding lt_def by linarith
  have le: "?c (Some a) (Some b) \<le> 0 \<longleftrightarrow> \<not> lt b a" for a b using asym by (simp add: c)
  have trans: "\<not> lt b a \<Longrightarrow> \<not> lt d b \<Longrightarrow> \<not> lt d a" for a b d unfolding lt_def by linarith
  have "?c x y < 0 \<longleftrightarrow> ?c y x > 0" for x y
    using asym by (cases x; cases y) (simp_all add: c n)
  moreover have "?c x z \<le> 0" if "?c x y \<le> 0" "?c y z \<le> 0" for x y z
  proof (cases x)
    case None
    then show ?thesis by (cases z) (simp_all add: n)
  next
    case (Some a)
    with that(1) obtain b where b: "y = Some b" using n(2) [of a] by (cases y) simp_all
    with that(2) obtain d where d: "z = Some d" using n(2) [of b] by (cases z) simp_all
    from that b d Some show ?thesis using trans [of b a d] by (simp add: le)
  qed
  ultimately show ?thesis unfolding comparator_ok_def by blast
qed

lemma heap_in_simps [simp]:
  "heap_comparator (heap_in m h) = nr_segment_wrapped_span_priority_comparator m"
  "contents (heap_in m h) = contents h" "heap_destructor (heap_in m h) = heap_destructor h"
  "heap_bound (heap_in m h) = heap_bound h" "heap_used (heap_in m h) = heap_used h"
  "flags_ok (heap_in m h) = flags_ok h" "bound_ok (heap_in m h) = bound_ok h"
  "value_at (heap_in m h) = value_at h" "heap_in m' (heap_in m h) = heap_in m' h"
  by (simp_all add: heap_in_def contents_def live_values_def flags_ok_def bound_ok_def value_at_def fun_eq_iff)

text \<open>The heap order only reads durations and priorities of what is in the heap.\<close>

lemma heap_inv_cong:
  assumes "heap_inv (heap_in m h)"
    and "\<And>u. Some u \<in># contents h \<Longrightarrow> segment_duration m' u = segment_duration m u
      \<and> seg_priority (m' u) = seg_priority (m u)"
  shows "heap_inv (heap_in m' h)"
proof -
  let ?c = "nr_segment_wrapped_span_priority_comparator m" and ?c' = "nr_segment_wrapped_span_priority_comparator m'"
  have fl: "flags_ok h" using assms(1) by (simp add: heap_inv_def)
  have eq: "?c' x y = ?c x y" if "x \<in># contents h" "y \<in># contents h" for x y
    using assms(2) that
    by (auto simp: nr_segment_wrapped_span_priority_comparator_def comparator_null_check_def
        nr_segment_span_priority_comparator_def nr_segment_duration_comparator_def split: option.splits)
  have "dominates ?c' (value_at h) a j" if "anc a j" "j \<le> heap_used h" "dominates ?c (value_at h) a j" for a j
  proof -
    have "1 \<le> a" "a \<le> j" using anc_less [OF that(1)] by auto
    then have "\<exists>i. 1 \<le> i \<and> i \<le> heap_used h \<and> value_at h a = value_at h i"
      "\<exists>i. 1 \<le> i \<and> i \<le> heap_used h \<and> value_at h j = value_at h i"
      using that(2) by (intro exI [of _ a] exI [of _ j]; simp)+
    then have "value_at h a \<in># contents h" "value_at h j \<in># contents h"
      unfolding contents_mem [OF fl] by blast+
    then have "?c' (value_at h a) (value_at h j) = ?c (value_at h a) (value_at h j)"
      "?c' (value_at h j) (value_at h a) = ?c (value_at h j) (value_at h a)" using eq by blast+
    with that(3) show ?thesis by (simp add: dominates_def leq_def split: compare_t.splits)
  qed
  with assms(1) span_priority_ok show ?thesis by (auto simp: heap_inv_def heap_ok_def)
qed

definition seg_heap_inv :: "sid set \<Rightarrow> ('e, 'b) nrtxn \<Rightarrow> bool" where
  "seg_heap_inv L t = (case segment_heap t of None \<Rightarrow> True
     | Some h \<Rightarrow> heap_inv (heap_in (txn_mem t) h) \<and> heap_destructor h \<and> heap_bound h \<noteq> 0
         \<and> (\<forall>x. count (contents h) x \<le> 1)
         \<and> (\<forall>x \<in># contents h. \<exists>u \<in> L. x = Some u \<and> seg_parent (txn_mem t u) \<noteq> NULL
              \<and> (\<forall>c < 2 ^ 31. u \<notin> set (ctx_content t c))))"


text \<open>Changing a segment in fields that the invariant does not read.\<close>

lemma txn_inv_set_seg:
  assumes inv: "txn_inv L t" and f: "\<And>seg. seg_children (f seg) = seg_children seg" "\<And>seg. seg_parent (f seg) = seg_parent seg"
    "\<And>seg. seg_child_ix (f seg) = seg_child_ix seg" "\<And>seg. seg_ok (txn_id t) seg \<Longrightarrow> seg_ok (txn_id t) (f seg)"
    "\<And>seg. seg_async_context (f seg) = seg_async_context seg"
  shows "txn_inv L (set_seg t s f)" "ctx_content (set_seg t s f) = ctx_content t"
    "parents_of (txn_mem (set_seg t s f)) = parents_of (txn_mem t)" "frame (set_seg t s f) = frame t"
proof -
  have m: "same_links (txn_mem t) (txn_mem (set_seg t s f))" by (simp add: same_links_def set_seg_def f)
  show "ctx_content (set_seg t s f) = ctx_content t"
    by (rule ctx_content_cong) (simp add: stacks_of_def set_seg_def)
  have "stacks_inv L (set_seg t s f)"
    by (rule stacks_inv_cong [OF txn_invD(5) [OF inv]]) (auto simp: stacks_of_def set_seg_def f(5))
  with forest_cong [OF m txn_invD(1) [OF inv]] txn_invD [OF inv] f(4)
  show "txn_inv L (set_seg t s f)" by (auto simp: txn_inv_def set_seg_def)
  show "parents_of (txn_mem (set_seg t s f)) = parents_of (txn_mem t)" "frame (set_seg t s f) = frame t"
    by (auto simp: set_seg_def frame_def f(2))
qed

lemma heap_insert_spec:
  assumes h: "heap_inv h" "heap_destructor h" "heap_bound h \<noteq> 0"
  shows "\<exists>ev h'. nr_minmax_heap_insert (Some h) x = (ev, Some h') \<and> heap_inv h' \<and> heap_destructor h'
    \<and> heap_bound h' = heap_bound h \<and> heap_comparator h' = heap_comparator h
    \<and> contents h' + mset ev = add_mset x (contents h) \<and> length ev \<le> 1"
proof -
  let ?q = "Some h"
  have q: "heap_ptr_inv ?q" "heap_owns ?q" "nr_minmax_heap_bound ?q \<noteq> 0" "heap_items ?q = contents h"
    using h by (simp_all add: heap_ptr_defs)
  have lim: "0 < nr_minmax_heap_bound ?q" "size (heap_items ?q) \<le> nr_minmax_heap_bound ?q"
    using ptr_limit_correct [OF q(1,3)] by auto
  have out: "\<exists>h'. q' = Some h' \<and> heap_inv h' \<and> heap_destructor h' \<and> heap_bound h' = heap_bound h
      \<and> heap_comparator h' = heap_comparator h \<and> heap_items q' = contents h'"
    if "heap_ptr_inv q'" "heap_conf ?q q'" for q'
    using that h by (cases q') (auto simp: heap_ptr_defs)
  show ?thesis
  proof (cases "size (heap_items ?q) < nr_minmax_heap_bound ?q")
    case True
    with insert_room_correct [OF q(1), of x] obtain q' where
      "nr_minmax_heap_insert ?q x = ([], q')" "heap_ptr_inv q'" "heap_conf ?q q'" "heap_items q' = add_mset x (contents h)"
      using q(4) by auto
    with out [of q'] show ?thesis by auto
  next
    case False
    with lim have full: "size (heap_items ?q) = nr_minmax_heap_bound ?q" by simp
    show ?thesis
    proof (cases "0 < heap_cmp ?q (nr_minmax_heap_peek_min ?q) x")
      case True
      with insert_reject_correct [OF q(1,3) full] q(2) h show ?thesis by simp
    next
      case evict: False
      from full lim(1) have ne: "heap_items ?q \<noteq> {#}" by auto
      have peek: "nr_minmax_heap_peek_min ?q \<in># contents h" using ptr_peek_min_correct [OF q(1) ne] q(4) by simp
      from evict insert_evict_correct [OF q(1,3) full, of x] q(2,4) obtain q' where
        q': "nr_minmax_heap_insert ?q x = ([nr_minmax_heap_peek_min ?q], q')" "heap_ptr_inv q'" "heap_conf ?q q'"
        "heap_items q' = add_mset x (contents h - {# nr_minmax_heap_peek_min ?q #})" by auto
      from out [OF q'(2,3)] obtain h' where h': "q' = Some h'" "heap_inv h'" "heap_destructor h'"
        "heap_bound h' = heap_bound h" "heap_comparator h' = heap_comparator h" "heap_items q' = contents h'" by blast
      have "contents h' + {# nr_minmax_heap_peek_min ?q #} = add_mset x (contents h)"
        using q'(4) h'(6) peek by (simp add: add_mset_commute)
      with q'(1) h' show ?thesis by auto
    qed
  qed
qed

lemma heap_insert_least:
  assumes h: "heap_inv h" "heap_destructor h" and ins: "nr_minmax_heap_insert (Some h) x = (ev, Some h')"
    and e: "e \<in> set ev" and k: "k \<in># contents h'"
  shows "heap_comparator h e k \<le> 0"
proof -
  have q: "heap_ptr_inv (Some h)" "heap_owns (Some h)" "heap_cmp (Some h) = heap_comparator h"
    "heap_items (Some h') = contents h'" using h by (simp_all add: heap_ptr_defs)
  have "insert_all nr_minmax_heap_insert (Some h) [x] = (ev, Some h')" using ins by simp
  with mmh.insert_all_law [OF q(1), of "{#}" "[x]"] q e k show ?thesis by auto
qed

text \<open>Comparing segments reads their priorities and times only.\<close>

lemma span_priority_cong:
  assumes "same_shape m m'"
  shows "nr_segment_wrapped_span_priority_comparator m' = nr_segment_wrapped_span_priority_comparator m"
  using assms
  by (auto simp: fun_eq_iff same_shape_def nr_segment_wrapped_span_priority_comparator_def comparator_null_check_def
      nr_segment_span_priority_comparator_def nr_segment_duration_comparator_def segment_duration_def split: option.splits)

section \<open>Ending a segment\<close>

lemma seg_heap_invD:
  assumes "seg_heap_inv L t" and "segment_heap t = Some h"
  shows "heap_inv (heap_in (txn_mem t) h)" "heap_destructor h" "heap_bound h \<noteq> 0" "count (contents h) x \<le> 1"
    "x \<in># contents h \<Longrightarrow> \<exists>u \<in> L. x = Some u \<and> seg_parent (txn_mem t u) \<noteq> NULL"
    "Some u \<in># contents h \<Longrightarrow> u \<in> L \<and> seg_parent (txn_mem t u) \<noteq> NULL"
    "Some u \<in># contents h \<Longrightarrow> c < 2 ^ 31 \<Longrightarrow> u \<notin> set (ctx_content t c)"
proof -
  have all: "\<forall>x \<in># contents h. \<exists>u \<in> L. x = Some u \<and> seg_parent (txn_mem t u) \<noteq> NULL
      \<and> (\<forall>c < 2 ^ 31. u \<notin> set (ctx_content t c))" using assms by (simp add: seg_heap_inv_def)
  show "heap_inv (heap_in (txn_mem t) h)" "heap_destructor h" "heap_bound h \<noteq> 0" "count (contents h) x \<le> 1"
    using assms by (simp_all add: seg_heap_inv_def)
  show "x \<in># contents h \<Longrightarrow> \<exists>u \<in> L. x = Some u \<and> seg_parent (txn_mem t u) \<noteq> NULL" using all by blast
  show "Some u \<in># contents h \<Longrightarrow> u \<in> L \<and> seg_parent (txn_mem t u) \<noteq> NULL"
    "Some u \<in># contents h \<Longrightarrow> c < 2 ^ 31 \<Longrightarrow> u \<notin> set (ctx_content t c)" using all by fastforce+
qed

lemma seg_heap_invI:
  assumes "segment_heap t = Some h" and "heap_inv (heap_in (txn_mem t) h)" and "heap_destructor h" and "heap_bound h \<noteq> 0"
    and "\<And>x. count (contents h) x \<le> 1"
    and "\<And>x. x \<in># contents h \<Longrightarrow> \<exists>u \<in> L. x = Some u \<and> seg_parent (txn_mem t u) \<noteq> NULL
      \<and> (\<forall>c < 2 ^ 31. u \<notin> set (ctx_content t c))"
  shows "seg_heap_inv L t"
  using assms by (simp add: seg_heap_inv_def)

lemma txn_inv_cong:
  assumes "txn_mem t' = txn_mem t" "stacks_of t' = stacks_of t" "txn_id t' = txn_id t"
    "segment_slab t' = segment_slab t" "trace_strings t' = trace_strings t"
    "unscoped_metrics t' = unscoped_metrics t" "scoped_metrics t' = scoped_metrics t" "span_queue t' = span_queue t"
  shows "txn_inv L t' = txn_inv L t" "ctx_content t' = ctx_content t"
proof -
  show cc: "ctx_content t' = ctx_content t" by (rule ctx_content_cong [OF assms(2)])
  show "txn_inv L t' = txn_inv L t"
    using assms cc stacks_inv_cong [of L t' t] stacks_inv_cong [of L t t'] by (auto simp: txn_inv_def)
qed

lemma heap_field_simps [simp]:
  "txn_inv L (t\<lparr>segment_heap := hp\<rparr>) = txn_inv L t" "ctx_content (t\<lparr>segment_heap := hp\<rparr>) = ctx_content t"
  "txn_inv L (t\<lparr>segment_count := n\<rparr>) = txn_inv L t" "ctx_content (t\<lparr>segment_count := n\<rparr>) = ctx_content t"
  by (rule txn_inv_cong; simp add: stacks_of_def)+

text \<open>The first half: stop time, count and stack.\<close>

definition end_prepare :: "('e, 'b) nrtxn \<Rightarrow> sid \<Rightarrow> ('e, 'b) nrtxn" where
  "end_prepare t s =
     (let t = (if seg_stop_time (txn_mem t s) = 0
               then (case nr_get_time t of
                   (now, t) \<Rightarrow> set_seg t s
                     (\<lambda>seg. seg\<lparr>seg_stop_time := nr_time_duration (abs_start_time t) now\<rparr>))
               else t)
      in t\<lparr>segment_count := segment_count t + 1\<rparr>)"

lemma end_prepare_spec:
  assumes inv: "txn_inv L t"
  shows "txn_inv L (end_prepare t s)" "ctx_content (end_prepare t s) = ctx_content t"
    "parents_of (txn_mem (end_prepare t s)) = parents_of (txn_mem t)"
    "frame (end_prepare t s) = frame (t\<lparr>segment_count := segment_count t + 1\<rparr>)"
    "u \<noteq> s \<Longrightarrow> txn_mem (end_prepare t s) u = txn_mem t u"
    "seg_priority (txn_mem (end_prepare t s) u) = seg_priority (txn_mem t u)"
    "parent_stacks (end_prepare t s) = parent_stacks t"
proof -
  let ?f = "\<lambda>seg. seg\<lparr>seg_stop_time := nr_time_duration (abs_start_time t) (clock t (ticks t))\<rparr>"
  let ?t = "t\<lparr>ticks := ticks t + 1\<rparr>"
  note cong = txn_inv_cong
  have inv': "txn_inv L ?t" using inv cong(1) [of ?t t] by (simp add: stacks_of_def)
  have cc': "ctx_content ?t = ctx_content t" by (rule cong(2)) (simp_all add: stacks_of_def)
  note upd = txn_inv_set_seg [OF inv', of ?f s]
  have eq: "end_prepare t s = (if seg_stop_time (txn_mem t s) = 0 then set_seg ?t s ?f else t)
      \<lparr>segment_count := segment_count t + 1\<rparr>"
    by (simp add: end_prepare_def nr_get_time_def set_seg_def)
  show "ctx_content (end_prepare t s) = ctx_content t"
    unfolding eq using upd(2) cc' cong(2) [of "(set_seg ?t s ?f)\<lparr>segment_count := segment_count t + 1\<rparr>" "set_seg ?t s ?f"]
      cong(2) [of "t\<lparr>segment_count := segment_count t + 1\<rparr>" t] by (simp add: stacks_of_def seg_ok_def)
  show "txn_inv L (end_prepare t s)"
    unfolding eq using upd(1) inv cong(1) [of "(set_seg ?t s ?f)\<lparr>segment_count := segment_count t + 1\<rparr>" "set_seg ?t s ?f"]
      cong(1) [of "t\<lparr>segment_count := segment_count t + 1\<rparr>" t] by (simp add: stacks_of_def seg_ok_def)
  show "parents_of (txn_mem (end_prepare t s)) = parents_of (txn_mem t)"
    "frame (end_prepare t s) = frame (t\<lparr>segment_count := segment_count t + 1\<rparr>)"
    "u \<noteq> s \<Longrightarrow> txn_mem (end_prepare t s) u = txn_mem t u"
    "seg_priority (txn_mem (end_prepare t s) u) = seg_priority (txn_mem t u)"
    "parent_stacks (end_prepare t s) = parent_stacks t"
    unfolding eq by (auto simp: set_seg_def frame_def)
qed


lemma nr_segment_end_eq:
  assumes "seg_txn (txn_mem t s) \<noteq> NULL" and "nr_txn_retire_current_segment (end_prepare t s) (Some s) = Some t2"
    and "nr_minmax_heap_insert (map_option (heap_in (txn_mem t2)) (segment_heap t2)) (Some s) = (ev, heap)"
  shows "nr_segment_end t (Some (Some s)) =
    map_option (\<lambda>t. (True, Some NULL, t)) (discard_all ev (t2\<lparr>segment_heap := heap\<rparr>))"
  using assms by (auto simp: nr_segment_end_def end_prepare_def Let_def map_conv_bind_option comp_def)

text \<open>What ending a segment does: \<open>ev\<close> is what the heap evicts.\<close>

definition ended :: "sid set \<Rightarrow> ('e, 'b) nrtxn \<Rightarrow> sid \<Rightarrow> sid ptr list \<Rightarrow> ('e, 'b) nrtxn \<Rightarrow> bool" where
  "ended L t s ev t' \<longleftrightarrow> length ev \<le> 1 \<and> set ev \<subseteq> Some ` L
     \<and> txn_inv (L - {u. Some u \<in> set ev}) t' \<and> seg_heap_inv (L - {u. Some u \<in> set ev}) t'
     \<and> (segment_heap t = NULL \<longrightarrow> segment_heap t' = NULL \<and> ev = [])
     \<and> (segment_heap t \<noteq> NULL \<longrightarrow> segment_heap t' \<noteq> NULL
          \<and> heap_items (segment_heap t') + mset ev = add_mset (Some s) (heap_items (segment_heap t))
          \<and> nr_minmax_heap_bound (segment_heap t') = nr_minmax_heap_bound (segment_heap t))
     \<and> (\<forall>e \<in> set ev. \<forall>k \<in># heap_items (segment_heap t').
          nr_segment_wrapped_span_priority_comparator (txn_mem (end_prepare t s)) e k \<le> 0)
     \<and> segment_count t' = segment_count t + 1 - length ev \<and> (\<forall>u. Some u \<in> set ev \<longrightarrow> seg_txn (txn_mem t' u) = NULL)
     \<and> recording t' = recording t \<and> force_current_segment t' = force_current_segment t
     \<and> segment_root t' = segment_root t \<and> parent_stacks t' = parent_stacks t
     \<and> length (vec_list (free_list (segment_slab t'))) \<le> length (vec_list (free_list (segment_slab t))) + length ev
     \<and> (\<forall>u \<in> L. Some u \<notin> set ev \<longrightarrow> seg_parent (txn_mem t u) \<noteq> NULL \<longrightarrow> seg_parent (txn_mem t' u) \<noteq> NULL)
     \<and> (\<forall>c < 2 ^ 31. ctx_content t' c = fold (\<lambda>x. remove1 (the x)) ev (remove1 s (ctx_content t c)))"

lemma nr_segment_end_spec:
  assumes inv: "txn_inv L t" and hp: "seg_heap_inv L t" and s: "s \<in> L"
    and ready: "segment_heap t \<noteq> NULL \<Longrightarrow> seg_parent (txn_mem t s) \<noteq> NULL \<and> Some s \<notin># heap_items (segment_heap t)"
    and room: "length (vec_list (free_list (segment_slab t))) < 2 ^ 60"
  shows "\<exists>ev t'. nr_segment_end t (Some (Some s)) = Some (True, Some NULL, t') \<and> ended L t s ev t'"
proof -
  have txn: "seg_txn (txn_mem t s) \<noteq> NULL" using txn_invD(3) [OF inv s] by (simp add: seg_ok_def)
  let ?t1 = "end_prepare t s"
  note p = end_prepare_spec [OF inv, where s = s]
  from nr_txn_retire_current_segment_spec [OF p(1) s] obtain t2 where
    t2: "nr_txn_retire_current_segment ?t1 (Some s) = Some t2" "txn_inv L t2" "frame t2 = frame ?t1"
      "same_shape (txn_mem ?t1) (txn_mem t2)"
    and cc2: "\<And>c. c < 2 ^ 31 \<Longrightarrow> ctx_content t2 c = remove1 s (ctx_content t c)"
    and ps2: "parent_stacks t2 = parent_stacks t"
    using p(2,7) by auto
  have fr: "segment_heap t2 = segment_heap t" "segment_slab t2 = segment_slab t" "segment_count t2 = segment_count t + 1"
    and fr': "recording t2 = recording t" "force_current_segment t2 = force_current_segment t"
      "segment_root t2 = segment_root t"
    using t2(3) p(4) by (simp_all add: frame_def)
  have par2: "seg_parent (txn_mem t2 u) = seg_parent (txn_mem t u)" for u
    using t2(4) p(3) by (simp add: same_shape_def same_links_def fun_eq_iff)
  have keep: "segment_duration (txn_mem t2) u = segment_duration (txn_mem t) u
      \<and> seg_priority (txn_mem t2 u) = seg_priority (txn_mem t u)" if "u \<noteq> s" for u
    using t2(4) p(5) [OF that] by (simp add: same_shape_def segment_duration_def)
  show ?thesis
  proof (cases "segment_heap t")
    case None
    with nr_segment_end_eq [OF txn t2(1), of "[]" NULL] fr fr' cc2 t2(2) ps2 par2 show ?thesis
      by (intro exI [of _ "[]"] exI [of _ "t2\<lparr>segment_heap := NULL\<rparr>"])
        (simp add: ended_def nr_minmax_heap_insert_def seg_heap_inv_def)
  next
    case (Some h)
    let ?h = "heap_in (txn_mem t2) h"
    note hD = seg_heap_invD [OF hp Some]
    have sh: "Some s \<notin># contents h" "seg_parent (txn_mem t s) \<noteq> NULL" using ready Some by (simp_all add: heap_items_def)
    have "heap_inv ?h"
      by (rule heap_inv_cong [OF hD(1)]) (use keep sh(1) in metis)
    with hD(2,3) have hh: "heap_inv ?h" "heap_destructor ?h" "heap_bound ?h \<noteq> 0" by simp_all
    from heap_insert_spec [OF this, of "Some s"] obtain ev h' where
      ins: "nr_minmax_heap_insert (Some ?h) (Some s) = (ev, Some h')" and h': "heap_inv h'" "heap_destructor h'"
        "heap_bound h' = heap_bound h" "heap_comparator h' = nr_segment_wrapped_span_priority_comparator (txn_mem t2)"
        "contents h' + mset ev = add_mset (Some s) (contents h)" and ev: "length ev \<le> 1" by auto
    have least: "nr_segment_wrapped_span_priority_comparator (txn_mem ?t1) e k \<le> 0"
      if "e \<in> set ev" "k \<in># contents h'" for e k
      using heap_insert_least [OF hh(1,2) ins that] span_priority_cong [OF t2(4)] by (simp add: heap_in_def)
    have hin: "heap_in (txn_mem t2) h' = h'" using h'(4) by (simp add: heap_in_def)
    let ?t3 = "t2\<lparr>segment_heap := Some h'\<rparr>"
    have once: "count (contents h') x + count (mset ev) x \<le> 1" for x
    proof -
      have "count (contents h') x + count (mset ev) x = count (add_mset (Some s) (contents h)) x"
        using h'(5) by (metis count_union)
      with hD(4) [of x] sh(1) show ?thesis by (auto simp: not_in_iff)
    qed
    have mem: "\<exists>u \<in> L. x = Some u \<and> seg_parent (txn_mem t2 u) \<noteq> NULL \<and> (\<forall>c < 2 ^ 31. u \<notin> set (ctx_content t2 c))"
      if "x \<in># contents h' + mset ev" for x
    proof (cases "x = Some s")
      case True
      with s sh(2) show ?thesis
        using cc2 par2 [of s] ctx_removed [OF txn_invD(5) [OF inv], of _ s] by (intro bexI [of _ s]) auto
    next
      case False
      with that [unfolded h'(5)] have x: "x \<in># contents h" by auto
      from hD(5) [OF x] obtain u where u: "u \<in> L" "x = Some u" "seg_parent (txn_mem t u) \<noteq> NULL" by blast
      have "u \<notin> set (ctx_content t2 c)" if "c < 2 ^ 31" for c
        using hD(7) [of u c] x u(2) that cc2 [OF that] by (auto dest: notin_set_remove1)
      with u par2 [of u] show ?thesis by auto
    qed
    have eq: "nr_segment_end t (Some (Some s)) = map_option (\<lambda>t. (True, Some NULL, t)) (discard_all ev ?t3)"
      using nr_segment_end_eq [OF txn t2(1)] ins fr Some by simp
    show ?thesis
    proof (cases ev)
      case Nil
      have "seg_heap_inv L ?t3"
        by (rule seg_heap_invI [of _ h']) (use h' hin once mem hD(3) Nil in auto)
      with Nil eq t2(2) fr fr' cc2 ps2 par2 Some h'(3,5) show ?thesis
        by (intro exI [of _ "[]"] exI [of _ ?t3]) (simp add: ended_def heap_items_def nr_minmax_heap_bound_def)
    next
      case (Cons x xs)
      with ev have ev1: "ev = [x]" by simp
      with mem [of x] obtain e q where e: "e \<in> L" "x = Some e" "seg_parent (txn_mem t2 e) = Some q" by auto
      have inv3: "txn_inv L ?t3" using t2(2) by simp
      from nr_segment_discard_spec [OF inv3 e(1)] e(3) room fr(2) obtain t4 where
        d: "nr_segment_discard ?t3 (Some (Some e)) = Some (True, Some NULL, t4)" "txn_inv (L - {e}) t4"
          "\<forall>u \<in> L - {e}. seg_parent (txn_mem t4 u) =
            (if seg_parent (txn_mem t2 u) = Some e then Some q else seg_parent (txn_mem t2 u))"
          "\<forall>c < 2 ^ 31. ctx_content t4 c = remove1 e (ctx_content t2 c)"
          "frame t4 = frame (?t3\<lparr>segment_slab := segment_slab t4\<rparr>)"
          "\<forall>u. u \<noteq> e \<longrightarrow> segment_duration (txn_mem t4) u = segment_duration (txn_mem t2) u
            \<and> seg_priority (txn_mem t4 u) = seg_priority (txn_mem t2 u)"
          "seg_txn (txn_mem t4 e) = NULL" "parent_stacks t4 = parent_stacks t2"
          "length (vec_list (free_list (segment_slab t4))) = Suc (length (vec_list (free_list (segment_slab t2))))" by auto
      let ?t = "t4\<lparr>segment_count := segment_count t4 - 1\<rparr>"
      have fr4: "segment_heap t4 = Some h'" "segment_count t4 = segment_count t + 1" "recording t4 = recording t"
        "force_current_segment t4 = force_current_segment t" "segment_root t4 = segment_root t"
        using d(5) fr(3) fr' by (simp_all add: frame_def)
      have eh: "Some e \<notin># contents h'" using once [of "Some e"] ev1 e(2) by (auto simp: not_in_iff)
      have "seg_heap_inv (L - {e}) ?t"
      proof (rule seg_heap_invI [of _ h'])
        show "heap_inv (heap_in (txn_mem ?t) h')"
          by (rule heap_inv_cong [of "txn_mem t2"]) (use h'(1) hin d(6) eh in auto)
        fix y
        show "count (contents h') y \<le> 1" using once [of y] by simp
        assume y: "y \<in># contents h'"
        with mem [of y] obtain u where u: "u \<in> L" "y = Some u" "seg_parent (txn_mem t2 u) \<noteq> NULL"
          "\<forall>c < 2 ^ 31. u \<notin> set (ctx_content t2 c)" by auto
        with y eh have "u \<in> L - {e}" by auto
        moreover have "seg_parent (txn_mem t4 u) \<noteq> NULL" using d(3) u(3) \<open>u \<in> L - {e}\<close> by auto
        moreover have "\<forall>c < 2 ^ 31. u \<notin> set (ctx_content t4 c)" using d(4) u(4) by (auto dest: notin_set_remove1)
        ultimately show "\<exists>u \<in> L - {e}. y = Some u \<and> seg_parent (txn_mem ?t u) \<noteq> NULL
            \<and> (\<forall>c < 2 ^ 31. u \<notin> set (ctx_content ?t c))" using u(2) by auto
      qed (use fr4 h' hD(3) in auto)
      moreover have "nr_segment_end t (Some (Some s)) = Some (True, Some NULL, ?t)"
        using eq ev1 e(2) d(1) by (simp add: nr_segment_discard_wrapper_def)
      moreover have "{u. Some u \<in> set ev} = {e}" using ev1 e(2) by auto
      moreover have "\<forall>u \<in> L. Some u \<notin> set ev \<longrightarrow> seg_parent (txn_mem t u) \<noteq> NULL \<longrightarrow> seg_parent (txn_mem ?t u) \<noteq> NULL"
        using d(3) par2 ev1 e(2) by auto
      moreover have "\<forall>k \<in># contents h'. nr_segment_wrapped_span_priority_comparator (txn_mem ?t1) x k \<le> 0"
        using least ev1 by simp
      ultimately show ?thesis using ev1 e d(2,4,7-9) fr4 fr(2) cc2 ps2 Some h'(3,5)
        by (intro exI [of _ ev] exI [of _ ?t])
          (simp add: ended_def heap_items_def nr_minmax_heap_bound_def)
    qed
  qed
qed

end
