(* ===== verification/Transaction.thy ===== *)
theory Transaction
  imports SegmentEnd
begin

text \<open>
  A transaction from its beginning: the states it goes through when segments are started,
  changed, ended and discarded in any order, and what holds in all of them.
\<close>

section \<open>Beginning\<close>

definition NR_METRIC_DEFAULT_LIMIT :: int where "NR_METRIC_DEFAULT_LIMIT = 2000"

definition NR_SEGMENT_PRIORITY_ROOT :: "32 word" where "NR_SEGMENT_PRIORITY_ROOT = push_bit 16 1"

text \<open>
  The part of \<open>nr_txn_begin\<close> that sets up segments. The record \<open>t\<close> gives the options, the
  clock, the identifiers and the span queue; \<open>sysp\<close> is the page size of the system and \<open>n\<close> the
  size of a segment record.
\<close>

definition txn_blank :: "nr_slab \<Rightarrow> ('e, 'b) nrtxn \<Rightarrow> ('e, 'b) nrtxn" where
  "txn_blank slab t =
     (case nr_get_time t of (now, t) \<Rightarrow>
        t\<lparr>txn_mem := \<lambda>_. zero_segment, segment_slab := slab, trace_strings := nr_string_pool_create,
          unscoped_metrics := Some (nrm_table_create NR_METRIC_DEFAULT_LIMIT),
          scoped_metrics := Some (nrm_table_create NR_METRIC_DEFAULT_LIMIT),
          recording := True, abs_start_time := now,
          default_parent_stack :=
            the (snd (nr_stack_init (Some (default_parent_stack t)) NR_STACK_DEFAULT_CAPACITY)),
          parent_stacks := nr_hashmap_create True,
          force_current_segment := NULL, segment_root := NULL, segment_heap := NULL, segment_count := 0\<rparr>)"

definition nr_txn_begin_segments ::
  "int \<Rightarrow> nat \<Rightarrow> ('e, 'b) nrtxn \<Rightarrow> ('e, 'b) nrtxn ptr option" where
  "nr_txn_begin_segments sysp n t =
     (case nr_slab_create sysp n (n * 100) of
        None \<Rightarrow> Some NULL
      | Some slab \<Rightarrow> do {
          (root, t) \<leftarrow> nr_segment_start (txn_blank slab t) NULL NULL;
          (case root of
             None \<Rightarrow> Some NULL
           | Some r \<Rightarrow>
               let t = t\<lparr>segment_root := root\<rparr>;
                   t = set_seg t r (\<lambda>seg. seg\<lparr>seg_start_time := 0\<rparr>);
                   t = nr_segment_set_priority_flag t root NR_SEGMENT_PRIORITY_ROOT
               in Some (Some (if max_segments t > 1
                    then t\<lparr>segment_heap := nr_minmax_heap_create (int (max_segments t))
                           (Some (nr_segment_wrapped_span_priority_comparator (txn_mem t))) True\<rparr>
                    else t)))
        })"

section \<open>Moving a segment\<close>

definition set_parent :: "('e, 'b) nrtxn \<Rightarrow> sid \<Rightarrow> sid \<Rightarrow> (bool \<times> ('e, 'b) nrtxn) option" where
  "set_parent t s p = do {
     (ok, m) \<leftarrow> nr_segment_set_parent (txn_mem t) (Some s) (Some p);
     Some (ok, t\<lparr>txn_mem := m\<rparr>)
   }"

section \<open>The states of a transaction\<close>

text \<open>
  \<open>L\<close> are the segments alive. A segment is ended, given timing or discarded once, before it
  enters the heap; with a segment limit a segment is ended only below a parent (the agent
  ends the root itself). The bounds are those of the counters: \<open>2 ^ 60\<close> objects and
  \<open>2 ^ 31\<close> strings.
\<close>

abbreviation in_heap :: "('e, 'b) nrtxn \<Rightarrow> sid \<Rightarrow> bool" where
  "in_heap t s \<equiv> Some s \<in># heap_items (segment_heap t)"

definition within_bounds :: "sid set \<Rightarrow> ('e, 'b) nrtxn \<Rightarrow> bool" where
  "within_bounds L t \<longleftrightarrow> Suc (card L) < 2 ^ 60 \<and> Suc (length (pool_list (trace_strings t))) < 2 ^ 31
     \<and> length (vec_list (free_list (segment_slab t))) < 2 ^ 60"

definition may_end :: "('e, 'b) nrtxn \<Rightarrow> sid \<Rightarrow> bool" where
  "may_end t s \<longleftrightarrow> (segment_heap t \<noteq> NULL \<longrightarrow> seg_parent (txn_mem t s) \<noteq> NULL) \<and> \<not> in_heap t s"

inductive txn_reach :: "sid set \<Rightarrow> ('e, 'b) nrtxn \<Rightarrow> bool" where
  begin_txn: "queue_ok (span_queue t) \<Longrightarrow> nr_txn_begin_segments sysp n t = Some (Some t') \<Longrightarrow>
    txn_reach {s. segment_root t' = Some s} t'"
| start: "txn_reach L t \<Longrightarrow> within_bounds L t \<Longrightarrow> \<forall>c. async_context = Some c \<longrightarrow> c_string c \<Longrightarrow>
    \<forall>p. par = Some p \<longrightarrow> p \<in> L \<Longrightarrow> nr_segment_start t par async_context = Some (Some s, t') \<Longrightarrow>
    txn_reach (insert s L) t'"
| end_segment: "txn_reach L t \<Longrightarrow> within_bounds L t \<Longrightarrow> s \<in> L \<Longrightarrow> may_end t s \<Longrightarrow>
    nr_segment_end t (Some (Some s)) = Some (True, p, t') \<Longrightarrow>
    txn_reach {u \<in> L. seg_txn (txn_mem t' u) \<noteq> NULL} t'"
| discard: "txn_reach L t \<Longrightarrow> within_bounds L t \<Longrightarrow> s \<in> L \<Longrightarrow> \<not> in_heap t s \<Longrightarrow>
    nr_segment_discard t (Some (Some s)) = Some (True, p, t') \<Longrightarrow> txn_reach (L - {s}) t'"
| move: "txn_reach L t \<Longrightarrow> s \<in> L \<Longrightarrow> p \<in> L \<Longrightarrow> set_parent t s p = Some (ok, t') \<Longrightarrow> txn_reach L t'"
| timing: "txn_reach L t \<Longrightarrow> s \<in> L \<Longrightarrow> \<not> in_heap t s \<Longrightarrow>
    nr_segment_set_timing t (Some s) start duration = (ok, t') \<Longrightarrow> txn_reach L t'"
| name: "txn_reach L t \<Longrightarrow> s \<in> L \<Longrightarrow> c_string nm \<Longrightarrow>
    nr_segment_set_name t (Some s) (Some nm) = Some (ok, t') \<Longrightarrow> txn_reach L t'"
| metric: "txn_reach L t \<Longrightarrow> s \<in> L \<Longrightarrow> c_string nm \<Longrightarrow>
    nr_segment_add_metric t (Some s) (Some nm) scoped = Some (ok, t') \<Longrightarrow> txn_reach L t'"

definition txn_ok :: "sid set \<Rightarrow> ('e, 'b) nrtxn \<Rightarrow> bool" where
  "txn_ok L t \<longleftrightarrow> txn_inv L t \<and> seg_heap_inv L t \<and> recording t \<and> force_current_segment t = NULL"

section \<open>Every operation keeps the invariant\<close>

lemma seg_heap_inv_cong:
  assumes hp: "seg_heap_inv L t" and heap: "segment_heap t' = segment_heap t"
    and data: "\<And>u. u \<in> L \<Longrightarrow> in_heap t u \<Longrightarrow> u \<in> L' \<and> segment_duration (txn_mem t') u = segment_duration (txn_mem t) u
      \<and> seg_priority (txn_mem t' u) = seg_priority (txn_mem t u) \<and> seg_parent (txn_mem t' u) \<noteq> NULL
      \<and> (\<forall>c < 2 ^ 31. u \<notin> set (ctx_content t' c))"
  shows "seg_heap_inv L' t'"
proof (cases "segment_heap t")
  case None
  with heap show ?thesis by (simp add: seg_heap_inv_def)
next
  case (Some h)
  note hD = seg_heap_invD [OF hp Some]
  have it: "heap_items (segment_heap t) = contents h" using Some by (simp add: heap_items_def)
  show ?thesis
  proof (rule seg_heap_invI [of _ h])
    show "heap_inv (heap_in (txn_mem t') h)"
    proof (rule heap_inv_cong [OF hD(1)])
      fix u
      assume "Some u \<in># contents h"
      then show "segment_duration (txn_mem t') u = segment_duration (txn_mem t) u
          \<and> seg_priority (txn_mem t' u) = seg_priority (txn_mem t u)" using hD(6) [of u] data [of u] it by simp
    qed
    fix x
    assume x: "x \<in># contents h"
    from hD(5) [OF x] obtain u where "u \<in> L" "x = Some u" by blast
    with x data [of u] it show "\<exists>u \<in> L'. x = Some u \<and> seg_parent (txn_mem t' u) \<noteq> NULL
        \<and> (\<forall>c < 2 ^ 31. u \<notin> set (ctx_content t' c))" by auto
  qed (use hD Some heap in auto)
qed

lemma in_heap_facts:
  assumes "seg_heap_inv L t" and "in_heap t u"
  shows "u \<in> L" "seg_parent (txn_mem t u) \<noteq> NULL" "c < 2 ^ 31 \<Longrightarrow> u \<notin> set (ctx_content t c)"
  using assms seg_heap_invD(6,7) [OF assms(1), of _ u] by (cases "segment_heap t"; simp add: heap_items_def)+

lemma start_ok:
  assumes ok: "txn_ok L t" and b: "within_bounds L t" and ctx: "\<forall>c. async_context = Some c \<longrightarrow> c_string c"
    and par: "\<forall>p. par = Some p \<longrightarrow> p \<in> L"
  shows "\<exists>s t'. nr_segment_start t par async_context = Some (Some s, t') \<and> s \<notin> L \<and> txn_ok (insert s L) t'"
proof -
  have inv: "txn_inv L t" "seg_heap_inv L t" "recording t" "\<forall>f. force_current_segment t = Some f \<longrightarrow> f \<in> L"
    and f0: "force_current_segment t = NULL" using ok by (auto simp: txn_ok_def)
  from nr_segment_start_spec [OF inv(1,3) _ _ ctx par inv(4)] b obtain s t' c where
    t': "nr_segment_start t par async_context = Some (Some s, t')" "s \<notin> L" "txn_inv (insert s L) t'"
    "\<forall>u \<in> L. seg_parent (txn_mem t' u) = seg_parent (txn_mem t u)"
    "\<forall>d < 2 ^ 31. ctx_content t' d = (if par = NULL \<and> d = c then s # ctx_content t d else ctx_content t d)"
    "frame t' = frame (t\<lparr>segment_slab := segment_slab t', trace_strings := trace_strings t'\<rparr>)"
    "\<forall>u \<in> L. segment_duration (txn_mem t') u = segment_duration (txn_mem t) u
          \<and> seg_priority (txn_mem t' u) = seg_priority (txn_mem t u)"
    unfolding within_bounds_def by auto
  have fr: "segment_heap t' = segment_heap t" "recording t'" "force_current_segment t' = NULL"
    using t'(6) inv(3) f0 by (simp_all add: frame_def)
  have "seg_heap_inv (insert s L) t'"
  proof (rule seg_heap_inv_cong [OF inv(2) fr(1)])
    fix u
    assume u: "u \<in> L" "in_heap t u"
    note hf = in_heap_facts [OF inv(2) u(2)]
    have "u \<noteq> s" using u(1) t'(2) by blast
    with u(1) t'(4,5,7) hf show "u \<in> insert s L \<and> segment_duration (txn_mem t') u = segment_duration (txn_mem t) u
        \<and> seg_priority (txn_mem t' u) = seg_priority (txn_mem t u) \<and> seg_parent (txn_mem t' u) \<noteq> NULL
        \<and> (\<forall>c < 2 ^ 31. u \<notin> set (ctx_content t' c))" by auto
  qed
  with t' fr show ?thesis by (auto simp: txn_ok_def)
qed


lemma discard_ok:
  assumes ok: "txn_ok L t" and b: "within_bounds L t" and s: "s \<in> L" "\<not> in_heap t s" "seg_parent (txn_mem t s) = Some q"
  shows "\<exists>t'. nr_segment_discard t (Some (Some s)) = Some (True, Some NULL, t') \<and> txn_ok (L - {s}) t'
    \<and> (\<forall>u \<in> L - {s}. seg_parent (txn_mem t' u) =
          (if seg_parent (txn_mem t u) = Some s then Some q else seg_parent (txn_mem t u)))"
proof -
  have inv: "txn_inv L t" "seg_heap_inv L t" "recording t" "force_current_segment t = NULL"
    using ok by (auto simp: txn_ok_def)
  have "length (vec_list (free_list (segment_slab t))) < 2 ^ 60" using b by (simp add: within_bounds_def)
  from nr_segment_discard_spec [OF inv(1) s(1,3) this] obtain t' where
    t': "nr_segment_discard t (Some (Some s)) = Some (True, Some NULL, t')" "txn_inv (L - {s}) t'"
    "\<forall>u \<in> L - {s}. seg_parent (txn_mem t' u) =
          (if seg_parent (txn_mem t u) = Some s then Some q else seg_parent (txn_mem t u))"
    "\<forall>c < 2 ^ 31. ctx_content t' c = remove1 s (ctx_content t c)"
    "frame t' = frame (t\<lparr>segment_slab := segment_slab t'\<rparr>)"
    "\<forall>u. u \<noteq> s \<longrightarrow> segment_duration (txn_mem t') u = segment_duration (txn_mem t) u
          \<and> seg_priority (txn_mem t' u) = seg_priority (txn_mem t u)" by blast
  have fr: "segment_heap t' = segment_heap t" "recording t'" "force_current_segment t' = NULL"
    using t'(5) inv(3,4) by (simp_all add: frame_def)
  have "seg_heap_inv (L - {s}) t'"
  proof (rule seg_heap_inv_cong [OF inv(2) fr(1)])
    fix u
    assume u: "u \<in> L" "in_heap t u"
    note hf = in_heap_facts [OF inv(2) u(2)]
    have "u \<noteq> s" using u(2) s(2) by blast
    moreover have "u \<notin> set (ctx_content t' c)" if "c < 2 ^ 31" for c
      using hf(3) [OF that] t'(4) that by (auto dest: notin_set_remove1)
    moreover have "seg_parent (txn_mem t' u) \<noteq> NULL" using t'(3) u(1) hf(2) \<open>u \<noteq> s\<close> by auto
    ultimately show "u \<in> L - {s} \<and> segment_duration (txn_mem t') u = segment_duration (txn_mem t) u
        \<and> seg_priority (txn_mem t' u) = seg_priority (txn_mem t u) \<and> seg_parent (txn_mem t' u) \<noteq> NULL
        \<and> (\<forall>c < 2 ^ 31. u \<notin> set (ctx_content t' c))" using u(1) t'(6) by blast
  qed
  with t' fr show ?thesis by (auto simp: txn_ok_def)
qed

lemma set_fold_remove1: "set (fold (\<lambda>x. remove1 (f x)) ev xs) \<subseteq> set xs"
proof (induction ev arbitrary: xs)
  case (Cons e ev)
  then show ?case using order_trans [OF Cons set_remove1_subset [of "f e" xs]] by simp
qed simp

lemma ended_live:
  assumes "ended L t s ev t'"
  shows "L - {u. Some u \<in> set ev} = {u \<in> L. seg_txn (txn_mem t' u) \<noteq> NULL}" (is "?L = ?R")
proof (rule set_eqI)
  fix u
  have e: "txn_inv ?L t'" "\<forall>u. Some u \<in> set ev \<longrightarrow> seg_txn (txn_mem t' u) = NULL"
    using assms by (simp_all add: ended_def)
  have "seg_txn (txn_mem t' u) \<noteq> NULL" if "u \<in> ?L" using txn_invD(3) [OF e(1) that] by (simp add: seg_ok_def)
  then show "u \<in> ?L \<longleftrightarrow> u \<in> ?R" using e(2) by (cases "Some u \<in> set ev"; cases "u \<in> L") simp_all
qed

lemma end_ok:
  assumes ok: "txn_ok L t" and b: "within_bounds L t" and s: "s \<in> L" "may_end t s"
  shows "\<exists>ev t'. nr_segment_end t (Some (Some s)) = Some (True, Some NULL, t') \<and> ended L t s ev t'
    \<and> txn_ok {u \<in> L. seg_txn (txn_mem t' u) \<noteq> NULL} t'"
proof -
  have inv: "txn_inv L t" "seg_heap_inv L t" "recording t" "force_current_segment t = NULL"
    using ok by (auto simp: txn_ok_def)
  have ready: "segment_heap t \<noteq> NULL \<Longrightarrow> seg_parent (txn_mem t s) \<noteq> NULL \<and> \<not> in_heap t s"
    and room: "length (vec_list (free_list (segment_slab t))) < 2 ^ 60"
    using s(2) b by (simp_all add: may_end_def within_bounds_def)
  from nr_segment_end_spec [OF inv(1,2) s(1) ready room] obtain ev t' where
    t': "nr_segment_end t (Some (Some s)) = Some (True, Some NULL, t')" "ended L t s ev t'" by blast
  let ?L = "L - {u. Some u \<in> set ev}"
  have e: "txn_inv ?L t'" "seg_heap_inv ?L t'" "\<forall>u. Some u \<in> set ev \<longrightarrow> seg_txn (txn_mem t' u) = NULL"
    "recording t' = recording t" "force_current_segment t' = force_current_segment t"
    using t'(2) by (simp_all add: ended_def)
  have L: "?L = {u \<in> L. seg_txn (txn_mem t' u) \<noteq> NULL}" by (rule ended_live [OF t'(2)])
  have "txn_ok ?L t'" using e inv(3,4) by (simp add: txn_ok_def)
  then have "txn_ok {u \<in> L. seg_txn (txn_mem t' u) \<noteq> NULL} t'" unfolding L .
  with t' show ?thesis by blast
qed

lemma txn_ok_set_seg:
  assumes ok: "txn_ok L t"
    and f: "\<And>seg. seg_children (f seg) = seg_children seg" "\<And>seg. seg_parent (f seg) = seg_parent seg"
      "\<And>seg. seg_child_ix (f seg) = seg_child_ix seg" "\<And>seg. seg_ok (txn_id t) seg \<Longrightarrow> seg_ok (txn_id t) (f seg)"
      "\<And>seg. seg_async_context (f seg) = seg_async_context seg"
    and keep: "in_heap t s \<Longrightarrow> segment_duration ((txn_mem t)(s := f (txn_mem t s))) s = segment_duration (txn_mem t) s
      \<and> seg_priority (f (txn_mem t s)) = seg_priority (txn_mem t s)"
  shows "txn_ok L (set_seg t s f)"
proof -
  have inv: "txn_inv L t" "seg_heap_inv L t" using ok by (auto simp: txn_ok_def)
  note upd = txn_inv_set_seg [OF inv(1) f, of s]
  have "seg_heap_inv L (set_seg t s f)"
  proof (rule seg_heap_inv_cong [OF inv(2)])
    show "segment_heap (set_seg t s f) = segment_heap t" by (simp add: set_seg_def)
    fix u
    assume u: "u \<in> L" "in_heap t u"
    note hf = in_heap_facts [OF inv(2) u(2)]
    have "segment_duration (txn_mem (set_seg t s f)) u = segment_duration (txn_mem t) u
        \<and> seg_priority (txn_mem (set_seg t s f) u) = seg_priority (txn_mem t u)"
      using keep u(2) by (cases "u = s") (auto simp: set_seg_def segment_duration_def)
    moreover have "seg_parent (txn_mem (set_seg t s f) u) \<noteq> NULL" using hf(2) upd(3) by (simp add: fun_eq_iff)
    ultimately show "u \<in> L \<and> segment_duration (txn_mem (set_seg t s f)) u = segment_duration (txn_mem t) u
        \<and> seg_priority (txn_mem (set_seg t s f) u) = seg_priority (txn_mem t u)
        \<and> seg_parent (txn_mem (set_seg t s f) u) \<noteq> NULL
        \<and> (\<forall>c < 2 ^ 31. u \<notin> set (ctx_content (set_seg t s f) c))" using u(1) hf(3) upd(2) by simp
  qed
  with upd(1) ok show ?thesis by (auto simp: txn_ok_def set_seg_def)
qed


lemma set_name_ok:
  assumes ok: "txn_ok L t" and nm: "c_string nm"
  shows "\<exists>t'. nr_segment_set_name t (Some s) (Some nm) = Some (True, t') \<and> txn_ok L t'"
proof -
  from nr_string_add_spec [OF _ nm, of "trace_strings t"] ok obtain ix pool where
    a: "nr_string_add (Some (trace_strings t)) (Some nm) = Some (ix, Some pool)" "pool_inv pool"
    by (auto simp: txn_ok_def txn_inv_def)
  let ?t = "t\<lparr>trace_strings := pool\<rparr>"
  have cc: "ctx_content ?t = ctx_content t" by (rule ctx_content_cong) (simp add: stacks_of_def)
  have "stacks_inv L ?t"
    by (rule stacks_inv_cong [of L t]) (use ok in \<open>simp_all add: txn_ok_def txn_inv_def stacks_of_def\<close>)
  with ok a(2) have "txn_ok L ?t" by (simp add: txn_ok_def txn_inv_def seg_heap_inv_def cc split: option.splits)
  then have "txn_ok L (set_seg ?t s (\<lambda>seg. seg\<lparr>seg_name := ix\<rparr>))"
    by (rule txn_ok_set_seg) (simp_all add: seg_ok_def segment_duration_def)
  with a(1) show ?thesis by (simp add: nr_segment_set_name_def)
qed

lemma add_metric_ok:
  assumes ok: "txn_ok L t" and s: "s \<in> L" and nm: "c_string nm"
  shows "\<exists>added t'. nr_segment_add_metric t (Some s) (Some nm) scoped = Some (added, t') \<and> txn_ok L t'"
proof -
  let ?v = "case seg_metrics (txn_mem t s) of None \<Rightarrow> nr_vector_init_impl 4 True | Some v \<Rightarrow> v"
  have i: "vector_inv (nr_vector_init_impl 4 True :: nr_segment_metric nr_vector)"
    "vec_list (nr_vector_init_impl 4 True :: nr_segment_metric nr_vector) = []"
    by (simp_all add: vector_inv_init)
  have "seg_ok (txn_id t) (txn_mem t s)" using ok s by (simp add: txn_ok_def txn_inv_def)
  then have v: "vector_inv ?v" "\<forall>x \<in> set (vec_list ?v). \<exists>m. x = Some m \<and> c_string (sm_name m)"
    using i by (cases "seg_metrics (txn_mem t s)"; simp add: seg_ok_def metric_list_ok_def)+
  from nr_vector_push_back_spec [OF v(1), of "Some \<lparr>sm_name = nm, sm_scoped = scoped\<rparr>"] obtain added w where
    w: "nr_vector_push_back (Some ?v) (Some \<lparr>sm_name = nm, sm_scoped = scoped\<rparr>) = Some (added, Some w)" "vector_inv w"
    "added \<longrightarrow> vec_list w = vec_list ?v @ [Some \<lparr>sm_name = nm, sm_scoped = scoped\<rparr>]" "\<not> added \<longrightarrow> w = ?v" by blast
  then have "metric_list_ok (Some w)" using v(2) nm by (cases added) (auto simp: metric_list_ok_def)
  with ok have "txn_ok L (set_seg t s (\<lambda>seg. seg\<lparr>seg_metrics := Some w\<rparr>))"
    by (intro txn_ok_set_seg) (simp_all add: seg_ok_def segment_duration_def)
  moreover have "nr_segment_add_metric t (Some s) (Some nm) scoped =
      Some (added, set_seg t s (\<lambda>seg. seg\<lparr>seg_metrics := Some w\<rparr>))"
    using w(1) by (cases "seg_metrics (txn_mem t s)") (simp_all add: nr_segment_add_metric_def nr_vector_create_def)
  ultimately show ?thesis by blast
qed

lemma set_timing_ok:
  assumes "txn_ok L t" and "\<not> in_heap t s"
  shows "txn_ok L (snd (nr_segment_set_timing t (Some s) start duration))"
  unfolding nr_segment_set_timing_def option.case snd_conv
  by (rule txn_ok_set_seg [OF assms(1)]) (use assms(2) in \<open>simp_all add: seg_ok_def\<close>)

lemma set_parent_ok:
  assumes ok: "txn_ok L t" and s: "s \<in> L" and p: "p \<in> L"
  shows "\<exists>moved t'. set_parent t s p = Some (moved, t') \<and> txn_ok L t'"
proof -
  have inv: "txn_inv L t" "seg_heap_inv L t" using ok by (auto simp: txn_ok_def)
  from nr_segment_set_parent_spec [OF txn_invD(1) [OF inv(1)] s p] obtain moved m where
    m: "nr_segment_set_parent (txn_mem t) (Some s) (Some p) = Some (moved, m)" "forest L m"
    "parents_of m = parents_of (txn_mem t) \<or> parents_of m = (parents_of (txn_mem t))(s := Some p)"
    "same_data (txn_mem t) m" by (metis (no_types, lifting))
  let ?t = "t\<lparr>txn_mem := m\<rparr>"
  note d = same_dataD [OF m(4)]
  have cc: "ctx_content ?t = ctx_content t" by (rule ctx_content_cong) (simp add: stacks_of_def)
  have "stacks_inv L ?t"
    by (rule stacks_inv_cong [OF txn_invD(5) [OF inv(1)]]) (simp_all add: stacks_of_def d)
  then have "txn_inv L ?t" using m(2) txn_invD [OF inv(1)] by (simp add: txn_inv_def seg_ok_def d)
  moreover have "seg_heap_inv L ?t"
  proof (rule seg_heap_inv_cong [OF inv(2)])
    fix u
    assume u: "u \<in> L" "in_heap t u"
    note hf = in_heap_facts [OF inv(2) u(2)]
    have "seg_parent (m u) \<noteq> NULL" using m(3) hf(2) by (cases "u = s") (auto simp: fun_eq_iff)
    then show "u \<in> L \<and> segment_duration (txn_mem ?t) u = segment_duration (txn_mem t) u
        \<and> seg_priority (txn_mem ?t u) = seg_priority (txn_mem t u)
        \<and> seg_parent (txn_mem ?t u) \<noteq> NULL \<and> (\<forall>c < 2 ^ 31. u \<notin> set (ctx_content ?t c))"
      using u(1) hf(3) cc by (simp add: d segment_duration_def)
  qed simp
  ultimately show ?thesis using ok m(1) by (auto simp: txn_ok_def set_parent_def)
qed


lemma blank_inv:
  assumes q: "queue_ok (span_queue t)" and slab: "nr_slab_create sysp n (n * 100) = Some slab"
  shows "txn_inv {} (txn_blank slab t)" "ctx_content (txn_blank slab t) c = []"
proof -
  from nr_stack_init_spec obtain v where v: "snd (nr_stack_init (Some (default_parent_stack t)) NR_STACK_DEFAULT_CAPACITY) = Some v"
    "stack_inv (Some v)" "stack_content (Some v) = []" by blast
  have h: "hashmap_inv (nr_hashmap_create True :: nat nr_hashmap)" "hm_lookup (nr_hashmap_create True :: nat nr_hashmap) = Map.empty"
    by (simp_all add: nr_hashmap_create_def hashmap_inv_create)
  show cc: "ctx_content (txn_blank slab t) c = []" for c
    using v h(2) by (simp add: txn_blank_def nr_get_time_def ctx_content_def)
  have "stacks_inv {} (txn_blank slab t)"
    using v h cc by (simp add: stacks_inv_def txn_blank_def nr_get_time_def)
  then show "txn_inv {} (txn_blank slab t)"
    using nr_slab_create_spec(1) [OF slab] q pool_inv_create(1) metrics_inv_create(1)
    by (simp add: txn_inv_def txn_blank_def nr_get_time_def table_ok_def forest_def links_def)
qed

lemma txn_blank_fields:
  "recording (txn_blank slab t)" "pool_list (trace_strings (txn_blank slab t)) = []"
  "force_current_segment (txn_blank slab t) = NULL" "segment_heap (txn_blank slab t) = NULL"
  "max_segments (txn_blank slab t) = max_segments t" "segment_slab (txn_blank slab t) = slab"
  by (simp_all add: txn_blank_def nr_get_time_def pool_inv_create)

text \<open>What the transaction looks like when it has begun.\<close>

definition begun :: "nr_slab \<Rightarrow> ('e, 'b) nrtxn \<Rightarrow> sid \<Rightarrow> ('e, 'b) nrtxn \<Rightarrow> bool" where
  "begun slab t s t' \<longleftrightarrow> segment_root t' = Some s \<and> txn_ok {s} t' \<and> seg_parent (txn_mem t' s) = NULL \<and> seg_exclusive_time (txn_mem t' s) = NULL
     \<and> ctx_content t' 0 = [s] \<and> heap_items (segment_heap t') = {#}
     \<and> (segment_heap t' \<noteq> NULL \<longleftrightarrow> max_segments t > 1)
     \<and> length (pool_list (trace_strings t')) \<le> 1
     \<and> length (vec_list (free_list (segment_slab t'))) \<le> length (vec_list (free_list slab))"

lemma begin_spec:
  assumes q: "queue_ok (span_queue t)" and slab: "nr_slab_create sysp n (n * 100) = Some slab"
  shows "\<exists>s t'. nr_txn_begin_segments sysp n t = Some (Some t') \<and> begun slab t s t'"
proof -
  let ?t0 = "txn_blank slab t"
  note inv0 = blank_inv(1) [OF q slab] and cc0 = blank_inv(2) [OF q slab] and t0 = txn_blank_fields [of slab t]
  from nr_segment_start_spec [OF inv0 t0(1), of NULL NULL] t0(2,3) obtain s t1 c where
    t1: "nr_segment_start ?t0 NULL NULL = Some (Some s, t1)" "txn_inv {s} t1"
    "frame t1 = frame (?t0\<lparr>segment_slab := segment_slab t1, trace_strings := trace_strings t1\<rparr>)"
    "seg_parent (txn_mem t1 s) = start_parent ?t0 NULL c" "context_ok NULL c (trace_strings t1)"
    "\<forall>d < 2 ^ 31. ctx_content t1 d = (if d = c then s # ctx_content ?t0 d else ctx_content ?t0 d)"
    "length (pool_list (trace_strings t1)) \<le> 1" "seg_exclusive_time (txn_mem t1 s) = NULL"
    "length (vec_list (free_list (segment_slab t1))) \<le> length (vec_list (free_list (segment_slab ?t0)))" by auto
  have c: "c = 0" using t1(5) by (simp add: context_ok_def)
  have par: "seg_parent (txn_mem t1 s) = NULL"
    using t1(4) c cc0 t0(3) by (simp add: start_parent_def main_current_def top_of_def)
  have ctx: "ctx_content t1 0 = [s]" using t1(6) c cc0 by simp
  have fr: "recording t1" "force_current_segment t1 = NULL" "segment_heap t1 = NULL" "max_segments t1 = max_segments t"
    using t1(3) t0 by (simp_all add: frame_def)
  let ?t2 = "t1\<lparr>segment_root := Some s\<rparr>"
  have "txn_inv {s} ?t2" using t1(2) txn_inv_cong(1) [of ?t2 t1] by (simp add: stacks_of_def)
  then have "txn_ok {s} ?t2" using fr by (simp add: txn_ok_def seg_heap_inv_def)
  then have "txn_ok {s} (set_seg ?t2 s (\<lambda>seg. seg\<lparr>seg_start_time := 0\<rparr>))"
    by (rule txn_ok_set_seg) (use fr in \<open>simp_all add: seg_ok_def heap_items_def\<close>)
  then have "txn_ok {s} (nr_segment_set_priority_flag (set_seg ?t2 s (\<lambda>seg. seg\<lparr>seg_start_time := 0\<rparr>)) (Some s)
      NR_SEGMENT_PRIORITY_ROOT)" (is "txn_ok {s} ?t3")
    unfolding nr_segment_set_priority_flag_def option.case
    by (rule txn_ok_set_seg) (use fr in \<open>simp_all add: seg_ok_def heap_items_def set_seg_def\<close>)
  then have ok3: "txn_ok {s} ?t3" .
  have f3: "segment_root ?t3 = Some s" "seg_parent (txn_mem ?t3 s) = NULL" "segment_heap ?t3 = NULL"
    "max_segments ?t3 = max_segments t" "trace_strings ?t3 = trace_strings t1" "segment_slab ?t3 = segment_slab t1"
    "seg_exclusive_time (txn_mem ?t3 s) = NULL"
    using par fr t1(8) by (simp_all add: nr_segment_set_priority_flag_def set_seg_def)
  have cc3: "ctx_content ?t3 0 = [s]"
    using ctx ctx_content_cong [of ?t3 t1] by (simp add: stacks_of_def nr_segment_set_priority_flag_def set_seg_def)
  let ?heap = "nr_minmax_heap_create (int (max_segments ?t3)) (Some (nr_segment_wrapped_span_priority_comparator (txn_mem ?t3))) True"
  let ?t' = "if max_segments ?t3 > 1 then ?t3\<lparr>segment_heap := ?heap\<rparr> else ?t3"
  have run: "nr_txn_begin_segments sysp n t = Some (Some ?t')"
    using slab t1(1) by (simp add: nr_txn_begin_segments_def Let_def)
  have bounds: "length (pool_list (trace_strings ?t3)) \<le> 1"
    "length (vec_list (free_list (segment_slab ?t3))) \<le> length (vec_list (free_list slab))"
    using t1(7,9) f3(5,6) t0(6) by simp_all
  show ?thesis
  proof (cases "max_segments ?t3 > 1")
    case True
    from heap_inv_create [OF span_priority_ok, of "int (max_segments ?t3)" "txn_mem ?t3" True] True obtain h where
      h: "?heap = Some h" "heap_inv h" "contents h = {#}" "heap_bound h \<noteq> 0"
      "heap_comparator h = nr_segment_wrapped_span_priority_comparator (txn_mem ?t3)" "heap_destructor h" by auto
    then have "heap_in (txn_mem ?t3) h = h" by (simp add: heap_in_def)
    with h ok3 have "txn_ok {s} (?t3\<lparr>segment_heap := ?heap\<rparr>)"
      using txn_inv_cong(1) [of "?t3\<lparr>segment_heap := ?heap\<rparr>" ?t3]
      by (simp add: txn_ok_def seg_heap_inv_def stacks_of_def)
    moreover have "ctx_content (?t3\<lparr>segment_heap := ?heap\<rparr>) 0 = [s]"
      using cc3 ctx_content_cong [of "?t3\<lparr>segment_heap := ?heap\<rparr>" ?t3] by (simp add: stacks_of_def)
    ultimately have "begun slab t s ?t'" using True f3 bounds h(1,3) unfolding begun_def by (simp add: heap_items_def)
    with run show ?thesis by blast
  next
    case False
    then have "begun slab t s ?t'" using f3 bounds ok3 cc3 unfolding begun_def by (simp add: heap_items_def)
    with run show ?thesis by blast
  qed
qed

lemma begin_ok:
  assumes q: "queue_ok (span_queue t)" and b: "nr_txn_begin_segments sysp n t = Some (Some t')"
  shows "txn_ok {s. segment_root t' = Some s} t'"
proof -
  from b obtain slab where slab: "nr_slab_create sysp n (n * 100) = Some slab"
    by (auto simp: nr_txn_begin_segments_def split: option.splits)
  from begin_spec [OF q slab] b obtain s where "begun slab t s t'" by auto
  then show ?thesis by (simp add: begun_def)
qed

lemma reach_ok: "txn_reach L t \<Longrightarrow> txn_ok L t"
proof (induction rule: txn_reach.induct)
  case (begin_txn t sysp n t')
  then show ?case by (rule begin_ok)
next
  case (start L t async_context par s t')
  with start_ok [OF start.IH start.hyps(2-4)] show ?case by auto
next
  case (end_segment L t s p t')
  with end_ok [OF end_segment.IH end_segment.hyps(2-4)] show ?case by auto
next
  case (discard L t s p t')
  have "seg_parent (txn_mem t s) \<noteq> NULL"
    using discard.hyps(5) by (auto simp: nr_segment_discard_def split: if_splits)
  then obtain q where "seg_parent (txn_mem t s) = Some q" by auto
  from discard_ok [OF discard.IH discard.hyps(2-4) this] discard.hyps(5) show ?case by auto
next
  case (move L t s p ok t')
  with set_parent_ok [OF move.IH move.hyps(2,3)] show ?case by auto
next
  case (timing L t s start duration ok t')
  with set_timing_ok [OF timing.IH timing.hyps(3), of start duration] show ?case by simp
next
  case (name L t s nm ok t')
  with set_name_ok [OF name.IH name.hyps(3), of s] show ?case by auto
next
  case (metric L t s nm scoped ok t')
  with add_metric_ok [OF metric.IH metric.hyps(2,3), of scoped] show ?case by auto
qed


section \<open>Properties of starting, ending and discarding\<close>

lemma example_begun:
  "\<exists>r t. txn_reach {r} t \<and> within_bounds {r} t \<and> (segment_heap t \<noteq> NULL \<longleftrightarrow> limit > 1)
     \<and> heap_items (segment_heap t) = {#} \<and> ctx_content t 0 = [r] \<and> seg_parent (txn_mem t r) = NULL \<and> segment_root t = Some r
     \<and> seg_exclusive_time (txn_mem t r) = NULL \<and> length (pool_list (trace_strings t)) \<le> 1 \<and> length (vec_list (free_list (segment_slab t))) = 0
     \<and> nr_txn_begin_segments 4096 320 (example_txn limit) = Some (Some t)"
proof -
  have ex: "queue_ok (span_queue (example_txn limit))" "max_segments (example_txn limit) = limit"
    by (simp_all add: example_txn_def queue_ok_def)
  obtain slab where slab: "nr_slab_create 4096 320 (320 * 100) = Some slab" "length (vec_list (free_list slab)) = 0"
    by (simp add: nr_slab_create_def aligned_size_def sizeof_page_header_def Let_def vector_inv_init)
  from begin_spec [OF ex(1) slab(1)] obtain r t where
    t: "nr_txn_begin_segments 4096 320 (example_txn limit) = Some (Some t)" "begun slab (example_txn limit) r t" by blast
  note b = t(2) [unfolded begun_def]
  have "{s. segment_root t = Some s} = {r}" using b by auto
  then have "txn_reach {r} t" using begin_txn [OF ex(1) t(1)] by simp
  moreover have "within_bounds {r} t" using b slab(2) by (simp add: within_bounds_def)
  ultimately show ?thesis using b slab(2) ex(2) t(1) by auto
qed

lemma example_begin:
  "\<exists>r (t :: (unit, unit) nrtxn). txn_reach {r} t \<and> within_bounds {r} t
     \<and> ctx_content t 0 = [r] \<and> seg_parent (txn_mem t r) = NULL"
  using example_begun [of 0] by blast

text \<open>The transaction of the examples with one segment below the root.\<close>

lemma example_started:
  "\<exists>r s t. txn_reach {r, s} t \<and> within_bounds {r, s} t \<and> (segment_heap t \<noteq> NULL \<longleftrightarrow> (limit :: nat) > 1) \<and> r \<noteq> s
     \<and> heap_items (segment_heap t) = {#} \<and> seg_parent (txn_mem t s) = Some r \<and> ctx_content (t :: (unit, unit) nrtxn) 0 = [s, r]
     \<and> segment_root t = Some r \<and> length (vec_list (free_list (segment_slab t))) = 0"
proof -
  from example_begun [of limit] obtain r t where
    t: "txn_reach {r} t" "within_bounds {r} t" "segment_heap t \<noteq> NULL \<longleftrightarrow> limit > 1"
    "heap_items (segment_heap t) = {#}" "ctx_content (t :: (unit, unit) nrtxn) 0 = [r]"
    "length (pool_list (trace_strings t)) \<le> 1" "length (vec_list (free_list (segment_slab t))) = 0" "segment_root t = Some r" by blast
  have ok: "txn_inv {r} t" "recording t" "force_current_segment t = NULL"
    using reach_ok [OF t(1)] by (simp_all add: txn_ok_def)
  from nr_segment_start_spec [OF ok(1,2), of NULL NULL] t(6) ok(3) obtain s t' c where
    t': "nr_segment_start t NULL NULL = Some (Some s, t')" "s \<notin> {r}" "context_ok NULL c (trace_strings t')"
    "seg_parent (txn_mem t' s) = start_parent t NULL c"
    "\<forall>d < 2 ^ 31. ctx_content t' d = (if d = c then s # ctx_content t d else ctx_content t d)"
    "frame t' = frame (t\<lparr>segment_slab := segment_slab t', trace_strings := trace_strings t'\<rparr>)"
    "length (pool_list (trace_strings t')) \<le> Suc (length (pool_list (trace_strings t)))"
    "length (vec_list (free_list (segment_slab t'))) \<le> length (vec_list (free_list (segment_slab t)))" by auto
  have c: "c = 0" using t'(3) by (simp add: context_ok_def)
  have "seg_parent (txn_mem t' s) = Some r" "ctx_content t' 0 = [s, r]"
    using t'(4,5) t(5) ok(3) c by (simp_all add: start_parent_def main_current_def top_of_def)
  moreover have "txn_reach (insert s {r}) t'" by (rule txn_reach.start [OF t(1,2) _ _ t'(1)]) simp_all
  moreover have "segment_heap t' = segment_heap t" using t'(6) by (simp add: frame_def)
  moreover have "within_bounds {r, s} t'" using t'(2,7,8) t(6,7) by (simp add: within_bounds_def)
  ultimately have "txn_reach {r, s} t' \<and> within_bounds {r, s} t' \<and> (segment_heap t' \<noteq> NULL \<longleftrightarrow> limit > 1) \<and> r \<noteq> s
     \<and> heap_items (segment_heap t') = {#} \<and> seg_parent (txn_mem t' s) = Some r \<and> ctx_content t' 0 = [s, r]
     \<and> segment_root t' = Some r \<and> length (vec_list (free_list (segment_slab t'))) = 0"
    using t'(2,8) t(3,4,7) frameD(5) [OF t'(6)] t(8) by (auto simp: insert_commute)
  then show ?thesis by blast
qed

text \<open>C1. In every state a transaction reaches, the segments alive form a forest in the memory of
  the slab: following parents ends, a parent is alive and has the segment among its children,
  and the children of a segment are exactly the segments whose parent it is, each once. The
  current segment of the main context, if there is one, is alive and belongs to it.\<close>

theorem transaction_tree_invariant:
  assumes "txn_reach L t"
  shows "(\<forall>s \<in> L. rooted (parents_of (txn_mem t)) s
        \<and> (\<forall>p. seg_parent (txn_mem t s) = Some p \<longrightarrow> p \<in> L \<and> s \<in> set (kids (txn_mem t) p))
        \<and> distinct (kids (txn_mem t) s) \<and> set (kids (txn_mem t) s) = {u \<in> L. seg_parent (txn_mem t u) = Some s})
    \<and> (\<exists>cur. nr_txn_get_current_segment t NULL = Some cur
        \<and> (\<forall>s. cur = Some s \<longrightarrow> s \<in> L \<and> seg_async_context (txn_mem t s) = 0))"
proof -
  have ok: "txn_inv L t" "force_current_segment t = NULL" using reach_ok [OF assms] by (simp_all add: txn_ok_def)
  have L: "links L {} (txn_mem t)" and r: "\<And>s. s \<in> L \<Longrightarrow> rooted (parents_of (txn_mem t)) s"
    using txn_invD(1) [OF ok(1)] by (auto simp: forest_def)
  note st = txn_invD(5) [OF ok(1)]
  have "p \<in> L \<and> s \<in> set (kids (txn_mem t) p)" if "s \<in> L" "seg_parent (txn_mem t s) = Some p" for s p
    using links_parent [OF L, of s p] that nth_mem [of "unat (seg_child_ix (txn_mem t s))" "kids (txn_mem t) p"] by simp
  moreover have "main_current t = Some s \<Longrightarrow> s \<in> L \<and> seg_async_context (txn_mem t s) = 0" for s
    using stacks_invD(6,7) [OF st, of 0 s] ok(2) by (cases "ctx_content t 0") (simp_all add: main_current_def top_of_def)
  ultimately show ?thesis
    using r links_distinct [OF L] links_set_kids [OF L] get_current_main [OF st] by simp
qed

theorem transaction_tree_invariant_witness:
  "\<exists>r (t :: (unit, unit) nrtxn). txn_reach {r} t \<and> kids (txn_mem t) r = []"
proof -
  from example_begin obtain r and t :: "(unit, unit) nrtxn" where
    t: "txn_reach {r} t" "seg_parent (txn_mem t r) = NULL" by blast
  from transaction_tree_invariant [OF t(1)] t(2) have "set (kids (txn_mem t) r) = {}" by auto
  with t(1) show ?thesis by auto
qed

text \<open>C8. \<open>nr_segment_start\<close> in a reachable state always returns a segment that was not in use,
  and reaches a state of the transaction again. The new segment hangs below the parent that
  was given; without one, below the current segment of its context, or, for the first segment
  of an asynchronous context, below the current segment of the main context, and it becomes
  the current segment of its own context. No other parent and no other context changes.\<close>

theorem nr_segment_start_correct:
  assumes "txn_reach L t" and "within_bounds L t"
    and "\<forall>c. async_context = Some c \<longrightarrow> c_string c" and "\<forall>p. par = Some p \<longrightarrow> p \<in> L"
  shows "\<exists>s t' c. nr_segment_start t par async_context = Some (Some s, t') \<and> s \<notin> L \<and> txn_reach (insert s L) t'
    \<and> seg_async_context (txn_mem t' s) = c \<and> context_ok async_context c (trace_strings t')
    \<and> (\<forall>u \<in> L. seg_parent (txn_mem t' u) = seg_parent (txn_mem t u))
    \<and> seg_parent (txn_mem t' s) = (case par of None \<Rightarrow> start_parent t async_context c | Some p \<Rightarrow> Some p)
    \<and> (\<forall>d < 2 ^ 31. ctx_content t' d = (if par = NULL \<and> d = c then s # ctx_content t d else ctx_content t d))"
proof -
  have ok: "txn_inv L t" "recording t" "\<forall>f. force_current_segment t = Some f \<longrightarrow> f \<in> L"
    using reach_ok [OF assms(1)] by (simp_all add: txn_ok_def)
  have b: "Suc (card L) < 2 ^ 60" "Suc (length (pool_list (trace_strings t))) < 2 ^ 31"
    using assms(2) by (simp_all add: within_bounds_def)
  from nr_segment_start_spec [OF ok(1,2) b assms(3,4) ok(3)] txn_reach.start [OF assms]
  show ?thesis by metis
qed

theorem nr_segment_start_correct_witness:
  "\<exists>r s (t :: (unit, unit) nrtxn) t'. txn_reach {r} t \<and> nr_segment_start t NULL NULL = Some (Some s, t')
    \<and> s \<noteq> r \<and> seg_parent (txn_mem t' s) = Some r"
proof -
  from example_begin obtain r and t :: "(unit, unit) nrtxn" where
    t: "txn_reach {r} t" "within_bounds {r} t" "ctx_content t 0 = [r]" by blast
  have "force_current_segment t = NULL" using reach_ok [OF t(1)] by (simp add: txn_ok_def)
  then have "start_parent t NULL 0 = Some r"
    using t(3) by (simp add: start_parent_def main_current_def top_of_def)
  with nr_segment_start_correct [OF t(1,2), of NULL NULL] t show ?thesis
    by (fastforce simp: context_ok_def)
qed





end
