(* ===== verification/Finalize.thy ===== *)
theory Finalize
  imports Transaction
begin

text \<open>
  The end of a transaction for its stacks of current segments
  (\<^verbatim>\<open>nr_txn_finalize_parent_stacks\<close> of \<^verbatim>\<open>axiom/nr_txn.c\<close>): the segments that are still
  open, in every context, are ended one after the other.
\<close>

section \<open>Open segments\<close>

definition open_segments :: "('e, 'b) nrtxn \<Rightarrow> sid set" where
  "open_segments t = {u. \<exists>c < 2 ^ 31. u \<in> set (ctx_content t c)} - set_option (segment_root t)"

lemma open_segments_cong:
  assumes "\<And>d. d < 2 ^ 31 \<Longrightarrow> ctx_content t' d = ctx_content t d" and "segment_root t' = segment_root t"
  shows "open_segments t' = open_segments t"
proof -
  have "(\<exists>d < 2 ^ 31. u \<in> set (ctx_content t' d)) \<longleftrightarrow> (\<exists>d < 2 ^ 31. u \<in> set (ctx_content t d))" for u
    using assms(1) by (metis (no_types))
  then show ?thesis using assms(2) by (simp add: open_segments_def)
qed

lemma open_segments_pop:
  assumes cc: "\<And>d. d < 2 ^ 31 \<Longrightarrow> ctx_content t' d = (if d = c then xs else ctx_content t d)"
    and c: "c < 2 ^ 31" "ctx_content t c = s # xs" and root: "segment_root t' = segment_root t"
  shows "open_segments t = open_segments t' \<union> ({s} - set_option (segment_root t))"
proof -
  have "u \<in> {u. \<exists>d < 2 ^ 31. u \<in> set (ctx_content t d)} \<longleftrightarrow> u \<in> insert s {u. \<exists>d < 2 ^ 31. u \<in> set (ctx_content t' d)}" for u
  proof -
    have "set (ctx_content t d) = (if d = c then insert s (set (ctx_content t' d)) else set (ctx_content t' d))" if "d < 2 ^ 31" for d
      using cc [OF that] c(2) by auto
    then have "(\<exists>d < 2 ^ 31. u \<in> set (ctx_content t d))
        \<longleftrightarrow> (\<exists>d < 2 ^ 31. u \<in> (if d = c then insert s (set (ctx_content t' d)) else set (ctx_content t' d)))"
      by (metis (no_types, lifting))
    also have "\<dots> \<longleftrightarrow> u = s \<or> (\<exists>d < 2 ^ 31. u \<in> set (ctx_content t' d))" using c(1) by (auto split: if_splits)
    finally show ?thesis by simp
  qed
  then have "{u. \<exists>d < 2 ^ 31. u \<in> set (ctx_content t d)} = insert s {u. \<exists>d < 2 ^ 31. u \<in> set (ctx_content t' d)}"
    by (rule set_eqI)
  then show ?thesis using root by (simp only: open_segments_def Un_Diff [symmetric]) simp
qed

text \<open>States from which the open segments can be ended: with a limit on segments, only the
  root may lack a parent, and the free list of the slab has room for every segment.\<close>

definition finalizable :: "sid set \<Rightarrow> ('e, 'b) nrtxn \<Rightarrow> bool" where
  "finalizable L t \<longleftrightarrow> txn_ok L t \<and> length (vec_list (free_list (segment_slab t))) + card L < 2 ^ 60
     \<and> (segment_heap t \<noteq> NULL \<longrightarrow> (\<forall>u \<in> open_segments t. seg_parent (txn_mem t u) \<noteq> NULL))"

text \<open>What ending segments does: the contexts \<open>D\<close> are emptied, and a segment that is no longer
  open has been counted or has been given up.\<close>

definition closed :: "nat set \<Rightarrow> sid set \<Rightarrow> ('e, 'b) nrtxn \<Rightarrow> sid set \<Rightarrow> ('e, 'b) nrtxn \<Rightarrow> bool" where
  "closed D L t L' t' \<longleftrightarrow> finalizable L' t' \<and> L' \<subseteq> L \<and> parent_stacks t' = parent_stacks t \<and> segment_root t' = segment_root t
     \<and> (\<forall>d < 2 ^ 31. ctx_content t' d = (if d \<in> D then [] else ctx_content t d))
     \<and> segment_count t' + card L + card (open_segments t') = segment_count t + card L' + card (open_segments t)"

lemma closed_refl: "finalizable L t \<Longrightarrow> \<forall>d \<in> D. d < 2 ^ 31 \<longrightarrow> ctx_content t d = [] \<Longrightarrow> closed D L t L t"
  by (simp add: closed_def)

lemma closed_trans: "closed D L t L1 t1 \<Longrightarrow> closed D' L1 t1 L2 t2 \<Longrightarrow> closed (D \<union> D') L t L2 t2"
  by (auto simp: closed_def)

lemma closed_all:
  assumes "closed D L t L' t'" and "\<And>c. c \<notin> D \<Longrightarrow> c < 2 ^ 31 \<Longrightarrow> ctx_content t c = []"
  shows "closed {c. c < 2 ^ 31} L t L' t'"
  using assms by (auto simp: closed_def split: if_splits)

definition stack_of :: "('e, 'b) nrtxn \<Rightarrow> nat \<Rightarrow> stack_ref \<Rightarrow> bool" where
  "stack_of t c r \<longleftrightarrow> (case r of Default_Stack \<Rightarrow> c = 0
     | Context_Stack p \<Rightarrow> 0 < c \<and> c < 2 ^ 31 \<and> hm_lookup (parent_stacks t) (index_key (of_nat c)) = Some p)"

lemma stack_of_facts:
  assumes "stacks_inv L t" and "stack_of t c r"
  shows "c < 2 ^ 31" "stack_inv (Some (get_stack t r))" "stack_content (Some (get_stack t r)) = ctx_content t c"
  using assms stacks_invD(2,3) [OF assms(1)]
  by (auto simp: stack_of_def get_stack_def ctx_content_def split: stack_ref.splits)

lemma ctx_content_put:
  assumes inv: "stacks_inv L t" and r: "stack_of t c r" and d: "d < 2 ^ 31"
  shows "ctx_content (put_stack t r v) d = (if d = c then stack_content (Some v) else ctx_content t d)"
proof (cases r)
  case Default_Stack
  with r show ?thesis by (simp add: stack_of_def put_stack_def ctx_content_def split: option.splits)
next
  case (Context_Stack p)
  with r have c: "0 < c" "c < 2 ^ 31" "hm_lookup (parent_stacks t) (index_key (of_nat c)) = Some p"
    by (simp_all add: stack_of_def)
  have "q \<noteq> p" if "hm_lookup (parent_stacks t) (index_key (of_nat d)) = Some q" "d \<noteq> c" for q
    using stacks_invD(4) [OF inv c(3), of "index_key (of_nat d)"] that index_key_of_nat [OF d c(2)] by auto
  with Context_Stack c show ?thesis by (auto simp: put_stack_def set_stack_def ctx_content_def split: option.splits)
qed

lemma put_stack_fields [simp]:
  "txn_mem (put_stack t r v) = txn_mem t" "frame (put_stack t r v) = frame t"
  "parent_stacks (put_stack t r v) = parent_stacks t" "unscoped_metrics (put_stack t r v) = unscoped_metrics t"
  "scoped_metrics (put_stack t r v) = scoped_metrics t" "span_queue (put_stack t r v) = span_queue t"
  "stack_next (put_stack t r v) = stack_next t"
  by (simp_all add: put_stack_def set_stack_def frame_def split: stack_ref.splits)

lemmas put_stack_frame [simp] = frameD [OF put_stack_fields(2)]

lemma pop_stacks_inv:
  assumes inv: "stacks_inv L t" and r: "stack_of t c r" and v: "stack_inv (Some v)"
    and sub: "set (stack_content (Some v)) \<subseteq> set (ctx_content t c)" "distinct (stack_content (Some v))"
  shows "stacks_inv L (put_stack t r v)"
  unfolding stacks_inv_def put_stack_fields
proof (intro conjI allI impI ballI)
  show "stack_inv (Some (default_parent_stack (put_stack t r v)))"
    using v stacks_invD(2) [OF inv] by (simp add: put_stack_def set_stack_def split: stack_ref.splits)
  fix k p
  assume k: "hm_lookup (parent_stacks t) k = Some p"
  show "stack_inv (Some (stack_mem (put_stack t r v) p))"
    using v stacks_invD(3) [OF inv k] by (simp add: put_stack_def set_stack_def split: stack_ref.splits)
  show "p < stack_next t" "context_key k" using stacks_invD(3) [OF inv k] by blast+
  fix l
  assume "hm_lookup (parent_stacks t) l = Some p"
  with k show "k = l" by (rule stacks_invD(4) [OF inv])
next
  fix d :: nat
  assume d: "d < 2 ^ 31"
  note cc = ctx_content_put [OF inv r d, of v]
  show "distinct (ctx_content (put_stack t r v) d)" using stacks_invD(5) [OF inv d] sub(2) cc by simp
  fix u
  assume "u \<in> set (ctx_content (put_stack t r v) d)"
  then have "u \<in> set (ctx_content t d)" using sub(1) cc by (auto split: if_splits)
  then show "u \<in> L" "seg_async_context (txn_mem t u) = d" using stacks_invD(6,7) [OF inv d] by blast+
qed (rule stacks_invD(1) [OF inv])

section \<open>Ending one segment\<close>

lemma finalizableD:
  assumes "finalizable L t"
  shows "txn_inv L t" "seg_heap_inv L t" "recording t" "force_current_segment t = NULL" "stacks_inv L t"
    "finite L" "finite (open_segments t)"
proof -
  show inv: "txn_inv L t" "seg_heap_inv L t" "recording t" "force_current_segment t = NULL"
    using assms by (simp_all add: finalizable_def txn_ok_def)
  show "stacks_inv L t" by (rule txn_invD(5) [OF inv(1)])
  show fin: "finite L" using txn_invD(1) [OF inv(1)] links_finite by (auto simp: forest_def)
  have "open_segments t \<subseteq> L" using stacks_invD(6) [OF \<open>stacks_inv L t\<close>] by (auto simp: open_segments_def)
  then show "finite (open_segments t)" using fin by (rule finite_subset)
qed

lemma pop_spec:
  assumes fin: "finalizable L t" and r: "stack_of t c r" and c: "ctx_content t c = s # xs"
  shows "\<exists>v. nr_stack_pop (Some (get_stack t r)) = (Some s, Some v) \<and> \<not> nr_stack_is_empty (Some (get_stack t r))
    \<and> finalizable L (put_stack t r v)
    \<and> (\<forall>d < 2 ^ 31. ctx_content (put_stack t r v) d = (if d = c then xs else ctx_content t d))
    \<and> open_segments t = open_segments (put_stack t r v) \<union> ({s} - set_option (segment_root t))
    \<and> (\<forall>d < 2 ^ 31. s \<notin> set (ctx_content (put_stack t r v) d))"
proof -
  note D = finalizableD [OF fin] and sf = stack_of_facts [OF finalizableD(5) [OF fin] r]
  from nr_stack_pop_spec [OF sf(2)] sf(3) c obtain v where
    v: "nr_stack_pop (Some (get_stack t r)) = (Some s, Some v)" "stack_inv (Some v)" "stack_content (Some v) = xs"
    by (cases "nr_stack_pop (Some (get_stack t r))") (auto simp: stack_inv_def split: option.splits)
  have "distinct (s # xs)" using stacks_invD(5) [OF D(5) sf(1)] c by simp
  then have xs: "s \<notin> set xs" "distinct xs" by simp_all
  let ?t = "put_stack t r v"
  have cc: "ctx_content ?t d = (if d = c then xs else ctx_content t d)" if "d < 2 ^ 31" for d
    using ctx_content_put [OF D(5) r that, of v] v(3) by simp
  have "s \<notin> set (ctx_content ?t d)" if d: "d < 2 ^ 31" for d
    using cc [OF d] xs(1) stacks_invD(7) [OF D(5) d, of s] stacks_invD(7) [OF D(5) sf(1), of s] c by auto
  moreover have op: "open_segments t = open_segments ?t \<union> ({s} - set_option (segment_root t))"
    using open_segments_pop [OF cc sf(1) c] by simp
  moreover have "finalizable L ?t"
  proof -
    have st: "stacks_inv L ?t" by (rule pop_stacks_inv [OF D(5) r v(2)]) (use v(3) c xs(2) in auto)
    have inv: "txn_inv L ?t" using D(1) st by (simp add: txn_inv_def)
    have off: "u \<notin> set (ctx_content ?t d)" if "in_heap t u" "d < 2 ^ 31" for u d
      using cc [OF that(2)] c in_heap_facts(3) [OF D(2) that] by (auto split: if_splits)
    have "seg_heap_inv L ?t"
      by (rule seg_heap_inv_cong [OF D(2)]) (use in_heap_facts(2) [OF D(2)] off in simp_all)
    with inv D(3,4) fin op show ?thesis by (auto simp: finalizable_def txn_ok_def)
  qed
  moreover have "\<not> nr_stack_is_empty (Some (get_stack t r))"
    using stack_size [OF sf(2)] sf(3) c by (auto simp: nr_stack_is_empty_def)
  ultimately show ?thesis using v(1) cc by blast
qed

lemma end_open_spec:
  assumes fin: "finalizable L t" and s: "s \<in> L" "\<forall>d < 2 ^ 31. s \<notin> set (ctx_content t d)"
    and ready: "segment_heap t \<noteq> NULL \<Longrightarrow> seg_parent (txn_mem t s) \<noteq> NULL \<and> \<not> in_heap t s"
  shows "\<exists>t' L'. nr_segment_end t (Some (Some s)) = Some (True, Some NULL, t') \<and> finalizable L' t' \<and> L' \<subseteq> L
    \<and> parent_stacks t' = parent_stacks t \<and> segment_root t' = segment_root t
    \<and> (\<forall>d < 2 ^ 31. ctx_content t' d = ctx_content t d) \<and> open_segments t' = open_segments t
    \<and> segment_count t' + card L = Suc (segment_count t) + card L'"
proof -
  note D = finalizableD [OF fin]
  have room: "length (vec_list (free_list (segment_slab t))) < 2 ^ 60" using fin by (simp add: finalizable_def)
  from nr_segment_end_spec [OF D(1,2) s(1) ready room] obtain ev t' where
    t': "nr_segment_end t (Some (Some s)) = Some (True, Some NULL, t')" and e: "ended L t s ev t'" by blast
  let ?L = "L - {u. Some u \<in> set ev}"
  note e = e [unfolded ended_def]
  have ev: "\<forall>d < 2 ^ 31. u \<notin> set (ctx_content t d)" if "Some u \<in> set ev" for u
  proof (cases "segment_heap t = NULL")
    case False
    with e have "heap_items (segment_heap t') + mset ev = add_mset (Some s) (heap_items (segment_heap t))" by simp
    with that have "Some u \<in># add_mset (Some s) (heap_items (segment_heap t))"
      by (metis set_mset_mset union_iff)
    then show ?thesis using s(2) in_heap_facts(3) [OF D(2), of u] by auto
  qed (use e that in simp)
  have "ctx_content t' d = ctx_content t d" if d: "d < 2 ^ 31" for d
  proof -
    have "ctx_content t' d = fold (\<lambda>x. remove1 (the x)) ev (remove1 s (ctx_content t d))" using e d by simp
    also have "remove1 s (ctx_content t d) = ctx_content t d" using s(2) d by (simp add: remove1_idem)
    also have "fold (\<lambda>x. remove1 (the x)) ev (ctx_content t d) = ctx_content t d"
      using ev d e by (cases ev) (auto simp: remove1_idem)
    finally show ?thesis .
  qed
  moreover from this have op: "open_segments t' = open_segments t" using e by (intro open_segments_cong) simp_all
  moreover have card: "card L = card ?L + length ev"
  proof (cases ev)
    case (Cons x xs)
    with e obtain u where u: "ev = [Some u]" "u \<in> L" by auto
    then have "?L = L - {u}" by auto
    with u card_Suc_Diff1 [OF D(6) u(2)] show ?thesis by simp
  qed simp
  moreover have "finalizable ?L t'"
    unfolding finalizable_def txn_ok_def
  proof (intro conjI impI ballI)
    show "txn_inv ?L t'" "seg_heap_inv ?L t'" "recording t'" "force_current_segment t' = NULL" using e D(3,4) by simp_all
    show "length (vec_list (free_list (segment_slab t'))) + card ?L < 2 ^ 60"
      using e fin card by (simp add: finalizable_def)
    fix u
    assume h: "segment_heap t' \<noteq> NULL" and u: "u \<in> open_segments t'"
    then have "segment_heap t \<noteq> NULL" "u \<in> open_segments t" using e op by auto
    moreover from this(2) have "u \<in> L" "Some u \<notin> set ev"
      using stacks_invD(6) [OF D(5), of _ u] ev [of u] by (auto simp: open_segments_def)
    ultimately show "seg_parent (txn_mem t' u) \<noteq> NULL" using e fin by (simp add: finalizable_def)
  qed
  moreover have "segment_count t' + card L = Suc (segment_count t) + card ?L" using e card by auto
  ultimately show ?thesis using t' e by (intro exI [of _ t'] exI [of _ ?L]) auto
qed

section \<open>Emptying the stacks\<close>

lemma end_segments_step:
  assumes fin: "finalizable L t" and r: "stack_of t c r" and c: "ctx_content t c = s # xs"
  shows "\<exists>L' t'. nr_txn_end_segments_in_stack r t = nr_txn_end_segments_in_stack r t' \<and> finalizable L' t' \<and> L' \<subseteq> L
    \<and> parent_stacks t' = parent_stacks t \<and> segment_root t' = segment_root t
    \<and> (\<forall>d < 2 ^ 31. ctx_content t' d = (if d = c then xs else ctx_content t d))
    \<and> segment_count t' + card L + card (open_segments t') = segment_count t + card L' + card (open_segments t)"
proof -
  from pop_spec [OF assms] obtain v where
    v: "nr_stack_pop (Some (get_stack t r)) = (Some s, Some v)" "\<not> nr_stack_is_empty (Some (get_stack t r))"
    "finalizable L (put_stack t r v)"
    "\<forall>d < 2 ^ 31. ctx_content (put_stack t r v) d = (if d = c then xs else ctx_content t d)"
    "open_segments t = open_segments (put_stack t r v) \<union> ({s} - set_option (segment_root t))"
    "\<forall>d < 2 ^ 31. s \<notin> set (ctx_content (put_stack t r v) d)" by blast
  let ?t = "put_stack t r v"
  note D = finalizableD [OF fin] and eq = nr_txn_end_segments_in_stack.simps [of r t]
  show ?thesis
  proof (cases "segment_root t = Some s")
    case True
    then have "nr_txn_end_segments_in_stack r t = nr_txn_end_segments_in_stack r ?t"
      using v(1,2) by (subst eq) (simp add: Let_def)
    moreover have "open_segments ?t = open_segments t" using v(5) True by simp
    ultimately have "nr_txn_end_segments_in_stack r t = nr_txn_end_segments_in_stack r ?t" "open_segments ?t = open_segments t" .
    with v(3,4) show ?thesis by (intro exI [of _ L] exI [of _ ?t]) simp
  next
    case False
    have c31: "c < 2 ^ 31" and s: "s \<in> L"
      using stack_of_facts(1) [OF D(5) r] stacks_invD(6) [OF D(5), of c s] c by simp_all
    have sc: "s \<in> set (ctx_content t c)" using c by simp
    have "s \<in> open_segments t" using False v(5) by simp
    then have ready: "seg_parent (txn_mem ?t s) \<noteq> NULL \<and> \<not> in_heap ?t s" if "segment_heap ?t \<noteq> NULL"
      using fin that in_heap_facts(3) [OF D(2) _ c31, of s] sc by (auto simp: finalizable_def)
    from end_open_spec [OF v(3) s v(6) ready] obtain t' L' where
      t': "nr_segment_end ?t (Some (Some s)) = Some (True, Some NULL, t')" "finalizable L' t'" "L' \<subseteq> L"
      "parent_stacks t' = parent_stacks ?t" "segment_root t' = segment_root ?t"
      "\<forall>d < 2 ^ 31. ctx_content t' d = ctx_content ?t d" "open_segments t' = open_segments ?t"
      "segment_count t' + card L = Suc (segment_count ?t) + card L'" by blast
    have "nr_txn_end_segments_in_stack r t = nr_txn_end_segments_in_stack r t'"
      using v(1,2) t'(1) False by (subst eq) (simp add: Let_def)
    moreover have "s \<notin> open_segments ?t" using v(6) by (simp add: open_segments_def)
    then have "card (open_segments t) = Suc (card (open_segments ?t))"
      using v(5) False finalizableD(7) [OF v(3)] Diff_triv [of "{s}" "set_option (segment_root t)"] by simp
    ultimately show ?thesis using t' v(4) by (intro exI [of _ L'] exI [of _ t']) simp
  qed
qed

lemma end_segments_returns:
  assumes "finalizable L t" and "stack_of t c r"
  shows "\<exists>L' t'. nr_txn_end_segments_in_stack r t = Some t' \<and> closed {c} L t L' t'"
  using assms
proof (induction "ctx_content t c" arbitrary: L t)
  case Nil
  note sf = stack_of_facts [OF finalizableD(5) [OF Nil(2)] Nil(3)]
  have "nr_stack_is_empty (Some (get_stack t r))"
    using stack_size [OF sf(2)] sf(3) Nil(1) by (simp add: nr_stack_is_empty_def unat_eq_0)
  then have "nr_txn_end_segments_in_stack r t = Some t" by (subst nr_txn_end_segments_in_stack.simps) simp
  then show ?case using closed_refl [OF Nil(2), of "{c}"] Nil(1) by auto
next
  case (Cons s xs)
  from end_segments_step [OF Cons(3,4) Cons(2) [symmetric]] obtain L' t' where
    t': "nr_txn_end_segments_in_stack r t = nr_txn_end_segments_in_stack r t'" "finalizable L' t'" "L' \<subseteq> L"
    "parent_stacks t' = parent_stacks t" "segment_root t' = segment_root t"
    "\<forall>d < 2 ^ 31. ctx_content t' d = (if d = c then xs else ctx_content t d)"
    "segment_count t' + card L + card (open_segments t') = segment_count t + card L' + card (open_segments t)" by blast
  have r: "stack_of t' c r" using Cons(4) t'(4) by (simp add: stack_of_def split: stack_ref.splits)
  have "xs = ctx_content t' c" using t'(6) stack_of_facts(1) [OF finalizableD(5) [OF Cons(3)] Cons(4)] by simp
  from Cons(1) [OF this t'(2) r] obtain L'' t'' where
    "nr_txn_end_segments_in_stack r t' = Some t''" "closed {c} L' t' L'' t''" by blast
  with t' show ?case by (intro exI [of _ L''] exI [of _ t'']) (auto simp: closed_def)
qed

lemma hashmap_entries:
  assumes inv: "hashmap_inv h"
  shows "(k, v) \<in> set (concat (buckets h)) \<longleftrightarrow> hm_lookup h k = Some v"
proof
  assume "(k, v) \<in> set (concat (buckets h))"
  then obtain i where i: "i < length (buckets h)" "(k, v) \<in> set (buckets h ! i)" by (metis UN_E in_set_conv_nth set_concat)
  then have "distinct (map fst (buckets h ! i))" "k \<noteq> []" "nr_hashmap_hash_key (log2_num_buckets h) k = i"
    using inv by (force simp: hashmap_inv_def)+
  with i(2) show "hm_lookup h k = Some v" by (simp add: hm_lookup_def bucket_of_def)
next
  assume "hm_lookup h k = Some v"
  then have "(k, v) \<in> set (bucket_of h k)" by (auto simp: hm_lookup_def split: if_splits dest: map_of_SomeD)
  then show "(k, v) \<in> set (concat (buckets h))" using hashmap_inv_bucket(1) [OF inv, of k] by (auto simp: bucket_of_def)
qed

lemma end_all_contexts:
  assumes "finalizable L t" and "\<forall>(k, p) \<in> set es. hm_lookup (parent_stacks t) k = Some p"
  shows "\<exists>L' t'. fold (\<lambda>(k, p) t. Option.bind t (nr_txn_end_segments_in_stack (Context_Stack p))) es (Some t) = Some t'
    \<and> closed {c. 0 < c \<and> c < 2 ^ 31 \<and> index_key (of_nat c) \<in> fst ` set es} L t L' t'"
  using assms
proof (induction es arbitrary: L t)
  case Nil
  then show ?case using closed_refl [OF Nil(1), of "{}"] by auto
next
  case (Cons e es)
  obtain k p where e: "e = (k, p)" by (cases e)
  with Cons.prems(2) have lk: "hm_lookup (parent_stacks t) k = Some p" by simp
  then obtain c where c: "0 < c" "c < 2 ^ 31" "k = index_key (of_nat c)"
    using stacks_invD(3) [OF finalizableD(5) [OF Cons.prems(1)]] unfolding context_key_def by blast
  have "stack_of t c (Context_Stack p)" using c lk by (simp add: stack_of_def)
  from end_segments_returns [OF Cons.prems(1) this] obtain L1 t1 where
    t1: "nr_txn_end_segments_in_stack (Context_Stack p) t = Some t1" "closed {c} L t L1 t1" by blast
  then have "finalizable L1 t1" "\<forall>(k, p) \<in> set es. hm_lookup (parent_stacks t1) k = Some p"
    using Cons.prems(2) by (simp_all add: closed_def)
  from Cons.IH [OF this] obtain L' t' where
    t': "fold (\<lambda>(k, p) t. Option.bind t (nr_txn_end_segments_in_stack (Context_Stack p))) es (Some t1) = Some t'"
    "closed {c. 0 < c \<and> c < 2 ^ 31 \<and> index_key (of_nat c) \<in> fst ` set es} L1 t1 L' t'" by blast
  have "{c} \<union> {c. 0 < c \<and> c < 2 ^ 31 \<and> index_key (of_nat c) \<in> fst ` set es}
    = {c. 0 < c \<and> c < 2 ^ 31 \<and> index_key (of_nat c) \<in> fst ` set (e # es)}"
    using c e index_key_of_nat [OF _ c(2)] by auto
  with closed_trans [OF t1(2) t'(2)] t'(1) t1(1) e show ?case by (intro exI [of _ L'] exI [of _ t']) simp
qed

lemma finalize_parent_stacks_spec:
  assumes fin: "finalizable L t"
  shows "\<exists>L' t'. nr_txn_finalize_parent_stacks t = Some t' \<and> closed {c. c < 2 ^ 31} L t L' t'"
proof -
  let ?es = "concat (buckets (parent_stacks t))"
  have inv: "hashmap_inv (parent_stacks t)" by (rule stacks_invD(1) [OF finalizableD(5) [OF fin]])
  have es: "\<forall>(k, p) \<in> set ?es. hm_lookup (parent_stacks t) k = Some p" using hashmap_entries [OF inv] by blast
  have ap: "fold (\<lambda>b. fold f b) bs x = fold f (concat bs) x" for f :: "string \<times> nat \<Rightarrow> ('a, 'b) nrtxn option \<Rightarrow> ('a, 'b) nrtxn option" and bs x
    by (induction bs arbitrary: x) simp_all
  from end_all_contexts [OF fin es] obtain L1 t1 where
    t1: "fold (\<lambda>(k, p) t. Option.bind t (nr_txn_end_segments_in_stack (Context_Stack p))) ?es (Some t) = Some t1"
    "closed {c. 0 < c \<and> c < 2 ^ 31 \<and> index_key (of_nat c) \<in> fst ` set ?es} L t L1 t1" by blast
  have "finalizable L1 t1" using t1(2) by (simp add: closed_def)
  from end_segments_returns [OF this, of 0 Default_Stack] obtain L' t' where
    t': "nr_txn_end_segments_in_stack Default_Stack t1 = Some t'" "closed {0} L1 t1 L' t'"
    by (auto simp: stack_of_def)
  let ?D = "{c. 0 < c \<and> c < 2 ^ 31 \<and> index_key (of_nat c) \<in> fst ` set ?es} \<union> {0}"
  have D: "closed ?D L t L' t'" by (rule closed_trans [OF t1(2) t'(2)])
  have "ctx_content t c = []" if "c \<notin> ?D" "c < 2 ^ 31" for c
  proof -
    have "index_key (of_nat c) \<notin> fst ` set ?es" "0 < c" using that by auto
    then have "hm_lookup (parent_stacks t) (index_key (of_nat c)) = None"
      using hashmap_entries [OF inv, of "index_key (of_nat c)"] by (metis fst_conv image_eqI not_None_eq)
    with \<open>0 < c\<close> show ?thesis by (simp add: ctx_content_def)
  qed
  then have "closed {c. c < 2 ^ 31} L t L' t'" by (rule closed_all [OF D])
  moreover have "nr_txn_finalize_parent_stacks t = Some t'"
    using t1(1) t'(1) by (simp add: nr_txn_finalize_parent_stacks_def nr_hashmap_apply_def ap)
  ultimately show ?thesis by blast
qed

section \<open>The end of the stacks\<close>



end
