(* ===== verification/SegmentIterate.thy ===== *)
theory SegmentIterate
  imports SegmentEnd
begin

text \<open>
  The traversal of the segment tree (\<^verbatim>\<open>nr_segment_iterate\<close> of
  \<^verbatim>\<open>axiom/nr_segment.c\<close>) and what the agent does with it: destroying the tree, and the
  first pass over a finished transaction, which collects the segments for traces and spans
  in bounded heaps and sums up the exclusive times. The user data of a traversal is a second
  component of the state; a callback returns the new state and the callback to be run after
  the children, if any. \<open>None\<close> is an invalid access or a traversal that does not end.
\<close>

section \<open>The traversal\<close>

type_synonym ('e, 'b, 'u) iter_state = "('e, 'b) nrtxn \<times> 'u"
type_synonym ('e, 'b, 'u) nr_segment_post_iter = "sid \<Rightarrow> ('e, 'b, 'u) iter_state \<Rightarrow> ('e, 'b, 'u) iter_state option"
type_synonym ('e, 'b, 'u) nr_segment_iter =
  "sid \<Rightarrow> ('e, 'b, 'u) iter_state \<Rightarrow> (('e, 'b, 'u) nr_segment_post_iter ptr \<times> ('e, 'b, 'u) iter_state) option"

definition nr_segment_toggle_color :: "nr_segment_color \<Rightarrow> nr_segment_color" where
  "nr_segment_toggle_color color = (if color = NR_SEGMENT_WHITE then NR_SEGMENT_GREY else NR_SEGMENT_WHITE)"

definition set_color :: "sid \<Rightarrow> nr_segment_color \<Rightarrow> ('e, 'b, 'u) iter_state \<Rightarrow> ('e, 'b, 'u) iter_state" where
  "set_color s c st = (set_seg (fst st) s (\<lambda>seg. seg\<lparr>seg_color := c\<rparr>), snd st)"

text \<open>
  The helper calls itself for every child from a loop: \<open>Visit\<close> is a call of the helper, and
  \<open>Children s i n\<close> is the loop over the children of \<open>s\<close>, of which there were \<open>n\<close>, at index \<open>i\<close>.
\<close>

datatype iter_call = Visit "sid ptr" | Children sid nat nat

partial_function (option) nr_segment_iterate_helper ::
  "('e, 'b, 'u) nr_segment_iter \<Rightarrow> nr_segment_color \<Rightarrow> nr_segment_color \<Rightarrow> iter_call
     \<Rightarrow> ('e, 'b, 'u) iter_state \<Rightarrow> ('e, 'b, 'u) iter_state option" where
  "nr_segment_iterate_helper callback reset_color mark call st =
     (case call of
        Visit root \<Rightarrow>
          (case root of
             None \<Rightarrow> Some st
           | Some s \<Rightarrow>
               if seg_color (txn_mem (fst st) s) = reset_color then
                 Option.bind (callback s (set_color s mark st)) (\<lambda>(post, st').
                   Option.bind
                     (nr_segment_iterate_helper callback reset_color mark
                       (Children s 0 (unat (nr_segment_children_size (txn_mem (fst st)) (Some s)))) st')
                     (\<lambda>st''. case post of None \<Rightarrow> Some st'' | Some p \<Rightarrow> p s st''))
               else Some st)
      | Children s i n \<Rightarrow>
          if i < n then
            Option.bind
              (nr_segment_iterate_helper callback reset_color mark
                (Visit (nr_segment_children_get (txn_mem (fst st)) (Some s) (of_nat i))) st)
              (nr_segment_iterate_helper callback reset_color mark (Children s (i + 1) n))
          else Some st)"

definition nr_segment_iterate ::
  "sid ptr \<Rightarrow> ('e, 'b, 'u) nr_segment_iter ptr \<Rightarrow> ('e, 'b, 'u) iter_state \<Rightarrow> ('e, 'b, 'u) iter_state option" where
  "nr_segment_iterate root callback st =
     (case (callback, root) of
        (Some cb, Some s) \<Rightarrow>
          let color = seg_color (txn_mem (fst st) s)
          in nr_segment_iterate_helper cb color (nr_segment_toggle_color color) (Visit root) st
      | _ \<Rightarrow> Some st)"

section \<open>Destroying the tree\<close>

definition nr_segment_destroy_children_post_callback :: "('e, 'b, 'u) nr_segment_post_iter" where
  "nr_segment_destroy_children_post_callback s st =
     (let t = set_seg (fst st) s nr_segment_destroy_fields
      in Some (t\<lparr>txn_mem := nr_segment_children_deinit (txn_mem t) (Some s)\<rparr>, snd st))"

definition nr_segment_destroy_children_callback :: "('e, 'b, 'u) nr_segment_iter" where
  "nr_segment_destroy_children_callback s st = Some (Some nr_segment_destroy_children_post_callback, st)"

definition nr_segment_destroy_tree :: "sid ptr \<Rightarrow> ('e, 'b) nrtxn \<Rightarrow> ('e, 'b) nrtxn option" where
  "nr_segment_destroy_tree root t =
     (case root of None \<Rightarrow> Some t
      | Some _ \<Rightarrow> map_option fst (nr_segment_iterate root (Some nr_segment_destroy_children_callback) (t, ())))"

section \<open>The first pass over a finished transaction\<close>

record nr_segment_tree_to_heap_metadata =
  meta_span_heap :: "sid nr_minmax_heap ptr"
  meta_trace_heap :: "sid nr_minmax_heap ptr"
  meta_total_time :: nrtime
  meta_main_context :: "nr_exclusive_time ptr"

definition nr_segment_heap_create ::
  "int \<Rightarrow> (sid ptr \<Rightarrow> sid ptr \<Rightarrow> int) ptr \<Rightarrow> sid nr_minmax_heap ptr" where
  "nr_segment_heap_create bound comparator = nr_minmax_heap_create bound comparator False"

text \<open>The comparators read the segments in the memory of the moment.\<close>

definition insert_with ::
  "(sid ptr \<Rightarrow> sid ptr \<Rightarrow> int) \<Rightarrow> sid nr_minmax_heap ptr \<Rightarrow> sid \<Rightarrow> sid nr_minmax_heap ptr" where
  "insert_with cmp heap s = snd (nr_minmax_heap_insert (map_option (\<lambda>h. h\<lparr>heap_comparator := cmp\<rparr>) heap) (Some s))"

definition nr_segment_stoh_post_iterator_callback ::
  "('e, 'b, nr_segment_tree_to_heap_metadata) nr_segment_post_iter" where
  "nr_segment_stoh_post_iterator_callback s st =
     (case st of (t, metadata) \<Rightarrow>
        let seg = txn_mem t s;
            (exclusive_time, et) = nr_exclusive_time_calculate (seg_exclusive_time seg);
            t = set_seg t s (\<lambda>seg. seg\<lparr>seg_exclusive_time := et\<rparr>);
            metadata = metadata\<lparr>meta_total_time := (meta_total_time metadata + exclusive_time) mod 2 ^ 64\<rparr>
        in do {
          t \<leftarrow> merge_metrics (segment_metric_list t s)
                 (nr_time_duration (seg_start_time seg) (seg_stop_time seg)) exclusive_time t;
          Some (if seg_parent (txn_mem t s) \<noteq> NULL
                then set_seg t s (\<lambda>seg. seg\<lparr>seg_exclusive_time :=
                       the (snd (nr_exclusive_time_destroy (Some (seg_exclusive_time seg))))\<rparr>)
                else t, metadata)
        })"

definition stoh_parent_time :: "('e, 'b) nrtxn \<Rightarrow> sid \<Rightarrow> ('e, 'b) nrtxn" where
  "stoh_parent_time t s =
     (case seg_parent (txn_mem t s) of
        Some p \<Rightarrow> if seg_async_context (txn_mem t p) = seg_async_context (txn_mem t s)
                  then add_exclusive_child t p s else t
      | None \<Rightarrow> t)"

definition stoh_main_time ::
  "nr_segment \<Rightarrow> nr_segment_tree_to_heap_metadata \<Rightarrow> nr_segment_tree_to_heap_metadata" where
  "stoh_main_time seg metadata =
     (if seg_async_context seg \<noteq> 0 \<and> meta_main_context metadata \<noteq> NULL
      then metadata\<lparr>meta_main_context := snd (nr_exclusive_time_add_child (meta_main_context metadata)
             (seg_start_time seg) (seg_stop_time seg))\<rparr>
      else metadata)"

definition stoh_heaps ::
  "seg_mem \<Rightarrow> sid \<Rightarrow> nr_segment_tree_to_heap_metadata \<Rightarrow> nr_segment_tree_to_heap_metadata" where
  "stoh_heaps m s metadata =
     metadata\<lparr>meta_trace_heap := (if meta_trace_heap metadata = NULL then NULL
          else insert_with (nr_segment_wrapped_duration_comparator m) (meta_trace_heap metadata) s),
        meta_span_heap := (if meta_span_heap metadata = NULL then NULL
          else insert_with (nr_segment_wrapped_span_priority_comparator m) (meta_span_heap metadata) s)\<rparr>"

definition nr_segment_stoh_iterator_callback ::
  "('e, 'b, nr_segment_tree_to_heap_metadata) nr_segment_iter" where
  "nr_segment_stoh_iterator_callback s st =
     (case st of (t, metadata) \<Rightarrow>
        let t = ensure_exclusive t s;
            t = stoh_parent_time t s;
            metadata = stoh_main_time (txn_mem t s) metadata;
            metadata = stoh_heaps (txn_mem t) s metadata
        in Some (Some nr_segment_stoh_post_iterator_callback, (t, metadata)))"

definition nr_segment_tree_to_heap ::
  "sid ptr \<Rightarrow> ('e, 'b) nrtxn \<Rightarrow> nr_segment_tree_to_heap_metadata
     \<Rightarrow> (('e, 'b) nrtxn \<times> nr_segment_tree_to_heap_metadata) option" where
  "nr_segment_tree_to_heap root t metadata =
     nr_segment_iterate root (Some nr_segment_stoh_iterator_callback) (t, metadata)"

section \<open>The nearest sampled ancestor\<close>

text \<open>\<open>sampled\<close> is the answer of \<^verbatim>\<open>nr_set_contains\<close>, whose tree is generated by the vendored libbsd.\<close>

partial_function (option) sampled_ancestor_loop ::
  "(sid \<Rightarrow> bool) \<Rightarrow> seg_mem \<Rightarrow> sid ptr \<Rightarrow> sid ptr \<Rightarrow> sid ptr option" where
  "sampled_ancestor_loop sampled m root current =
     (case current of None \<Rightarrow> Some NULL
      | Some c \<Rightarrow>
          if sampled c then Some current
          else if current = root then Some NULL
          else sampled_ancestor_loop sampled m root (seg_parent (m c)))"

definition nr_segment_tree_get_nearest_sampled_ancestor ::
  "('e, 'b) nrtxn \<Rightarrow> (sid \<Rightarrow> bool) ptr \<Rightarrow> sid ptr \<Rightarrow> sid ptr option" where
  "nr_segment_tree_get_nearest_sampled_ancestor t sampled_set segment =
     (case (segment, sampled_set) of
        (Some s, Some sampled) \<Rightarrow>
          if seg_txn (txn_mem t s) = NULL then Some NULL
          else sampled_ancestor_loop sampled (txn_mem t) (segment_root t) (seg_parent (txn_mem t s))
      | _ \<Rightarrow> Some NULL)"

section \<open>The traversal ends\<close>

text \<open>
  The segments whose children are segments of the same finite set, in any shape: shared
  children and cycles are allowed.
\<close>

definition children_in :: "sid set \<Rightarrow> seg_mem \<Rightarrow> bool" where
  "children_in L m \<longleftrightarrow> finite L
     \<and> (\<forall>s \<in> L. \<forall>i c. nr_segment_children_get m (Some s) i = Some c \<longrightarrow> c \<in> L)"

definition same_colors :: "seg_mem \<Rightarrow> seg_mem \<Rightarrow> bool" where
  "same_colors m m' \<longleftrightarrow> (\<forall>u. seg_color (m' u) = seg_color (m u))"

text \<open>A step that always returns and leaves colours and the set of segments alone.\<close>

definition step_keeps :: "sid set \<Rightarrow> (sid \<Rightarrow> ('e, 'b, 'u) iter_state \<Rightarrow> ('e, 'b, 'u) iter_state option) \<Rightarrow> bool" where
  "step_keeps L f \<longleftrightarrow> (\<forall>s \<in> L. \<forall>st. children_in L (txn_mem (fst st)) \<longrightarrow>
     (\<exists>st'. f s st = Some st' \<and> children_in L (txn_mem (fst st')) \<and> same_colors (txn_mem (fst st)) (txn_mem (fst st'))))"

definition callback_keeps :: "sid set \<Rightarrow> ('e, 'b, 'u) nr_segment_iter \<Rightarrow> bool" where
  "callback_keeps L cb \<longleftrightarrow> (\<forall>s \<in> L. \<forall>st. children_in L (txn_mem (fst st)) \<longrightarrow>
     (\<exists>post st'. cb s st = Some (post, st') \<and> children_in L (txn_mem (fst st'))
        \<and> same_colors (txn_mem (fst st)) (txn_mem (fst st')) \<and> (\<forall>p. post = Some p \<longrightarrow> step_keeps L p)))"

definition unvisited :: "sid set \<Rightarrow> nr_segment_color \<Rightarrow> ('e, 'b, 'u) iter_state \<Rightarrow> sid set" where
  "unvisited L c st = {s \<in> L. seg_color (txn_mem (fst st) s) = c}"

lemma children_get_cong:
  assumes "seg_children (m' s) = seg_children (m s)"
  shows "nr_segment_children_get m' (Some s) i = nr_segment_children_get m (Some s) i"
  using assms by (simp add: nr_segment_children_get_def nr_segment_children_size_def)

lemma set_color_simps [simp]:
  "seg_children (txn_mem (fst (set_color s c st)) u) = seg_children (txn_mem (fst st) u)"
  "seg_color (txn_mem (fst (set_color s c st)) u) = (if u = s then c else seg_color (txn_mem (fst st) u))"
  by (simp_all add: set_color_def set_seg_def)

lemma children_in_set_color [simp]:
  "children_in L (txn_mem (fst (set_color s c st))) = children_in L (txn_mem (fst st))"
proof -
  have "nr_segment_children_get (txn_mem (fst (set_color s c st))) (Some u) i =
      nr_segment_children_get (txn_mem (fst st)) (Some u) i" for u i
    by (rule children_get_cong) (rule set_color_simps(1))
  then show ?thesis by (simp add: children_in_def)
qed

lemma unvisited_colors:
  "same_colors (txn_mem (fst st)) (txn_mem (fst st')) \<Longrightarrow> unvisited L c st' = unvisited L c st"
  by (simp add: unvisited_def same_colors_def)

lemma unvisited_set_color:
  "s \<in> unvisited L reset st \<Longrightarrow> mark \<noteq> reset \<Longrightarrow> unvisited L reset (set_color s mark st) = unvisited L reset st - {s}"
  by (auto simp: unvisited_def simp del: split_paired_All)

text \<open>What a call of the helper does: it returns, keeps the set, and colours only.\<close>

definition call_in :: "sid set \<Rightarrow> iter_call \<Rightarrow> bool" where
  "call_in L call = (case call of Visit None \<Rightarrow> True | Visit (Some s) \<Rightarrow> s \<in> L | Children s i n \<Rightarrow> s \<in> L)"

definition returns ::
  "sid set \<Rightarrow> ('e, 'b, 'u) nr_segment_iter \<Rightarrow> nr_segment_color \<Rightarrow> nr_segment_color \<Rightarrow> iter_call
     \<Rightarrow> ('e, 'b, 'u) iter_state \<Rightarrow> bool" where
  "returns L cb reset mark call st \<longleftrightarrow> (\<exists>st'. nr_segment_iterate_helper cb reset mark call st = Some st'
     \<and> children_in L (txn_mem (fst st')) \<and> unvisited L reset st' \<subseteq> unvisited L reset st)"

lemma children_return:
  assumes visit: "\<And>st root. children_in L (txn_mem (fst st)) \<Longrightarrow> card (unvisited L reset st) \<le> k \<Longrightarrow>
      call_in L (Visit root) \<Longrightarrow> returns L cb reset mark (Visit root) st"
    and st: "children_in L (txn_mem (fst st))" "card (unvisited L reset st) \<le> k" "s \<in> L"
  shows "returns L cb reset mark (Children s i n) st"
  using st(1,2)
proof (induction "n - i" arbitrary: i st)
  case 0
  then show ?case by (simp add: returns_def nr_segment_iterate_helper.simps)
next
  case (Suc d)
  have lt: "i < n" using Suc.hyps(2) by simp
  let ?root = "nr_segment_children_get (txn_mem (fst st)) (Some s) (of_nat i)"
  have "call_in L (Visit ?root)"
    using Suc.prems(1) st(3) by (cases ?root) (auto simp: call_in_def children_in_def)
  from visit [OF Suc.prems this] obtain st1 where
    st1: "nr_segment_iterate_helper cb reset mark (Visit ?root) st = Some st1" "children_in L (txn_mem (fst st1))"
    "unvisited L reset st1 \<subseteq> unvisited L reset st" by (auto simp: returns_def)
  have "finite (unvisited L reset st)" using Suc.prems(1) by (simp add: children_in_def unvisited_def)
  then have "card (unvisited L reset st1) \<le> k" using card_mono [OF _ st1(3)] Suc.prems(2) by simp
  moreover have "d = n - Suc i" using Suc.hyps(2) by simp
  ultimately have "returns L cb reset mark (Children s (Suc i) n) st1" using Suc.hyps(1) st1(2) by blast
  then obtain st2 where
    "nr_segment_iterate_helper cb reset mark (Children s (Suc i) n) st1 = Some st2" "children_in L (txn_mem (fst st2))"
    "unvisited L reset st2 \<subseteq> unvisited L reset st1" unfolding returns_def by blast
  with st1 lt show ?case
    unfolding returns_def nr_segment_iterate_helper.simps [of _ _ _ "Children s i n"] by auto
qed

lemma visit_returns:
  assumes cb: "callback_keeps L cb" and "mark \<noteq> reset"
    and "children_in L (txn_mem (fst st))" and "card (unvisited L reset st) \<le> k" and "call_in L (Visit root)"
  shows "returns L cb reset mark (Visit root) st"
  using assms(3-)
proof (induction k arbitrary: st root rule: less_induct)
  case (less k)
  show ?case
  proof (cases "\<exists>s. root = Some s \<and> s \<in> unvisited L reset st")
    case False
    then show ?thesis using less.prems
      by (cases root) (auto simp: returns_def nr_segment_iterate_helper.simps unvisited_def call_in_def)
  next
    case True
    then obtain s where root: "root = Some s" and s: "s \<in> unvisited L reset st" by blast
    then have sL: "s \<in> L" "seg_color (txn_mem (fst st) s) = reset" by (auto simp: unvisited_def)
    let ?st = "set_color s mark st"
    have fin: "finite (unvisited L reset st)" using less.prems(1) by (simp add: children_in_def unvisited_def)
    have small: "card (unvisited L reset ?st) < k"
      using unvisited_set_color [OF s assms(2)] card_Diff1_less [OF fin s] less.prems(2) by simp
    from cb sL(1) less.prems(1) obtain post st1 where
      st1: "cb s ?st = Some (post, st1)" "children_in L (txn_mem (fst st1))"
      "same_colors (txn_mem (fst ?st)) (txn_mem (fst st1))" "\<forall>p. post = Some p \<longrightarrow> step_keeps L p"
      unfolding callback_keeps_def by (metis children_in_set_color)
    have un1: "unvisited L reset st1 = unvisited L reset ?st" by (rule unvisited_colors [OF st1(3)])
    have "card (unvisited L reset st1) \<le> card (unvisited L reset ?st)" using un1 by simp
    from children_return [OF less.IH [OF small] st1(2) this sL(1)] obtain st2 where
      st2: "nr_segment_iterate_helper cb reset mark
        (Children s 0 (unat (nr_segment_children_size (txn_mem (fst st)) (Some s)))) st1 = Some st2"
      "children_in L (txn_mem (fst st2))" "unvisited L reset st2 \<subseteq> unvisited L reset st1"
      unfolding returns_def by blast
    have sub: "unvisited L reset st2 \<subseteq> unvisited L reset st" using st2(3) un1 unvisited_set_color [OF s assms(2)] by blast
    have eq: "nr_segment_iterate_helper cb reset mark (Visit root) st =
        (case post of None \<Rightarrow> Some st2 | Some p \<Rightarrow> p s st2)"
      using root sL(2) st1(1) st2(1) by (simp add: nr_segment_iterate_helper.simps [of _ _ _ "Visit _"])
    show ?thesis
    proof (cases post)
      case None
      with eq st2(2) sub show ?thesis by (simp add: returns_def)
    next
      case (Some p)
      with st1(4) sL(1) st2(2) obtain st3 where
        "p s st2 = Some st3" "children_in L (txn_mem (fst st3))" "same_colors (txn_mem (fst st2)) (txn_mem (fst st3))"
        unfolding step_keeps_def by blast
      with eq Some sub unvisited_colors [of st2 st3 L reset] show ?thesis by (simp add: returns_def)
    qed
  qed
qed

lemma toggle_color_neq: "nr_segment_toggle_color c \<noteq> c"
  by (cases c) (simp_all add: nr_segment_toggle_color_def)

end
