(* ===== verification/SegmentTree.thy ===== *)
theory SegmentTree
  imports SegmentIterate
begin

text \<open>
  What the traversal of a well-formed segment tree does: it is equivalent to running its
  callbacks over the tree in depth-first order, entering every segment before its children
  and leaving it after them.
\<close>

section \<open>Trees of segments\<close>

datatype seg_tree = Seg_Node sid "seg_tree list"

fun tree_root :: "seg_tree \<Rightarrow> sid" where
  "tree_root (Seg_Node s ts) = s"

fun tree_nodes :: "seg_tree \<Rightarrow> sid list" where
  "tree_nodes (Seg_Node s ts) = s # concat (map tree_nodes ts)"

text \<open>The tree that the memory holds.\<close>

fun tree_at :: "seg_mem \<Rightarrow> seg_tree \<Rightarrow> bool" where
  "tree_at m (Seg_Node s ts) \<longleftrightarrow> children_inv (seg_children (m s)) \<and> kids m s = map tree_root ts
     \<and> (\<forall>t \<in> set ts. tree_at m t)"

datatype iter_event = Enter sid | Leave sid

fun tree_events :: "seg_tree \<Rightarrow> iter_event list" where
  "tree_events (Seg_Node s ts) = Enter s # concat (map tree_events ts) @ [Leave s]"

text \<open>Running the events: entering a segment colours it.\<close>

fun run_events ::
  "(sid \<Rightarrow> ('e, 'b, 'u) iter_state \<Rightarrow> ('e, 'b, 'u) iter_state option) \<Rightarrow> ('e, 'b, 'u) nr_segment_post_iter
     \<Rightarrow> nr_segment_color \<Rightarrow> iter_event list \<Rightarrow> ('e, 'b, 'u) iter_state \<Rightarrow> ('e, 'b, 'u) iter_state option" where
  "run_events pre post mark [] st = Some st"
| "run_events pre post mark (Enter s # es) st = Option.bind (pre s (set_color s mark st)) (run_events pre post mark es)"
| "run_events pre post mark (Leave s # es) st = Option.bind (post s st) (run_events pre post mark es)"

lemma run_events_append:
  "run_events pre post mark (es @ fs) st = Option.bind (run_events pre post mark es st) (run_events pre post mark fs)"
proof (induction es arbitrary: st)
  case (Cons e es)
  then have "run_events pre post mark (es @ fs) =
      (\<lambda>st. Option.bind (run_events pre post mark es st) (run_events pre post mark fs))" by (simp add: fun_eq_iff)
  then show ?case by (cases e) simp_all
qed simp

lemma run_events_Nil: "run_events pre post mark [] = Some"
  by (rule ext) simp

lemma tree_root_in: "tree_root t \<in> set (tree_nodes t)"
  by (cases t) simp

section \<open>The traversal runs the events\<close>

text \<open>Steps that leave the children and the colours of all segments alone, when they return.\<close>

definition shape_kept :: "seg_mem \<Rightarrow> seg_mem \<Rightarrow> bool" where
  "shape_kept m m' \<longleftrightarrow> (\<forall>u. seg_children (m' u) = seg_children (m u) \<and> seg_color (m' u) = seg_color (m u))"

definition keeps_shape :: "(sid \<Rightarrow> ('e, 'b, 'u) iter_state \<Rightarrow> ('e, 'b, 'u) iter_state option) \<Rightarrow> bool" where
  "keeps_shape f \<longleftrightarrow> (\<forall>s st st'. f s st = Some st' \<longrightarrow> shape_kept (txn_mem (fst st)) (txn_mem (fst st')))"

lemma keeps_shapeD: "keeps_shape f \<Longrightarrow> f s st = Some st' \<Longrightarrow> shape_kept (txn_mem (fst st)) (txn_mem (fst st'))"
  unfolding keeps_shape_def by blast

text \<open>The segments that a sequence of events enters.\<close>

fun entered :: "iter_event list \<Rightarrow> sid set" where
  "entered [] = {}"
| "entered (Enter s # es) = insert s (entered es)"
| "entered (Leave s # es) = entered es"

lemma entered_append [simp]: "entered (es @ fs) = entered es \<union> entered fs"
  by (induction es rule: entered.induct) auto

lemma entered_concat: "entered (concat ess) = (\<Union>es \<in> set ess. entered es)"
  by (induction ess) auto

lemma entered_tree: "entered (tree_events t) = set (tree_nodes t)"
  by (induction t) (simp add: entered_concat)

lemma run_events_shape:
  assumes "keeps_shape pre" and "keeps_shape post" and "run_events pre post mark es st = Some st'"
  shows "seg_children (txn_mem (fst st') u) = seg_children (txn_mem (fst st) u)
    \<and> (u \<notin> entered es \<longrightarrow> seg_color (txn_mem (fst st') u) = seg_color (txn_mem (fst st) u))"
  using assms(3)
proof (induction es arbitrary: st)
  case (Cons e es)
  show ?case
  proof (cases e)
    case (Enter s)
    with Cons.prems obtain st1 where "pre s (set_color s mark st) = Some st1" "run_events pre post mark es st1 = Some st'"
      by (auto simp: bind_eq_Some_conv simp del: split_paired_Ex)
    with Cons.IH [of st1] keeps_shapeD [OF assms(1), of s "set_color s mark st" st1] Enter show ?thesis
      by (auto simp: shape_kept_def simp del: split_paired_All)
  next
    case (Leave s)
    with Cons.prems obtain st1 where "post s st = Some st1" "run_events pre post mark es st1 = Some st'"
      by (auto simp: bind_eq_Some_conv simp del: split_paired_Ex)
    with Cons.IH [of st1] keeps_shapeD [OF assms(2), of s st st1] Leave show ?thesis
      by (auto simp: shape_kept_def simp del: split_paired_All)
  qed
qed simp

lemma tree_at_cong:
  assumes "\<And>u. u \<in> set (tree_nodes t) \<Longrightarrow> seg_children (m' u) = seg_children (m u)"
  shows "tree_at m' t = tree_at m t"
  using assms
proof (induction t)
  case (Seg_Node s ts)
  have "tree_at m' t = tree_at m t" if "t \<in> set ts" for t
    using Seg_Node.IH [OF that] Seg_Node.prems that by auto
  moreover have "seg_children (m' s) = seg_children (m s)" using Seg_Node.prems by simp
  ultimately show ?case by simp
qed

definition traversable :: "nr_segment_color \<Rightarrow> ('e, 'b, 'u) iter_state \<Rightarrow> seg_tree \<Rightarrow> bool" where
  "traversable reset st t \<longleftrightarrow> tree_at (txn_mem (fst st)) t \<and> distinct (tree_nodes t)
     \<and> (\<forall>u \<in> set (tree_nodes t). seg_color (txn_mem (fst st) u) = reset)"

lemma traversable_after:
  assumes "keeps_shape pre" and "keeps_shape post" and "run_events pre post mark es st = Some st'"
    and "traversable reset st t" and "entered es \<inter> set (tree_nodes t) = {}"
  shows "traversable reset st' t"
proof -
  note sh = run_events_shape [OF assms(1-3)]
  have "tree_at (txn_mem (fst st')) t = tree_at (txn_mem (fst st)) t"
    by (rule tree_at_cong) (use sh in blast)
  moreover have "seg_color (txn_mem (fst st') u) = seg_color (txn_mem (fst st) u)" if "u \<in> set (tree_nodes t)" for u
    using sh [of u] assms(5) that by blast
  ultimately show ?thesis using assms(4) by (simp add: traversable_def)
qed

lemma children_loop_runs:
  assumes pre: "keeps_shape pre" and post: "keeps_shape post"
    and visit: "\<And>t st. t \<in> set ts \<Longrightarrow> traversable reset st t \<Longrightarrow>
      nr_segment_iterate_helper cb reset mark (Visit (Some (tree_root t))) st = run_events pre post mark (tree_events t) st"
    and "\<forall>t \<in> set (drop i ts). traversable reset st t" and "distinct (concat (map tree_nodes (drop i ts)))"
    and "children_inv (seg_children (txn_mem (fst st) s))" and "kids (txn_mem (fst st)) s = map tree_root ts"
    and len: "length ts < 2 ^ 64"
  shows "nr_segment_iterate_helper cb reset mark (Children s i (length ts)) st =
    run_events pre post mark (concat (map tree_events (drop i ts))) st"
  using assms(4-7)
proof (induction "length ts - i" arbitrary: i st)
  case 0
  then show ?case by (simp add: nr_segment_iterate_helper.simps)
next
  case (Suc d)
  then have i: "i < length ts" by simp
  let ?m = "txn_mem (fst st)"
  have dr: "drop i ts = ts ! i # drop (Suc i) ts" using i by (simp add: Cons_nth_drop_Suc)
  have "unat (of_nat i :: size_t) = i" using i len by (simp add: unat_of_nat)
  then have get: "nr_segment_children_get ?m (Some s) (of_nat i) = Some (tree_root (ts ! i))"
    using nr_segment_children_get_eq [of ?m s "of_nat i"] Suc.prems(3,4) i by simp
  have first: "nr_segment_iterate_helper cb reset mark (Visit (Some (tree_root (ts ! i)))) st =
      run_events pre post mark (tree_events (ts ! i)) st"
    using visit [of "ts ! i" st] Suc.prems(1) i dr by simp
  show ?case
  proof (cases "run_events pre post mark (tree_events (ts ! i)) st")
    case None
    then show ?thesis using first get i dr
      by (simp add: nr_segment_iterate_helper.simps [of _ _ _ "Children s i _"] run_events_append)
  next
    case (Some st1)
    note sh = run_events_shape [OF pre post Some]
    have sep: "set (tree_nodes (ts ! i)) \<inter> set (tree_nodes t) = {}" if "t \<in> set (drop (Suc i) ts)" for t
      using Suc.prems(2) that unfolding dr by auto
    have "\<forall>t \<in> set (drop (Suc i) ts). traversable reset st1 t"
      using traversable_after [OF pre post Some] Suc.prems(1) sep unfolding dr entered_tree by simp
    moreover have "distinct (concat (map tree_nodes (drop (Suc i) ts)))" using Suc.prems(2) unfolding dr by simp
    moreover have "children_inv (seg_children (txn_mem (fst st1) s))" "kids (txn_mem (fst st1)) s = map tree_root ts"
      using sh [of s] Suc.prems(3,4) by simp_all
    ultimately have "nr_segment_iterate_helper cb reset mark (Children s (Suc i) (length ts)) st1 =
        run_events pre post mark (concat (map tree_events (drop (Suc i) ts))) st1"
      using Suc.hyps by simp
    then show ?thesis using first get i dr Some
      by (simp add: nr_segment_iterate_helper.simps [of _ _ _ "Children s i _"] run_events_append)
  qed
qed

lemma helper_runs_events:
  assumes cb: "\<And>s st. cb s st = map_option (\<lambda>st. (Some post, st)) (pre s st)"
    and pre: "keeps_shape pre" and post: "keeps_shape post" and "mark \<noteq> reset"
    and "traversable reset st t" and "length (tree_nodes t) < 2 ^ 64"
  shows "nr_segment_iterate_helper cb reset mark (Visit (Some (tree_root t))) st = run_events pre post mark (tree_events t) st"
  using assms(5,6)
proof (induction t arbitrary: st)
  case (Seg_Node s ts)
  let ?m = "txn_mem (fst st)" and ?st = "set_color s mark st"
  have inv: "children_inv (seg_children (?m s))" "kids ?m s = map tree_root ts" "seg_color (?m s) = reset"
    and sub: "\<forall>t \<in> set ts. traversable reset st t" and dist: "distinct (concat (map tree_nodes ts))"
    and new: "s \<notin> set (concat (map tree_nodes ts))"
    using Seg_Node.prems(1) by (auto simp: traversable_def distinct_concat_iff)
  have sz: "unat (nr_segment_children_size ?m (Some s)) = length ts"
    using nr_segment_children_size_nat [of ?m s] inv(1,2) by simp
  have short: "length (tree_nodes t) < 2 ^ 64" if "t \<in> set ts" for t
    using Seg_Node.prems(2) member_le_sum_list [of "length (tree_nodes t)" "map (length \<circ> tree_nodes) ts"] that
    by (simp add: length_concat comp_def)
  have "length ts \<le> sum_list (map (length \<circ> tree_nodes) us)" if "ts = us" for us
  proof -
    have "length us \<le> sum_list (map (length \<circ> tree_nodes) us)"
    proof (induction us)
      case (Cons t us)
      then show ?case by (cases t) simp
    qed simp
    with that show ?thesis by simp
  qed
  from this [of ts] have len: "length ts < 2 ^ 64" using Seg_Node.prems(2) by (simp add: length_concat comp_def)
  show ?case
  proof (cases "pre s ?st")
    case None
    then show ?thesis using inv(3) by (simp add: nr_segment_iterate_helper.simps [of _ _ _ "Visit _"] cb)
  next
    case (Some st1)
    note sh = keeps_shapeD [OF pre Some]
    have chain: "seg_children (txn_mem (fst st1) u) = seg_children (?m u)"
      "u \<noteq> s \<Longrightarrow> seg_color (txn_mem (fst st1) u) = seg_color (?m u)" for u
      using sh by (simp_all add: shape_kept_def del: split_paired_All)
    have "traversable reset st1 t" if "t \<in> set ts" for t
    proof -
      have "u \<noteq> s" if "u \<in> set (tree_nodes t)" for u using new that \<open>t \<in> set ts\<close> by auto
      with chain(2) have "\<forall>u \<in> set (tree_nodes t). seg_color (txn_mem (fst st1) u) = seg_color (?m u)" by blast
      moreover have "tree_at (txn_mem (fst st1)) t = tree_at ?m t" by (rule tree_at_cong) (rule chain(1))
      ultimately show ?thesis using sub that by (simp add: traversable_def)
    qed
    then have "nr_segment_iterate_helper cb reset mark (Children s 0 (length ts)) st1 =
        run_events pre post mark (concat (map tree_events ts)) st1"
      using children_loop_runs [OF pre post Seg_Node.IH, of ts 0 st1 s] dist inv len chain(1) short by simp
    moreover have "run_events pre post mark [Leave s] = post s" by (rule ext) (simp add: run_events_Nil)
    ultimately show ?thesis using inv(3) Some sz cb [of s ?st]
      by (simp add: nr_segment_iterate_helper.simps [of _ _ _ "Visit _"] run_events_append)
  qed
qed

section \<open>A forest holds a tree below every segment\<close>

definition parent_rel :: "sid set \<Rightarrow> seg_mem \<Rightarrow> (sid \<times> sid) set" where
  "parent_rel L m = {(c, p). c \<in> L \<and> seg_parent (m c) = Some p}"

lemma parent_rel_acyclic:
  assumes "forest L m"
  shows "acyclic (parent_rel L m)"
proof (rule acyclicI, rule allI)
  fix s
  show "(s, s) \<notin> (parent_rel L m)\<^sup>+"
  proof
    assume cyc: "(s, s) \<in> (parent_rel L m)\<^sup>+"
    then have "s \<in> L" by (induction rule: converse_trancl_induct) (auto simp: parent_rel_def)
    then have "rooted (parents_of m) s" using assms by (simp add: forest_def)
    then show False using cyc
    proof (induction rule: rooted.induct)
      case (root s)
      then show ?case by (auto elim: converse_tranclE simp: parent_rel_def)
    next
      case (step s p)
      from step.prems obtain q where q: "(s, q) \<in> parent_rel L m" "(q, s) \<in> (parent_rel L m)\<^sup>*"
        by (metis tranclD)
      with step.hyps(1) have "q = p" by (simp add: parent_rel_def)
      with q have "(p, p) \<in> (parent_rel L m)\<^sup>+" by (metis rtrancl_into_trancl1)
      then show ?case by (rule step.IH)
    qed
  qed
qed

lemma parent_rel_wf:
  assumes "forest L m"
  shows "wf (parent_rel L m)"
proof (rule finite_acyclic_wf [OF _ parent_rel_acyclic [OF assms]])
  have "parent_rel L m \<subseteq> (\<lambda>c. (c, the (seg_parent (m c)))) ` L" by (auto simp: parent_rel_def image_iff)
  then show "finite (parent_rel L m)"
    using assms finite_surj [of L] by (auto simp: forest_def links_def)
qed

lemma forest_kids:
  assumes "forest L m" and "s \<in> L"
  shows "children_inv (seg_children (m s))" "distinct (kids m s)"
    "c \<in> set (kids m s) \<longleftrightarrow> c \<in> L \<and> seg_parent (m c) = Some s"
proof -
  have L: "links L {} m" using assms(1) by (simp add: forest_def)
  show "children_inv (seg_children (m s))" using L assms(2) by (simp add: links_def)
  show "distinct (kids m s)" by (rule links_distinct [OF L assms(2)])
  show "c \<in> set (kids m s) \<longleftrightarrow> c \<in> L \<and> seg_parent (m c) = Some s"
    using links_set_kids [OF L assms(2)] by blast
qed

lemma tree_nodes_below:
  assumes "forest L m" and "tree_root t \<in> L" and "tree_at m t"
  shows "set (tree_nodes t) = {u. (u, tree_root t) \<in> (parent_rel L m)\<^sup>*}"
  using assms(2,3)
proof (induction t)
  case (Seg_Node s ts)
  have kid: "tree_root t \<in> L \<and> (tree_root t, s) \<in> parent_rel L m" if "t \<in> set ts" for t
    using forest_kids(3) [OF assms(1), of s "tree_root t"] Seg_Node.prems that by (simp add: parent_rel_def)
  have IH: "set (tree_nodes t) = {u. (u, tree_root t) \<in> (parent_rel L m)\<^sup>*}" if "t \<in> set ts" for t
    using Seg_Node.IH [OF that] kid [OF that] Seg_Node.prems(2) that by simp
  show ?case
  proof (rule set_eqI)
    fix u
    show "u \<in> set (tree_nodes (Seg_Node s ts)) \<longleftrightarrow> u \<in> {u. (u, tree_root (Seg_Node s ts)) \<in> (parent_rel L m)\<^sup>*}"
    proof
      assume "u \<in> set (tree_nodes (Seg_Node s ts))"
      then consider "u = s" | t where "t \<in> set ts" "u \<in> set (tree_nodes t)" by auto
      then show "u \<in> {u. (u, tree_root (Seg_Node s ts)) \<in> (parent_rel L m)\<^sup>*}"
      proof cases
        case (2 t)
        with IH [OF 2(1)] kid [OF 2(1)] show ?thesis by (auto intro: rtrancl_into_rtrancl)
      qed simp
    next
      assume "u \<in> {u. (u, tree_root (Seg_Node s ts)) \<in> (parent_rel L m)\<^sup>*}"
      then have "(u, s) \<in> (parent_rel L m)\<^sup>*" by simp
      then show "u \<in> set (tree_nodes (Seg_Node s ts))"
      proof (cases rule: rtranclE)
        case (step c)
        then have "c \<in> set (kids m s)" using forest_kids(3) [OF assms(1), of s c] Seg_Node.prems(1)
          by (simp add: parent_rel_def)
        then obtain t where "t \<in> set ts" "c = tree_root t" using Seg_Node.prems(2) by auto
        with IH [of t] step(1) show ?thesis by auto
      qed simp
    qed
  qed
qed

lemma below_disjoint:
  assumes F: "forest L m" and c: "(c, s) \<in> parent_rel L m" and d: "(d, s) \<in> parent_rel L m" and "c \<noteq> d"
    and u: "(u, c) \<in> (parent_rel L m)\<^sup>*" "(u, d) \<in> (parent_rel L m)\<^sup>*"
  shows False
proof -
  have no: False if "(x, y) \<in> (parent_rel L m)\<^sup>*" "x \<noteq> y" "(x, s) \<in> parent_rel L m" "(y, s) \<in> parent_rel L m" for x y
  proof -
    from that(1,2) obtain z where z: "(x, z) \<in> parent_rel L m" "(z, y) \<in> (parent_rel L m)\<^sup>*"
      by (metis converse_rtranclE)
    then have "z = s" using that(3) by (simp add: parent_rel_def)
    with z(2) that(4) have "(s, s) \<in> (parent_rel L m)\<^sup>+" by (metis rtrancl_into_trancl1)
    then show False using parent_rel_acyclic [OF F] by (simp add: acyclic_def)
  qed
  have "single_valued (parent_rel L m)" by (auto simp: single_valued_def parent_rel_def)
  from single_valued_confluent [OF this u] no c d assms(4) show False by metis
qed

lemma distinct_concat_map:
  assumes "distinct xs" and "\<And>x. x \<in> set xs \<Longrightarrow> distinct (g x)"
    and "\<And>x y. x \<in> set xs \<Longrightarrow> y \<in> set xs \<Longrightarrow> x \<noteq> y \<Longrightarrow> set (g x) \<inter> set (g y) = {}"
  shows "distinct (concat (map g xs))"
  using assms
proof (induction xs)
  case (Cons x xs)
  have "set (g x) \<inter> set (g y) = {}" if "y \<in> set xs" for y
    using Cons.prems(1) Cons.prems(3) [of x y] that by auto
  with Cons show ?case by auto
qed simp

lemma forest_tree:
  assumes F: "forest L m" and "r \<in> L"
  shows "\<exists>t. tree_root t = r \<and> tree_at m t \<and> distinct (tree_nodes t)"
  using parent_rel_wf [OF F] assms(2)
proof (induction r rule: wf_induct_rule)
  case (less s)
  note k = forest_kids [OF F less.prems]
  have "\<exists>t. tree_root t = c \<and> tree_at m t \<and> distinct (tree_nodes t)" if "c \<in> set (kids m s)" for c
    using less.IH [of c] that k(3) [of c] by (simp add: parent_rel_def)
  then obtain f where f: "\<And>c. c \<in> set (kids m s) \<Longrightarrow> tree_root (f c) = c \<and> tree_at m (f c) \<and> distinct (tree_nodes (f c))"
    by metis
  let ?ts = "map f (kids m s)"
  have root: "map tree_root ?ts = kids m s" using f by (simp add: comp_def map_idI)
  have at: "tree_at m (Seg_Node s ?ts)" using k(1) root f by auto
  have rel: "(c, s) \<in> parent_rel L m" if "c \<in> set (kids m s)" for c using that k(3) [of c] by (simp add: parent_rel_def)
  have nodes: "set (tree_nodes (f c)) = {u. (u, c) \<in> (parent_rel L m)\<^sup>*}" if "c \<in> set (kids m s)" for c
    using tree_nodes_below [OF F, of "f c"] f [OF that] that k(3) [of c] by simp
  have "distinct (concat (map (tree_nodes \<circ> f) (kids m s)))"
  proof (rule distinct_concat_map [OF k(2)])
    fix c
    assume c: "c \<in> set (kids m s)"
    show "distinct ((tree_nodes \<circ> f) c)" using f [OF c] by simp
    fix d
    assume d: "d \<in> set (kids m s)" "c \<noteq> d"
    show "set ((tree_nodes \<circ> f) c) \<inter> set ((tree_nodes \<circ> f) d) = {}"
      using below_disjoint [OF F rel [OF c] rel [OF d(1)] d(2)] nodes [OF c] nodes [OF d(1)] by auto
  qed
  moreover have "s \<notin> set (tree_nodes (f c))" if "c \<in> set (kids m s)" for c
  proof
    assume "s \<in> set (tree_nodes (f c))"
    then have "(s, s) \<in> (parent_rel L m)\<^sup>+" using nodes [OF that] rel [OF that] by (metis mem_Collect_eq rtrancl_into_trancl1)
    then show False using parent_rel_acyclic [OF F] by (simp add: acyclic_def)
  qed
  ultimately have "distinct (tree_nodes (Seg_Node s ?ts))" by auto
  with at show ?case by (intro exI [of _ "Seg_Node s ?ts"]) simp
qed

lemma iterate_spec:
  assumes F: "forest L (txn_mem (fst st))" and r: "r \<in> L"
    and col: "\<forall>u \<in> L. seg_color (txn_mem (fst st) u) = seg_color (txn_mem (fst st) r)"
    and pre: "keeps_shape pre" and post: "keeps_shape post"
    and cb: "cb = (\<lambda>s st. map_option (\<lambda>st. (Some post, st)) (pre s st))"
  shows "\<exists>t. tree_root t = r \<and> tree_at (txn_mem (fst st)) t \<and> distinct (tree_nodes t)
    \<and> set (tree_nodes t) = {u. (u, r) \<in> (parent_rel L (txn_mem (fst st)))\<^sup>*} \<and> set (tree_nodes t) \<subseteq> L
    \<and> nr_segment_iterate (Some r) (Some cb) st =
        run_events pre post (nr_segment_toggle_color (seg_color (txn_mem (fst st) r))) (tree_events t) st"
proof -
  let ?m = "txn_mem (fst st)"
  from forest_tree [OF F r] obtain t where t: "tree_root t = r" "tree_at ?m t" "distinct (tree_nodes t)" by blast
  have nodes: "set (tree_nodes t) = {u. (u, r) \<in> (parent_rel L ?m)\<^sup>*}"
    using tree_nodes_below [OF F, of t] t r by simp
  have sub: "set (tree_nodes t) \<subseteq> L"
  proof
    fix u
    assume "u \<in> set (tree_nodes t)"
    then have "(u, r) \<in> (parent_rel L ?m)\<^sup>*" using nodes by blast
    then show "u \<in> L" by (cases rule: converse_rtranclE) (use r in \<open>auto simp: parent_rel_def\<close>)
  qed
  have fin: "finite L" "card L < 2 ^ 60" using F by (simp_all add: forest_def links_def)
  have "length (tree_nodes t) \<le> card L" using card_mono [OF fin(1) sub] distinct_card [OF t(3)] by simp
  then have len: "length (tree_nodes t) < 2 ^ 64" using fin(2) by simp
  have "traversable (seg_color (?m r)) st t" using t sub col unfolding traversable_def by blast
  from helper_runs_events [OF _ pre post toggle_color_neq this len, of cb] t(1)
  have "nr_segment_iterate (Some r) (Some cb) st =
      run_events pre post (nr_segment_toggle_color (seg_color (?m r))) (tree_events t) st"
    by (simp add: nr_segment_iterate_def Let_def cb)
  with t nodes sub show ?thesis by blast
qed

section \<open>Properties\<close>

text \<open>C16. \<open>nr_segment_iterate\<close> always ends, also when the children of the segments form cycles or
  are shared, for every callback that itself returns and leaves colours and the set of
  segments alone: a segment is entered only while it has its old colour.\<close>

theorem nr_segment_iterate_terminates:
  assumes "children_in L (txn_mem (fst st))" and "callback_keeps L cb" and "r \<in> L"
  shows "\<exists>st'. nr_segment_iterate (Some r) (Some cb) st = Some st'"
proof -
  let ?c = "seg_color (txn_mem (fst st) r)"
  have "call_in L (Visit (Some r))" using assms(3) by (simp add: call_in_def)
  from visit_returns [OF assms(2) toggle_color_neq assms(1) order_refl this, of ?c] obtain st' where
    "nr_segment_iterate_helper cb ?c (nr_segment_toggle_color ?c) (Visit (Some r)) st = Some st'"
    by (auto simp: returns_def simp del: split_paired_Ex)
  then show ?thesis by (simp add: nr_segment_iterate_def Let_def)
qed

definition own_child :: nr_segment where
  "own_child = blank_segment\<lparr>seg_children := Packed 1 [Some (0, 24)]\<rparr>"

theorem nr_segment_iterate_terminates_witness:
  "\<exists>st'. nr_segment_iterate (Some (0, 24)) (Some (\<lambda>s st. Some (NULL, st)))
     ((example_txn 0)\<lparr>txn_mem := \<lambda>_. own_child\<rparr>, ()) = Some st'"
proof -
  let ?t = "(example_txn 0)\<lparr>txn_mem := \<lambda>_. own_child\<rparr>"
  have get: "nr_segment_children_get (\<lambda>_. own_child) (Some s) i = Some c \<Longrightarrow> c = (0, 24)" for s i c
    by (auto simp: own_child_def nr_segment_children_get_def nr_segment_children_size_def not_le word_less_1 split: if_splits)
  have "children_in {(0, 24)} (txn_mem (fst (?t, ())))" unfolding children_in_def using get by auto
  moreover have "callback_keeps {(0, 24)} (\<lambda>s st :: (unit, unit, unit) iter_state. Some (NULL, st))"
    by (simp add: callback_keeps_def same_colors_def)
  ultimately show ?thesis by (rule nr_segment_iterate_terminates) simp
qed

text \<open>C15. On a well-formed tree of one colour, \<open>nr_segment_iterate\<close> is equivalent to a depth-first
  walk: it enters the root and every segment below it exactly once, a segment before its
  children and the children in their order, and runs the callback for leaving a segment after
  all of its children. This holds for all callbacks that do not change children and colours,
  and also when a callback fails.\<close>

theorem nr_segment_iterate_correct:
  assumes "forest L (txn_mem (fst st))" and "r \<in> L"
    and "\<forall>u \<in> L. seg_color (txn_mem (fst st) u) = seg_color (txn_mem (fst st) r)"
    and "keeps_shape pre" and "keeps_shape post"
  shows "\<exists>t. tree_root t = r \<and> tree_at (txn_mem (fst st)) t \<and> distinct (tree_nodes t)
    \<and> set (tree_nodes t) = {u. (u, r) \<in> (parent_rel L (txn_mem (fst st)))\<^sup>*}
    \<and> nr_segment_iterate (Some r) (Some (\<lambda>s st. map_option (\<lambda>st. (Some post, st)) (pre s st))) st =
        run_events pre post (nr_segment_toggle_color (seg_color (txn_mem (fst st) r))) (tree_events t) st"
  using iterate_spec [OF assms(1-5) refl] by blast

theorem nr_segment_iterate_correct_witness:
  "\<exists>t. nr_segment_iterate (Some (0, 24))
      (Some (\<lambda>s st. map_option (\<lambda>st. (Some (\<lambda>s st. Some st), st)) (Some (fst st, snd st @ [s]))))
      ((example_txn 0)\<lparr>txn_mem := \<lambda>_. blank_segment\<rparr>, []) = Some (t, [(0, 24)])"
proof -
  let ?st = "((example_txn 0)\<lparr>txn_mem := \<lambda>_. blank_segment\<rparr>, [])"
  let ?pre = "\<lambda>s st :: (unit, unit, sid list) iter_state. Some (fst st, snd st @ [s])"
  let ?post = "\<lambda>s st :: (unit, unit, sid list) iter_state. Some st"
  have "forest {(0, 24)} (txn_mem (fst ?st))" using blank_forest [of "{(0, 24)}"] by simp
  moreover have "keeps_shape ?pre" "keeps_shape ?post" by (simp_all add: keeps_shape_def shape_kept_def)
  ultimately obtain t where t: "tree_root t = (0, 24)" "tree_at (txn_mem (fst ?st)) t"
    "nr_segment_iterate (Some (0, 24)) (Some (\<lambda>s st. map_option (\<lambda>st. (Some ?post, st)) (?pre s st))) ?st =
      run_events ?pre ?post NR_SEGMENT_GREY (tree_events t) ?st"
    using nr_segment_iterate_correct [of "{(0, 24)}" ?st "(0, 24)" ?pre ?post]
    by (auto simp: nr_segment_toggle_color_def blank_segment_def)
  from t(1,2) have "t = Seg_Node (0, 24) []"
    by (cases t) (simp add: blank_segment_def child_list_def packed_init_def)
  with t(3) show ?thesis by (auto simp: set_color_def)
qed

section \<open>The nearest sampled ancestor\<close>

lemma sampled_ancestor_spec:
  assumes "rooted (parents_of m) c" and F: "forest L m" and "c \<in> L"
  shows "\<exists>res. sampled_ancestor_loop sampled m root (Some c) = Some res
    \<and> (\<forall>a. res = Some a \<longrightarrow> (c, a) \<in> (parent_rel L m)\<^sup>* \<and> sampled a
          \<and> (\<forall>b. (c, b) \<in> (parent_rel L m)\<^sup>* \<longrightarrow> (b, a) \<in> (parent_rel L m)\<^sup>+ \<longrightarrow> \<not> sampled b))
    \<and> (res = NULL \<longrightarrow> (\<forall>a. (c, a) \<in> (parent_rel L m)\<^sup>* \<longrightarrow> sampled a \<longrightarrow>
          (\<exists>b. root = Some b \<and> (c, b) \<in> (parent_rel L m)\<^sup>* \<and> (b, a) \<in> (parent_rel L m)\<^sup>+)))"
  using assms(1,3)
proof (induction rule: rooted.induct)
  case (root c)
  have only: "(c, a) \<in> (parent_rel L m)\<^sup>* \<longleftrightarrow> a = c" for a
    using root.hyps by (auto elim: converse_rtranclE simp: parent_rel_def)
  show ?case using root.hyps parent_rel_acyclic [OF F] only
    by (simp add: sampled_ancestor_loop.simps [of _ _ _ "Some c"] sampled_ancestor_loop.simps [of _ _ _ NULL] acyclic_def)
next
  case (step c p)
  let ?R = "parent_rel L m"
  have cp: "(c, p) \<in> ?R" using step.hyps(1) step.prems by (simp add: parent_rel_def)
  have pL: "p \<in> L" using links_parent(1) [of L "{}" m c p] F step.hyps(1) step.prems by (simp add: forest_def)
  have up: "(c, a) \<in> ?R\<^sup>* \<longleftrightarrow> a = c \<or> (p, a) \<in> ?R\<^sup>*" for a
    using step.hyps(1) cp by (auto elim: converse_rtranclE simp: parent_rel_def intro: converse_rtrancl_into_rtrancl)
  have acyc: "(a, a) \<notin> ?R\<^sup>+" for a using parent_rel_acyclic [OF F] by (simp add: acyclic_def)
  have above: "(c, a) \<in> ?R\<^sup>+ \<longleftrightarrow> (p, a) \<in> ?R\<^sup>*" for a
    using step.hyps(1) cp by (auto dest!: tranclD simp: parent_rel_def intro: rtrancl_into_trancl2)
  have below: "\<not> ((p, a) \<in> ?R\<^sup>* \<and> a = c)" for a using above acyc by blast
  consider (here) "sampled c" | (stop) "\<not> sampled c" "Some c = root" | (up) "\<not> sampled c" "Some c \<noteq> root" by blast
  then show ?case
  proof cases
    case here
    have "\<not> ((c, b) \<in> ?R\<^sup>* \<and> (b, c) \<in> ?R\<^sup>+)" for b using acyc by (meson rtrancl_trancl_trancl)
    with here show ?thesis by (auto simp: sampled_ancestor_loop.simps [of _ _ _ "Some c"])
  next
    case stop
    then show ?thesis using up above by (auto simp: sampled_ancestor_loop.simps [of _ _ _ "Some c"])
  next
    case 3: up
    have eq: "sampled_ancestor_loop sampled m root (Some c) = sampled_ancestor_loop sampled m root (Some p)"
      using 3 step.hyps(1) by (simp add: sampled_ancestor_loop.simps [of _ _ _ "Some c"])
    from step.IH [OF pL] show ?thesis unfolding eq up using 3(1) by blast
  qed
qed

text \<open>\<open>nr_segment_tree_get_nearest_sampled_ancestor\<close> on a well-formed tree always returns. It gives
  the closest proper ancestor of the segment that was sampled, and NULL only when no sampled
  ancestor can be reached without passing the root of the transaction.\<close>

theorem nearest_sampled_ancestor_correct:
  assumes "forest L (txn_mem t)" and "s \<in> L" and "seg_txn (txn_mem t s) \<noteq> NULL"
  shows "\<exists>res. nr_segment_tree_get_nearest_sampled_ancestor t (Some sampled) (Some s) = Some res
    \<and> (\<forall>a. res = Some a \<longrightarrow> (s, a) \<in> (parent_rel L (txn_mem t))\<^sup>+ \<and> sampled a
          \<and> (\<forall>b. (s, b) \<in> (parent_rel L (txn_mem t))\<^sup>+ \<longrightarrow> (b, a) \<in> (parent_rel L (txn_mem t))\<^sup>+ \<longrightarrow> \<not> sampled b))
    \<and> (res = NULL \<longrightarrow> (\<forall>a. (s, a) \<in> (parent_rel L (txn_mem t))\<^sup>+ \<longrightarrow> sampled a \<longrightarrow>
          (\<exists>b. segment_root t = Some b \<and> (s, b) \<in> (parent_rel L (txn_mem t))\<^sup>+ \<and> (b, a) \<in> (parent_rel L (txn_mem t))\<^sup>+)))"
proof (cases "seg_parent (txn_mem t s)")
  case None
  then have "(s, a) \<notin> (parent_rel L (txn_mem t))\<^sup>+" for a by (auto dest!: tranclD simp: parent_rel_def)
  with None assms(3) show ?thesis
    by (auto simp: nr_segment_tree_get_nearest_sampled_ancestor_def sampled_ancestor_loop.simps)
next
  case (Some p)
  let ?R = "parent_rel L (txn_mem t)"
  have L: "links L {} (txn_mem t)" and r: "\<forall>u \<in> L. rooted (parents_of (txn_mem t)) u"
    using assms(1) by (simp_all add: forest_def)
  have p: "p \<in> L" using links_parent(1) [OF L, of s p] assms(2) Some by simp
  have up: "(s, a) \<in> ?R\<^sup>+ \<longleftrightarrow> (p, a) \<in> ?R\<^sup>*" for a
    using Some assms(2) by (auto dest!: tranclD simp: parent_rel_def intro: rtrancl_into_trancl2)
  have "nr_segment_tree_get_nearest_sampled_ancestor t (Some sampled) (Some s) =
      sampled_ancestor_loop sampled (txn_mem t) (segment_root t) (Some p)"
    using Some assms(3) by (auto simp: nr_segment_tree_get_nearest_sampled_ancestor_def)
  with sampled_ancestor_spec [OF r [rule_format, OF p] assms(1) p, of sampled "segment_root t"] show ?thesis
    unfolding up by simp
qed

theorem nearest_sampled_ancestor_correct_witness:
  "\<exists>res. nr_segment_tree_get_nearest_sampled_ancestor ((example_txn 0)\<lparr>txn_mem := \<lambda>_. blank_segment\<rparr>)
     (Some (\<lambda>_. True)) (Some (0, 24)) = Some res"
proof -
  let ?t = "(example_txn 0)\<lparr>txn_mem := \<lambda>_. blank_segment\<rparr>"
  have "forest {(0, 24)} (txn_mem ?t)" using blank_forest [of "{(0, 24)}"] by simp
  moreover have "seg_txn (txn_mem ?t (0, 24)) \<noteq> NULL" by (simp add: blank_segment_def)
  ultimately show ?thesis using nearest_sampled_ancestor_correct [of "{(0, 24)}" ?t "(0, 24)" "\<lambda>_. True"] by blast
qed

end
