(* ===== verification/SegmentTotal.thy ===== *)
theory SegmentTotal
  imports SegmentTree
begin

text \<open>
  The first pass over a finished transaction (\<^verbatim>\<open>nr_segment_tree_to_heap\<close>): its total time is
  the sum of the exclusive times of the segments of the tree, and its heaps get every
  segment of the tree.
\<close>

section \<open>What the pass reads and what it changes\<close>

definition data_of :: "nr_segment \<Rightarrow> nr_segment" where
  "data_of seg = seg\<lparr>seg_color := NR_SEGMENT_WHITE, seg_exclusive_time := NULL\<rparr>"

definition same_base :: "seg_mem \<Rightarrow> seg_mem \<Rightarrow> bool" where
  "same_base m0 m \<longleftrightarrow> (\<forall>u. data_of (m u) = data_of (m0 u))"

lemma data_of_eq:
  "data_of a = data_of b \<longleftrightarrow> seg_txn a = seg_txn b \<and> seg_parent a = seg_parent b \<and> seg_children a = seg_children b
     \<and> seg_child_ix a = seg_child_ix b \<and> seg_start_time a = seg_start_time b \<and> seg_stop_time a = seg_stop_time b
     \<and> seg_name a = seg_name b \<and> seg_async_context a = seg_async_context b \<and> seg_id a = seg_id b
     \<and> seg_metrics a = seg_metrics b \<and> seg_priority a = seg_priority b \<and> seg_error a = seg_error b"
  unfolding data_of_def by (cases a; cases b) auto

lemma same_base_refl [simp]: "same_base m m"
  by (simp add: same_base_def)

lemma same_baseD:
  assumes "same_base m0 m"
  shows "seg_parent (m u) = seg_parent (m0 u)" "seg_children (m u) = seg_children (m0 u)"
    "seg_start_time (m u) = seg_start_time (m0 u)" "seg_stop_time (m u) = seg_stop_time (m0 u)"
    "seg_async_context (m u) = seg_async_context (m0 u)" "seg_priority (m u) = seg_priority (m0 u)"
    "seg_metrics (m u) = seg_metrics (m0 u)"
  using assms by (simp_all add: same_base_def data_of_eq)

lemma same_base_update:
  assumes "same_base m0 m"
  shows "same_base m0 (m(s := (m s)\<lparr>seg_exclusive_time := e\<rparr>))" "same_base m0 (m(s := (m s)\<lparr>seg_color := c\<rparr>))"
  using assms by (simp_all add: same_base_def data_of_eq)

lemma same_base_set_exclusive:
  "same_base m0 (txn_mem t) \<Longrightarrow> same_base m0 (txn_mem (set_seg t s (\<lambda>seg. seg\<lparr>seg_exclusive_time := f seg\<rparr>)))"
  by (simp add: same_base_def data_of_eq set_seg_def)

lemma same_base_comparators:
  assumes "same_base m0 m"
  shows "nr_segment_wrapped_duration_comparator m = nr_segment_wrapped_duration_comparator m0"
    "nr_segment_wrapped_span_priority_comparator m = nr_segment_wrapped_span_priority_comparator m0"
proof -
  have "segment_duration m = segment_duration m0" using same_baseD [OF assms] by (simp add: fun_eq_iff segment_duration_def)
  then show "nr_segment_wrapped_duration_comparator m = nr_segment_wrapped_duration_comparator m0"
    "nr_segment_wrapped_span_priority_comparator m = nr_segment_wrapped_span_priority_comparator m0"
    using same_baseD(6) [OF assms]
    by (simp_all add: fun_eq_iff nr_segment_wrapped_duration_comparator_def nr_segment_wrapped_span_priority_comparator_def
        nr_segment_duration_comparator_def nr_segment_span_priority_comparator_def comparator_null_check_def split: option.splits)
qed

abbreviation exclusive_of :: "('e, 'b) nrtxn \<Rightarrow> sid \<Rightarrow> nr_exclusive_time ptr" where
  "exclusive_of t u \<equiv> seg_exclusive_time (txn_mem t u)"

text \<open>The exclusive time structure of the parent gets the segment.\<close>

definition exc_add :: "seg_mem \<Rightarrow> sid \<Rightarrow> (sid \<Rightarrow> nr_exclusive_time ptr) \<Rightarrow> sid \<Rightarrow> nr_exclusive_time ptr" where
  "exc_add m s ex =
     (case seg_parent (m s) of None \<Rightarrow> ex
      | Some p \<Rightarrow> if seg_async_context (m p) = seg_async_context (m s)
                  then ex(p := snd (nr_exclusive_time_add_child (ex p) (seg_start_time (m s)) (seg_stop_time (m s))))
                  else ex)"

definition enter_metadata ::
  "seg_mem \<Rightarrow> sid \<Rightarrow> nr_segment_tree_to_heap_metadata \<Rightarrow> nr_segment_tree_to_heap_metadata" where
  "enter_metadata m s md = stoh_heaps m s (stoh_main_time (m s) md)"

lemma enter_metadata_total [simp]:
  "meta_total_time (enter_metadata m s md) = meta_total_time md"
  "enter_metadata m s (md\<lparr>meta_total_time := n\<rparr>) = (enter_metadata m s md)\<lparr>meta_total_time := n\<rparr>"
  by (simp_all add: enter_metadata_def stoh_heaps_def stoh_main_time_def)

lemma enter_all_total [simp]:
  "meta_total_time (fold (enter_metadata m) ns md) = meta_total_time md"
  "fold (enter_metadata m) ns (md\<lparr>meta_total_time := n\<rparr>) = (fold (enter_metadata m) ns md)\<lparr>meta_total_time := n\<rparr>"
  by (induction ns arbitrary: md) simp_all

section \<open>One step\<close>

definition stoh_enter ::
  "sid \<Rightarrow> ('e, 'b, nr_segment_tree_to_heap_metadata) iter_state
     \<Rightarrow> ('e, 'b, nr_segment_tree_to_heap_metadata) iter_state option" where
  "stoh_enter s st = map_option snd (nr_segment_stoh_iterator_callback s st)"

lemma stoh_callback_eq:
  "nr_segment_stoh_iterator_callback s st =
     map_option (\<lambda>st. (Some nr_segment_stoh_post_iterator_callback, st)) (stoh_enter s st)"
  by (cases st) (simp add: stoh_enter_def nr_segment_stoh_iterator_callback_def Let_def)

lemma color_effects: "txn_inv L t \<Longrightarrow> side_effects L t (set_seg t s (\<lambda>seg. seg\<lparr>seg_color := c\<rparr>))"
  by (intro side_effectsI) (auto simp: set_seg_def frame_def stacks_of_def same_shape_def same_links_def dest: txn_invD)

lemma merge_metrics_mem: "merge_metrics sms d e t = Some t' \<Longrightarrow> txn_mem t' = txn_mem t"
proof (induction sms arbitrary: t)
  case (Cons sm sms)
  then show ?case by (cases sm) (auto simp: bind_eq_Some_conv split: if_splits dest!: Cons.IH)
qed simp

lemma stoh_enter_spec:
  assumes inv: "txn_inv L x" and base: "same_base m0 (txn_mem x)" and ch: "children_inv (seg_children (m0 s))"
    and ex: "exclusive_of x s = NULL" and par: "seg_parent (m0 s) \<noteq> Some s"
  shows "\<exists>x'. stoh_enter s (set_color s mark (x, md)) = Some (x', enter_metadata m0 s md)
    \<and> txn_inv L x' \<and> same_base m0 (txn_mem x')
    \<and> exclusive_of x' = exc_add m0 s ((exclusive_of x)(s :=
        Some (nr_exclusive_time_create (length (kids m0 s)) (seg_start_time (m0 s)) (seg_stop_time (m0 s)))))"
proof -
  let ?x1 = "set_seg x s (\<lambda>seg. seg\<lparr>seg_color := mark\<rparr>)"
  let ?x2 = "ensure_exclusive ?x1 s"
  let ?x3 = "stoh_parent_time ?x2 s"
  note d = same_baseD [OF base]
  have i1: "txn_inv L ?x1" using color_effects [OF inv] by (simp add: side_effects_def)
  then have i2: "txn_inv L ?x2" using ensure_exclusive_effects [OF i1, of s] by (simp only: side_effects_def)
  then have i3: "txn_inv L ?x3"
    using exclusive_effects [OF i2] by (auto simp: stoh_parent_time_def add_exclusive_child_def side_effects_def split: option.splits)
  have b1: "same_base m0 (txn_mem ?x1)" using same_base_update [OF base] by (simp add: set_seg_def)
  have b2: "same_base m0 (txn_mem ?x2)" unfolding ensure_exclusive_def by (rule same_base_set_exclusive [OF b1])
  have b3: "same_base m0 (txn_mem ?x3)"
    using same_base_set_exclusive [OF b2] b2 by (auto simp: stoh_parent_time_def add_exclusive_child_def split: option.splits)
  have sz: "unat (nr_segment_children_size (txn_mem ?x1) (Some s)) = length (kids m0 s)"
    using nr_segment_children_size_nat [of "txn_mem ?x1" s] ch same_baseD(2) [OF b1, of s] by simp
  have e2: "exclusive_of ?x2 = (exclusive_of x)(s :=
      Some (nr_exclusive_time_create (length (kids m0 s)) (seg_start_time (m0 s)) (seg_stop_time (m0 s))))"
    using ex sz d by (auto simp: ensure_exclusive_def set_seg_def nr_exclusive_time_ensure_def fun_eq_iff)
  have e3: "exclusive_of ?x3 = exc_add m0 s (exclusive_of ?x2)"
    using same_baseD [OF b2] by (auto simp: stoh_parent_time_def exc_add_def add_exclusive_child_def set_seg_def fun_eq_iff split: option.splits)
  have "stoh_main_time (txn_mem ?x3 s) md = stoh_main_time (m0 s) md"
    using same_baseD [OF b3] by (simp add: stoh_main_time_def)
  then have "stoh_enter s (set_color s mark (x, md)) = Some (?x3, enter_metadata m0 s md)"
    using same_base_comparators [OF b3]
    by (simp add: stoh_enter_def nr_segment_stoh_iterator_callback_def set_color_def Let_def enter_metadata_def stoh_heaps_def)
  with i3 b3 e2 e3 show ?thesis by auto
qed

lemma stoh_leave_spec:
  assumes inv: "txn_inv L x" and base: "same_base m0 (txn_mem x)" and s: "s \<in> L"
    and v: "nr_exclusive_time_calculate (exclusive_of x s) = (v, e)"
  shows "\<exists>x'. nr_segment_stoh_post_iterator_callback s (x, md) =
      Some (x', md\<lparr>meta_total_time := (meta_total_time md + v) mod 2 ^ 64\<rparr>)
    \<and> txn_inv L x' \<and> same_base m0 (txn_mem x')
    \<and> exclusive_of x' = (exclusive_of x)(s := if seg_parent (m0 s) \<noteq> NULL then NULL else e)"
proof -
  let ?x1 = "set_seg x s (\<lambda>seg. seg\<lparr>seg_exclusive_time := e\<rparr>)"
  have i1: "txn_inv L ?x1" using exclusive_effects [OF inv] by (simp add: side_effects_def)
  have b1: "same_base m0 (txn_mem ?x1)" using same_base_update [OF base] by (simp add: set_seg_def)
  let ?d = "nr_time_duration (seg_start_time (txn_mem x s)) (seg_stop_time (txn_mem x s))"
  from merge_metrics_effects [OF i1 segment_metric_list_ok [OF i1 s], of ?d v] obtain x2 where
    x2: "merge_metrics (segment_metric_list ?x1 s) ?d v ?x1 = Some x2" "side_effects L ?x1 x2" by blast
  have m2: "txn_mem x2 = txn_mem ?x1" by (rule merge_metrics_mem [OF x2(1)])
  have i2: "txn_inv L x2" using x2(2) by (simp add: side_effects_def)
  let ?f = "\<lambda>seg. the (snd (nr_exclusive_time_destroy (Some (seg_exclusive_time seg))))"
  let ?x3 = "if seg_parent (txn_mem x2 s) \<noteq> NULL then set_seg x2 s (\<lambda>seg. seg\<lparr>seg_exclusive_time := ?f seg\<rparr>) else x2"
  have i3: "txn_inv L ?x3" using exclusive_effects [OF i2] i2 by (simp add: side_effects_def)
  have b3: "same_base m0 (txn_mem ?x3)" using same_base_update [OF b1] b1 by (simp add: m2 set_seg_def [of x2])
  have f: "the (snd (nr_exclusive_time_destroy (Some et))) = NULL" for et
    by (simp add: nr_exclusive_time_destroy_def split: option.splits)
  have e3: "exclusive_of ?x3 = (exclusive_of x)(s := if seg_parent (m0 s) \<noteq> NULL then NULL else e)"
    using same_baseD(1) [OF b1, of s] f by (auto simp: m2 set_seg_def fun_eq_iff)
  have "nr_segment_stoh_post_iterator_callback s (x, md) =
      Some (?x3, md\<lparr>meta_total_time := (meta_total_time md + v) mod 2 ^ 64\<rparr>)"
    using x2(1) v by (simp add: nr_segment_stoh_post_iterator_callback_def Let_def)
  with i3 b3 e3 show ?thesis by blast
qed

section \<open>The whole tree\<close>

text \<open>The instants of a segment's lifetime in which no child of its own context runs.\<close>

definition own_time :: "seg_mem \<Rightarrow> sid \<Rightarrow> nat" where
  "own_time m s = card {i \<in> {seg_start_time (m s)..<seg_stop_time (m s)}.
     \<forall>c \<in> set (kids m s). seg_async_context (m c) = seg_async_context (m s) \<longrightarrow>
       \<not> (seg_start_time (m c) \<le> i \<and> i < seg_stop_time (m c))}"

definition kid_times :: "seg_mem \<Rightarrow> sid \<Rightarrow> (nrtime \<times> nrtime) list" where
  "kid_times m s = map (\<lambda>c. (seg_start_time (m c), seg_stop_time (m c)))
     (filter (\<lambda>c. seg_async_context (m c) = seg_async_context (m s)) (kids m s))"

lemma own_time_calculated:
  "fst (nr_exclusive_time_calculate (add_children
     (Some (nr_exclusive_time_create (length (kids m s)) (seg_start_time (m s)) (seg_stop_time (m s)))) (kid_times m s)))
   = own_time m s"
proof -
  let ?start = "seg_start_time (m s)" and ?stop = "seg_stop_time (m s)"
  let ?et = "nr_exclusive_time_create (length (kids m s)) ?start ?stop"
  have len: "length (kid_times m s) \<le> length (kids m s)" by (simp add: kid_times_def)
  show ?thesis
  proof (cases "?start \<le> ?stop")
    case True
    have "exclusive_instants ?start ?stop {(a, b) \<in> set (kid_times m s). a \<le> b} = {i \<in> {?start..<?stop}.
        \<forall>c \<in> set (kids m s). seg_async_context (m c) = seg_async_context (m s) \<longrightarrow>
          \<not> (seg_start_time (m c) \<le> i \<and> i < seg_stop_time (m c))}"
      by (fastforce simp: exclusive_instants_def kid_times_def)
    with exclusive_time_spec [OF True len] show ?thesis by (simp add: own_time_def)
  next
    case False
    then have "own_time m s = 0" by (simp add: own_time_def)
    moreover have "length (et_transitions ?et) + 2 * length (kid_times m s) \<le> et_capacity ?et"
      using len by (simp add: nr_exclusive_time_create_def)
    ultimately show ?thesis using add_children_transitions [of ?et "kid_times m s"] False
      by (simp add: nr_exclusive_time_calculate_def nr_exclusive_time_create_def)
  qed
qed

lemma fold_exc_add:
  assumes "\<forall>c \<in> set cs. seg_parent (m c) = Some s"
  shows "fold (exc_add m) cs ex = ex(s := add_children (ex s)
    (map (\<lambda>c. (seg_start_time (m c), seg_stop_time (m c)))
      (filter (\<lambda>c. seg_async_context (m c) = seg_async_context (m s)) cs)))"
  using assms by (induction cs arbitrary: ex) (auto simp: exc_add_def)

text \<open>The metadata after a pass over the segments \<open>ns\<close>.\<close>

definition pass_metadata ::
  "seg_mem \<Rightarrow> sid list \<Rightarrow> nr_segment_tree_to_heap_metadata \<Rightarrow> nr_segment_tree_to_heap_metadata" where
  "pass_metadata m ns md =
     (fold (enter_metadata m) ns md)\<lparr>meta_total_time := (meta_total_time md + sum_list (map (own_time m) ns)) mod 2 ^ 64\<rparr>"

lemma pass_metadata_Nil: "meta_total_time md < 2 ^ 64 \<Longrightarrow> pass_metadata m [] md = md"
  by (simp add: pass_metadata_def)

lemma pass_metadata_append:
  "pass_metadata m (ns @ ks) md = pass_metadata m ks (pass_metadata m ns md)"
  by (simp add: pass_metadata_def mod_add_left_eq add.assoc)

lemma pass_metadata_node:
  "(pass_metadata m ns (enter_metadata m s md))\<lparr>meta_total_time :=
      (meta_total_time (pass_metadata m ns (enter_metadata m s md)) + own_time m s) mod 2 ^ 64\<rparr> = pass_metadata m (s # ns) md"
  by (simp add: pass_metadata_def mod_add_right_eq ac_simps)

lemma pass_metadata_total [simp]: "meta_total_time (pass_metadata m ns md) < 2 ^ 64"
  by (simp add: pass_metadata_def)

text \<open>What the pass over a subtree does.\<close>

definition passed ::
  "sid set \<Rightarrow> seg_mem \<Rightarrow> sid list \<Rightarrow> (sid \<Rightarrow> nr_exclusive_time ptr) \<Rightarrow> nr_segment_tree_to_heap_metadata
     \<Rightarrow> ('e, 'b, nr_segment_tree_to_heap_metadata) iter_state option \<Rightarrow> bool" where
  "passed L m0 ns ex md res \<longleftrightarrow> (\<exists>x'. res = Some (x', pass_metadata m0 ns md) \<and> txn_inv L x'
     \<and> same_base m0 (txn_mem x') \<and> exclusive_of x' = ex)"

abbreviation run_pass where
  "run_pass mark \<equiv> run_events stoh_enter nr_segment_stoh_post_iterator_callback mark"

lemma pass_children:
  fixes x :: "('e, 'b) nrtxn"
  assumes kids: "\<forall>t \<in> set ts. seg_parent (m0 (tree_root t)) = Some s"
    and IH: "\<And>t (x :: ('e, 'b) nrtxn) md. t \<in> set ts \<Longrightarrow> txn_inv L x \<Longrightarrow> same_base m0 (txn_mem x) \<Longrightarrow> meta_total_time md < 2 ^ 64 \<Longrightarrow>
      \<forall>u \<in> set (tree_nodes t). exclusive_of x u = NULL \<Longrightarrow>
      passed L m0 (tree_nodes t) (exc_add m0 (tree_root t) (exclusive_of x)) md (run_pass mark (tree_events t) (x, md))"
    and s: "s \<notin> set (concat (map tree_nodes ts))"
    and x: "txn_inv L x" "same_base m0 (txn_mem x)" "meta_total_time md < 2 ^ 64"
      "\<forall>u \<in> set (concat (map tree_nodes ts)). exclusive_of x u = NULL"
  shows "passed L m0 (concat (map tree_nodes ts)) (fold (exc_add m0) (map tree_root ts) (exclusive_of x)) md
    (run_pass mark (concat (map tree_events ts)) (x, md))"
  using kids IH s x
proof (induction ts arbitrary: x md)
  case Nil
  then show ?case by (simp add: passed_def pass_metadata_Nil)
next
  case (Cons t ts)
  have "\<forall>u \<in> set (tree_nodes t). exclusive_of x u = NULL" using Cons.prems(7) by simp
  from Cons.prems(2) [OF list.set_intros(1) Cons.prems(4-6) this] obtain x1 where
    x1: "run_pass mark (tree_events t) (x, md) = Some (x1, pass_metadata m0 (tree_nodes t) md)" "txn_inv L x1"
    "same_base m0 (txn_mem x1)" "exclusive_of x1 = exc_add m0 (tree_root t) (exclusive_of x)"
    by (auto simp: passed_def)
  have other: "exclusive_of x1 u = exclusive_of x u" if "u \<noteq> s" for u
    using that Cons.prems(1) fun_cong [OF x1(4), of u] by (simp add: exc_add_def)
  have nul: "\<forall>u \<in> set (concat (map tree_nodes ts)). exclusive_of x1 u = NULL"
  proof
    fix u
    assume u: "u \<in> set (concat (map tree_nodes ts))"
    then have "u \<noteq> s" using Cons.prems(3) by auto
    with other [of u] u Cons.prems(7) show "exclusive_of x1 u = NULL" by auto
  qed
  have "passed L m0 (concat (map tree_nodes ts)) (fold (exc_add m0) (map tree_root ts) (exclusive_of x1))
      (pass_metadata m0 (tree_nodes t) md)
      (run_pass mark (concat (map tree_events ts)) (x1, pass_metadata m0 (tree_nodes t) md))"
  proof (rule Cons.IH [OF _ _ _ x1(2,3) pass_metadata_total nul])
    show "\<forall>t \<in> set ts. seg_parent (m0 (tree_root t)) = Some s" "s \<notin> set (concat (map tree_nodes ts))"
      using Cons.prems(1,3) by simp_all
  qed (rule Cons.prems(2) [OF list.set_intros(2)])
  with x1 show ?case by (simp add: passed_def run_events_append pass_metadata_append)
qed

lemma pass_node:
  fixes x :: "('e, 'b) nrtxn"
  assumes F: "forest L m0" and s: "s \<in> L" and t: "tree_at m0 (Seg_Node s ts)" "distinct (tree_nodes (Seg_Node s ts))"
    and IH: "\<And>t (x :: ('e, 'b) nrtxn) md. t \<in> set ts \<Longrightarrow> txn_inv L x \<Longrightarrow> same_base m0 (txn_mem x) \<Longrightarrow> meta_total_time md < 2 ^ 64 \<Longrightarrow>
      \<forall>u \<in> set (tree_nodes t). exclusive_of x u = NULL \<Longrightarrow>
      passed L m0 (tree_nodes t) (exc_add m0 (tree_root t) (exclusive_of x)) md (run_pass mark (tree_events t) (x, md))"
    and x: "txn_inv L x" "same_base m0 (txn_mem x)" "meta_total_time md < 2 ^ 64"
      "\<forall>u \<in> set (tree_nodes (Seg_Node s ts)). exclusive_of x u = NULL"
    and par: "\<And>p. seg_parent (m0 s) = Some p \<Longrightarrow> p \<notin> set (tree_nodes (Seg_Node s ts))"
  shows "\<exists>e. passed L m0 (tree_nodes (Seg_Node s ts))
    ((exc_add m0 s (exclusive_of x))(s := if seg_parent (m0 s) \<noteq> NULL then NULL else e)) md
    (run_pass mark (tree_events (Seg_Node s ts)) (x, md))"
proof -
  let ?et = "nr_exclusive_time_create (length (kids m0 s)) (seg_start_time (m0 s)) (seg_stop_time (m0 s))"
  have sp: "seg_parent (m0 s) \<noteq> Some s" using par [of s] by auto
  from stoh_enter_spec [OF x(1,2) _ _ sp, of mark md] t(1) x(4) obtain x1 where
    x1: "stoh_enter s (set_color s mark (x, md)) = Some (x1, enter_metadata m0 s md)" "txn_inv L x1"
    "same_base m0 (txn_mem x1)" "exclusive_of x1 = exc_add m0 s ((exclusive_of x)(s := Some ?et))" by auto
  have at1: "exclusive_of x1 u = (if u = s then Some ?et else exclusive_of x u)" if "u \<in> set (tree_nodes (Seg_Node s ts))" for u
    using par that sp fun_cong [OF x1(4), of u] by (cases "seg_parent (m0 s)") (auto simp: exc_add_def)
  have new: "s \<notin> set (concat (map tree_nodes ts))" using t(2) by simp
  have nul: "\<forall>u \<in> set (concat (map tree_nodes ts)). exclusive_of x1 u = NULL"
  proof
    fix u
    assume u: "u \<in> set (concat (map tree_nodes ts))"
    then have "u \<noteq> s" using new by blast
    with at1 [of u] x(4) u show "exclusive_of x1 u = NULL" by simp
  qed
  have kp: "\<forall>t \<in> set ts. seg_parent (m0 (tree_root t)) = Some s"
  proof
    fix t'
    assume "t' \<in> set ts"
    then have "tree_root t' \<in> set (kids m0 s)" using t(1) by simp
    then show "seg_parent (m0 (tree_root t')) = Some s" using forest_kids(3) [OF F s, of "tree_root t'"] by simp
  qed
  have "meta_total_time (enter_metadata m0 s md) < 2 ^ 64" using x(3) by simp
  from pass_children [OF kp _ new x1(2,3) this nul, of mark] IH obtain x2 where
    x2: "run_pass mark (concat (map tree_events ts)) (x1, enter_metadata m0 s md) =
        Some (x2, pass_metadata m0 (concat (map tree_nodes ts)) (enter_metadata m0 s md))"
    "txn_inv L x2" "same_base m0 (txn_mem x2)"
    "exclusive_of x2 = fold (exc_add m0) (map tree_root ts) (exclusive_of x1)" unfolding passed_def by blast
  have "\<forall>c \<in> set (map tree_root ts). seg_parent (m0 c) = Some s" using kp by auto
  from fold_exc_add [OF this, of "exclusive_of x1"] t(1)
  have e2: "exclusive_of x2 = (exclusive_of x1)(s := add_children (exclusive_of x1 s) (kid_times m0 s))"
    unfolding x2(4) kid_times_def by simp
  have "exclusive_of x2 s = add_children (Some ?et) (kid_times m0 s)" using at1 [of s] fun_cong [OF e2, of s] by simp
  then obtain e where e: "nr_exclusive_time_calculate (exclusive_of x2 s) = (own_time m0 s, e)"
    using own_time_calculated [of m0 s] by (cases "nr_exclusive_time_calculate (exclusive_of x2 s)") simp
  let ?md = "pass_metadata m0 (concat (map tree_nodes ts)) (enter_metadata m0 s md)"
  from stoh_leave_spec [OF x2(2,3) s e, of ?md] obtain x3 where
    x3: "nr_segment_stoh_post_iterator_callback s (x2, ?md) =
      Some (x3, pass_metadata m0 (tree_nodes (Seg_Node s ts)) md)" "txn_inv L x3" "same_base m0 (txn_mem x3)"
    "exclusive_of x3 = (exclusive_of x2)(s := if seg_parent (m0 s) \<noteq> NULL then NULL else e)"
    unfolding pass_metadata_node by auto
  have "exclusive_of x3 = (exc_add m0 s (exclusive_of x))(s := if seg_parent (m0 s) \<noteq> NULL then NULL else e)"
    unfolding x3(4) e2 x1(4) using sp by (auto simp: exc_add_def fun_eq_iff split: option.splits)
  moreover have "run_pass mark (tree_events (Seg_Node s ts)) (x, md) =
      Some (x3, pass_metadata m0 (tree_nodes (Seg_Node s ts)) md)"
    using x1(1) x2(1) x3(1) by (simp add: run_events_append)
  ultimately show ?thesis using x3(2,3) by (auto simp: passed_def)
qed

lemma pass_tree:
  fixes x :: "('e, 'b) nrtxn"
  assumes F: "forest L m0" and "tree_at m0 t" and "distinct (tree_nodes t)" and "tree_root t \<in> L"
    and "seg_parent (m0 (tree_root t)) = Some p" and "p \<notin> set (tree_nodes t)"
    and "txn_inv L x" and "same_base m0 (txn_mem x)" and "meta_total_time md < 2 ^ 64"
    and "\<forall>u \<in> set (tree_nodes t). exclusive_of x u = NULL"
  shows "passed L m0 (tree_nodes t) (exc_add m0 (tree_root t) (exclusive_of x)) md (run_pass mark (tree_events t) (x, md))"
  using assms(2-)
proof (induction t arbitrary: x md p)
  case (Seg_Node s ts)
  have s: "s \<in> L" "seg_parent (m0 s) = Some p" "p \<notin> set (tree_nodes (Seg_Node s ts))" using Seg_Node.prems by simp_all
  have "\<exists>e. passed L m0 (tree_nodes (Seg_Node s ts))
    ((exc_add m0 s (exclusive_of x))(s := if seg_parent (m0 s) \<noteq> NULL then NULL else e)) md
    (run_pass mark (tree_events (Seg_Node s ts)) (x, md))"
  proof (rule pass_node [OF F s(1) Seg_Node.prems(1,2) _ Seg_Node.prems(6-9)])
    fix t' and x' :: "('e, 'b) nrtxn" and md' :: nr_segment_tree_to_heap_metadata
    assume t': "t' \<in> set ts" and x': "txn_inv L x'" "same_base m0 (txn_mem x')" "meta_total_time md' < 2 ^ 64"
      "\<forall>u \<in> set (tree_nodes t'). exclusive_of x' u = NULL"
    have "tree_root t' \<in> set (kids m0 s)" using Seg_Node.prems(1) t' by simp
    then have r: "tree_root t' \<in> L" "seg_parent (m0 (tree_root t')) = Some s"
      using forest_kids(3) [OF F s(1), of "tree_root t'"] by simp_all
    have "tree_at m0 t'" "s \<notin> set (tree_nodes t')" "distinct (tree_nodes t')"
      using Seg_Node.prems(1,2) t' by (auto simp: distinct_concat_iff)
    with Seg_Node.IH [OF t' _ _ r _ x'] show "passed L m0 (tree_nodes t') (exc_add m0 (tree_root t') (exclusive_of x')) md'
        (run_pass mark (tree_events t') (x', md'))" by blast
  next
    fix q
    assume "seg_parent (m0 s) = Some q"
    then show "q \<notin> set (tree_nodes (Seg_Node s ts))" using s(2,3) by simp
  qed
  moreover have "(exc_add m0 s (exclusive_of x))(s := NULL) = exc_add m0 s (exclusive_of x)"
    using s Seg_Node.prems(9) by (auto simp: exc_add_def fun_eq_iff)
  ultimately show ?case using s(2) by simp
qed

lemma pass_root:
  fixes x :: "('e, 'b) nrtxn"
  assumes F: "forest L m0" and t: "tree_at m0 t" "distinct (tree_nodes t)" "tree_root t \<in> L"
    and root: "seg_parent (m0 (tree_root t)) = NULL"
    and x: "txn_inv L x" "same_base m0 (txn_mem x)" "meta_total_time md < 2 ^ 64"
      "\<forall>u \<in> set (tree_nodes t). exclusive_of x u = NULL"
  shows "\<exists>ex. passed L m0 (tree_nodes t) ex md (run_pass mark (tree_events t) (x, md))"
proof (cases t)
  case (Seg_Node s ts)
  have s: "s \<in> L" "seg_parent (m0 s) = NULL" using t(3) root Seg_Node by simp_all
  have "\<exists>e. passed L m0 (tree_nodes (Seg_Node s ts))
    ((exc_add m0 s (exclusive_of x))(s := if seg_parent (m0 s) \<noteq> NULL then NULL else e)) md
    (run_pass mark (tree_events (Seg_Node s ts)) (x, md))"
  proof (rule pass_node [OF F s(1) t(1,2) [unfolded Seg_Node] _ x [unfolded Seg_Node]])
    fix t' and x' :: "('e, 'b) nrtxn" and md' :: nr_segment_tree_to_heap_metadata
    assume t': "t' \<in> set ts" and x': "txn_inv L x'" "same_base m0 (txn_mem x')" "meta_total_time md' < 2 ^ 64"
      "\<forall>u \<in> set (tree_nodes t'). exclusive_of x' u = NULL"
    have "tree_root t' \<in> set (kids m0 s)" using t(1) Seg_Node t' by simp
    then have r: "tree_root t' \<in> L" "seg_parent (m0 (tree_root t')) = Some s"
      using forest_kids(3) [OF F s(1), of "tree_root t'"] by simp_all
    have "tree_at m0 t'" "s \<notin> set (tree_nodes t')" "distinct (tree_nodes t')"
      using t(1,2) Seg_Node t' by (auto simp: distinct_concat_iff)
    with pass_tree [OF F _ _ r _ x'] show "passed L m0 (tree_nodes t') (exc_add m0 (tree_root t') (exclusive_of x')) md'
        (run_pass mark (tree_events t') (x', md'))" by blast
  qed (use s(2) in simp)
  with Seg_Node show ?thesis by blast
qed

section \<open>The pass as a whole\<close>

lemma stoh_enter_shape: "keeps_shape stoh_enter"
  unfolding keeps_shape_def
proof (intro allI impI)
  fix s and st st' :: "('e, 'b, nr_segment_tree_to_heap_metadata) iter_state"
  assume "stoh_enter s st = Some st'"
  then have "fst st' = stoh_parent_time (ensure_exclusive (fst st) s) s"
    by (cases st) (auto simp: stoh_enter_def nr_segment_stoh_iterator_callback_def Let_def)
  then show "shape_kept (txn_mem (fst st)) (txn_mem (fst st'))"
    by (auto simp: shape_kept_def stoh_parent_time_def ensure_exclusive_def add_exclusive_child_def set_seg_def
        split: option.splits)
qed

lemma stoh_leave_shape: "keeps_shape nr_segment_stoh_post_iterator_callback"
  unfolding keeps_shape_def
proof (intro allI impI)
  fix s and st st' :: "('e, 'b, nr_segment_tree_to_heap_metadata) iter_state"
  assume "nr_segment_stoh_post_iterator_callback s st = Some st'"
  then show "shape_kept (txn_mem (fst st)) (txn_mem (fst st'))"
    by (cases st) (auto simp: nr_segment_stoh_post_iterator_callback_def Let_def bind_eq_Some_conv shape_kept_def set_seg_def
        dest!: merge_metrics_mem split: prod.splits if_splits)
qed

lemma fold_enter_heaps:
  "meta_trace_heap (fold (enter_metadata m) ns md) =
     fold (\<lambda>s h. insert_with (nr_segment_wrapped_duration_comparator m) h s) ns (meta_trace_heap md)"
  "meta_span_heap (fold (enter_metadata m) ns md) =
     fold (\<lambda>s h. insert_with (nr_segment_wrapped_span_priority_comparator m) h s) ns (meta_span_heap md)"
proof -
  have null: "insert_with c NULL s = NULL" for c s by (simp add: insert_with_def nr_minmax_heap_insert_def)
  show "meta_trace_heap (fold (enter_metadata m) ns md) =
     fold (\<lambda>s h. insert_with (nr_segment_wrapped_duration_comparator m) h s) ns (meta_trace_heap md)"
    by (induction ns arbitrary: md) (auto simp: enter_metadata_def stoh_heaps_def stoh_main_time_def null)
  show "meta_span_heap (fold (enter_metadata m) ns md) =
     fold (\<lambda>s h. insert_with (nr_segment_wrapped_span_priority_comparator m) h s) ns (meta_span_heap md)"
    by (induction ns arbitrary: md) (auto simp: enter_metadata_def stoh_heaps_def stoh_main_time_def null)
qed

text \<open>The segments below \<open>r\<close>, itself included.\<close>

definition subtree :: "sid set \<Rightarrow> seg_mem \<Rightarrow> sid \<Rightarrow> sid set" where
  "subtree L m r = {u. (u, r) \<in> (parent_rel L m)\<^sup>*}"

lemma tree_to_heap_spec:
  assumes inv: "txn_inv L t" and r: "r \<in> L" "seg_parent (txn_mem t r) = NULL"
    and col: "\<forall>u \<in> L. seg_color (txn_mem t u) = seg_color (txn_mem t r)"
    and ex: "\<forall>u \<in> L. exclusive_of t u = NULL" and md: "meta_total_time md < 2 ^ 64"
  shows "\<exists>t' ns. nr_segment_tree_to_heap (Some r) t md = Some (t', pass_metadata (txn_mem t) ns md) \<and> txn_inv L t'
    \<and> distinct ns \<and> set ns = subtree L (txn_mem t) r"
proof -
  have F: "forest L (txn_mem (fst (t, md)))" using txn_invD(1) [OF inv] by simp
  let ?c = "nr_segment_toggle_color (seg_color (txn_mem t r))"
  have cb: "nr_segment_stoh_iterator_callback =
      (\<lambda>s st. map_option (\<lambda>st. (Some nr_segment_stoh_post_iterator_callback, st)) (stoh_enter s st))"
    by (intro ext) (rule stoh_callback_eq)
  have "\<forall>u \<in> L. seg_color (txn_mem (fst (t, md)) u) = seg_color (txn_mem (fst (t, md)) r)" using col by simp
  from iterate_spec [OF F r(1) this stoh_enter_shape stoh_leave_shape cb] obtain T where
    T: "tree_root T = r" "tree_at (txn_mem t) T" "distinct (tree_nodes T)" "set (tree_nodes T) = subtree L (txn_mem t) r"
    "set (tree_nodes T) \<subseteq> L"
    "nr_segment_iterate (Some r) (Some nr_segment_stoh_iterator_callback) (t, md) = run_pass ?c (tree_events T) (t, md)"
    unfolding subtree_def by (auto simp del: split_paired_All)
  have "\<forall>u \<in> set (tree_nodes T). exclusive_of t u = NULL" using T(5) ex by blast
  from pass_root [OF txn_invD(1) [OF inv] T(2,3) _ _ inv same_base_refl md this, of ?c] T(1) r obtain ex' where
    "passed L (txn_mem t) (tree_nodes T) ex' md (run_pass ?c (tree_events T) (t, md))" by auto
  then obtain t' where "run_pass ?c (tree_events T) (t, md) = Some (t', pass_metadata (txn_mem t) (tree_nodes T) md)" "txn_inv L t'"
    unfolding passed_def by blast
  with T show ?thesis unfolding nr_segment_tree_to_heap_def by metis
qed

section \<open>Sampling\<close>

text \<open>Filling a heap that was created for a segment limit.\<close>

lemma insert_with_all:
  assumes "heap_ptr_inv q" and "heap_cmp q = c" and "q \<noteq> NULL"
  shows "fold (\<lambda>s h. insert_with c h s) ns q = snd (insert_all nr_minmax_heap_insert q (map Some ns))"
  using assms
proof (induction ns arbitrary: q)
  case (Cons s ns)
  from Cons.prems(3) obtain h where h: "q = Some h" by auto
  then have "map_option (\<lambda>h. h\<lparr>heap_comparator := c\<rparr>) q = q" using Cons.prems(2) by (simp add: heap_ptr_defs)
  then have iw: "insert_with c q s = snd (nr_minmax_heap_insert q (Some s))" by (simp add: insert_with_def)
  obtain ds q' where ins: "nr_minmax_heap_insert q (Some s) = (ds, q')" by fastforce
  then have "insert_all nr_minmax_heap_insert q [Some s] = (ds, q')" by simp
  with mmh.insert_all_law [OF Cons.prems(1), of "{#}" "[Some s]"] have "heap_ptr_inv q'" "heap_conf q q'" by auto
  note q' = ins this
  then have "heap_cmp q' = c" "q' \<noteq> NULL" using Cons.prems(2) h by (auto simp: heap_conf_def heap_ptr_defs split: option.splits)
  from Cons.IH [OF q'(2) this] q'(1) iw show ?case
    by (cases "insert_all nr_minmax_heap_insert q' (map Some ns)") simp
qed simp

lemma segment_heap_samples:
  assumes c: "comparator_ok c" and b: "2 \<le> bound"
  shows "\<exists>E. heap_items (fold (\<lambda>s h. insert_with c h s) ns (nr_segment_heap_create bound (Some c))) + E = mset (map Some ns)
    \<and> size (heap_items (fold (\<lambda>s h. insert_with c h s) ns (nr_segment_heap_create bound (Some c)))) = min (nat bound) (length ns)
    \<and> (\<forall>e \<in># E. \<forall>k \<in># heap_items (fold (\<lambda>s h. insert_with c h s) ns (nr_segment_heap_create bound (Some c))). c e k \<le> 0)"
proof -
  from heap_inv_create [OF c, of bound False] b obtain h where
    h: "nr_segment_heap_create bound (Some c) = Some h" "heap_inv h" "contents h = {#}" "heap_bound h = nat bound"
    "heap_comparator h = c" unfolding nr_segment_heap_create_def by auto
  have q0: "heap_ptr_inv (Some h)" "heap_items (Some h) = {#}" "heap_cmp (Some h) = c" "nr_minmax_heap_bound (Some h) = nat bound"
    using h by (simp_all add: heap_ptr_defs)
  let ?q = "snd (insert_all nr_minmax_heap_insert (Some h) (map Some ns))"
  from mmh.insert_all_law [OF q0(1), of "{#}" "map Some ns"] q0 obtain E where
    E: "heap_ptr_inv ?q" "heap_conf (Some h) ?q" "heap_items ?q + E = mset (map Some ns)"
    "E \<noteq> {#} \<longrightarrow> size (heap_items ?q) = nat bound" "\<forall>e \<in># E. \<forall>k \<in># heap_items ?q. c e k \<le> 0"
    by (cases "insert_all nr_minmax_heap_insert (Some h) (map Some ns)") force
  have "size (heap_items ?q) \<le> nat bound"
    using ptr_limit_correct [OF E(1)] E(2) q0(4) b by (simp add: heap_conf_def)
  moreover have "size (heap_items ?q) + size E = length ns" using arg_cong [OF E(3), of size] by simp
  ultimately have "size (heap_items ?q) = min (nat bound) (length ns)" using E(4) by (cases "E = {#}") auto
  with E insert_with_all [OF q0(1,3)] h(1) show ?thesis by auto
qed

lemma duration_comparator_ok: "comparator_ok (nr_segment_wrapped_duration_comparator m)"
proof -
  let ?c = "nr_segment_wrapped_duration_comparator m"
  have eq: "?c x y = (case (x, y) of
      (Some a, Some b) \<Rightarrow> if segment_duration m a < segment_duration m b then -1
        else if segment_duration m a > segment_duration m b then 1 else 0
    | (None, Some _) \<Rightarrow> -1 | (Some _, None) \<Rightarrow> 1 | (None, None) \<Rightarrow> 0)" for x y
    by (simp add: nr_segment_wrapped_duration_comparator_def comparator_null_check_def nr_segment_duration_comparator_def
        split: option.splits)
  show ?thesis
    unfolding comparator_ok_def
  proof (intro conjI allI impI)
    show "?c x y < 0 \<longleftrightarrow> ?c y x > 0" for x y unfolding eq by (simp split: option.split)
    show "?c x y \<le> 0 \<Longrightarrow> ?c y z \<le> 0 \<Longrightarrow> ?c x z \<le> 0" for x y z
      unfolding eq by (auto split: option.splits if_splits)
  qed
qed

lemma duration_le:
  assumes "nr_segment_wrapped_duration_comparator m (Some u) (Some v) \<le> 0"
  shows "segment_duration m u \<le> segment_duration m v"
  using assms
  by (simp add: nr_segment_wrapped_duration_comparator_def comparator_null_check_def nr_segment_duration_comparator_def
      split: if_splits)

lemma count_image_Some: "count (image_mset Some M) (Some u) = count M u"
  by (induction M) auto

text \<open>A part of a list of different elements, as a multiset of pointers.\<close>

lemma kept_part:
  assumes "A + E = mset (map Some ns)" and "distinct ns" and "K = {u. Some u \<in># A}"
  shows "A = image_mset Some (mset_set K)" "K \<subseteq> set ns" "card K = size A" "u \<in> set ns \<Longrightarrow> u \<notin> K \<Longrightarrow> Some u \<in># E"
proof -
  have all: "count A x + count E x = (case x of None \<Rightarrow> 0 | Some u \<Rightarrow> if u \<in> set ns then 1 else 0)" for x
  proof -
    have "count A x + count E x = count (mset (map Some ns)) x" using assms(1) by (metis count_union)
    also have "\<dots> = (case x of None \<Rightarrow> 0 | Some u \<Rightarrow> if u \<in> set ns then 1 else 0)"
    proof (cases x)
      case None
      then show ?thesis by (auto simp: count_eq_zero_iff)
    next
      case (Some u)
      have "count (mset (map Some ns)) (Some u) = count (mset ns) u"
        using count_image_Some [of "mset ns" u] by simp
      then show ?thesis using Some assms(2) by (simp add: distinct_count_atmost_1)
    qed
    finally show ?thesis .
  qed
  show K: "K \<subseteq> set ns"
  proof
    fix u
    assume "u \<in> K"
    then have "count A (Some u) \<noteq> 0" using assms(3) by (simp only: mem_Collect_eq count_eq_zero_iff not_not)
    with all [of "Some u"] show "u \<in> set ns" by (simp only: option.case split: if_splits)
  qed
  have fin: "finite K" by (rule finite_subset [OF K]) simp
  show eq: "A = image_mset Some (mset_set K)"
  proof (rule multiset_eqI)
    fix x
    show "count A x = count (image_mset Some (mset_set K)) x"
    proof (cases x)
      case None
      with all [of None] show ?thesis by (auto simp: count_image_mset)
    next
      case (Some u)
      have "count (image_mset Some (mset_set K)) (Some u) = count (mset_set K) u"
        using count_image_Some [of "mset_set K" u] by simp
      moreover have "count A (Some u) = (if u \<in> K then 1 else 0)"
      proof (cases "u \<in> K")
        case True
        then have "count A (Some u) \<noteq> 0" "u \<in> set ns"
          using assms(3) K by (simp_all only: mem_Collect_eq count_eq_zero_iff not_not subset_iff)
        moreover from this(2) all [of "Some u"] have "count A (Some u) + count E (Some u) = 1" by simp
        ultimately have "count A (Some u) = 1" by linarith
        with True show ?thesis by simp
      qed (use assms(3) in \<open>simp add: not_in_iff\<close>)
      ultimately show ?thesis using fin Some by simp
    qed
  qed
  show "card K = size A" unfolding eq by simp
  show "Some u \<in># E" if "u \<in> set ns" "u \<notin> K"
  proof -
    have "count A (Some u) = 0" using that(2) assms(3) by (simp add: not_in_iff)
    with all [of "Some u"] that(1) have "count E (Some u) \<noteq> 0" by simp
    then show ?thesis by (simp only: count_eq_zero_iff not_not)
  qed
qed

end
