(* ===== verification/Base64.thy ===== *)
theory Base64
  imports Prelude
begin

text \<open>
  Base64 (\<^verbatim>\<open>axiom/util_base64.c\<close>). Bytes are characters, read as numbers below 256.
  The buffers have the sizes that the code allocates: a read or write outside of a buffer
  and an overflow of \<^verbatim>\<open>int\<close> are the result \<open>None\<close>. A source string is followed by its
  terminating zero.
\<close>

unbundle bit_operations_syntax

section \<open>Encoding\<close>

definition table64 :: string where
  "table64 = ''ABCDEFGHIJKLMNOPQRSTUVWXYZabcdefghijklmnopqrstuvwxyz0123456789+/''"

definition nr_b64_get_table :: string where
  "nr_b64_get_table = table64"

text \<open>
  Filling the \<open>k\<close> remaining places of the input buffer: the bytes, how many of them were
  read, and what is left of the input.
\<close>

fun fill_ibuf :: "nat \<Rightarrow> string \<Rightarrow> nat \<Rightarrow> (nat list \<times> nat \<times> string \<times> nat) option" where
  "fill_ibuf 0 indata len = Some ([], 0, indata, len)"
| "fill_ibuf (Suc k) indata len =
     (if len > 0 then
        (case indata of
           [] \<Rightarrow> None
         | c # indata \<Rightarrow> do {
             (ibuf, isegments, indata, len) \<leftarrow> fill_ibuf k indata (len - 1);
             Some (of_char c # ibuf, isegments + 1, indata, len)
           })
      else do {
        (ibuf, isegments, indata, len) \<leftarrow> fill_ibuf k indata len;
        Some (0 # ibuf, isegments, indata, len)
      })"

definition obuf :: "nat list \<Rightarrow> nat list" where
  "obuf ibuf =
     [drop_bit 2 (ibuf ! 0 AND 0xfc),
      push_bit 4 (ibuf ! 0 AND 0x03) OR drop_bit 4 (ibuf ! 1 AND 0xf0),
      push_bit 2 (ibuf ! 1 AND 0x0f) OR drop_bit 6 (ibuf ! 2 AND 0xc0),
      ibuf ! 2 AND 0x3f]"

definition quantum :: "nat \<Rightarrow> nat list \<Rightarrow> string" where
  "quantum isegments ob =
     (if isegments = 1 then [table64 ! (ob ! 0), table64 ! (ob ! 1), CHR ''='', CHR ''='']
      else if isegments = 2 then [table64 ! (ob ! 0), table64 ! (ob ! 1), table64 ! (ob ! 2), CHR ''='']
      else [table64 ! (ob ! 0), table64 ! (ob ! 1), table64 ! (ob ! 2), table64 ! (ob ! 3)])"

text \<open>Each step writes four characters and a zero behind what is there already.\<close>

lemma fill_ibuf_len:
  "fill_ibuf k indata len = Some (ibuf, seg, rest, len') \<Longrightarrow> len' = len - k"
  by (induction k indata len arbitrary: ibuf seg rest len' rule: fill_ibuf.induct)
    (fastforce split: if_splits list.splits option.splits bind_splits)+

function encode_loop :: "nat \<Rightarrow> string \<Rightarrow> nat \<Rightarrow> string \<Rightarrow> string option" where
  "encode_loop cap indata len output =
     (if len > 0 then
        (case fill_ibuf 3 indata len of
           None \<Rightarrow> None
         | Some (ibuf, isegments, indata, len) \<Rightarrow>
             if length output + 5 \<le> cap
             then encode_loop cap indata len (output @ quantum isegments (obuf ibuf))
             else None)
      else if length output < cap then Some output else None)"
  by pat_completeness auto

termination encode_loop
  by (relation "measure (\<lambda>(_, _, len, _). len)") (auto dest: fill_ibuf_len)

definition nr_b64_encode :: "string ptr \<Rightarrow> int \<Rightarrow> (string \<times> int) ptr option" where
  "nr_b64_encode data len =
     (case data of
        None \<Rightarrow> Some NULL
      | Some indata \<Rightarrow>
          if len \<le> 0 then Some NULL
          else if len * 4 \<ge> 2 ^ 31 then None
          else do {
            output \<leftarrow> encode_loop (nat (len * 4 div 3 + 4)) indata (nat len) [];
            Some (Some (output, int (length output)))
          })"

section \<open>Decoding\<close>

definition nr_b64_is_valid_character :: "char \<Rightarrow> bool" where
  "nr_b64_is_valid_character c \<longleftrightarrow>
     c = CHR ''='' \<or> c = CHR ''/'' \<or> c = CHR ''+''
     \<or> of_char (CHR ''0'') \<le> (of_char c :: nat) \<and> of_char c \<le> (of_char (CHR ''9'') :: nat)
     \<or> of_char (CHR ''a'') \<le> (of_char c :: nat) \<and> of_char c \<le> (of_char (CHR ''z'') :: nat)
     \<or> of_char (CHR ''A'') \<le> (of_char c :: nat) \<and> of_char c \<le> (of_char (CHR ''Z'') :: nat)"

definition char_at :: "string \<Rightarrow> nat \<Rightarrow> char option" where
  "char_at s i = (if i < length s then Some (s ! i) else if i = length s then Some (CHR 0x00) else None)"

text \<open>The position in the table, which ends with a zero.\<close>

fun table_index :: "string \<Rightarrow> char \<Rightarrow> nat" where
  "table_index [] c = 0"
| "table_index (p # ps) c = (if p = c then 0 else Suc (table_index ps c))"

definition shift_in :: "nat \<Rightarrow> char \<Rightarrow> nat" where
  "shift_in x c =
     (let v = table_index table64 c in
      if char_at table64 v = Some c then push_bit 6 x + v
      else if c = CHR ''='' then push_bit 6 x else x)"

definition decodeQuantum :: "string \<Rightarrow> (char list) option" where
  "decodeQuantum src = do {
     c0 \<leftarrow> char_at src 0; c1 \<leftarrow> char_at src 1; c2 \<leftarrow> char_at src 2; c3 \<leftarrow> char_at src 3;
     let x = shift_in (shift_in (shift_in (shift_in 0 c0) c1) c2) c3;
     Some [char_of (drop_bit 8 (drop_bit 8 x) AND 0xff), char_of (drop_bit 8 x AND 0xff), char_of (x AND 0xff)]
   }"

text \<open>The first \<open>n\<close> quanta; moving \<open>src\<close> on drops characters.\<close>

fun decode_loop :: "nat \<Rightarrow> nat \<Rightarrow> string \<Rightarrow> string \<Rightarrow> (string \<times> string) option" where
  "decode_loop cap 0 src newstr = Some (src, newstr)"
| "decode_loop cap (Suc n) src newstr = do {
     dest \<leftarrow> decodeQuantum src;
     (if length newstr + 3 \<le> cap then decode_loop cap n (drop 4 src) (newstr @ dest) else None)
   }"

definition equals_term :: "string \<Rightarrow> nat \<Rightarrow> nat" where
  "equals_term src len =
     (if char_at src len = Some (CHR ''='')
      then (if char_at src (len + 1) = Some (CHR ''='') then 2 else 1) else 0)"

definition nr_b64_decode :: "string ptr \<Rightarrow> (string ptr \<times> int option) option" where
  "nr_b64_decode source =
     (case source of
        None \<Rightarrow> Some (NULL, None)
      | Some src \<Rightarrow>
          if \<not> list_all nr_b64_is_valid_character src then Some (NULL, None)
          else
            let len = length (takeWhile (\<lambda>c. c \<noteq> CHR ''='') src);
                equalsTerm = equals_term src len;
                numQuantums = (len + equalsTerm) div 4
            in if numQuantums = 0 then Some (NULL, Some 0)
               else do {
                 let rawlen = numQuantums * 3 - equalsTerm;
                 (src, newstr) \<leftarrow> decode_loop (rawlen + 4) (numQuantums - 1) src [];
                 lastQuantum \<leftarrow> decodeQuantum src;
                 let newstr = newstr @ take (3 - equalsTerm) lastQuantum;
                 (if length newstr < rawlen + 4 then Some (Some newstr, Some (int rawlen)) else None)
               })"

section \<open>What the encoder writes\<close>

text \<open>The encoding of a list of bytes, three at a time.\<close>

fun b64 :: "string \<Rightarrow> string" where
  "b64 [] = []"
| "b64 [a] = quantum 1 (obuf [of_char a, 0, 0])"
| "b64 [a, b] = quantum 2 (obuf [of_char a, of_char b, 0])"
| "b64 (a # b # c # xs) = quantum 3 (obuf [of_char a, of_char b, of_char c]) @ b64 xs"

lemma length_quantum [simp]: "length (quantum n ob) = 4"
  by (simp add: quantum_def)

lemma length_b64: "length (b64 xs) = 4 * ((length xs + 2) div 3)"
proof (induction xs rule: b64.induct)
  case (4 a b c xs)
  have "4 + 4 * ((n + 2) div 3) = 4 * ((n + 5) div 3)" for n :: nat by presburger
  with 4 show ?case by (simp add: add.commute)
qed simp_all

declare encode_loop.simps [simp del]

lemma encode_loop_eq:
  assumes "length out + length (b64 xs) < cap"
  shows "encode_loop cap (xs @ rest) (length xs) out = Some (out @ b64 xs)"
  using assms
proof (induction xs arbitrary: out rule: b64.induct)
  case 1
  then show ?case by (simp add: encode_loop.simps [of cap _ 0])
next
  case (2 a)
  then show ?case
    by (simp add: encode_loop.simps [of cap _ "Suc 0"] encode_loop.simps [of cap _ 0] numeral_3_eq_3)
next
  case (3 a b)
  then show ?case
    by (simp add: encode_loop.simps [of cap _ "Suc (Suc 0)"] encode_loop.simps [of cap _ 0] numeral_3_eq_3 numeral_2_eq_2)
next
  case (4 a b c xs)
  from 4(2) have "length (out @ quantum 3 (obuf [of_char a, of_char b, of_char c])) + length (b64 xs) < cap" by simp
  note IH = 4(1) [OF this]
  with 4(2) show ?case
    by (simp add: encode_loop.simps [of cap _ "Suc (Suc (Suc _))"] numeral_3_eq_3)
qed

lemma nr_b64_encode_spec:
  assumes "0 < len" and "len * 4 < 2 ^ 31" and "nat len \<le> length data"
  shows "nr_b64_encode (Some data) len = Some (Some (b64 (take (nat len) data), int (length (b64 (take (nat len) data)))))"
proof -
  let ?xs = "take (nat len) data"
  have len: "length ?xs = nat len" using assms(3) by simp
  have "4 * ((n + 2) div 3) < n * 4 div 3 + 4" for n :: nat by presburger
  from this [of "nat len"] have "length (b64 ?xs) < nat (len * 4 div 3 + 4)"
    unfolding length_b64 len using assms(1) by (simp add: nat_add_distrib nat_div_distrib nat_mult_distrib)
  with encode_loop_eq [of "[]" ?xs _ "drop (nat len) data"] len
  have "encode_loop (nat (len * 4 div 3 + 4)) data (nat len) [] = Some (b64 ?xs)" by simp
  with assms(1,2) show ?thesis by (simp add: nr_b64_encode_def)
qed

section \<open>Decoding an encoding\<close>

lemma or_shifted: "y < 2 ^ k \<Longrightarrow> push_bit k x OR y = 2 ^ k * x + y" for x y :: nat
proof -
  assume "y < 2 ^ k"
  then have y: "take_bit k y = y" by (simp add: take_bit_nat_eq_self)
  have "push_bit k x AND take_bit k y = 0"
    by (rule bit_eqI) (auto simp: bit_and_iff bit_push_bit_iff bit_take_bit_iff)
  then have "push_bit k x AND y = 0" unfolding y .
  then have "push_bit k x + y = push_bit k x OR y" by (rule disjunctive_add_eq_or)
  then show ?thesis by (simp add: push_bit_eq_mult mult.commute)
qed

lemma obuf_arith:
  assumes "a < 256" and "b < 256" and "c < (256 :: nat)"
  shows "obuf [a, b, c] = [a div 4, a mod 4 * 16 + b div 16, b mod 16 * 4 + c div 64, c mod 64]"
proof -
  have low: "n AND 3 = n mod 4" "n AND 15 = n mod 16" "n AND 63 = n mod 64" for n :: nat
    using take_bit_eq_mask [of 2 n] take_bit_eq_mask [of 4 n] take_bit_eq_mask [of 6 n]
    by (simp_all add: mask_eq_exp_minus_1 take_bit_eq_mod)
  have "b div 16 < 2 ^ 4" "c div 64 < 2 ^ 2" using assms by simp_all
  note sh = or_shifted [OF this(1), of "a mod 4"] or_shifted [OF this(2), of "b mod 16"]
  have hi: "drop_bit 2 n mod 64 = n div 4" "drop_bit 4 n mod 16 = n div 16" "drop_bit 6 n mod 4 = n div 64"
    if "n < 256" for n :: nat using that by (simp_all add: drop_bit_eq_div)
  show ?thesis using assms sh by (simp add: obuf_def low hi mult.commute)
qed

lemma table64_facts: "distinct table64" "length table64 = 64" "CHR ''='' \<notin> set table64"
  "CHR 0x00 \<notin> set table64" "list_all nr_b64_is_valid_character table64"
  by (simp_all add: table64_def nr_b64_is_valid_character_def)

lemma table_index_nth: "distinct ps \<Longrightarrow> i < length ps \<Longrightarrow> table_index ps (ps ! i) = i"
  by (induction ps arbitrary: i) (auto simp: nth_Cons split: nat.splits)

lemma table_index_absent: "c \<notin> set ps \<Longrightarrow> table_index ps c = length ps"
  by (induction ps) auto

lemma shift_in_table [simp]: "i < 64 \<Longrightarrow> shift_in x (table64 ! i) = 64 * x + i"
  using table_index_nth [OF table64_facts(1), of i] table64_facts(2)
  by (simp add: shift_in_def char_at_def push_bit_eq_mult)

lemma shift_in_equals [simp]: "shift_in x (CHR ''='') = 64 * x"
proof -
  have "table_index table64 (CHR ''='') = 64" using table_index_absent [OF table64_facts(3)] table64_facts(2) by simp
  then show ?thesis using table64_facts(2) by (simp add: shift_in_def char_at_def push_bit_eq_mult char_of_def)
qed

lemma decodeQuantum_four:
  "decodeQuantum (c0 # c1 # c2 # c3 # rest) =
     (let x = shift_in (shift_in (shift_in (shift_in 0 c0) c1) c2) c3
      in Some [char_of (x div 65536 mod 256), char_of (x div 256 mod 256), char_of (x mod 256)])"
proof -
  have low: "n AND 255 = n mod 256" for n :: nat
    using take_bit_eq_mask [of 8 n] by (simp add: mask_eq_exp_minus_1 take_bit_eq_mod)
  have div_div: "n div 256 div 256 = n div 65536" for n :: nat by (simp add: div_mult2_eq [symmetric])
  show ?thesis
    by (simp add: decodeQuantum_def char_at_def numeral_3_eq_3 Let_def low drop_bit_eq_div div_div)
qed

text \<open>Decoding the quantum that was made from three bytes.\<close>

lemma quantum_value:
  fixes a b c :: nat
  assumes "a < 256" and "b < 256" and "c < 256"
  shows "64 * (64 * (64 * (a div 4) + (a mod 4 * 16 + b div 16)) + (b mod 16 * 4 + c div 64)) + c mod 64
    = 65536 * a + 256 * b + c"
proof -
  have "64 * (64 * (64 * p + (q * 16 + r)) + (s * 4 + t)) + u = 65536 * (4 * p + q) + 256 * (16 * r + s) + (64 * t + u)"
    for p q r s t u :: nat by simp
  from this [of "a div 4" "a mod 4" "b div 16" "b mod 16" "c div 64" "c mod 64"] show ?thesis by simp
qed

lemma bytes_of_value:
  assumes "a < 256" and "b < 256" and "c < (256 :: nat)"
  shows "(65536 * a + 256 * b + c) div 65536 mod 256 = a" "(65536 * a + 256 * b + c) div 256 mod 256 = b"
    "(65536 * a + 256 * b + c) mod 256 = c"
proof -
  let ?n = "65536 * a + 256 * b + c"
  have quot: "r < k \<Longrightarrow> (r + k * q) div k = q" for r k q :: nat by simp
  have "256 * b + c < 65536" using assms by simp
  from quot [OF this, of a] have "?n div 65536 = a" by (simp add: algebra_simps)
  moreover have eq: "?n = c + 256 * (256 * a + b)" by simp
  then have "?n div 256 = 256 * a + b" using quot [OF assms(3), of "256 * a + b"] by simp
  moreover have "(r + k * q) mod k = r" if "r < k" for r k q :: nat using that by simp
  from this [OF assms(3), of "256 * a + b"] have "?n mod 256 = c" by (simp only: eq)
  ultimately show "?n div 65536 mod 256 = a" "?n div 256 mod 256 = b" "?n mod 256 = c" using assms by simp_all
qed

lemma digits_lt:
  fixes x y :: nat
  shows "y < 256 \<Longrightarrow> x mod 4 * 16 + y div 16 < 64" "y < 256 \<Longrightarrow> x mod 16 * 4 + y div 64 < 64"
proof -
  have "x mod 4 \<le> 3" "x mod 16 \<le> 15" using mod_less_divisor [of 4 x] mod_less_divisor [of 16 x] by linarith+
  moreover assume "y < 256"
  then have "y div 16 \<le> 15" "y div 64 \<le> 3" by linarith+
  ultimately show "x mod 4 * 16 + y div 16 < 64" "x mod 16 * 4 + y div 64 < 64" by linarith+
qed

lemma of_char_nat_lt: "(of_char x :: nat) < 256"
  using nat_of_char_less_256 [of x] by simp

lemma quantum_decodes:
  assumes "n = 1 \<longrightarrow> b = CHR 0x00 \<and> c = CHR 0x00" and "n = 2 \<longrightarrow> c = CHR 0x00"
  shows "decodeQuantum (quantum n (obuf [of_char a, of_char b, of_char c]) @ rest) = Some [a, b, c]"
proof -
  have lt: "(of_char x :: nat) < 256" for x :: char by (rule of_char_nat_lt)
  note ob = obuf_arith [OF lt [of a] lt [of b] lt [of c]]
  note v = quantum_value [OF lt [of a] lt [of b] lt [of c]]
  have "(of_char a :: nat) div 4 < 64" by (rule less_mult_imp_div_less) (use lt [of a] in simp)
  moreover have "(of_char a :: nat) mod 4 * 16 + of_char b div 16 < 64"
    "(of_char b :: nat) mod 16 * 4 + of_char c div 64 < 64" "(of_char c :: nat) mod 64 < 64"
    using digits_lt(1) [OF lt [of b], of "of_char a"] digits_lt(2) [OF lt [of c], of "of_char b"] by simp_all
  ultimately have small: "(of_char a :: nat) div 4 < 64" "(of_char a :: nat) mod 4 * 16 + of_char b div 16 < 64"
    "(of_char b :: nat) mod 16 * 4 + of_char c div 64 < 64" "(of_char c :: nat) mod 64 < 64" .
  let ?o = "obuf [of_char a, of_char b, of_char c]"
  have o: "?o ! 0 = of_char a div 4" "?o ! 1 = of_char a mod 4 * 16 + of_char b div 16"
    "?o ! 2 = of_char b mod 16 * 4 + of_char c div 64" "?o ! 3 = of_char c mod 64"
    unfolding ob by (simp_all add: numeral_2_eq_2 numeral_3_eq_3)
  have pad: "n = 1 \<Longrightarrow> ?o ! 2 = 0" "n = 1 \<or> n = 2 \<Longrightarrow> ?o ! 3 = 0" unfolding o using assms by auto
  obtain c0 c1 c2 c3 where q: "quantum n ?o = [c0, c1, c2, c3]"
    and sh: "\<And>x. shift_in x c0 = 64 * x + ?o ! 0" "\<And>x. shift_in x c1 = 64 * x + ?o ! 1"
      "\<And>x. shift_in x c2 = 64 * x + ?o ! 2" "\<And>x. shift_in x c3 = 64 * x + ?o ! 3"
    using small pad unfolding quantum_def o [symmetric]
    by (cases "n = 1"; cases "n = 2") simp_all
  have "shift_in (shift_in (shift_in (shift_in 0 c0) c1) c2) c3 = 65536 * of_char a + 256 * of_char b + of_char c"
    unfolding sh o v [symmetric] by simp
  with bytes_of_value [OF lt [of a] lt [of b] lt [of c]] show ?thesis
    unfolding q append_Cons decodeQuantum_four Let_def by (simp del: char_of_mod_256)
qed

definition padding :: "string \<Rightarrow> nat" where
  "padding xs = (3 - length xs mod 3) mod 3"

lemma padding_simps [simp]:
  "padding [] = 0" "padding [a] = 2" "padding [a, b] = 1" "padding (a # b # c # xs) = padding xs"
proof -
  have "Suc (Suc (Suc n)) mod 3 = n mod 3" for n :: nat by (metis add_Suc_right add.right_neutral mod_add_self2 numeral_3_eq_3)
  then show "padding (a # b # c # xs) = padding xs" by (simp add: padding_def)
qed (simp_all add: padding_def numeral_2_eq_2)

lemma table64_nth: "i < 64 \<Longrightarrow> table64 ! i \<in> set table64"
  using table64_facts(2) by (metis nth_mem)

lemma obuf_lt:
  "i < 4 \<Longrightarrow> obuf [of_char a, of_char b, of_char c] ! i < 64"
proof -
  have lt: "(of_char x :: nat) < 256" for x :: char by (rule of_char_nat_lt)
  have "(of_char a :: nat) div 4 < 64" by (rule less_mult_imp_div_less) (use lt [of a] in simp)
  moreover assume "i < 4"
  then have "i = 0 \<or> i = 1 \<or> i = 2 \<or> i = 3" by auto
  ultimately show ?thesis
    using digits_lt(1) [OF lt [of b], of "of_char a"] digits_lt(2) [OF lt [of c], of "of_char b"]
    unfolding obuf_arith [OF lt lt lt] by (auto simp: numeral_2_eq_2 numeral_3_eq_3)
qed

text \<open>A quantum consists of table characters and padding at its end.\<close>

lemma quantum_shape:
  fixes a b c
  defines "ob \<equiv> obuf [of_char a, of_char b, of_char c]"
  shows "\<exists>body. quantum n ob = body @ replicate (4 - length body) (CHR ''='') \<and> set body \<subseteq> set table64
    \<and> length body = (if n = 1 then 2 else if n = 2 then 3 else 4)"
proof -
  have mem: "table64 ! (ob ! i) \<in> set table64" if "i < 4" for i
    using table64_nth [OF obuf_lt [OF that]] by (simp add: ob_def)
  show ?thesis
    unfolding quantum_def using mem [of 0] mem [of 1] mem [of 2] mem [of 3]
    by (intro exI [of _ "map ((!) table64) (take (if n = 1 then 2 else if n = 2 then 3 else 4) [ob ! 0, ob ! 1, ob ! 2, ob ! 3])"])
      (auto simp: numeral_2_eq_2 numeral_3_eq_3)
qed

lemma b64_shape:
  "\<exists>body. b64 xs = body @ replicate (padding xs) (CHR ''='') \<and> set body \<subseteq> set table64"
proof (induction xs rule: b64.induct)
  case (2 a)
  from quantum_shape [of 1 a "CHR 0x00" "CHR 0x00"] show ?case by auto
next
  case (3 a b)
  from quantum_shape [of 2 a b "CHR 0x00"] show ?case by auto
next
  case (4 a b c xs)
  from quantum_shape [of 3 a b c] obtain q where
    q: "quantum 3 (obuf [of_char a, of_char b, of_char c]) = q" "set q \<subseteq> set table64" by auto
  from 4 obtain body where "b64 xs = body @ replicate (padding xs) (CHR ''='')" "set body \<subseteq> set table64" by blast
  with q show ?case by (intro exI [of _ "q @ body"]) simp
qed simp

lemma equals_term_shape:
  assumes "set body \<subseteq> set table64" and "n \<le> 2"
  shows "length (takeWhile (\<lambda>c. c \<noteq> CHR ''='') (body @ replicate n (CHR ''=''))) = length body"
    "equals_term (body @ replicate n (CHR ''='')) (length body) = n"
proof -
  have "\<forall>c \<in> set body. c \<noteq> CHR ''=''" using assms(1) table64_facts(3) by blast
  moreover from this have "length (takeWhile (\<lambda>c. c \<noteq> CHR ''='') body) = length body"
    by (simp only: takeWhile_eq_all_conv [THEN iffD2])
  ultimately show "length (takeWhile (\<lambda>c. c \<noteq> CHR ''='') (body @ replicate n (CHR ''=''))) = length body"
    by (cases n) (simp_all add: takeWhile_append2)
  show "equals_term (body @ replicate n (CHR ''='')) (length body) = n"
    using assms(2) by (auto simp: equals_term_def char_at_def nth_append le_Suc_eq numeral_2_eq_2)
qed

lemma quanta_Suc [simp]: "(4 + n) div 4 = Suc (n div 4)" for n :: nat
  by simp

lemma b64_quanta: "length (b64 xs) div 4 * 3 = length xs + padding xs"
  by (induction xs rule: b64.induct) simp_all

lemma decode_loop_b64:
  assumes "xs \<noteq> []" and "length acc + length xs + 2 \<le> cap"
  shows "\<exists>src pre l. decode_loop cap (length (b64 xs) div 4 - 1) (b64 xs) acc = Some (src, acc @ pre)
    \<and> decodeQuantum src = Some l \<and> pre @ take (3 - padding xs) l = xs"
  using assms
proof (induction xs arbitrary: acc rule: b64.induct)
  case (2 a)
  from quantum_decodes [of 1 "CHR 0x00" "CHR 0x00" a "[]"] show ?case by simp
next
  case (3 a b)
  from quantum_decodes [of 2 b "CHR 0x00" a "[]"] show ?case by (simp add: numeral_2_eq_2)
next
  case (4 a b c xs)
  note q = quantum_decodes [of 3 b c a]
  show ?case
  proof (cases "xs = []")
    case True
    with q [of "[]"] show ?thesis by (simp add: numeral_3_eq_3)
  next
    case False
    then have "4 \<le> length (b64 xs)" by (cases xs) (auto simp: length_b64)
    then obtain n where n: "length (b64 xs) div 4 = Suc n" by (cases "length (b64 xs) div 4") auto
    from 4(1) [OF False, of "acc @ [a, b, c]"] 4(3) obtain src pre l where
      "decode_loop cap n (b64 xs) (acc @ [a, b, c]) = Some (src, acc @ [a, b, c] @ pre)"
      "decodeQuantum src = Some l" "pre @ take (3 - padding xs) l = xs" using n by auto
    then show ?thesis using q [of "b64 xs"] 4(3) n
      by - (rule exI [of _ src], rule exI [of _ "[a, b, c] @ pre"], rule exI [of _ l], simp)
  qed
qed simp

lemma b64_valid: "list_all nr_b64_is_valid_character (b64 xs)"
proof -
  from b64_shape [of xs] obtain body where "b64 xs = body @ replicate (padding xs) (CHR ''='')"
    "set body \<subseteq> set table64" by blast
  moreover have "nr_b64_is_valid_character (CHR ''='')" by (simp add: nr_b64_is_valid_character_def)
  ultimately show ?thesis using table64_facts(5) unfolding list_all_iff by auto
qed

lemma nr_b64_decode_spec:
  assumes "xs \<noteq> []"
  shows "nr_b64_decode (Some (b64 xs)) = Some (Some xs, Some (int (length xs)))"
proof -
  have p2: "padding xs \<le> 2" using mod_less_divisor [of 3 "3 - length xs mod 3"] by (simp add: padding_def)
  from b64_shape obtain body where b: "b64 xs = body @ replicate (padding xs) (CHR ''='')" "set body \<subseteq> set table64" by blast
  note valid = b64_valid [of xs]
  note e = equals_term_shape [OF b(2) p2]
  let ?n = "length (b64 xs) div 4"
  have len: "length body + padding xs = length (b64 xs)" using b(1) by simp
  have n: "?n = (length xs + 2) div 3" by (simp add: length_b64)
  then have n0: "?n \<noteq> 0" using assms by (cases xs) auto
  have raw: "?n * 3 - padding xs = length xs" using b64_quanta [of xs] by simp
  from decode_loop_b64 [OF assms, of "[]" "length xs + 4"] obtain src pre l where
    "decode_loop (length xs + 4) (?n - 1) (b64 xs) [] = Some (src, pre)" "decodeQuantum src = Some l"
    "pre @ take (3 - padding xs) l = xs" by auto
  moreover from arg_cong [OF this(3), of length] have "length pre + min (length l) (3 - padding xs) < length xs + 4" by simp
  ultimately show ?thesis using n0 raw valid
    unfolding nr_b64_decode_def option.case using e [folded b(1)] len by (simp add: Let_def)
qed

section \<open>Decoding any string\<close>

lemma equals_term_le:
  "length (takeWhile (\<lambda>c. c \<noteq> CHR ''='') src) + equals_term src (length (takeWhile (\<lambda>c. c \<noteq> CHR ''='') src)) \<le> length src"
  using length_takeWhile_le [of "\<lambda>c. c \<noteq> CHR ''=''" src]
  by (auto simp: equals_term_def char_at_def split: if_splits)

lemma decodeQuantum_total: "4 \<le> length src \<Longrightarrow> \<exists>l. decodeQuantum src = Some l \<and> length l = 3"
  by (simp add: decodeQuantum_def char_at_def Let_def)

lemma decode_loop_total:
  assumes "4 * n \<le> length src" and "length newstr + 3 * n \<le> cap"
  shows "\<exists>out. decode_loop cap n src newstr = Some (drop (4 * n) src, newstr @ out) \<and> length out = 3 * n"
  using assms
proof (induction n arbitrary: src newstr)
  case (Suc n)
  from decodeQuantum_total [of src] Suc.prems(1) obtain l where l: "decodeQuantum src = Some l" "length l = 3" by auto
  have "4 * n \<le> length (drop 4 src)" "length (newstr @ l) + 3 * n \<le> cap" using Suc.prems l(2) by auto
  from Suc.IH [OF this] obtain out where
    "decode_loop cap n (drop 4 src) (newstr @ l) = Some (drop (4 * n) (drop 4 src), (newstr @ l) @ out)" "length out = 3 * n"
    by auto
  with l Suc.prems show ?case by (intro exI [of _ "l @ out"]) (simp add: add.commute)
qed simp

section \<open>Properties\<close>

text \<open>C29. Decoding what was encoded gives the bytes back, zero bytes included, and the encoder and
  the decoder stay inside of their buffers: for every \<open>len\<close> between 1 and \<open>2 ^ 29 - 1\<close> and every
  buffer with that many bytes, \<open>nr_b64_encode\<close> returns a string of \<open>4 \<lceil>len / 3\<rceil>\<close> characters of
  the alphabet, and \<open>nr_b64_decode\<close> returns exactly the bytes and their number.\<close>

theorem nr_b64_roundtrip:
  assumes "0 < len" and "len < 2 ^ 29" and "nat len \<le> length data"
  shows "\<exists>enc. nr_b64_encode (Some data) len = Some (Some (enc, int (length enc)))
    \<and> length enc = 4 * ((nat len + 2) div 3) \<and> list_all nr_b64_is_valid_character enc
    \<and> nr_b64_decode (Some enc) = Some (Some (take (nat len) data), Some len)"
proof -
  let ?xs = "take (nat len) data"
  have len: "length ?xs = nat len" "?xs \<noteq> []" using assms(1,3) by auto
  have "nr_b64_encode (Some data) len = Some (Some (b64 ?xs, int (length (b64 ?xs))))"
    using nr_b64_encode_spec [OF assms(1) _ assms(3)] assms(2) by simp
  with nr_b64_decode_spec [OF len(2)] b64_valid [of ?xs] show ?thesis
    using len(1) assms(1) by (simp add: length_b64)
qed

theorem nr_b64_roundtrip_witness:
  "\<exists>enc. nr_b64_encode (Some [CHR 0x00, CHR 0xFF, CHR ''a'', CHR ''b'']) 4 = Some (Some (enc, 8))
     \<and> nr_b64_decode (Some enc) = Some (Some [CHR 0x00, CHR 0xFF, CHR ''a'', CHR ''b''], Some 4)"
  using nr_b64_roundtrip [of 4 "[CHR 0x00, CHR 0xFF, CHR ''a'', CHR ''b'']"] by auto



end
