(* ===== verification/Obfuscate.thy ===== *)
theory Obfuscate
  imports Base64 StringPool
begin

text \<open>
  Obfuscation of headers and browser data with a key (\<^verbatim>\<open>axiom/util_obfuscate.c\<close>):
  exclusive or with the repeated key, then Base64. A key length of 0 stands for a key that
  is a C string. Reading the key past its end is \<open>None\<close>.
\<close>

definition key_length :: "string \<Rightarrow> int \<Rightarrow> nat" where
  "key_length key keylen = (if keylen = 0 then length key else nat keylen)"

definition bad_arguments :: "string ptr \<Rightarrow> string ptr \<Rightarrow> int \<Rightarrow> bool" where
  "bad_arguments str key keylen \<longleftrightarrow> str = NULL \<or> str = Some [] \<or> key = NULL \<or> key = Some [] \<or> keylen < 0"

text \<open>Bytes \<open>i\<close> and up, with the key.\<close>

fun xor_key :: "string \<Rightarrow> nat \<Rightarrow> nat \<Rightarrow> string \<Rightarrow> string option" where
  "xor_key key klen i [] = Some []"
| "xor_key key klen i (c # cs) = do {
     k \<leftarrow> char_at key (i mod klen);
     rest \<leftarrow> xor_key key klen (i + 1) cs;
     Some (char_of (of_char c XOR of_char k :: nat) # rest)
   }"

definition nr_obfuscate :: "string ptr \<Rightarrow> string ptr \<Rightarrow> int \<Rightarrow> string ptr option" where
  "nr_obfuscate str key keylen =
     (if bad_arguments str key keylen then Some NULL
      else do {
        let klen = key_length (the key) keylen;
        xored \<leftarrow> xor_key (the key) klen 0 (the str);
        encoded \<leftarrow> nr_b64_encode (Some xored) (int (length (the str)));
        Some (map_option fst encoded)
      })"

definition nr_deobfuscate :: "string ptr \<Rightarrow> string ptr \<Rightarrow> int \<Rightarrow> string ptr option" where
  "nr_deobfuscate str key keylen =
     (if bad_arguments str key keylen then Some NULL
      else do {
        (decoded, slen) \<leftarrow> nr_b64_decode str;
        (case (decoded, slen) of
           (Some bytes, Some n) \<Rightarrow>
             if n \<le> 0 then Some NULL
             else do {
               let klen = key_length (the key) keylen;
               bytes \<leftarrow> xor_key (the key) klen 0 bytes;
               Some (Some bytes)
             }
         | _ \<Rightarrow> Some NULL)
      })"

section \<open>The key cancels\<close>

lemma xor_char_twice: "char_of (of_char (char_of (of_char c XOR of_char k :: nat)) XOR of_char k :: nat) = c"
proof -
  have t: "take_bit 8 (of_char x :: nat) = of_char x" for x :: char
    by (rule take_bit_nat_eq_self) (simp add: of_char_nat_lt [simplified])
  have "take_bit 8 (of_char c XOR of_char k :: nat) = of_char c XOR of_char k" by (simp add: take_bit_xor t)
  then have "of_char (char_of (of_char c XOR of_char k :: nat)) = (of_char c XOR of_char k :: nat)"
    by (simp add: of_char_of take_bit_eq_mod)
  then show ?thesis by (simp add: xor.assoc)
qed

lemma xor_key_total:
  assumes "0 < klen" and "klen \<le> length key + 1"
  shows "\<exists>ys. xor_key key klen i xs = Some ys \<and> length ys = length xs \<and> xor_key key klen i ys = Some xs"
proof (induction xs arbitrary: i)
  case (Cons c cs)
  have "i mod klen \<le> length key" using mod_less_divisor [OF assms(1), of i] assms(2) by linarith
  then obtain k where "char_at key (i mod klen) = Some k"
    by (cases "i mod klen < length key") (simp_all add: char_at_def)
  with Cons [of "i + 1"] xor_char_twice [of c k] show ?case by auto
qed simp

lemma zero_not_valid: "\<not> nr_b64_is_valid_character (CHR 0x00)"
  by (simp add: nr_b64_is_valid_character_def)

text \<open>C35. Obfuscation can be undone: for every nonempty string of less than \<open>2 ^ 29\<close> characters and
  every nonempty key, given with length 0 or with a length within its terminated buffer,
  \<open>nr_obfuscate\<close> returns a nonempty C string that \<open>nr_deobfuscate\<close> with the same key turns
  back into the string; neither reads outside of its arguments.\<close>

theorem nr_obfuscate_roundtrip:
  assumes "str \<noteq> []" and "length str < 2 ^ 29" and "key \<noteq> []" and "0 \<le> keylen" and "keylen \<le> int (length key) + 1"
  shows "\<exists>enc. nr_obfuscate (Some str) (Some key) keylen = Some (Some enc) \<and> enc \<noteq> [] \<and> c_string enc
    \<and> nr_deobfuscate (Some enc) (Some key) keylen = Some (Some str)"
proof -
  have k: "0 < key_length key keylen" "key_length key keylen \<le> length key + 1"
    using assms(3-5) by (auto simp: key_length_def)
  from xor_key_total [OF k, of 0 str] obtain ys where
    ys: "xor_key key (key_length key keylen) 0 str = Some ys" "length ys = length str"
    "xor_key key (key_length key keylen) 0 ys = Some str" by blast
  have ne: "ys \<noteq> []" using ys(2) assms(1) by auto
  have "nr_b64_encode (Some ys) (int (length str)) = Some (Some (b64 ys, int (length (b64 ys))))"
    using nr_b64_encode_spec [of "int (length str)" ys] ys(2) assms(1,2) by simp
  moreover have "b64 ys \<noteq> []" using ne length_b64 [of ys] by (cases ys) auto
  moreover have "c_string (b64 ys)"
    using b64_valid [of ys] zero_not_valid unfolding c_string_def list_all_iff by blast
  ultimately show ?thesis
    using ys nr_b64_decode_spec [OF ne] ne assms
    by (intro exI [of _ "b64 ys"]) (simp add: nr_obfuscate_def nr_deobfuscate_def bad_arguments_def)
qed

theorem nr_obfuscate_roundtrip_witness:
  "\<exists>enc. nr_obfuscate (Some ''testString'') (Some ''BLAHHHH'') 0 = Some (Some enc)
     \<and> nr_deobfuscate (Some enc) (Some ''BLAHHHH'') 0 = Some (Some ''testString'')"
  using nr_obfuscate_roundtrip [of "''testString''" "''BLAHHHH''" 0] by auto

end
