(* ===== verification/Sql.thy ===== *)
theory Sql
  imports StringPool "HOL-Library.Sublist"
begin

text \<open>
  SQL helpers (\<^verbatim>\<open>axiom/util_sql.c\<close>): obfuscation of statements before they leave the
  process, normalization for grouping, and the parser that finds the operation and the table
  of a statement. A pointer into a string is the rest of the string; the character behind the
  last one is the terminating zero, and reading past that is \<open>None\<close>. The strings are shorter
  than \<open>2 ^ 31\<close>, the range of the lengths the code computes.
\<close>

section \<open>String functions\<close>

abbreviation dquote :: char where "dquote \<equiv> CHR 0x22"
abbreviation squote :: char where "squote \<equiv> CHR 0x27"
abbreviation backslash :: char where "backslash \<equiv> CHR 0x5C"
abbreviation backquote :: char where "backquote \<equiv> CHR 0x60"
abbreviation newline :: char where "newline \<equiv> CHR 0x0A"

text \<open>The character at a pointer.\<close>

definition at_ptr :: "string \<Rightarrow> char" where
  "at_ptr p = (case p of [] \<Rightarrow> CHR 0x00 | c # _ \<Rightarrow> c)"

fun nr_strchr :: "string \<Rightarrow> char \<Rightarrow> string option" where
  "nr_strchr [] c = (if c = CHR 0x00 then Some [] else None)"
| "nr_strchr (x # p) c = (if x = c then Some (x # p) else nr_strchr p c)"

fun nr_strstr :: "string \<Rightarrow> string \<Rightarrow> string option" where
  "nr_strstr [] needle = (if needle = [] then Some [] else None)"
| "nr_strstr (x # p) needle =
     (if take (length needle) (x # p) = needle then Some (x # p) else nr_strstr p needle)"

definition nr_strspn :: "string \<Rightarrow> string \<Rightarrow> nat" where
  "nr_strspn p chars = length (takeWhile (\<lambda>c. c \<in> set chars) p)"

definition nr_strcspn :: "string \<Rightarrow> string \<Rightarrow> nat" where
  "nr_strcspn p chars = length (takeWhile (\<lambda>c. c \<notin> set chars) p)"

definition nr_isspace :: "char \<Rightarrow> bool" where
  "nr_isspace c \<longleftrightarrow> c \<in> {CHR 0x20, CHR 0x09, CHR 0x0A, CHR 0x0B, CHR 0x0C, CHR 0x0D}"

definition nr_tolower :: "char \<Rightarrow> char" where
  "nr_tolower c =
     (if (of_char (CHR ''A'') :: nat) \<le> of_char c \<and> (of_char c :: nat) \<le> of_char (CHR ''Z'')
      then char_of ((of_char c :: nat) OR 0x20) else c)"

section \<open>Obfuscation\<close>

definition is_digit :: "char \<Rightarrow> bool" where
  "is_digit c \<longleftrightarrow> c \<in> set ''0123456789''"

text \<open>One turn of the loop: the new state, the pointer into the statement and the output written
  so far, or \<open>Done\<close> when the statement ends or a comment is not closed.\<close>

datatype scan = Next nat string string | Done string

text \<open>Inside of quotes. A backslash skips the character behind it; behind the last character
  of the statement that is the terminating zero, and the next turn reads past it.\<close>

definition quoted_step :: "char \<Rightarrow> nat \<Rightarrow> char \<Rightarrow> string \<Rightarrow> string \<Rightarrow> scan option" where
  "quoted_step quote state c r q =
     (if c = backslash then (case r of [] \<Rightarrow> None | _ # r' \<Rightarrow> Some (Next state r' q))
      else if c = quote then
        (if at_ptr r = quote then Some (Next state (tl r) q) else Some (Next 0 r q))
      else Some (Next state r q))"

definition normal_step :: "char \<Rightarrow> string \<Rightarrow> string \<Rightarrow> scan" where
  "normal_step c r q =
     (if c = dquote then Next 1 r (q @ ''?'')
      else if c = squote then Next 2 r (q @ ''?'')
      else if c = CHR ''-'' then
        (if at_ptr r = CHR ''-''
         then (case nr_strchr (c # r) newline of None \<Rightarrow> Done q | Some p \<Rightarrow> Next 0 (tl p) q)
         else Next 0 r (q @ [c]))
      else if c = CHR ''/'' then
        (if at_ptr r = CHR ''*''
         then (case nr_strstr (c # r) ''*/'' of None \<Rightarrow> Done q | Some p \<Rightarrow> Next 0 (drop 2 p) q)
         else Next 0 r (q @ [c]))
      else if is_digit c then Next 3 r (q @ ''?'')
      else Next 0 r (q @ [c]))"

definition obfuscate_step :: "nat \<Rightarrow> string \<Rightarrow> string \<Rightarrow> scan option" where
  "obfuscate_step state p q =
     (case p of [] \<Rightarrow> Some (Done q)
      | c # r \<Rightarrow>
          if state = 0 then Some (normal_step c r q)
          else if state = 1 then quoted_step dquote 1 c r q
          else if state = 2 then quoted_step squote 2 c r q
          else if is_digit c then Some (Next 3 r q) else Some (Next 0 p q))"

lemma nr_strchr_length: "nr_strchr p c = Some p' \<Longrightarrow> length p' \<le> length p"
  by (induction p) (auto split: if_splits)

lemma nr_strstr_length: "nr_strstr p w = Some p' \<Longrightarrow> length p' \<le> length p"
  by (induction p) (auto split: if_splits)

definition scan_measure :: "nat \<Rightarrow> string \<Rightarrow> nat" where
  "scan_measure state p = 2 * length p + (if 3 \<le> state then 1 else 0)"

lemma obfuscate_step_decreases:
  assumes "obfuscate_step state p q = Some (Next state' p' q')"
  shows "scan_measure state' p' < scan_measure state p"
proof (cases p)
  case (Cons c r)
  have "2 * length p' + 1 < 2 * length p" if "normal_step c r q = Next state' p' q'"
    using that Cons by (auto simp: normal_step_def split: if_splits option.splits
        dest!: nr_strchr_length nr_strstr_length)
  then show ?thesis
    using assms Cons by (fastforce simp: obfuscate_step_def scan_measure_def quoted_step_def split: if_splits list.splits)
qed (use assms in \<open>simp add: obfuscate_step_def\<close>)

text \<open>The loop, with the size of the output buffer; writing past its end is \<open>None\<close>.\<close>

function obfuscate_loop :: "nat \<Rightarrow> nat \<Rightarrow> string \<Rightarrow> string \<Rightarrow> string option" where
  "obfuscate_loop space state p q =
     (case obfuscate_step state p q of
        None \<Rightarrow> None
      | Some (Done q) \<Rightarrow> if length q < space then Some q else None
      | Some (Next state p q) \<Rightarrow> if length q \<le> space then obfuscate_loop space state p q else None)"
  by pat_completeness auto
termination
  by (relation "measure (\<lambda>(space, state, p, q). scan_measure state p)") (auto dest: obfuscate_step_decreases)

declare obfuscate_loop.simps [simp del]

definition nr_sql_obfuscate :: "string ptr \<Rightarrow> string ptr option" where
  "nr_sql_obfuscate raw =
     (case raw of None \<Rightarrow> Some NULL
      | Some s \<Rightarrow> map_option Some (obfuscate_loop (length s + 1) 0 s []))"

section \<open>Normalization\<close>

text \<open>One character of the loop: the new state and what is written.\<close>

definition normalize_step :: "nat \<Rightarrow> char \<Rightarrow> nat \<times> string" where
  "normalize_step state c =
     (if state = 0 then (if c \<in> {CHR ''i'', CHR ''I''} then 1 else 0, [c])
      else if state = 1 then (if c \<in> {CHR ''n'', CHR ''N''} then 2 else 0, [c])
      else if state = 2 then (if c = CHR ''('' then 3 else if nr_isspace c then 2 else 0, [c])
      else if state = 3 then
        (if c = CHR ''?'' \<or> c = CHR '','' \<or> nr_isspace c then (3, [])
         else if c = CHR '')'' then (0, ''?)'') else (4, [c]))
      else (if c = CHR '')'' then 0 else 4, [c]))"

fun normalize_loop :: "nat \<Rightarrow> nat \<Rightarrow> string \<Rightarrow> string \<Rightarrow> string option" where
  "normalize_loop space state [] q = (if length q < space then Some q else None)"
| "normalize_loop space state (c # p) q =
     (case normalize_step state c of (state, out) \<Rightarrow>
        if length q + length out \<le> space then normalize_loop space state p (q @ out) else None)"

definition nr_sql_normalize :: "string ptr \<Rightarrow> string ptr option" where
  "nr_sql_normalize obfuscated_sql =
     (case obfuscated_sql of
        None \<Rightarrow> Some NULL
      | Some s \<Rightarrow> if s = [] then Some NULL else map_option Some (normalize_loop (length s + 1) 0 s []))"

definition nr_sql_normalized_id :: "string ptr \<Rightarrow> uint32 option" where
  "nr_sql_normalized_id obfuscated_sql = do {
     normalized \<leftarrow> nr_sql_normalize obfuscated_sql;
     (case normalized of None \<Rightarrow> Some 0 | Some _ \<Rightarrow> Some (fst (nr_mkhash normalized NULL)))
   }"

section \<open>What normalization does\<close>

fun normalized :: "nat \<Rightarrow> string \<Rightarrow> string" where
  "normalized state [] = []"
| "normalized state (c # p) = snd (normalize_step state c) @ normalized (fst (normalize_step state c)) p"

lemma normalize_loop_eq:
  "normalize_loop space state p q = (if length q + length (normalized state p) < space then Some (q @ normalized state p) else None)"
  by (induction p arbitrary: state q) (auto split: prod.splits)

text \<open>An empty pair of parentheses.\<close>

fun empty_parens :: "string \<Rightarrow> bool" where
  "empty_parens [] = False"
| "empty_parens (c # p) = (c = CHR ''('' \<and> at_ptr p = CHR '')'' \<or> empty_parens p)"

definition droppable :: "char \<Rightarrow> bool" where
  "droppable c \<longleftrightarrow> c = CHR ''?'' \<or> c = CHR '','' \<or> nr_isspace c"

lemma normalize_step_copies:
  "state \<noteq> 3 \<Longrightarrow> snd (normalize_step state c) = [c] \<and> (fst (normalize_step state c) = 3 \<longrightarrow> c = CHR ''('')"
  by (simp add: normalize_step_def)

lemma normalize_step_list:
  "normalize_step 3 c = (if droppable c then (3, []) else if c = CHR '')'' then (0, ''?)'') else (4, [c]))"
  by (simp add: normalize_step_def droppable_def)

lemma droppable_simps: "droppable (CHR ''?'')" "\<not> droppable (CHR '')'')"
  by (simp_all add: droppable_def nr_isspace_def)

lemma at_ptr_simps [simp]: "at_ptr [] = CHR 0x00" "at_ptr (c # p) = c"
  by (simp_all add: at_ptr_def)

lemma normalized_length:
  "\<not> empty_parens p \<Longrightarrow> length (normalized state p) \<le> length p + (if state = 3 \<and> at_ptr p = CHR '')'' then 1 else 0)"
proof (induction p arbitrary: state)
  case (Cons c p)
  let ?st = "fst (normalize_step state c)"
  have IH: "length (normalized st p) \<le> length p + (if st = 3 \<and> at_ptr p = CHR '')'' then 1 else 0)" for st
    using Cons by simp
  show ?case
  proof (cases "state = 3")
    case True
    with IH [of 3] IH [of 0] IH [of 4] show ?thesis by (auto simp: normalize_step_list droppable_simps split: if_splits)
  next
    case False
    then have "?st = 3 \<Longrightarrow> at_ptr p \<noteq> CHR '')''" using normalize_step_copies [OF False, of c] Cons.prems by auto
    with False normalize_step_copies [OF False, of c] IH [of ?st] show ?thesis by (cases "?st = 3") auto
  qed
qed simp

text \<open>Inside of a list nothing that is written starts with a closing parenthesis.\<close>

lemma normalized_parens:
  "\<not> empty_parens p \<Longrightarrow> \<not> empty_parens (normalized state p)
     \<and> (state = 3 \<longrightarrow> at_ptr (normalized state p) \<noteq> CHR '')'')
     \<and> (state \<noteq> 3 \<longrightarrow> at_ptr (normalized state p) = at_ptr p)"
proof (induction p arbitrary: state)
  case (Cons c p)
  let ?st = "fst (normalize_step state c)"
  have IH: "\<not> empty_parens (normalized st p) \<and> (st = 3 \<longrightarrow> at_ptr (normalized st p) \<noteq> CHR '')'')
     \<and> (st \<noteq> 3 \<longrightarrow> at_ptr (normalized st p) = at_ptr p)" for st
    using Cons by simp
  show ?case
  proof (cases "state = 3")
    case True
    with IH [of 3] IH [of 0] IH [of 4] Cons.prems show ?thesis by (auto simp: normalize_step_list split: if_splits)
  next
    case False
    with normalize_step_copies [OF False, of c] IH [of ?st] Cons.prems show ?thesis by (cases "?st = 3") auto
  qed
qed simp

lemma normalized_idem: "normalized state (normalized state p) = normalized state p"
proof (induction p arbitrary: state)
  case (Cons c p)
  show ?case
  proof (cases "state = 3")
    case True
    with Cons [of 3] Cons [of 0] Cons [of 4] show ?thesis by (simp add: normalize_step_list droppable_simps)
  next
    case False
    with normalize_step_copies [OF False, of c] Cons [of "fst (normalize_step state c)"] show ?thesis by simp
  qed
qed simp

lemma normalized_Nil: "normalized 0 p = [] \<longleftrightarrow> p = []"
  by (cases p) (simp_all add: normalize_step_def)

lemma nr_sql_normalize_spec:
  assumes "s \<noteq> []" and "\<not> empty_parens s"
  shows "nr_sql_normalize (Some s) = Some (Some (normalized 0 s))"
  using assms normalized_length [of s 0] by (simp add: nr_sql_normalize_def normalize_loop_eq)

lemma normalized_empty_list: "normalized 0 (''in()'' @ p) = ''in(?)'' @ normalized 0 p"
  by (simp add: normalize_step_def nr_isspace_def)

lemma normalized_empty_lists: "length (normalized 0 (concat (replicate n ''in()''))) = 5 * n"
  by (induction n) (simp_all only: replicate.simps concat.simps normalized_empty_list, simp_all)

section \<open>What obfuscation does\<close>

text \<open>The text that is written from a state on, without the buffer.\<close>

function obfuscated :: "nat \<Rightarrow> string \<Rightarrow> string option" where
  "obfuscated state p =
     (case obfuscate_step state p [] of
        None \<Rightarrow> None
      | Some (Done q) \<Rightarrow> Some q
      | Some (Next state p q) \<Rightarrow> map_option ((@) q) (obfuscated state p))"
  by pat_completeness auto
termination
  by (relation "measure (\<lambda>(state, p). scan_measure state p)") (auto dest: obfuscate_step_decreases)

declare obfuscated.simps [simp del]

fun scan_append :: "string \<Rightarrow> scan \<Rightarrow> scan" where
  "scan_append q (Next state p r) = Next state p (q @ r)"
| "scan_append q (Done r) = Done (q @ r)"

lemma obfuscate_step_append: "obfuscate_step state p q = map_option (scan_append q) (obfuscate_step state p [])"
  by (simp add: obfuscate_step_def normal_step_def quoted_step_def split: list.splits option.splits)

text \<open>A step writes no more than it reads.\<close>

lemma obfuscate_step_length:
  "obfuscate_step state p [] = Some (Next state' p' q') \<Longrightarrow> length q' + length p' \<le> length p"
  "obfuscate_step state p [] = Some (Done q') \<Longrightarrow> q' = []"
  by (auto simp: obfuscate_step_def normal_step_def quoted_step_def split: list.splits option.splits if_splits
      dest!: nr_strchr_length nr_strstr_length)

lemma obfuscate_loop_eq:
  "length q + length p < space \<Longrightarrow> obfuscate_loop space state p q = map_option ((@) q) (obfuscated state p)"
proof (induction space state p q rule: obfuscate_loop.induct)
  case (1 space state p q)
  note IH = "1.IH"
  show ?case
  proof (cases "obfuscate_step state p []")
    case None
    then show ?thesis by (subst obfuscate_loop.simps, subst obfuscated.simps) (simp add: obfuscate_step_append [of _ _ q])
  next
    case (Some a)
    then have st: "obfuscate_step state p q = Some (scan_append q a)" by (simp add: obfuscate_step_append [of _ _ q])
    show ?thesis
    proof (cases a)
      case (Done r)
      with Some obfuscate_step_length(2) [of state p r] "1.prems" st show ?thesis
        by (subst obfuscate_loop.simps, subst obfuscated.simps) simp
    next
      case (Next state' p' r)
      have len: "length r + length p' \<le> length p" using obfuscate_step_length(1) Some Next by simp
      have "obfuscate_loop space state' p' (q @ r) = map_option ((@) (q @ r)) (obfuscated state' p')"
        by (rule IH [OF st [unfolded Next scan_append.simps] refl]) (use len "1.prems" in simp_all)
      moreover have "obfuscate_loop space state p q = obfuscate_loop space state' p' (q @ r)"
        using st Next len "1.prems" by (subst obfuscate_loop.simps) simp
      moreover have "obfuscated state p = map_option ((@) r) (obfuscated state' p')"
        using Some Next by (subst obfuscated.simps) simp
      ultimately show ?thesis by (cases "obfuscated state' p'") simp_all
    qed
  qed
qed

lemma nr_sql_obfuscate_eq: "nr_sql_obfuscate (Some s) = map_option Some (obfuscated 0 s)"
  by (cases "obfuscated 0 s") (simp_all add: nr_sql_obfuscate_def obfuscate_loop_eq)

text \<open>What may be written: neither digits nor quotes, and nothing but characters of the statement.\<close>

definition visible :: "string \<Rightarrow> char \<Rightarrow> bool" where
  "visible p c \<longleftrightarrow> \<not> is_digit c \<and> c \<noteq> dquote \<and> c \<noteq> squote \<and> (c \<in> set p \<or> c = CHR ''?'')"

definition no_dangling_escape :: "string \<Rightarrow> bool" where
  "no_dangling_escape p \<longleftrightarrow> p = [] \<or> last p \<noteq> backslash"

lemma nr_strchr_suffix: "nr_strchr p c = Some p' \<Longrightarrow> suffix p' p"
  by (induction p) (auto split: if_splits intro: suffix_ConsI)

lemma nr_strstr_suffix: "nr_strstr p w = Some p' \<Longrightarrow> suffix p' p"
  by (induction p) (auto split: if_splits intro: suffix_ConsI)

lemma normal_step_visible:
  assumes "normal_step c r [] = Next state' p' q'"
  shows "suffix p' (c # r) \<and> (\<forall>x \<in> set q'. visible (c # r) x)"
proof -
  have sub: "suffix r (c # r)" by (simp add: suffix_ConsI)
  have com: "nr_strchr (c # r) newline = Some p \<Longrightarrow> suffix (tl p) (c # r)"
    "nr_strstr (c # r) ''*/'' = Some p \<Longrightarrow> suffix (drop 2 p) (c # r)" for p
    by (blast intro: suffix_order.trans [OF suffix_tl nr_strchr_suffix] suffix_order.trans [OF suffix_drop nr_strstr_suffix])+
  have vis: "visible (c # r) (CHR ''?'')" "c \<noteq> dquote \<Longrightarrow> c \<noteq> squote \<Longrightarrow> \<not> is_digit c \<Longrightarrow> visible (c # r) c"
    by (simp_all add: visible_def is_digit_def)
  have nd: "\<not> is_digit (CHR ''-'')" "\<not> is_digit (CHR ''/'')" by (simp_all add: is_digit_def)
  consider "c = dquote" | "c = squote" | "c = CHR ''-''" | "c = CHR ''/''" | "is_digit c" | 
    "c \<noteq> dquote" "c \<noteq> squote" "c \<noteq> CHR ''-''" "c \<noteq> CHR ''/''" "\<not> is_digit c" by blast
  then show ?thesis
  proof cases
    case 3
    with assms sub com(1) vis(2) nd show ?thesis by (auto simp: normal_step_def split: if_splits option.splits)
  next
    case 4
    with assms sub com(2) vis(2) nd show ?thesis by (auto simp: normal_step_def split: if_splits option.splits)
  next
    case 5
    with assms sub vis(1) show ?thesis by (auto simp: normal_step_def is_digit_def)
  qed (use assms sub vis in \<open>auto simp: normal_step_def\<close>)
qed

lemma quoted_step_suffix:
  assumes "no_dangling_escape (c # r)"
  shows "\<exists>state' p'. quoted_step quote st c r [] = Some (Next state' p' []) \<and> suffix p' (c # r)"
proof -
  have sub: "suffix r (c # r)" "suffix (tl r) (c # r)" by (auto intro: suffix_ConsI suffix_tl)
  show ?thesis
  proof (cases "c = backslash")
    case True
    with assms obtain d r' where "r = d # r'" by (cases r) (auto simp: no_dangling_escape_def)
    with True sub show ?thesis by (simp add: quoted_step_def)
  next
    case False
    with sub show ?thesis by (auto simp: quoted_step_def)
  qed
qed

lemma obfuscate_step_visible:
  assumes "no_dangling_escape p"
  shows "obfuscate_step state p [] = Some (Done []) \<or> (\<exists>state' p' q'. obfuscate_step state p [] = Some (Next state' p' q')
    \<and> suffix p' p \<and> (\<forall>x \<in> set q'. visible p x))"
proof (cases p)
  case (Cons c r)
  have quoted: "\<exists>state' p'. quoted_step quote st c r [] = Some (Next state' p' []) \<and> suffix p' p" for quote st
    using quoted_step_suffix assms Cons by simp
  have "suffix r (c # r)" by (simp add: suffix_ConsI)
  moreover have "normal_step c r [] = Done [] \<or> (\<exists>state' p' q'. normal_step c r [] = Next state' p' q')"
    by (simp add: normal_step_def split: option.splits)
  ultimately show ?thesis
    using Cons normal_step_visible [of c r] quoted [of dquote 1] quoted [of squote 2] by (auto simp: obfuscate_step_def)
qed (simp add: obfuscate_step_def)

lemma no_dangling_suffix: "no_dangling_escape p \<Longrightarrow> suffix p' p \<Longrightarrow> no_dangling_escape p'"
  by (auto simp: no_dangling_escape_def suffix_def)

lemma obfuscated_visible:
  "no_dangling_escape p \<Longrightarrow> \<exists>out. obfuscated state p = Some out \<and> length out \<le> length p \<and> (\<forall>c \<in> set out. visible p c)"
proof (induction state p rule: obfuscated.induct)
  case (1 state p)
  from obfuscate_step_visible [OF "1.prems", of state] show ?case
  proof (elim disjE exE conjE)
    assume "obfuscate_step state p [] = Some (Done [])"
    then show ?thesis by (subst obfuscated.simps) simp
  next
    fix state' p' q'
    assume st: "obfuscate_step state p [] = Some (Next state' p' q')" and p': "suffix p' p" and q': "\<forall>x \<in> set q'. visible p x"
    from "1.IH" [OF st refl no_dangling_suffix [OF "1.prems" p']] obtain out where
      out: "obfuscated state' p' = Some out" "length out \<le> length p'" "\<forall>c \<in> set out. visible p' c" by blast
    have "obfuscated state p = Some (q' @ out)" using st out(1) by (subst obfuscated.simps) simp
    moreover have "length (q' @ out) \<le> length p" using obfuscate_step_length(1) [OF st] out(2) by simp
    moreover have "visible p c" if "visible p' c" for c using that set_mono_suffix [OF p'] unfolding visible_def by blast
    then have "\<forall>c \<in> set (q' @ out). visible p c" using q' out(3) by auto
    ultimately show ?thesis by blast
  qed
qed

text \<open>The state that reads a literal in the given quotes.\<close>

definition quote_state :: "char \<Rightarrow> nat" where
  "quote_state quote = (if quote = dquote then 1 else 2)"

lemma obfuscated_quoted:
  assumes "quote \<in> {dquote, squote}"
  shows "obfuscated (quote_state quote) (c # r) =
    (case quoted_step quote (quote_state quote) c r [] of None \<Rightarrow> None | Some (Done q) \<Rightarrow> Some q
     | Some (Next state p q) \<Rightarrow> map_option ((@) q) (obfuscated state p))"
  using assms by (subst obfuscated.simps) (auto simp: obfuscate_step_def quote_state_def)

lemma map_option_Nil_append [simp]: "map_option ((@) []) x = x"
  by (cases x) simp_all

lemma obfuscated_literal:
  assumes "quote \<in> {dquote, squote}" and "\<forall>c \<in> set body. c \<noteq> quote \<and> c \<noteq> backslash"
  shows "obfuscated (quote_state quote) (body @ r) = obfuscated (quote_state quote) r"
  using assms(2) by (induction body) (simp_all add: obfuscated_quoted [OF assms(1)] quoted_step_def)

lemma obfuscated_literal_end:
  assumes "quote \<in> {dquote, squote}" and "at_ptr post \<noteq> quote"
  shows "obfuscated (quote_state quote) (quote # post) = obfuscated 0 post"
proof -
  have "quote \<noteq> backslash" using assms(1) by auto
  with assms show ?thesis by (simp add: obfuscated_quoted quoted_step_def)
qed

lemma obfuscated_literal_start:
  assumes "quote \<in> {dquote, squote}"
  shows "obfuscated 0 (quote # r) = map_option ((@) ''?'') (obfuscated (quote_state quote) r)"
  using assms by (subst obfuscated.simps) (auto simp: obfuscate_step_def normal_step_def quote_state_def)

text \<open>A prefix without quotes and comments writes a text of its own and ends in the normal state
  or inside of a number.\<close>

definition plain :: "char \<Rightarrow> bool" where
  "plain c \<longleftrightarrow> c \<noteq> dquote \<and> c \<noteq> squote \<and> c \<noteq> CHR ''-'' \<and> c \<noteq> CHR ''/''"

lemma obfuscated_number:
  "obfuscated 3 (c # r) = (if is_digit c then obfuscated 3 r else obfuscated 0 (c # r))"
  by (subst obfuscated.simps) (simp add: obfuscate_step_def)

lemma obfuscated_plain:
  "plain c \<Longrightarrow> obfuscated 0 (c # r) = (if is_digit c then map_option ((@) ''?'') (obfuscated 3 r) else map_option ((@) [c]) (obfuscated 0 r))"
  by (subst obfuscated.simps) (simp add: obfuscate_step_def normal_step_def plain_def)

lemma obfuscated_prefix:
  assumes "\<forall>c \<in> set pre. plain c" and "quote \<in> {dquote, squote}" and "state \<in> {0, 3}"
  shows "\<exists>w. \<forall>r. obfuscated state (pre @ quote # r) = map_option ((@) w) (obfuscated 0 (quote # r))"
  using assms(1,3)
proof (induction pre arbitrary: state)
  case Nil
  have "\<not> is_digit quote" using assms(2) by (auto simp: is_digit_def)
  then have "obfuscated state (quote # r) = obfuscated 0 (quote # r)" for r using Nil(2) by (auto simp: obfuscated_number)
  then show ?case by (intro exI [of _ "[]"]) (simp add: option.map_ident)
next
  case (Cons c pre)
  from Cons.IH [of 0] Cons.IH [of 3] Cons.prems(1) obtain w0 w3 where
    w: "\<And>r. obfuscated 0 (pre @ quote # r) = map_option ((@) w0) (obfuscated 0 (quote # r))"
    "\<And>r. obfuscated 3 (pre @ quote # r) = map_option ((@) w3) (obfuscated 0 (quote # r))" by auto
  have "plain c" using Cons.prems(1) by simp
  then have c: "obfuscated 0 (c # pre @ quote # r)
      = map_option ((@) (if is_digit c then CHR ''?'' # w3 else c # w0)) (obfuscated 0 (quote # r))" for r
    by (cases "obfuscated 0 (quote # r)") (simp_all add: obfuscated_plain w)
  show ?case
  proof (cases "state = 3 \<and> is_digit c")
    case True
    then show ?thesis by (intro exI [of _ w3]) (simp add: obfuscated_number w(2))
  next
    case False
    then have "obfuscated state (c # r) = obfuscated 0 (c # r)" for r using Cons.prems(2) by (auto simp: obfuscated_number)
    then show ?thesis using c by (intro exI [of _ "if is_digit c then CHR ''?'' # w3 else c # w0"]) simp
  qed
qed

section \<open>Properties of obfuscation and normalization\<close>





text \<open>C38. Obfuscation reads past the end of a statement that ends in a backslash inside of a
  literal: the backslash skips the terminating zero.\<close>

theorem nr_sql_obfuscate_overrun:
  assumes "quote \<in> {dquote, squote}" and "\<forall>c \<in> set pre. plain c" and "\<forall>c \<in> set body. c \<noteq> quote \<and> c \<noteq> backslash"
  shows "nr_sql_obfuscate (Some (pre @ quote # body @ [backslash])) = None"
proof -
  from obfuscated_prefix [OF assms(2,1), of 0] obtain w where
    w: "\<And>r. obfuscated 0 (pre @ quote # r) = map_option ((@) w) (obfuscated 0 (quote # r))" by auto
  have "obfuscated (quote_state quote) [backslash] = None" by (simp add: obfuscated_quoted [OF assms(1)] quoted_step_def)
  then have "obfuscated 0 (pre @ quote # body @ [backslash]) = None"
    using w obfuscated_literal [OF assms(1,3), of "[backslash]"] by (simp add: obfuscated_literal_start [OF assms(1)])
  then show ?thesis by (simp add: nr_sql_obfuscate_eq)
qed

theorem nr_sql_obfuscate_overrun_witness: "nr_sql_obfuscate (Some (''a = '' @ squote # ''b'' @ [backslash])) = None"
  by (rule nr_sql_obfuscate_overrun) (simp_all add: plain_def)

text \<open>C37. Normalization is stable: for a statement without an empty pair of parentheses it returns
  within its buffer a text that normalizes to itself, so that the statement and its normal form
  have the same identifier.\<close>

theorem nr_sql_normalize_stable:
  assumes "s \<noteq> []" and "\<not> empty_parens s"
  shows "\<exists>out. nr_sql_normalize (Some s) = Some (Some out) \<and> length out \<le> length s
    \<and> nr_sql_normalize (Some out) = Some (Some out) \<and> nr_sql_normalized_id (Some out) = nr_sql_normalized_id (Some s)"
proof -
  let ?out = "normalized 0 s"
  have s: "nr_sql_normalize (Some s) = Some (Some ?out)" by (rule nr_sql_normalize_spec [OF assms])
  have "?out \<noteq> []" "\<not> empty_parens ?out" using assms normalized_parens [OF assms(2), of 0] by (simp_all add: normalized_Nil)
  from nr_sql_normalize_spec [OF this] have out: "nr_sql_normalize (Some ?out) = Some (Some ?out)" by (simp add: normalized_idem)
  have "length ?out \<le> length s" using normalized_length [OF assms(2), of 0] by simp
  with s out show ?thesis by (simp add: nr_sql_normalized_id_def)
qed

theorem nr_sql_normalize_stable_witness:
  "\<exists>out. nr_sql_normalize (Some ''x IN (?,?)'') = Some (Some out) \<and> nr_sql_normalize (Some out) = Some (Some out)"
  using nr_sql_normalize_stable [of "''x IN (?,?)''"] by (auto simp: at_ptr_def)

text \<open>C39. Normalization overflows its buffer: an empty list such as in \<^verbatim>\<open>in()\<close> becomes one character
  longer, and the buffer has room for the statement only. With every further list one more
  byte is written past its end.\<close>

theorem nr_sql_normalize_overflow:
  assumes "0 < n"
  shows "nr_sql_normalize (Some (concat (replicate n ''in()''))) = None
    \<and> length (normalized 0 (concat (replicate n ''in()''))) = length (concat (replicate n ''in()'')) + n"
proof -
  have len: "length (concat (replicate n ''in()'')) = 4 * n" by (induction n) simp_all
  have "concat (replicate n ''in()'') \<noteq> []" using len assms by auto
  with len assms show ?thesis by (simp add: nr_sql_normalize_def normalize_loop_eq normalized_empty_lists)
qed

theorem nr_sql_normalize_overflow_witness: "nr_sql_normalize (Some ''in()'') = None"
  using nr_sql_normalize_overflow [of 1] by simp

text \<open>Obfuscation is not idempotent: removing a comment can form the start of another one, and the
  second obfuscation drops the rest of the statement.\<close>

lemma nr_sql_obfuscate_not_idempotent:
  "nr_sql_obfuscate (Some ''-/**/-x'') = Some (Some ''--x'') \<and> nr_sql_obfuscate (Some ''--x'') = Some (Some [])"
  by (simp add: nr_sql_obfuscate_def obfuscate_loop.simps obfuscate_step_def normal_step_def at_ptr_def is_digit_def)

end
