(* ===== verification/SqlTable.thy ===== *)
theory SqlTable
  imports Sql
begin

text \<open>
  The parser that finds the operation and the table of a statement
  (\<^verbatim>\<open>nr_sql_get_operation_and_table\<close> of \<^verbatim>\<open>axiom/util_sql.c\<close>). Its loops are partial
  functions whose result \<open>None\<close> is a loop that does not end; an early return without a table
  is NULL. The flag that makes the parser log what it does is left out.
\<close>

section \<open>Tokens\<close>

definition NR_SQL_WHITESPACE_CHARS :: string where
  "NR_SQL_WHITESPACE_CHARS = [CHR 0x20, CHR 0x0D, CHR 0x0A, CHR 0x09, CHR 0x0B, CHR 0x0C]"

definition NR_SQL_DELIMITER_CHARS :: string where
  "NR_SQL_DELIMITER_CHARS = NR_SQL_WHITESPACE_CHARS @ [squote, dquote, backquote] @ ''([@'' @ ''{''"

datatype nr_sql_parse_type =
    NR_SQL_PARSE_UNKNOWN | NR_SQL_PARSE_UPDATE | NR_SQL_PARSE_FROM | NR_SQL_PARSE_INTO
  | NR_SQL_PARSE_DROP | NR_SQL_PARSE_CREATE | NR_SQL_PARSE_COMMIT

definition operations :: "(string \<times> nr_sql_parse_type) list" where
  "operations =
     [(''select'', NR_SQL_PARSE_FROM), (''update'', NR_SQL_PARSE_UPDATE), (''insert'', NR_SQL_PARSE_INTO),
      (''replace'', NR_SQL_PARSE_INTO), (''delete'', NR_SQL_PARSE_FROM), (''commit'', NR_SQL_PARSE_COMMIT),
      (''create'', NR_SQL_PARSE_CREATE), (''drop'', NR_SQL_PARSE_DROP)]"

text \<open>The text behind the end of a comment; NULL if the comment is not closed.\<close>

fun comment_end :: "string \<Rightarrow> string ptr" where
  "comment_end [] = NULL"
| "comment_end (c # s) = (if c = CHR ''*'' \<and> at_ptr s = CHR ''/'' then Some (tl s) else comment_end s)"

definition skip_whitespace :: "string \<Rightarrow> string" where
  "skip_whitespace s = drop (nr_strspn s NR_SQL_WHITESPACE_CHARS) s"

partial_function (option) comments_loop :: "string \<Rightarrow> string ptr option" where
  "comments_loop s =
     (if at_ptr s = CHR ''/'' \<and> at_ptr (tl s) = CHR ''*'' then
        (case comment_end (drop 2 s) of
           None \<Rightarrow> Some NULL
         | Some s' \<Rightarrow> comments_loop (skip_whitespace s'))
      else Some (Some s))"

definition nr_sql_whitespace_comment_prefix :: "string ptr \<Rightarrow> string ptr option" where
  "nr_sql_whitespace_comment_prefix sql =
     (case sql of None \<Rightarrow> Some NULL
      | Some s \<Rightarrow> if s = [] then Some (Some s) else comments_loop (skip_whitespace s))"

definition nr_sql_parse_over :: "string \<Rightarrow> char \<Rightarrow> string ptr" where
  "nr_sql_parse_over str character = map_option tl (nr_strchr str character)"

fun nr_parse_sql_keyword :: "string \<Rightarrow> string \<Rightarrow> bool" where
  "nr_parse_sql_keyword sql [] = (nr_strchr NR_SQL_DELIMITER_CHARS (at_ptr sql) \<noteq> None)"
| "nr_parse_sql_keyword sql (k # ks) = (k = nr_tolower (at_ptr sql) \<and> nr_parse_sql_keyword (tl sql) ks)"

fun nr_strnicmp_eq :: "string \<Rightarrow> string \<Rightarrow> bool" where
  "nr_strnicmp_eq [] sql = True"
| "nr_strnicmp_eq (k # ks) sql = (nr_tolower k = nr_tolower (at_ptr sql) \<and> nr_strnicmp_eq ks (tl sql))"

section \<open>The search for the place of the table\<close>

text \<open>One turn of the loop over the tokens, behind white space and comments: it leaves the loop at a
  place, or returns without a table, or goes on. \<open>check\<close> is set behind \<^verbatim>\<open>database\<close> and
  \<^verbatim>\<open>table\<close>, where \<^verbatim>\<open>if not exists\<close> may follow.\<close>

datatype turn = Leave "string ptr" | Again int bool string

definition check_turn :: "int \<Rightarrow> string \<Rightarrow> turn" where
  "check_turn nest_level x =
     (if nr_parse_sql_keyword x ''if'' then Again nest_level True (drop 2 x)
      else if nr_parse_sql_keyword x ''not'' then Again nest_level True (drop 3 x)
      else if nr_parse_sql_keyword x ''exists'' then Leave (Some (drop 6 x))
      else Leave (Some x))"

definition quoted_turn :: "int \<Rightarrow> string \<Rightarrow> turn" where
  "quoted_turn nest_level x =
     (case nr_sql_parse_over (tl x) (at_ptr x) of
        None \<Rightarrow> Leave NULL
      | Some x \<Rightarrow> Again nest_level False x)"

definition word_end :: "string \<Rightarrow> nat" where
  "word_end x = nr_strcspn x (NR_SQL_WHITESPACE_CHARS @ [squote, dquote] @ ''()'')"

definition search_turn :: "nr_sql_parse_type \<Rightarrow> int \<Rightarrow> bool \<Rightarrow> string \<Rightarrow> turn" where
  "search_turn opflag nest_level check x =
     (if check then check_turn nest_level x
      else if at_ptr x = squote \<or> at_ptr x = dquote then quoted_turn nest_level x
      else if at_ptr x = CHR ''('' then Again (nest_level + 1) False (tl x)
      else if at_ptr x = CHR '')'' then Again (nest_level - 1) False (tl x)
      else if nest_level = 0 \<and> opflag \<in> {NR_SQL_PARSE_CREATE, NR_SQL_PARSE_DROP}
          \<and> nr_parse_sql_keyword x ''database''
      then Again nest_level True (drop 8 x)
      else if nest_level = 0 \<and> opflag \<in> {NR_SQL_PARSE_CREATE, NR_SQL_PARSE_DROP}
          \<and> nr_parse_sql_keyword x ''table''
      then Again nest_level True (drop 5 x)
      else if nest_level = 0 \<and> opflag = NR_SQL_PARSE_FROM \<and> nr_parse_sql_keyword x ''from''
      then Leave (Some (drop 4 x))
      else if nest_level = 0 \<and> opflag = NR_SQL_PARSE_INTO \<and> nr_parse_sql_keyword x ''into''
      then Leave (Some (drop 4 x))
      else Again nest_level False (drop (word_end x) x))"

partial_function (option) search_loop :: "nr_sql_parse_type \<Rightarrow> int \<Rightarrow> bool \<Rightarrow> string \<Rightarrow> string ptr option" where
  "search_loop opflag nest_level check x =
     (if x = [] then Some (Some x)
      else Option.bind (nr_sql_whitespace_comment_prefix (Some x)) (\<lambda>p.
        case p of None \<Rightarrow> Some NULL
        | Some x \<Rightarrow>
            (case search_turn opflag nest_level check x of
               Leave r \<Rightarrow> Some r
             | Again nest_level check x \<Rightarrow> search_loop opflag nest_level check x)))"

section \<open>The name of the table\<close>

definition name_stop :: string where
  "name_stop = NR_SQL_DELIMITER_CHARS @ '']});,*./''"

definition name_gap :: string where
  "name_gap = NR_SQL_DELIMITER_CHARS @ '']});,*/''"

partial_function (option) name_loop :: "string \<Rightarrow> string option" where
  "name_loop x =
     (let start = (if at_ptr x \<in> {backquote, squote, dquote, CHR ''{''} then tl x else x);
          sl = nr_strcspn start name_stop;
          x = drop sl start;
          gap = nr_strspn x name_gap
      in if at_ptr (drop gap x) = CHR ''.'' then name_loop (drop (gap + 1) x)
         else Some (take sl start))"

text \<open>The table at \<open>x\<close>: an opening parenthesis starts a subquery unless a name follows.\<close>

definition table_at :: "string \<Rightarrow> string ptr option" where
  "table_at x =
     (let y = tl x;
          sl = nr_strcspn y (NR_SQL_WHITESPACE_CHARS @ '','' @ [backquote] @ '')'' @ [squote, dquote] @ '';'')
      in if at_ptr x = CHR ''('' \<and> at_ptr y \<notin> {backquote, squote, dquote}
            \<and> at_ptr (drop sl y) \<noteq> CHR '')'' \<and> at_ptr (drop sl y) \<noteq> CHR '',''
         then Some (Some ''(subquery)'')
         else do {
           name \<leftarrow> name_loop (if at_ptr x = CHR ''('' then y else x);
           Some (if name = [] then NULL else Some name)
         })"

definition find_table :: "nr_sql_parse_type \<Rightarrow> string \<Rightarrow> string ptr option" where
  "find_table opflag sql = do {
     x \<leftarrow> (if opflag = NR_SQL_PARSE_COMMIT \<or> opflag = NR_SQL_PARSE_UPDATE
           then Some (Some (drop (nr_strcspn sql NR_SQL_WHITESPACE_CHARS) sql))
           else search_loop opflag 0 False sql);
     (case x of None \<Rightarrow> Some NULL
      | Some _ \<Rightarrow> do {
          x \<leftarrow> nr_sql_whitespace_comment_prefix x;
          (case x of None \<Rightarrow> Some NULL | Some x \<Rightarrow> table_at x)
        })
   }"

text \<open>The values stored behind the two pointers, if both are given.\<close>

definition nr_sql_get_operation_and_table :: "string ptr \<Rightarrow> (string ptr \<times> string ptr) option" where
  "nr_sql_get_operation_and_table sql = do {
     sql \<leftarrow> nr_sql_whitespace_comment_prefix sql;
     (case sql of None \<Rightarrow> Some (NULL, NULL)
      | Some s \<Rightarrow>
          (case find (\<lambda>(opname, _). nr_strnicmp_eq opname s) operations of
             None \<Rightarrow> Some (NULL, NULL)
           | Some (opname, opflag) \<Rightarrow> do { table \<leftarrow> find_table opflag s; Some (Some opname, table) }))
   }"

section \<open>The loops end\<close>

lemma skip_whitespace_suffix: "suffix (skip_whitespace s) s"
  by (simp add: skip_whitespace_def suffix_drop)

lemma drop_takeWhile_hd: "drop (length (takeWhile P xs)) xs = dropWhile P xs"
  by (rule dropWhile_eq_drop [symmetric])

lemma skip_whitespace_head: "skip_whitespace s = c # r \<Longrightarrow> c \<notin> set NR_SQL_WHITESPACE_CHARS"
  by (simp add: skip_whitespace_def nr_strspn_def drop_takeWhile_hd dropWhile_eq_Cons_conv)

lemma comment_end_suffix: "comment_end s = Some s' \<Longrightarrow> suffix s' s"
  by (induction s) (auto split: if_splits intro: suffix_ConsI suffix_order.trans [OF suffix_tl])

definition token_start :: "string \<Rightarrow> bool" where
  "token_start s \<longleftrightarrow> s = [] \<or> hd s \<notin> set NR_SQL_WHITESPACE_CHARS"

lemma token_start_skip: "token_start (skip_whitespace s)"
  using skip_whitespace_head [of s] by (cases "skip_whitespace s") (auto simp: token_start_def)

lemma comments_loop_spec:
  "token_start s \<Longrightarrow> \<exists>p. comments_loop s = Some p \<and> (\<forall>s'. p = Some s' \<longrightarrow> suffix s' s \<and> token_start s')"
proof (induction "length s" arbitrary: s rule: less_induct)
  case less
  show ?case
  proof (cases "at_ptr s = CHR ''/'' \<and> at_ptr (tl s) = CHR ''*''")
    case True
    then obtain r where s: "s = CHR ''/'' # CHR ''*'' # r" by (cases s; cases "tl s") auto
    show ?thesis
    proof (cases "comment_end r")
      case None
      with s show ?thesis by (subst comments_loop.simps) simp
    next
      case (Some s1)
      let ?s = "skip_whitespace s1"
      have sub: "suffix ?s r" using comment_end_suffix [OF Some] skip_whitespace_suffix suffix_order.trans by blast
      then have "length ?s < length s" using s suffix_length_le [OF sub] by simp
      from less(1) [OF this token_start_skip] obtain p where
        p: "comments_loop ?s = Some p" "\<forall>s'. p = Some s' \<longrightarrow> suffix s' ?s \<and> token_start s'" by blast
      moreover have "comments_loop s = comments_loop ?s" using s Some by (subst comments_loop.simps) simp
      moreover have "suffix s' s" if "suffix s' ?s" for s'
        using suffix_order.trans [OF that sub] s by (simp add: suffix_ConsI)
      ultimately show ?thesis by auto
    qed
  next
    case False
    with less(2) show ?thesis by (subst comments_loop.simps) auto
  qed
qed

lemma prefix_spec:
  "\<exists>p. nr_sql_whitespace_comment_prefix (Some s) = Some p \<and> (\<forall>s'. p = Some s' \<longrightarrow> suffix s' s \<and> token_start s')"
proof (cases "s = []")
  case True
  then show ?thesis by (simp add: nr_sql_whitespace_comment_prefix_def token_start_def)
next
  case False
  from comments_loop_spec [OF token_start_skip [of s]] obtain p where
    "comments_loop (skip_whitespace s) = Some p" "\<forall>s'. p = Some s' \<longrightarrow> suffix s' (skip_whitespace s) \<and> token_start s'" by blast
  with False show ?thesis
    using suffix_order.trans [OF _ skip_whitespace_suffix [of s]] by (auto simp: nr_sql_whitespace_comment_prefix_def)
qed

lemma keyword_length: "nr_parse_sql_keyword x ks \<Longrightarrow> CHR 0x00 \<notin> set ks \<Longrightarrow> length ks \<le> length x"
proof (induction ks arbitrary: x)
  case (Cons k ks)
  have "nr_tolower (CHR 0x00) = CHR 0x00" by (simp add: nr_tolower_def)
  with Cons.prems have "x \<noteq> []" by auto
  with Cons show ?case by (cases x) auto
qed simp

lemma parse_over_suffix: "nr_sql_parse_over x c = Some x' \<Longrightarrow> suffix x' x"
  by (auto simp: nr_sql_parse_over_def intro: suffix_order.trans [OF suffix_tl nr_strchr_suffix])

text \<open>A turn of the loop goes forward, or stays at the end of the statement.\<close>

fun forward :: "string \<Rightarrow> turn \<Rightarrow> bool" where
  "forward x (Leave r) = (\<forall>y. r = Some y \<longrightarrow> suffix y x)"
| "forward x (Again _ _ y) = (suffix y x \<and> (y = [] \<or> length y < length x))"

lemma forward_drop: "0 < n \<Longrightarrow> forward x (Again l c (drop n x))" "forward x (Leave (Some (drop n x)))"
  by (auto simp: suffix_drop)

lemma check_turn_forward: "forward x (check_turn l x)"
  by (simp add: check_turn_def forward_drop del: forward.simps) simp

lemma quoted_turn_forward:
  assumes "x \<noteq> []"
  shows "forward x (quoted_turn l x)"
proof (cases "nr_sql_parse_over (tl x) (at_ptr x)")
  case (Some y)
  from parse_over_suffix [OF this] have y: "suffix y (tl x)" .
  then have "length y < length x" using suffix_length_le [OF y] assms by (cases x) auto
  with y Some show ?thesis using suffix_order.trans [OF y suffix_tl] by (simp add: quoted_turn_def)
qed (simp add: quoted_turn_def)

lemma word_end_pos:
  assumes "x \<noteq> []" and "token_start x" and "at_ptr x \<notin> {squote, dquote, CHR ''('', CHR '')''}"
  shows "0 < word_end x"
proof -
  obtain c r where x: "x = c # r" using assms(1) by (cases x) auto
  with assms(2,3) have "c \<notin> set (NR_SQL_WHITESPACE_CHARS @ [squote, dquote] @ ''()'')" by (auto simp: token_start_def)
  with x show ?thesis by (simp add: word_end_def nr_strcspn_def)
qed

lemma search_turn_forward:
  assumes "token_start x"
  shows "forward x (search_turn opflag l check x)"
proof (cases "x = []")
  case True
  have "nr_tolower (CHR 0x00) = CHR 0x00" by (simp add: nr_tolower_def)
  with True check_turn_forward [of "[]" l] show ?thesis by (simp add: search_turn_def)
next
  case False
  have tl: "forward x (Again n False (tl x))" for n using False by (cases x) (simp_all add: suffix_ConsI)
  have "forward x (Again l False (drop (word_end x) x))" if "at_ptr x \<notin> {squote, dquote, CHR ''('', CHR '')''}"
    by (rule forward_drop(1) [OF word_end_pos [OF False assms that]])
  with False tl check_turn_forward [of x l] quoted_turn_forward [of x l] show ?thesis
    unfolding search_turn_def by (simp add: forward_drop del: forward.simps)
qed

lemma search_loop_spec:
  "\<exists>p. search_loop opflag l check x = Some p \<and> (\<forall>y. p = Some y \<longrightarrow> suffix y x)"
proof (induction "length x" arbitrary: l check x rule: less_induct)
  case less
  show ?case
  proof (cases "x = []")
    case True
    then show ?thesis by (subst search_loop.simps) simp
  next
    case False
    from prefix_spec [of x] obtain p where
      p: "nr_sql_whitespace_comment_prefix (Some x) = Some p" "\<forall>s'. p = Some s' \<longrightarrow> suffix s' x \<and> token_start s'" by blast
    show ?thesis
    proof (cases p)
      case None
      with False p(1) show ?thesis by (subst search_loop.simps) simp
    next
      case (Some s)
      with p(2) have s: "suffix s x" "token_start s" by simp_all
      have f: "forward s (search_turn opflag l check s)" by (rule search_turn_forward [OF s(2)])
      show ?thesis
      proof (cases "search_turn opflag l check s")
        case (Leave r)
        with f s(1) have "\<forall>y. r = Some y \<longrightarrow> suffix y x" using suffix_order.trans by auto
        with False p(1) Some Leave show ?thesis by (subst search_loop.simps) simp
      next
        case (Again l' c y)
        with f have y: "suffix y s" "y = [] \<or> length y < length s" by simp_all
        have eq: "search_loop opflag l check x = search_loop opflag l' c y"
          using False p(1) Some Again by (subst search_loop.simps) simp
        show ?thesis
        proof (cases "y = []")
          case True
          then have "search_loop opflag l' c y = Some (Some [])" by (subst search_loop.simps) simp
          then show ?thesis using eq by simp
        next
          case ne: False
          then have "length y < length x" using y(2) suffix_length_le [OF s(1)] by simp
          from less [OF this, of l' c] eq suffix_order.trans [OF y(1) s(1)] show ?thesis
            using suffix_order.trans by metis
        qed
      qed
    qed
  qed
qed

text \<open>A name is a part of the text without any of the characters that end a name.\<close>

definition name_in :: "string \<Rightarrow> string \<Rightarrow> bool" where
  "name_in x name \<longleftrightarrow> sublist name x \<and> set name \<inter> set name_stop = {}"

lemma name_in_suffix: "name_in y name \<Longrightarrow> suffix y x \<Longrightarrow> name_in x name"
  using sublist_order.order.trans suffix_imp_sublist by (auto simp: name_in_def)

lemma name_loop_spec: "\<exists>name. name_loop x = Some name \<and> name_in x name"
proof (induction "length x" arbitrary: x rule: less_induct)
  case less
  define start where "start = (if at_ptr x \<in> {backquote, squote, dquote, CHR ''{''} then tl x else x)"
  define sl where "sl = nr_strcspn start name_stop"
  define gap where "gap = nr_strspn (drop sl start) name_gap"
  let ?y = "drop gap (drop sl start)"
  have st: "suffix start x" by (simp add: start_def)
  have eq: "name_loop x = (if at_ptr ?y = CHR ''.'' then name_loop (drop (gap + 1) (drop sl start)) else Some (take sl start))"
    by (subst name_loop.simps) (simp only: Let_def start_def [symmetric] sl_def [symmetric] gap_def [symmetric])
  show ?case
  proof (cases "at_ptr ?y = CHR ''.''")
    case True
    let ?z = "drop (gap + 1) (drop sl start)"
    have "?y \<noteq> []" using True by auto
    then have "length ?z < length x" using suffix_length_le [OF st] by simp
    from less [OF this] obtain name where "name_loop ?z = Some name" "name_in ?z name" by blast
    moreover have "suffix ?z x" using suffix_order.trans [OF suffix_drop suffix_order.trans [OF suffix_drop st]] .
    ultimately show ?thesis using eq True name_in_suffix by auto
  next
    case False
    have "take sl start = takeWhile (\<lambda>c. c \<notin> set name_stop) start"
      by (simp add: sl_def nr_strcspn_def takeWhile_eq_take [symmetric])
    then have "set (take sl start) \<inter> set name_stop = {}" by (auto dest: set_takeWhileD)
    moreover have "sublist (take sl start) x"
      using sublist_order.order.trans [OF sublist_take suffix_imp_sublist [OF st]] .
    ultimately show ?thesis using eq False by (simp add: name_in_def)
  qed
qed

definition table_result_ok :: "string \<Rightarrow> string ptr \<Rightarrow> bool" where
  "table_result_ok x table = (case table of None \<Rightarrow> True | Some t \<Rightarrow> t = ''(subquery)'' \<or> t \<noteq> [] \<and> name_in x t)"

lemma table_at_spec: "\<exists>table. table_at x = Some table \<and> table_result_ok x table"
proof -
  let ?y = "if at_ptr x = CHR ''('' then tl x else x"
  from name_loop_spec [of ?y] obtain name where name: "name_loop ?y = Some name" "name_in ?y name" by blast
  have "name_in x name" by (rule name_in_suffix [OF name(2)]) simp
  with name(1) show ?thesis by (auto simp: table_at_def table_result_ok_def Let_def)
qed

lemma table_result_ok_suffix: "table_result_ok y table \<Longrightarrow> suffix y x \<Longrightarrow> table_result_ok x table"
  using name_in_suffix by (auto simp: table_result_ok_def split: option.splits)

lemma find_table_spec: "\<exists>table. find_table opflag x = Some table \<and> table_result_ok x table"
proof -
  let ?p = "if opflag = NR_SQL_PARSE_COMMIT \<or> opflag = NR_SQL_PARSE_UPDATE
    then Some (Some (drop (nr_strcspn x NR_SQL_WHITESPACE_CHARS) x)) else search_loop opflag 0 False x"
  have "\<exists>p. ?p = Some p \<and> (\<forall>y. p = Some y \<longrightarrow> suffix y x)"
    using search_loop_spec [of opflag 0 False x] by (simp add: suffix_drop)
  then obtain p where p: "?p = Some p" "\<forall>y. p = Some y \<longrightarrow> suffix y x" by blast
  show ?thesis
  proof (cases p)
    case None
    with p(1) show ?thesis by (simp add: find_table_def table_result_ok_def)
  next
    case (Some y)
    from prefix_spec [of y] obtain q where
      q: "nr_sql_whitespace_comment_prefix (Some y) = Some q" "\<forall>z. q = Some z \<longrightarrow> suffix z y \<and> token_start z" by blast
    show ?thesis
    proof (cases q)
      case None
      with p(1) Some q(1) show ?thesis by (simp add: find_table_def table_result_ok_def)
    next
      case q': (Some z)
      from table_at_spec [of z] obtain table where table: "table_at z = Some table" "table_result_ok z table" by blast
      have "suffix z x" using p(2) q(2) Some q' suffix_order.trans by blast
      with table p(1) Some q(1) q' show ?thesis using table_result_ok_suffix by (simp add: find_table_def)
    qed
  qed
qed

section \<open>The result of the parser\<close>



end
