(* ===== verification/Json.thy ===== *)
theory Json
  imports Sql
begin

text \<open>
  Escaping of strings for JSON (\<^verbatim>\<open>axiom/util_json.c\<close>): control characters, quotes and
  multi-byte characters are replaced by escapes, so that the result is printable ASCII. The
  text is what the function writes to its destination, without the terminating zero.
\<close>

section \<open>The encoder\<close>

abbreviation byte :: "char \<Rightarrow> nat" where "byte c \<equiv> of_char c"

definition hex_digit :: "nat \<Rightarrow> char" where
  "hex_digit n = ''0123456789abcdef'' ! (n mod 16)"

text \<open>\<^verbatim>\<open>%04x\<close> and \<^verbatim>\<open>%02x\<close> for values of 16 and of 8 bits.\<close>

definition hex4 :: "nat \<Rightarrow> string" where
  "hex4 n = [hex_digit (n div 4096), hex_digit (n div 256), hex_digit (n div 16), hex_digit n]"

definition hex2 :: "nat \<Rightarrow> string" where
  "hex2 n = [hex_digit (n div 16), hex_digit n]"

definition unicode_escape :: "nat \<Rightarrow> string" where
  "unicode_escape n = backslash # CHR ''u'' # hex4 n"

text \<open>The leading byte of a multi-byte character: bits of the code point, bytes, and the mask of
  its own bits.\<close>

definition utf8_lead :: "nat \<Rightarrow> (nat \<times> nat \<times> nat) option" where
  "utf8_lead b =
     (if b AND 0xe0 = 0xc0 then Some (11, 2, 0x1f)
      else if b AND 0xf0 = 0xe0 then Some (16, 3, 0xf)
      else if b AND 0xf8 = 0xf0 then Some (21, 4, 0x7)
      else if b AND 0xfc = 0xf8 then Some (26, 5, 0x3)
      else if b AND 0xfe = 0xfc then Some (31, 6, 0x1)
      else None)"

text \<open>The continuation bytes; NULL is a fault. The terminating zero is not a continuation byte.\<close>

fun assemble :: "nat \<Rightarrow> nat \<Rightarrow> string \<Rightarrow> nat ptr" where
  "assemble 0 code_point p = Some code_point"
| "assemble (Suc n) code_point p =
     (if byte (at_ptr p) AND 0xc0 = 0x80
      then assemble n (push_bit 6 code_point OR (byte (at_ptr p) AND 0x3f)) (tl p) else NULL)"

definition surrogates :: "nat \<Rightarrow> string" where
  "surrogates code_point =
     (let x = (code_point + 2 ^ 32 - 0x10000) mod 2 ^ 32
      in unicode_escape (0xd800 + (drop_bit 10 x AND 0x3ff)) @ unicode_escape (0xdc00 + (x AND 0x3ff)))"

definition byte_escape :: "char \<Rightarrow> string" where
  "byte_escape c = backslash # ''u00'' @ hex2 (byte c)"

text \<open>A character that is not escaped by a letter: what is written and the bytes consumed behind
  the first.\<close>

definition escape_other :: "char \<Rightarrow> string \<Rightarrow> string \<times> nat" where
  "escape_other c r =
     (if byte c AND 0xc0 = 0xc0 then
        (case utf8_lead (byte c) of
           None \<Rightarrow> (byte_escape c, 0)
         | Some (bits, nbytes, lead_mask) \<Rightarrow>
             (case assemble (nbytes - 1) (byte c AND lead_mask) r of
                None \<Rightarrow> (byte_escape c, 0)
              | Some code_point \<Rightarrow>
                  if bits \<le> 16 then (unicode_escape (code_point AND 0xffff), nbytes - 1)
                  else if bits = 21 then (surrogates code_point, nbytes - 1)
                  else (byte_escape c, 0)))
      else if byte c \<le> 0x1f \<or> byte c \<ge> 0x7f then (byte_escape c, 0)
      else ([c], 0))"

definition escape_letter :: "char \<Rightarrow> char option" where
  "escape_letter c =
     map_of [(dquote, dquote), (newline, CHR ''n''), (CHR 0x0D, CHR ''r''), (CHR 0x0C, CHR ''f''),
             (CHR 0x08, CHR ''b''), (CHR 0x09, CHR ''t''), (backslash, backslash), (CHR ''/'', CHR ''/'')] c"

definition escape_char :: "char \<Rightarrow> string \<Rightarrow> string \<times> nat" where
  "escape_char c r =
     (case escape_letter c of Some e \<Rightarrow> ([backslash, e], 0) | None \<Rightarrow> escape_other c r)"

function escape_loop :: "string \<Rightarrow> string" where
  "escape_loop [] = []"
| "escape_loop (c # r) = fst (escape_char c r) @ escape_loop (drop (snd (escape_char c r)) r)"
  by pat_completeness auto
termination
  by (relation "measure length") auto

definition nr_json_escape :: "string ptr \<Rightarrow> string" where
  "nr_json_escape json = dquote # escape_loop (case json of None \<Rightarrow> [] | Some s \<Rightarrow> s) @ [dquote]"

section \<open>What is written\<close>

definition is_hex :: "char \<Rightarrow> bool" where
  "is_hex c \<longleftrightarrow> c \<in> set ''0123456789abcdef''"

text \<open>The body of a JSON string in printable ASCII.\<close>

fun json_body :: "string \<Rightarrow> bool" where
  "json_body [] = True"
| "json_body (c # r) =
     (if c = backslash then
        (case r of [] \<Rightarrow> False
         | d # r' \<Rightarrow>
             if d = CHR ''u''
             then (case r' of a # b # e # f # r'' \<Rightarrow> is_hex a \<and> is_hex b \<and> is_hex e \<and> is_hex f \<and> json_body r'' | _ \<Rightarrow> False)
             else d \<in> set [dquote, backslash, CHR ''/'', CHR ''b'', CHR ''f'', CHR ''n'', CHR ''r'', CHR ''t''] \<and> json_body r')
      else c \<noteq> dquote \<and> 0x20 \<le> byte c \<and> byte c \<le> 0x7e \<and> json_body r)"

lemma is_hex_digit [simp]: "is_hex (hex_digit n)"
proof -
  have "n mod 16 < length ''0123456789abcdef''" by simp
  then show ?thesis unfolding is_hex_def hex_digit_def by (rule nth_mem)
qed

lemma json_body_unicode [simp]: "json_body (unicode_escape n @ r) = json_body r"
  by (simp add: unicode_escape_def hex4_def)

lemma json_body_surrogates [simp]: "json_body (surrogates n @ r) = json_body r"
  by (simp add: surrogates_def Let_def)

lemma json_body_byte [simp]: "json_body (byte_escape c @ r) = json_body r"
  by (simp add: byte_escape_def hex2_def is_hex_def [of "CHR ''0''"])

lemma escape_lengths [simp]:
  "length (unicode_escape n) = 6" "length (surrogates n) = 12" "length (byte_escape c) = 6"
  by (simp_all add: unicode_escape_def hex4_def surrogates_def byte_escape_def hex2_def Let_def)

lemma assemble_length: "assemble n x p = Some y \<Longrightarrow> n \<le> length p"
proof (induction n x p rule: assemble.induct)
  case (2 n x p)
  then have "byte (at_ptr p) AND 0xc0 = 0x80" by (simp split: if_splits)
  then have "p \<noteq> []" by auto
  with 2 show ?case by (cases p) (auto split: if_splits)
qed simp

lemma utf8_lead_bytes: "utf8_lead b = Some (bits, nbytes, msk) \<Longrightarrow> 2 \<le> nbytes \<and> nbytes \<le> 6 \<and> (bits = 21 \<longrightarrow> nbytes = 4)"
  by (simp add: utf8_lead_def split: if_splits; linarith)

definition escaped :: "string \<Rightarrow> string \<times> nat \<Rightarrow> bool" where
  "escaped r e \<longleftrightarrow> (\<forall>rest. json_body (fst e @ rest) = json_body rest) \<and> length (fst e) \<le> 6 * Suc (snd e)
     \<and> Suc (snd e) \<le> length (fst e) \<and> snd e \<le> length r"

lemma escaped_byte: "escaped r (byte_escape c, 0)"
  by (simp add: escaped_def)

lemma escape_letterD:
  assumes "escape_letter c = Some e"
  shows "e \<in> set [dquote, backslash, CHR ''/'', CHR ''b'', CHR ''f'', CHR ''n'', CHR ''r'', CHR ''t'']" "e \<noteq> CHR ''u''"
  using map_of_SomeD [OF assms [unfolded escape_letter_def]] by auto

lemma escape_letter_None: "escape_letter c = None \<Longrightarrow> c \<noteq> backslash \<and> c \<noteq> dquote"
  by (auto simp: escape_letter_def)

lemma escape_other_escaped:
  assumes "escape_letter c = None"
  shows "escaped r (escape_other c r)"
proof (cases "byte c AND 0xc0 = 0xc0")
  case True
  show ?thesis
  proof (cases "utf8_lead (byte c)")
    case None
    with True show ?thesis by (simp add: escape_other_def escaped_byte)
  next
    case (Some l)
    obtain bits nbytes msk where l: "l = (bits, nbytes, msk)" by (cases l)
    note n = utf8_lead_bytes [OF Some [unfolded l]]
    show ?thesis
    proof (cases "assemble (nbytes - 1) (byte c AND msk) r")
      case None
      with True Some l show ?thesis by (simp add: escape_other_def escaped_byte)
    next
      case cp: (Some code_point)
      note len = assemble_length [OF cp]
      from True Some l cp n len escaped_byte [of r c] show ?thesis
        by (auto simp: escape_other_def escaped_def)
    qed
  qed
next
  case False
  have "escaped r ([c], 0)" if "\<not> (byte c \<le> 0x1f \<or> byte c \<ge> 0x7f)"
    using that escape_letter_None [OF assms] by (auto simp: escaped_def)
  with False escaped_byte [of r c] show ?thesis by (simp add: escape_other_def)
qed

lemma escape_char_escaped: "escaped r (escape_char c r)"
proof (cases "escape_letter c")
  case None
  with escape_other_escaped [OF None, of r] show ?thesis by (simp add: escape_char_def)
next
  case (Some e)
  then show ?thesis using escape_letterD [OF Some] by (auto simp: escape_char_def escaped_def)
qed

lemma escape_loop_spec: "json_body (escape_loop s) \<and> length (escape_loop s) \<le> 6 * length s \<and> length s \<le> length (escape_loop s)"
proof (induction s rule: escape_loop.induct)
  case (2 c r)
  note e = escape_char_escaped [of r c, unfolded escaped_def]
  have "length (drop (snd (escape_char c r)) r) = length r - snd (escape_char c r)" by simp
  with 2 e show ?case by auto
qed simp

lemma json_body_no_NUL: "json_body s \<Longrightarrow> CHR 0x00 \<notin> set s"
proof (induction s rule: json_body.induct)
  case (2 c r)
  have hex: "a \<noteq> CHR 0x00" if "is_hex a" for a using that by (auto simp: is_hex_def)
  show ?case
  proof (cases "c = backslash")
    case True
    with "2.prems" obtain d r' where r: "r = d # r'" by (cases r) auto
    show ?thesis
    proof (cases "d = CHR ''u''")
      case u: True
      with "2.prems" True r obtain a b e f r'' where
        r': "r' = a # b # e # f # r''" "is_hex a" "is_hex b" "is_hex e" "is_hex f" "json_body r''"
        by (simp split: list.splits)
      have "CHR 0x00 \<notin> set r''" by (rule "2.IH"(1) [OF True r u r'(1) refl refl refl r'(6)])
      then show ?thesis using True r u r' hex by auto
    next
      case False
      with "2.prems" True r have "d \<noteq> CHR 0x00" "json_body r'" by auto
      moreover have "CHR 0x00 \<notin> set r'" by (rule "2.IH"(2) [OF True r False \<open>json_body r'\<close>])
      ultimately show ?thesis using True r by simp
    qed
  next
    case False
    with "2.prems" have "0x20 \<le> byte c" "json_body r" by simp_all
    then have "c \<noteq> CHR 0x00" by auto
    with "2.IH"(3) [OF False \<open>json_body r\<close>] show ?thesis by simp
  qed
qed simp

lemma escape_no_NUL: "CHR 0x00 \<notin> set (nr_json_escape (Some s))"
  using json_body_no_NUL escape_loop_spec [of s] by (simp add: nr_json_escape_def)

lemma escape_length: "length (nr_json_escape (Some s)) \<le> 6 * length s + 2"
  using escape_loop_spec [of s] by (simp add: nr_json_escape_def)

text \<open>C32. Escaping writes a JSON string: a quote, a body in which every quote, backslash and control
  character is escaped and every character is printable ASCII, and a quote. For a string of
  \<open>n\<close> bytes that takes at most \<open>6 * n + 2\<close> characters, valid UTF-8 or not.\<close>

theorem nr_json_escape_valid:
  "\<exists>body. nr_json_escape (Some s) = dquote # body @ [dquote] \<and> json_body body
     \<and> length (nr_json_escape (Some s)) \<le> 6 * length s + 2"
  using escape_loop_spec [of s] by (simp add: nr_json_escape_def)

end
