(* ===== verification/Buffer.thy ===== *)
theory Buffer
  imports Json Hashmap
begin

text \<open>
  The byte buffer of \<^verbatim>\<open>axiom/util_buffer.c\<close>: bytes are added at the end and used from the
  front. The memory is a list of bytes; what has been allocated and not been written reads as
  zero. An \<^verbatim>\<open>int\<close> that overflows and an access outside of the memory are \<open>None\<close>. The
  buffer implements the interface \<open>byte_queue\<close>.
\<close>

section \<open>The code\<close>

record nrbuf =
  buf_avail :: nat
  buf_bsize :: nat
  buf_bptr :: nat
  buf_extsize :: nat
  buf_bytes :: string

definition nr_buffer_len :: "nrbuf ptr \<Rightarrow> int" where
  "nr_buffer_len bufp = (case bufp of None \<Rightarrow> -1 | Some b \<Rightarrow> int (buf_avail b))"

text \<open>The pointer into the memory is the rest of the memory.\<close>

definition nr_buffer_cptr :: "nrbuf ptr \<Rightarrow> string ptr" where
  "nr_buffer_cptr bufp =
     (case bufp of None \<Rightarrow> NULL
      | Some b \<Rightarrow> if buf_avail b = 0 then NULL else Some (drop (buf_bptr b) (buf_bytes b)))"

definition nr_buffer_reset :: "nrbuf ptr \<Rightarrow> nrbuf ptr" where
  "nr_buffer_reset bufp = map_option (\<lambda>b. b\<lparr>buf_avail := 0, buf_bptr := 0\<rparr>) bufp"

definition nr_buffer_create :: "int \<Rightarrow> int \<Rightarrow> nrbuf" where
  "nr_buffer_create estsize extsize =
     (let estsize = max estsize 1024;
          extsize = (if extsize \<le> 0 then estsize div 3 else extsize);
          extsize = max extsize 512
      in \<lparr>buf_avail = 0, buf_bsize = nat estsize, buf_bptr = 0, buf_extsize = nat extsize,
          buf_bytes = replicate (nat estsize) (CHR 0x00)\<rparr>)"

text \<open>Making room for \<open>reqsize\<close> bytes, which \<^verbatim>\<open>nr_buffer_add\<close> and \<^verbatim>\<open>nr_buffer_ensure\<close> do alike.\<close>

definition buffer_grow :: "nrbuf \<Rightarrow> nat \<Rightarrow> nrbuf option" where
  "buffer_grow b reqsize =
     (let bytes_remaining = int (buf_bsize b) - int (buf_avail b);
          bytes_needed = int reqsize + int (buf_avail b)
      in if bytes_remaining < bytes_needed then
           let bytes_extra = nat (bytes_needed - bytes_remaining);
               size = buf_bsize b + (if bytes_extra < buf_extsize b then buf_extsize b
                        else (bytes_extra div buf_extsize b + 1) * buf_extsize b)
           in if bytes_needed < 2 ^ 31 \<and> size < 2 ^ 31
              then Some (b\<lparr>buf_bsize := size, buf_bytes := buf_bytes b @ replicate (size - buf_bsize b) (CHR 0x00)\<rparr>)
              else None
         else Some b)"

definition buffer_move :: "nrbuf \<Rightarrow> nrbuf" where
  "buffer_move b =
     (if buf_bptr b \<noteq> 0
      then b\<lparr>buf_bytes := take (buf_avail b) (drop (buf_bptr b) (buf_bytes b)) @ drop (buf_avail b) (buf_bytes b),
             buf_bptr := 0\<rparr>
      else b)"

definition nr_buffer_add :: "nrbuf ptr \<Rightarrow> string ptr \<Rightarrow> int \<Rightarrow> nrbuf ptr option" where
  "nr_buffer_add bp data dlen =
     (case bp of None \<Rightarrow> Some NULL
      | Some b \<Rightarrow>
          if dlen \<le> 0 then Some bp
          else do {
            b \<leftarrow> buffer_grow b (nat dlen);
            let b = buffer_move b;
            b \<leftarrow> (case data of None \<Rightarrow> Some b
                  | Some d \<Rightarrow>
                      if nat dlen \<le> length d \<and> buf_avail b + nat dlen \<le> length (buf_bytes b)
                      then Some (b\<lparr>buf_bytes := take (buf_avail b) (buf_bytes b) @ take (nat dlen) d
                             @ drop (buf_avail b + nat dlen) (buf_bytes b)\<rparr>)
                      else None);
            Some (Some (b\<lparr>buf_avail := buf_avail b + nat dlen\<rparr>))
          })"

text \<open>Room inside of the buffer, to be written by the caller: the offset of the room.\<close>

definition nr_buffer_ensure :: "nrbuf ptr \<Rightarrow> nat \<Rightarrow> (nat ptr \<times> nrbuf ptr) option" where
  "nr_buffer_ensure bp reqsize =
     (case bp of None \<Rightarrow> Some (NULL, NULL)
      | Some b \<Rightarrow> do {
          b \<leftarrow> buffer_grow b reqsize;
          let b = buffer_move b;
          Some (Some (buf_avail b), Some b)
        })"

text \<open>Writing a string and its terminating zero into the memory of a buffer.\<close>

definition write_at :: "nrbuf \<Rightarrow> nat \<Rightarrow> string \<Rightarrow> nrbuf option" where
  "write_at b i s =
     (if i + length s \<le> length (buf_bytes b)
      then Some (b\<lparr>buf_bytes := take i (buf_bytes b) @ s @ drop (i + length s) (buf_bytes b)\<rparr>) else None)"

definition nr_buffer_add_escape_json :: "nrbuf ptr \<Rightarrow> string ptr \<Rightarrow> nrbuf ptr option" where
  "nr_buffer_add_escape_json bufp raw_string =
     (case (bufp, raw_string) of
        (Some _, Some s) \<Rightarrow> do {
          (room, bufp) \<leftarrow> nr_buffer_ensure bufp (length s * 6 + 3);
          (case (room, bufp) of
             (Some i, Some b) \<Rightarrow> do {
               b \<leftarrow> write_at b i (nr_json_escape raw_string @ [CHR 0x00]);
               nr_buffer_add (Some b) NULL (int (length (nr_json_escape raw_string)))
             }
           | _ \<Rightarrow> Some bufp)
        }
      | _ \<Rightarrow> Some bufp)"

text \<open>\<open>dest\<close> tells whether there is a destination for the bytes.\<close>

definition nr_buffer_use :: "nrbuf ptr \<Rightarrow> bool \<Rightarrow> int \<Rightarrow> (int \<times> string \<times> nrbuf ptr) option" where
  "nr_buffer_use bufp dest dlen =
     (case bufp of None \<Rightarrow> Some (-1, [], NULL)
      | Some b \<Rightarrow>
          if dlen < 0 then Some (-1, [], bufp)
          else let dlen = (if dlen > int (buf_avail b) then buf_avail b else nat dlen);
                   avail = buf_avail b - dlen
               in if dest \<longrightarrow> buf_bptr b + dlen \<le> length (buf_bytes b)
                  then Some (int dlen, if dest then take dlen (drop (buf_bptr b) (buf_bytes b)) else [],
                         Some (b\<lparr>buf_avail := avail, buf_bptr := (if avail = 0 then 0 else buf_bptr b + dlen)\<rparr>))
                  else None)"

definition nr_buffer_destroy :: "nrbuf ptr ptr \<Rightarrow> nrbuf ptr ptr" where
  "nr_buffer_destroy bufp = (case bufp of Some (Some _) \<Rightarrow> Some NULL | _ \<Rightarrow> bufp)"

definition uint32_bytes :: "uint32 \<Rightarrow> string" where
  "uint32_bytes val = map (\<lambda>i. char_of (unat (drop_bit (8 * i) val))) [0, 1, 2, 3]"

definition nr_buffer_write_uint32_t_le :: "nrbuf ptr \<Rightarrow> uint32 \<Rightarrow> nrbuf ptr option" where
  "nr_buffer_write_uint32_t_le bufp val = nr_buffer_add bufp (Some (uint32_bytes val)) 4"

definition uint32_of_bytes :: "string \<Rightarrow> uint32" where
  "uint32_of_bytes bytes =
     of_nat (byte (bytes ! 0)) OR push_bit 8 (of_nat (byte (bytes ! 1)))
       OR push_bit 16 (of_nat (byte (bytes ! 2))) OR push_bit 24 (of_nat (byte (bytes ! 3)))"

definition nr_buffer_read_uint32_t_le :: "nrbuf ptr \<Rightarrow> bool \<Rightarrow> (nr_status \<times> uint32 ptr \<times> nrbuf ptr) option" where
  "nr_buffer_read_uint32_t_le bufp val =
     (if bufp = NULL \<or> \<not> val then Some (NR_FAILURE, NULL, bufp)
      else do {
        (n, bytes, bufp) \<leftarrow> nr_buffer_use bufp True 4;
        Some (if n \<noteq> 4 then (NR_FAILURE, NULL, bufp)
              else (NR_SUCCESS, Some (uint32_of_bytes bytes), bufp))
      })"

text \<open>Decimal digits, as \<^verbatim>\<open>snprintf\<close> writes them.\<close>

fun decimal :: "nat \<Rightarrow> string" where
  "decimal n = (if n < 10 then [''0123456789'' ! n] else decimal (n div 10) @ [''0123456789'' ! (n mod 10)])"

declare decimal.simps [simp del]

definition nr_buffer_write_uint64_t_as_text :: "nrbuf ptr \<Rightarrow> uint64 \<Rightarrow> nrbuf ptr option" where
  "nr_buffer_write_uint64_t_as_text bufp val =
     (if bufp = NULL then Some NULL
      else nr_buffer_add bufp (Some (decimal (unat val))) (int (length (decimal (unat val)))))"

definition nr_buffer_peek_end :: "nrbuf ptr \<Rightarrow> char option" where
  "nr_buffer_peek_end bufp =
     (case bufp of None \<Rightarrow> Some (CHR 0x00)
      | Some b \<Rightarrow>
          if buf_avail b = 0 then Some (CHR 0x00)
          else if buf_avail b - 1 < length (buf_bytes b) then Some (buf_bytes b ! (buf_avail b - 1)) else None)"

section \<open>The interface\<close>

text \<open>A queue of bytes: what is put at the end is got from the front. \<open>room\<close> is how much a queue can
  hold; no operation changes it.\<close>

locale byte_queue =
  fixes put :: "'q \<Rightarrow> string \<Rightarrow> 'q option" and get :: "'q \<Rightarrow> nat \<Rightarrow> (string \<times> 'q) option"
    and inv :: "'q \<Rightarrow> bool" and content :: "'q \<Rightarrow> string" and room :: "'q \<Rightarrow> nat"
  assumes put: "inv q \<Longrightarrow> length (content q) + length d \<le> room q \<Longrightarrow>
      \<exists>q'. put q d = Some q' \<and> inv q' \<and> content q' = content q @ d \<and> room q' = room q"
    and get: "inv q \<Longrightarrow> \<exists>q'. get q n = Some (take n (content q), q') \<and> inv q' \<and> content q' = drop n (content q) \<and> room q' = room q"
begin

definition put_all :: "string list \<Rightarrow> 'q \<Rightarrow> 'q option" where
  "put_all ds q = fold (\<lambda>d q. Option.bind q (\<lambda>q. put q d)) ds (Some q)"

fun get_all :: "nat list \<Rightarrow> 'q \<Rightarrow> (string list \<times> 'q) option" where
  "get_all [] q = Some ([], q)"
| "get_all (n # ns) q = Option.bind (get q n) (\<lambda>(s, q). Option.bind (get_all ns q) (\<lambda>(ss, q). Some (s # ss, q)))"

lemma put_all_content:
  "inv q \<Longrightarrow> length (content q) + length (concat ds) \<le> room q \<Longrightarrow>
     \<exists>q'. put_all ds q = Some q' \<and> inv q' \<and> content q' = content q @ concat ds \<and> room q' = room q"
proof (induction ds arbitrary: q)
  case Nil
  then show ?case by (simp add: put_all_def)
next
  case (Cons d ds)
  from put [OF Cons.prems(1), of d] Cons.prems(2) obtain q1 where
    q1: "put q d = Some q1" "inv q1" "content q1 = content q @ d" "room q1 = room q" by auto
  from Cons.IH [OF q1(2)] q1(3,4) Cons.prems(2) obtain q' where
    "put_all ds q1 = Some q'" "inv q'" "content q' = content q1 @ concat ds" "room q' = room q1" by auto
  with q1 show ?case by (simp add: put_all_def)
qed

lemma get_all_content:
  "inv q \<Longrightarrow> content q = concat ss @ rest \<Longrightarrow> \<exists>q'. get_all (map length ss) q = Some (ss, q') \<and> inv q' \<and> content q' = rest"
proof (induction ss arbitrary: q)
  case (Cons s ss)
  from get [OF Cons.prems(1), of "length s"] Cons.prems(2) obtain q1 where
    q1: "get q (length s) = Some (s, q1)" "inv q1" "content q1 = concat ss @ rest" by auto
  from Cons.IH [OF q1(2,3)] q1(1) show ?case by auto
qed simp

lemma fifo:
  assumes "inv q" and "content q = []" and "length (concat ds) \<le> room q"
  shows "\<exists>q' q''. put_all ds q = Some q' \<and> get_all (map length ds) q' = Some (ds, q'') \<and> content q'' = []"
proof -
  from put_all_content [OF assms(1), of ds] assms(2,3) obtain q' where
    q': "put_all ds q = Some q'" "inv q'" "content q' = concat ds @ []" by auto
  from get_all_content [OF q'(2,3)] q'(1) show ?thesis by auto
qed

end

section \<open>The buffer implements the interface\<close>

definition buffer_inv :: "nrbuf \<Rightarrow> bool" where
  "buffer_inv b \<longleftrightarrow> length (buf_bytes b) = buf_bsize b \<and> buf_bptr b + buf_avail b \<le> buf_bsize b \<and> 0 < buf_extsize b \<and> buf_extsize b < 2 ^ 31"

definition buffer_content :: "nrbuf \<Rightarrow> string" where
  "buffer_content b = take (buf_avail b) (drop (buf_bptr b) (buf_bytes b))"

definition buffer_room :: "nrbuf \<Rightarrow> nat" where
  "buffer_room b = (2 ^ 31 - 1 - buf_extsize b) div 2"

lemma length_content: "buffer_inv b \<Longrightarrow> length (buffer_content b) = buf_avail b"
  by (auto simp: buffer_inv_def buffer_content_def)

lemma buffer_grow_spec:
  assumes inv: "buffer_inv b" and room: "2 * buf_avail b + n + buf_extsize b < 2 ^ 31"
  shows "\<exists>b'. buffer_grow b n = Some b' \<and> buffer_inv b' \<and> buffer_content b' = buffer_content b
    \<and> buf_avail b' = buf_avail b \<and> buf_extsize b' = buf_extsize b \<and> buf_avail b + n \<le> buf_bsize b'
    \<and> buf_bptr b' = buf_bptr b \<and> prefix (buf_bytes b) (buf_bytes b')"
proof (cases "int (buf_bsize b) - int (buf_avail b) < int n + int (buf_avail b)")
  case False
  with inv show ?thesis by (auto simp: buffer_grow_def Let_def)
next
  case True
  have av: "buf_avail b \<le> buf_bsize b" using inv by (simp add: buffer_inv_def)
  let ?x = "nat (int n + int (buf_avail b) - (int (buf_bsize b) - int (buf_avail b)))" and ?e = "buf_extsize b"
  let ?size = "buf_bsize b + (if ?x < ?e then ?e else (?x div ?e + 1) * ?e)"
  have x: "?x + buf_bsize b = n + 2 * buf_avail b" using True av by simp
  have up: "(?x div ?e + 1) * ?e \<le> ?x + ?e" by simp
  have low: "?x < (?x div ?e + 1) * ?e" using inv dividend_less_div_times [of ?e ?x] by (simp add: buffer_inv_def)
  have "?size \<le> buf_bsize b + ?x + ?e" using up by simp
  then have size: "?size < 2 ^ 31" using x room by linarith
  have fit: "buf_avail b + n \<le> ?size" using x low by (auto split: if_splits)
  let ?b = "b\<lparr>buf_bsize := ?size, buf_bytes := buf_bytes b @ replicate (?size - buf_bsize b) (CHR 0x00)\<rparr>"
  have needed: "int n + int (buf_avail b) < 2 ^ 31" using room by simp
  have "buffer_grow b n = Some ?b"
    unfolding buffer_grow_def Let_def by (simp only: True size needed if_True simp_thms)
  moreover have "buffer_inv ?b \<and> buffer_content ?b = buffer_content b"
    using inv by (auto simp: buffer_inv_def buffer_content_def)
  ultimately show ?thesis using fit by (intro exI [of _ ?b]) simp
qed

lemma buffer_move_spec:
  assumes "buffer_inv b"
  shows "buffer_inv (buffer_move b)" "buffer_content (buffer_move b) = buffer_content b" "buf_bptr (buffer_move b) = 0"
    "buf_avail (buffer_move b) = buf_avail b" "buf_extsize (buffer_move b) = buf_extsize b" "buf_bsize (buffer_move b) = buf_bsize b"
  using assms by (auto simp: buffer_move_def buffer_inv_def buffer_content_def)

lemma nr_buffer_add_spec:
  assumes inv: "buffer_inv b" and room: "2 * buf_avail b + length d + buf_extsize b < 2 ^ 31"
  shows "\<exists>b'. nr_buffer_add (Some b) (Some d) (int (length d)) = Some (Some b') \<and> buffer_inv b'
    \<and> buffer_content b' = buffer_content b @ d \<and> buf_extsize b' = buf_extsize b"
proof (cases "d = []")
  case True
  with inv show ?thesis by (simp add: nr_buffer_add_def)
next
  case False
  from buffer_grow_spec [OF inv room] obtain b1 where
    b1: "buffer_grow b (length d) = Some b1" "buffer_inv b1" "buffer_content b1 = buffer_content b"
    "buf_avail b1 = buf_avail b" "buf_extsize b1 = buf_extsize b" "buf_avail b + length d \<le> buf_bsize b1" by blast
  note m = buffer_move_spec [OF b1(2)]
  let ?m = "buffer_move b1"
  have len: "length (buf_bytes ?m) = buf_bsize b1" using m(1,6) by (simp add: buffer_inv_def)
  let ?b = "?m\<lparr>buf_bytes := take (buf_avail b) (buf_bytes ?m) @ d @ drop (buf_avail b + length d) (buf_bytes ?m),
    buf_avail := buf_avail b + length d\<rparr>"
  have "nr_buffer_add (Some b) (Some d) (int (length d)) = Some (Some ?b)"
    using False b1(1,4,6) m(4) len by (simp add: nr_buffer_add_def Let_def)
  moreover have "buffer_inv ?b" using m(1,3,5,6) b1(4,6) len by (auto simp: buffer_inv_def)
  moreover have "buffer_content ?b = buffer_content b @ d"
  proof -
    have "take (buf_avail b) (buf_bytes ?m) = buffer_content b" using m(2,3,4) b1(3,4) by (simp add: buffer_content_def)
    then show ?thesis using m(3) length_content [OF inv] unfolding buffer_content_def [of ?b] by simp
  qed
  ultimately show ?thesis using m(5) b1(5) by (intro exI [of _ ?b]) simp
qed

lemma nr_buffer_use_spec:
  assumes inv: "buffer_inv b"
  shows "\<exists>b'. nr_buffer_use (Some b) True (int n) = Some (int (min n (buf_avail b)), take n (buffer_content b), Some b')
    \<and> buffer_inv b' \<and> buffer_content b' = drop n (buffer_content b) \<and> buf_extsize b' = buf_extsize b"
proof -
  let ?n = "min n (buf_avail b)"
  let ?b = "b\<lparr>buf_avail := buf_avail b - ?n, buf_bptr := (if buf_avail b - ?n = 0 then 0 else buf_bptr b + ?n)\<rparr>"
  have n: "(if int n > int (buf_avail b) then buf_avail b else nat (int n)) = ?n" by simp
  have "take ?n (drop (buf_bptr b) (buf_bytes b)) = take n (buffer_content b)"
    by (simp add: buffer_content_def min.commute)
  moreover have "buf_bptr b + ?n \<le> length (buf_bytes b)" using inv by (auto simp: buffer_inv_def)
  ultimately have "nr_buffer_use (Some b) True (int n) = Some (int ?n, take n (buffer_content b), Some ?b)"
    unfolding nr_buffer_use_def by (simp only: option.case Let_def n) simp
  moreover have "buffer_inv ?b" using inv by (auto simp: buffer_inv_def)
  moreover have "buffer_content ?b = drop n (buffer_content b)"
    using inv by (auto simp: buffer_content_def buffer_inv_def drop_take min_def add.commute)
  ultimately show ?thesis by (intro exI [of _ ?b]) simp
qed

definition buffer_put :: "nrbuf \<Rightarrow> string \<Rightarrow> nrbuf option" where
  "buffer_put b d = Option.bind (nr_buffer_add (Some b) (Some d) (int (length d))) (\<lambda>b. b)"

definition buffer_get :: "nrbuf \<Rightarrow> nat \<Rightarrow> (string \<times> nrbuf) option" where
  "buffer_get b n = map_option (\<lambda>(_, s, b). (s, the b)) (nr_buffer_use (Some b) True (int n))"

lemma half_le: "x \<le> m div 2 \<Longrightarrow> 2 * x \<le> (m :: nat)"
  by presburger

interpretation bq: byte_queue buffer_put buffer_get buffer_inv buffer_content buffer_room
proof
  fix b :: nrbuf and d :: string
  assume inv: "buffer_inv b" and "length (buffer_content b) + length d \<le> buffer_room b"
  then have "2 * (buf_avail b + length d) \<le> 2 ^ 31 - 1 - buf_extsize b"
    using length_content [OF inv] half_le unfolding buffer_room_def by metis
  then have room: "2 * buf_avail b + length d + buf_extsize b < 2 ^ 31"
    using inv unfolding buffer_inv_def by auto
  from nr_buffer_add_spec [OF inv this]
  show "\<exists>b'. buffer_put b d = Some b' \<and> buffer_inv b' \<and> buffer_content b' = buffer_content b @ d \<and> buffer_room b' = buffer_room b"
    by (auto simp: buffer_put_def buffer_room_def)
next
  fix b n
  assume inv: "buffer_inv b"
  from nr_buffer_use_spec [OF inv, of n]
  show "\<exists>b'. buffer_get b n = Some (take n (buffer_content b), b') \<and> buffer_inv b'
      \<and> buffer_content b' = drop n (buffer_content b) \<and> buffer_room b' = buffer_room b"
    by (auto simp: buffer_get_def buffer_room_def)
qed

lemma buffer_inv_create:
  assumes "est < 2 ^ 31" and "ext < 2 ^ 31"
  shows "buffer_inv (nr_buffer_create est ext)" "buffer_content (nr_buffer_create est ext) = []"
    "ext \<le> est \<Longrightarrow> 0 < ext \<Longrightarrow> buf_extsize (nr_buffer_create est ext) \<le> max 512 (nat ext)"
  using assms by (auto simp: nr_buffer_create_def buffer_inv_def buffer_content_def Let_def max_def)

section \<open>Properties\<close>

text \<open>Adding and using a sequence of chunks.\<close>

fun add_all :: "string list \<Rightarrow> nrbuf \<Rightarrow> nrbuf option" where
  "add_all [] b = Some b"
| "add_all (d # ds) b = Option.bind (buffer_put b d) (add_all ds)"

fun use_all :: "nat list \<Rightarrow> nrbuf \<Rightarrow> (string list \<times> nrbuf) option" where
  "use_all [] b = Some ([], b)"
| "use_all (n # ns) b = Option.bind (buffer_get b n) (\<lambda>(s, b). Option.bind (use_all ns b) (\<lambda>(ss, b). Some (s # ss, b)))"

lemma put_all_None: "fold (\<lambda>d q. Option.bind q (\<lambda>q. f q d)) ds None = None"
  by (induction ds) simp_all

lemma add_all_eq: "bq.put_all ds b = add_all ds b"
proof (induction ds arbitrary: b)
  case (Cons d ds)
  then show ?case by (cases "buffer_put b d") (simp_all add: bq.put_all_def put_all_None)
qed (simp add: bq.put_all_def)

lemma use_all_eq: "bq.get_all ns b = use_all ns b"
  by (induction ns arbitrary: b) simp_all

text \<open>C24. The buffer is a queue of bytes: chunks added to a new buffer come out in order and
  unchanged when as many bytes are used, and the buffer is empty again. No access leaves its
  memory and no size overflows, as long as the chunks are not longer than \<open>2 ^ 29\<close> together.\<close>

theorem nr_buffer_fifo:
  assumes "ext \<le> est" and "0 < ext" and "est < 2 ^ 29" and "length (concat ds) \<le> 2 ^ 29"
  shows "\<exists>b' b''. add_all ds (nr_buffer_create est ext) = Some b' \<and> use_all (map length ds) b' = Some (ds, b'')
    \<and> buffer_content b'' = []"
proof -
  let ?b = "nr_buffer_create est ext"
  have e: "est < 2 ^ 31" "ext < 2 ^ 31" using assms(1,3) by simp_all
  have "buf_extsize ?b \<le> 2 ^ 29" using buffer_inv_create(3) [OF e assms(1,2)] assms(1,3) by simp
  then have "length (concat ds) \<le> buffer_room ?b" using assms(4) by (simp add: buffer_room_def)
  from bq.fifo [OF buffer_inv_create(1,2) [OF e] this] show ?thesis by (simp add: add_all_eq use_all_eq)
qed

theorem nr_buffer_fifo_witness:
  "\<exists>b' b''. add_all [''ab'', ''c''] (nr_buffer_create 1024 512) = Some b'
     \<and> use_all (map length [''ab'', ''c'']) b' = Some ([''ab'', ''c''], b'')"
proof -
  have "length (concat [''ab'', ''c'']) \<le> 2 ^ 29" by simp
  from nr_buffer_fifo [OF _ _ _ this, of 512 1024] show ?thesis by auto
qed

text \<open>Numbers of 32 bits are written and read in the same byte order.\<close>

lemma uint32_round_trip: "uint32_of_bytes (uint32_bytes v) = v"
proof -
  have b: "of_nat (unat w mod 256) = take_bit 8 w" for w :: uint32
    by (simp add: take_bit_eq_mod word_arith_nat_mod unat_of_nat)
  have "uint32_of_bytes (uint32_bytes v) = take_bit 8 v OR push_bit 8 (take_bit 8 (drop_bit 8 v))
      OR push_bit 16 (take_bit 8 (drop_bit 16 v)) OR push_bit 24 (take_bit 8 (drop_bit 24 v))"
    by (simp add: uint32_of_bytes_def uint32_bytes_def b)
  also have "\<dots> = v"
  proof (rule bit_word_eqI)
    fix n
    assume "n < LENGTH(32)"
    then consider "n < 8" | "8 \<le> n" "n < 16" | "16 \<le> n" "n < 24" | "24 \<le> n" "n < 32" by fastforce
    then show "bit (take_bit 8 v OR push_bit 8 (take_bit 8 (drop_bit 8 v)) OR push_bit 16 (take_bit 8 (drop_bit 16 v))
        OR push_bit 24 (take_bit 8 (drop_bit 24 v))) n = bit v n"
      by cases (auto simp: bit_simps)
  qed
  finally show ?thesis .
qed

lemma nr_buffer_uint32:
  assumes inv: "buffer_inv b" and "buffer_content b = []" and "buf_extsize b < 2 ^ 30"
  shows "\<exists>b' b''. nr_buffer_write_uint32_t_le (Some b) v = Some (Some b')
    \<and> nr_buffer_read_uint32_t_le (Some b') True = Some (NR_SUCCESS, Some v, Some b'')"
proof -
  have len: "length (uint32_bytes v) = 4" by (simp add: uint32_bytes_def)
  have "buf_avail b = 0" using length_content [OF inv] assms(2) by simp
  with nr_buffer_add_spec [OF inv, of "uint32_bytes v"] assms(2,3) len obtain b' where
    b': "nr_buffer_write_uint32_t_le (Some b) v = Some (Some b')" "buffer_inv b'" "buffer_content b' = uint32_bytes v"
    by (auto simp: nr_buffer_write_uint32_t_le_def)
  from nr_buffer_use_spec [OF b'(2), of 4] b'(3) len length_content [OF b'(2)] obtain b'' where
    "nr_buffer_use (Some b') True 4 = Some (4, uint32_bytes v, Some b'')" by auto
  with b'(1) show ?thesis by (simp add: nr_buffer_read_uint32_t_le_def uint32_round_trip)
qed

text \<open>The last byte: the code does not count in what has been used, so it is right for a buffer from
  which nothing has been used only.\<close>

lemma nr_buffer_peek_end_unused:
  "buffer_inv b \<Longrightarrow> buf_bptr b = 0 \<Longrightarrow> buffer_content b \<noteq> [] \<Longrightarrow> nr_buffer_peek_end (Some b) = Some (last (buffer_content b))"
  by (auto simp: nr_buffer_peek_end_def buffer_inv_def buffer_content_def last_conv_nth min_def)

lemma nr_buffer_peek_end_used:
  "\<exists>b. add_all [''abcd''] (nr_buffer_create 1024 512) = Some b
     \<and> (\<exists>b'. use_all [2] b = Some ([''ab''], b') \<and> buffer_content b' = ''cd'' \<and> nr_buffer_peek_end (Some b') = Some (CHR ''b''))"
  by (simp add: buffer_put_def buffer_get_def nr_buffer_add_def nr_buffer_use_def nr_buffer_create_def buffer_grow_def
      buffer_move_def buffer_content_def nr_buffer_peek_end_def Let_def)

text \<open>Adding an escaped string stays inside of the room that was made for it.\<close>

lemma nr_buffer_add_escape_json_spec:
  assumes inv: "buffer_inv b" and room: "2 * buf_avail b + 14 * length s + 8 + buf_extsize b < 2 ^ 31"
  shows "\<exists>b'. nr_buffer_add_escape_json (Some b) (Some s) = Some (Some b') \<and> buffer_inv b'
    \<and> buffer_content b' = buffer_content b @ nr_json_escape (Some s) \<and> buf_extsize b' = buf_extsize b"
proof -
  let ?e = "nr_json_escape (Some s)"
  have len: "length ?e \<le> 6 * length s + 2" using escape_loop_spec [of s] by (simp add: nr_json_escape_def)
  from buffer_grow_spec [OF inv, of "length s * 6 + 3"] room obtain b1 where
    b1: "buffer_grow b (length s * 6 + 3) = Some b1" "buffer_inv b1" "buffer_content b1 = buffer_content b"
    "buf_avail b1 = buf_avail b" "buf_extsize b1 = buf_extsize b" "buf_avail b + (length s * 6 + 3) \<le> buf_bsize b1" by auto
  note m = buffer_move_spec [OF b1(2)]
  let ?m = "buffer_move b1" and ?z = "?e @ [CHR 0x00]"
  have bytes: "length (buf_bytes ?m) = buf_bsize b1" using m(1,6) by (simp add: buffer_inv_def)
  let ?w = "?m\<lparr>buf_bytes := take (buf_avail b) (buf_bytes ?m) @ ?z @ drop (buf_avail b + length ?z) (buf_bytes ?m)\<rparr>"
  have w: "write_at ?m (buf_avail b) ?z = Some ?w" using bytes b1(6) len by (simp add: write_at_def)
  have wi: "buffer_inv ?w" using m(1) bytes b1(6) len by (auto simp: buffer_inv_def)
  have fill: "take (buf_avail b + length ?e) (buf_bytes ?w) = buffer_content b @ ?e"
  proof -
    have "take (buf_avail b) (buf_bytes ?m) = buffer_content b" using m(2,3,4) b1(3,4) by (simp add: buffer_content_def)
    then show ?thesis using length_content [OF inv] by simp
  qed
  have "2 * buf_avail ?w + length ?e + buf_extsize ?w < 2 ^ 31" using room len m(4,5) b1(4,5) by simp
  from buffer_grow_spec [OF wi this] obtain b2 where
    b2: "buffer_grow ?w (length ?e) = Some b2" "buffer_inv b2" "buf_avail b2 = buf_avail ?w" "buf_extsize b2 = buf_extsize ?w"
    "buf_avail ?w + length ?e \<le> buf_bsize b2" "buf_bptr b2 = buf_bptr ?w" "prefix (buf_bytes ?w) (buf_bytes b2)" by blast
  let ?b = "b2\<lparr>buf_avail := buf_avail b + length ?e\<rparr>"
  have av: "buf_avail ?w = buf_avail b" "buf_bptr b2 = 0" using m(3,4) b1(4) b2(6) by simp_all
  have "take (buf_avail b + length ?e) (buf_bytes b2) = take (buf_avail b + length ?e) (buf_bytes ?w)"
    using b2(7) bytes b1(6) len by (auto simp: prefix_def)
  then have "buffer_content ?b = buffer_content b @ ?e" using fill av(2) unfolding buffer_content_def [of ?b] by simp
  moreover have "buffer_inv ?b" using b2(2,5) av unfolding buffer_inv_def by simp
  moreover have mv: "buffer_move b2 = b2" using av(2) by (simp add: buffer_move_def)
  have ne: "?e \<noteq> []" by (simp add: nr_json_escape_def)
  have "nr_buffer_add (Some ?w) NULL (int (length ?e)) = Some (Some ?b)"
    using b2(1,3) av(1) mv ne by (simp add: nr_buffer_add_def)
  then have "nr_buffer_add_escape_json (Some b) (Some s) = Some (Some ?b)"
    using b1(1,4) m(4) w by (simp add: nr_buffer_add_escape_json_def nr_buffer_ensure_def Let_def)
  moreover have "buf_extsize ?b = buf_extsize b" using b2(4) m(5) b1(5) by simp
  ultimately show ?thesis by blast
qed

end
