(* ===== verification/Object.thy ===== *)
theory Object
  imports Buffer
begin

text \<open>
  The generic objects of \<^verbatim>\<open>axiom/util_object.c\<close>, from which the agent builds what it sends to
  the daemon: numbers, strings, arrays and hashes of objects. An object owns its parts, so it is
  a value, and an operation on an object returns the new object. A hash and an array have the
  number of cells that are allocated beside the elements in use. Floating point numbers are a
  type parameter \<open>'d\<close>, and what the agent does with them (conversion to \<^verbatim>\<open>int\<close>, printing) is
  a parameter of the operations that use it. A getter returns the value and the status that it
  stores behind the error pointer. Creating objects from JSON and the dump for debugging are
  not modelled.
\<close>

section \<open>Objects\<close>

datatype nrotype =
    NR_OBJECT_INVALID | NR_OBJECT_NONE | NR_OBJECT_BOOLEAN | NR_OBJECT_INT | NR_OBJECT_LONG
  | NR_OBJECT_ULONG | NR_OBJECT_DOUBLE | NR_OBJECT_STRING | NR_OBJECT_JSTRING | NR_OBJECT_HASH | NR_OBJECT_ARRAY

datatype 'd nrobj =
    Obj_None
  | Obj_Boolean "32 word"
  | Obj_Int "32 word"
  | Obj_Long "64 word"
  | Obj_Ulong "64 word"
  | Obj_Double 'd
  | Obj_String "string ptr"
  | Obj_Jstring "string ptr"
  | Obj_Hash nat "(string \<times> 'd nrobj) list"
  | Obj_Array nat "'d nrobj list"

definition NRO_CHUNK_SIZE :: nat where
  "NRO_CHUNK_SIZE = 8"

definition nro_type :: "'d nrobj ptr \<Rightarrow> nrotype" where
  "nro_type obj =
     (case obj of None \<Rightarrow> NR_OBJECT_INVALID
      | Some Obj_None \<Rightarrow> NR_OBJECT_NONE
      | Some (Obj_Boolean _) \<Rightarrow> NR_OBJECT_BOOLEAN
      | Some (Obj_Int _) \<Rightarrow> NR_OBJECT_INT
      | Some (Obj_Long _) \<Rightarrow> NR_OBJECT_LONG
      | Some (Obj_Ulong _) \<Rightarrow> NR_OBJECT_ULONG
      | Some (Obj_Double _) \<Rightarrow> NR_OBJECT_DOUBLE
      | Some (Obj_String _) \<Rightarrow> NR_OBJECT_STRING
      | Some (Obj_Jstring _) \<Rightarrow> NR_OBJECT_JSTRING
      | Some (Obj_Hash _ _) \<Rightarrow> NR_OBJECT_HASH
      | Some (Obj_Array _ _) \<Rightarrow> NR_OBJECT_ARRAY)"

definition nro_assert :: "'d nrobj ptr \<Rightarrow> nrotype \<Rightarrow> 'd nrobj ptr" where
  "nro_assert obj type = (if obj \<noteq> NULL \<and> nro_type obj = type then obj else NULL)"

definition nro_cassert :: "'d nrobj ptr \<Rightarrow> nrotype \<Rightarrow> 'd nrobj ptr" where
  "nro_cassert obj type = (if obj \<noteq> NULL \<and> nro_type obj = type then obj else NULL)"

text \<open>A new object is zeroed; \<open>zero\<close> is the number whose bytes are zero.\<close>

definition nro_new :: "'d \<Rightarrow> nrotype \<Rightarrow> 'd nrobj ptr" where
  "nro_new zero type =
     (case type of
        NR_OBJECT_INVALID \<Rightarrow> NULL
      | NR_OBJECT_NONE \<Rightarrow> Some Obj_None
      | NR_OBJECT_BOOLEAN \<Rightarrow> Some (Obj_Boolean 0)
      | NR_OBJECT_INT \<Rightarrow> Some (Obj_Int 0)
      | NR_OBJECT_LONG \<Rightarrow> Some (Obj_Long 0)
      | NR_OBJECT_ULONG \<Rightarrow> Some (Obj_Ulong 0)
      | NR_OBJECT_DOUBLE \<Rightarrow> Some (Obj_Double zero)
      | NR_OBJECT_STRING \<Rightarrow> Some (Obj_String NULL)
      | NR_OBJECT_JSTRING \<Rightarrow> Some (Obj_Jstring NULL)
      | NR_OBJECT_HASH \<Rightarrow> Some (Obj_Hash NRO_CHUNK_SIZE [])
      | NR_OBJECT_ARRAY \<Rightarrow> Some (Obj_Array NRO_CHUNK_SIZE []))"

definition nr_strdup :: "string ptr \<Rightarrow> string" where
  "nr_strdup orig = (case orig of None \<Rightarrow> [] | Some s \<Rightarrow> s)"

definition nro_new_none :: "'d nrobj" where "nro_new_none = Obj_None"

definition nro_new_boolean :: "32 word \<Rightarrow> 'd nrobj" where
  "nro_new_boolean x = Obj_Boolean (if x \<noteq> 0 then 1 else 0)"

definition nro_new_int :: "32 word \<Rightarrow> 'd nrobj" where "nro_new_int x = Obj_Int x"

definition nro_new_long :: "64 word \<Rightarrow> 'd nrobj" where "nro_new_long x = Obj_Long x"

definition nro_new_ulong :: "64 word \<Rightarrow> 'd nrobj" where "nro_new_ulong x = Obj_Ulong x"

definition nro_new_double :: "'d \<Rightarrow> 'd nrobj" where "nro_new_double x = Obj_Double x"

definition nro_new_string :: "string ptr \<Rightarrow> 'd nrobj" where "nro_new_string x = Obj_String (Some (nr_strdup x))"

definition nro_new_jstring :: "string ptr \<Rightarrow> 'd nrobj" where "nro_new_jstring x = Obj_Jstring (Some (nr_strdup x))"

definition nro_new_hash :: "'d nrobj" where "nro_new_hash = Obj_Hash NRO_CHUNK_SIZE []"

definition nro_new_array :: "'d nrobj" where "nro_new_array = Obj_Array NRO_CHUNK_SIZE []"

fun nro_copy :: "'d nrobj \<Rightarrow> 'd nrobj" where
  "nro_copy (Obj_String s) = Obj_String (Some (nr_strdup s))"
| "nro_copy (Obj_Jstring s) = Obj_Jstring (Some (nr_strdup s))"
| "nro_copy (Obj_Hash allocated es) = Obj_Hash (length es) (map (\<lambda>(k, v). (k, nro_copy v)) es)"
| "nro_copy (Obj_Array allocated vs) = Obj_Array (length vs) (map nro_copy vs)"
| "nro_copy obj = obj"

section \<open>Setters\<close>

text \<open>The position of a key: an error (-1), not there (-2), or an index.\<close>

fun key_index :: "(string \<times> 'd nrobj) list \<Rightarrow> string \<Rightarrow> nat \<Rightarrow> int" where
  "key_index [] key i = -2"
| "key_index ((k, v) # es) key i = (if k = key then int i else key_index es key (i + 1))"

definition nro_find_key_in_hash :: "'d nrobj \<Rightarrow> string ptr \<Rightarrow> int" where
  "nro_find_key_in_hash op key =
     (case (op, key) of
        (Obj_Hash _ es, Some k) \<Rightarrow> if k = [] then -1 else key_index es k 0
      | _ \<Rightarrow> -1)"

definition nro_internal_setvalue_hash ::
  "'d nrobj ptr \<Rightarrow> string ptr \<Rightarrow> 'd nrobj ptr \<Rightarrow> nr_status \<times> 'd nrobj ptr" where
  "nro_internal_setvalue_hash op key nobj =
     (case (op, nobj) of
        (Some (Obj_Hash allocated es), Some v) \<Rightarrow>
          let idx = nro_find_key_in_hash (Obj_Hash allocated es) key
          in if idx = -1 then (NR_FAILURE, op)
             else if idx \<noteq> -2
             then (NR_SUCCESS, Some (Obj_Hash allocated (es[nat idx := (fst (es ! nat idx), v)])))
             else (NR_SUCCESS, Some (Obj_Hash (if length es = allocated then allocated + NRO_CHUNK_SIZE else allocated)
                    (es @ [(nr_strdup key, v)])))
      | _ \<Rightarrow> (NR_FAILURE, op))"

text \<open>The index counts from 1, and 0 stands for a new element at the end. The code makes a valid
  index zero-based first and tests for 0 afterwards.\<close>

definition nro_internal_setvalue_array ::
  "'d nrobj ptr \<Rightarrow> int \<Rightarrow> 'd nrobj ptr \<Rightarrow> nr_status \<times> 'd nrobj ptr" where
  "nro_internal_setvalue_array op idx nobj =
     (case (op, nobj) of
        (Some (Obj_Array allocated vs), Some v) \<Rightarrow>
          if idx < 0 then (NR_FAILURE, op)
          else if idx > 0 \<and> idx - 1 > int (length vs) then (NR_FAILURE, op)
          else let idx = (if idx > 0 then (if idx - 1 = int (length vs) then 0 else idx - 1) else idx)
               in if idx = 0
                  then (NR_SUCCESS, Some (Obj_Array (if length vs = allocated then allocated + NRO_CHUNK_SIZE else allocated)
                         (vs @ [v])))
                  else (NR_SUCCESS, Some (Obj_Array allocated (vs[nat idx := v])))
      | _ \<Rightarrow> (NR_FAILURE, op))"

definition nro_set_hash :: "'d nrobj ptr \<Rightarrow> string ptr \<Rightarrow> 'd nrobj ptr \<Rightarrow> nr_status \<times> 'd nrobj ptr" where
  "nro_set_hash obj key val = nro_internal_setvalue_hash obj key (map_option nro_copy val)"

definition nro_set_array :: "'d nrobj ptr \<Rightarrow> int \<Rightarrow> 'd nrobj ptr \<Rightarrow> nr_status \<times> 'd nrobj ptr" where
  "nro_set_array obj idx val = nro_internal_setvalue_array obj idx (map_option nro_copy val)"

definition nro_set_hash_none :: "'d nrobj ptr \<Rightarrow> string ptr \<Rightarrow> nr_status \<times> 'd nrobj ptr" where
  "nro_set_hash_none obj key = nro_internal_setvalue_hash obj key (Some nro_new_none)"

definition nro_set_hash_boolean :: "'d nrobj ptr \<Rightarrow> string ptr \<Rightarrow> 32 word \<Rightarrow> nr_status \<times> 'd nrobj ptr" where
  "nro_set_hash_boolean obj key val = nro_internal_setvalue_hash obj key (Some (nro_new_boolean val))"

definition nro_set_hash_int :: "'d nrobj ptr \<Rightarrow> string ptr \<Rightarrow> 32 word \<Rightarrow> nr_status \<times> 'd nrobj ptr" where
  "nro_set_hash_int obj key val = nro_internal_setvalue_hash obj key (Some (nro_new_int val))"

definition nro_set_hash_long :: "'d nrobj ptr \<Rightarrow> string ptr \<Rightarrow> 64 word \<Rightarrow> nr_status \<times> 'd nrobj ptr" where
  "nro_set_hash_long obj key val = nro_internal_setvalue_hash obj key (Some (nro_new_long val))"

definition nro_set_hash_ulong :: "'d nrobj ptr \<Rightarrow> string ptr \<Rightarrow> 64 word \<Rightarrow> nr_status \<times> 'd nrobj ptr" where
  "nro_set_hash_ulong obj key val = nro_internal_setvalue_hash obj key (Some (nro_new_ulong val))"

definition nro_set_hash_double :: "'d nrobj ptr \<Rightarrow> string ptr \<Rightarrow> 'd \<Rightarrow> nr_status \<times> 'd nrobj ptr" where
  "nro_set_hash_double obj key val = nro_internal_setvalue_hash obj key (Some (nro_new_double val))"

definition nro_set_hash_string :: "'d nrobj ptr \<Rightarrow> string ptr \<Rightarrow> string ptr \<Rightarrow> nr_status \<times> 'd nrobj ptr" where
  "nro_set_hash_string obj key val = nro_internal_setvalue_hash obj key (Some (nro_new_string val))"

definition nro_set_hash_jstring :: "'d nrobj ptr \<Rightarrow> string ptr \<Rightarrow> string ptr \<Rightarrow> nr_status \<times> 'd nrobj ptr" where
  "nro_set_hash_jstring obj key val = nro_internal_setvalue_hash obj key (Some (nro_new_jstring val))"

definition nro_set_array_none :: "'d nrobj ptr \<Rightarrow> int \<Rightarrow> nr_status \<times> 'd nrobj ptr" where
  "nro_set_array_none obj idx = nro_internal_setvalue_array obj idx (Some nro_new_none)"

definition nro_set_array_boolean :: "'d nrobj ptr \<Rightarrow> int \<Rightarrow> 32 word \<Rightarrow> nr_status \<times> 'd nrobj ptr" where
  "nro_set_array_boolean obj idx val = nro_internal_setvalue_array obj idx (Some (nro_new_boolean val))"

definition nro_set_array_int :: "'d nrobj ptr \<Rightarrow> int \<Rightarrow> 32 word \<Rightarrow> nr_status \<times> 'd nrobj ptr" where
  "nro_set_array_int obj idx val = nro_internal_setvalue_array obj idx (Some (nro_new_int val))"

definition nro_set_array_long :: "'d nrobj ptr \<Rightarrow> int \<Rightarrow> 64 word \<Rightarrow> nr_status \<times> 'd nrobj ptr" where
  "nro_set_array_long obj idx val = nro_internal_setvalue_array obj idx (Some (nro_new_long val))"

definition nro_set_array_ulong :: "'d nrobj ptr \<Rightarrow> int \<Rightarrow> 64 word \<Rightarrow> nr_status \<times> 'd nrobj ptr" where
  "nro_set_array_ulong obj idx val = nro_internal_setvalue_array obj idx (Some (nro_new_ulong val))"

definition nro_set_array_double :: "'d nrobj ptr \<Rightarrow> int \<Rightarrow> 'd \<Rightarrow> nr_status \<times> 'd nrobj ptr" where
  "nro_set_array_double obj idx val = nro_internal_setvalue_array obj idx (Some (nro_new_double val))"

definition nro_set_array_string :: "'d nrobj ptr \<Rightarrow> int \<Rightarrow> string ptr \<Rightarrow> nr_status \<times> 'd nrobj ptr" where
  "nro_set_array_string obj idx val = nro_internal_setvalue_array obj idx (Some (nro_new_string val))"

definition nro_set_array_jstring :: "'d nrobj ptr \<Rightarrow> int \<Rightarrow> string ptr \<Rightarrow> nr_status \<times> 'd nrobj ptr" where
  "nro_set_array_jstring obj idx val = nro_internal_setvalue_array obj idx (Some (nro_new_jstring val))"

section \<open>Getters\<close>

definition nro_get_boolean :: "'d nrobj ptr \<Rightarrow> 32 word \<times> nr_status" where
  "nro_get_boolean obj = (case obj of Some (Obj_Boolean b) \<Rightarrow> (b, NR_SUCCESS) | _ \<Rightarrow> (-1, NR_FAILURE))"

definition nro_get_int :: "'d nrobj ptr \<Rightarrow> 32 word \<times> nr_status" where
  "nro_get_int obj = (case obj of Some (Obj_Int i) \<Rightarrow> (i, NR_SUCCESS) | _ \<Rightarrow> (-1, NR_FAILURE))"

text \<open>A conversion to a smaller type keeps the low bits; \<open>to_int\<close> converts a floating point number.\<close>

definition nro_get_ival :: "('d \<Rightarrow> 32 word) \<Rightarrow> 'd nrobj ptr \<Rightarrow> 32 word \<times> nr_status" where
  "nro_get_ival to_int obj =
     (case obj of
        Some (Obj_Int i) \<Rightarrow> (i, NR_SUCCESS)
      | Some (Obj_Boolean b) \<Rightarrow> (b, NR_SUCCESS)
      | Some (Obj_Long l) \<Rightarrow> (ucast l, NR_SUCCESS)
      | Some (Obj_Ulong u) \<Rightarrow> (ucast u, NR_SUCCESS)
      | Some (Obj_Double d) \<Rightarrow> (to_int d, NR_SUCCESS)
      | _ \<Rightarrow> (-1, NR_FAILURE))"

text \<open>The value of an \<^verbatim>\<open>int\<close> object is read from the 64 bits of the union, of which only the lower
  half was written.\<close>

definition nro_get_long :: "'d nrobj ptr \<Rightarrow> 64 word \<times> nr_status" where
  "nro_get_long obj =
     (case obj of
        Some (Obj_Long l) \<Rightarrow> (l, NR_SUCCESS)
      | Some (Obj_Int i) \<Rightarrow> (ucast i, NR_SUCCESS)
      | _ \<Rightarrow> (-1, NR_FAILURE))"

definition nro_get_ulong :: "'d nrobj ptr \<Rightarrow> 64 word \<times> nr_status" where
  "nro_get_ulong obj = (case obj of Some (Obj_Ulong u) \<Rightarrow> (u, NR_SUCCESS) | _ \<Rightarrow> (0, NR_FAILURE))"

text \<open>\<open>minus_one\<close> is the number -1.0.\<close>

definition nro_get_double :: "'d \<Rightarrow> 'd nrobj ptr \<Rightarrow> 'd \<times> nr_status" where
  "nro_get_double minus_one obj = (case obj of Some (Obj_Double d) \<Rightarrow> (d, NR_SUCCESS) | _ \<Rightarrow> (minus_one, NR_FAILURE))"

definition nro_get_string :: "'d nrobj ptr \<Rightarrow> string ptr \<times> nr_status" where
  "nro_get_string obj = (case obj of Some (Obj_String s) \<Rightarrow> (s, NR_SUCCESS) | _ \<Rightarrow> (NULL, NR_FAILURE))"

definition nro_get_jstring :: "'d nrobj ptr \<Rightarrow> string ptr \<times> nr_status" where
  "nro_get_jstring obj = (case obj of Some (Obj_Jstring s) \<Rightarrow> (s, NR_SUCCESS) | _ \<Rightarrow> (NULL, NR_FAILURE))"

definition nro_get_hash_value :: "'d nrobj ptr \<Rightarrow> string ptr \<Rightarrow> 'd nrobj ptr \<times> nr_status" where
  "nro_get_hash_value obj key =
     (case obj of
        Some (Obj_Hash allocated es) \<Rightarrow>
          let idx = nro_find_key_in_hash (Obj_Hash allocated es) key
          in if idx = -1 then (NULL, NR_FAILURE)
             else if idx = -2 then (NULL, NR_SUCCESS)
             else (Some (snd (es ! nat idx)), NR_SUCCESS)
      | _ \<Rightarrow> (NULL, NR_FAILURE))"

text \<open>The key at an index is stored behind a pointer.\<close>

definition nro_get_hash_value_by_index :: "'d nrobj ptr \<Rightarrow> int \<Rightarrow> 'd nrobj ptr \<times> nr_status \<times> string ptr" where
  "nro_get_hash_value_by_index obj idx =
     (case obj of
        Some (Obj_Hash _ es) \<Rightarrow>
          if idx < 1 \<or> idx > int (length es) then (NULL, NR_FAILURE, NULL)
          else (case es ! nat (idx - 1) of (k, v) \<Rightarrow> (Some v, NR_SUCCESS, Some k))
      | _ \<Rightarrow> (NULL, NR_FAILURE, NULL))"

definition nro_get_array_value :: "'d nrobj ptr \<Rightarrow> int \<Rightarrow> 'd nrobj ptr \<times> nr_status" where
  "nro_get_array_value obj idx =
     (case obj of
        Some (Obj_Array _ vs) \<Rightarrow>
          if idx < 1 \<or> idx - 1 \<ge> int (length vs) then (NULL, NR_FAILURE)
          else (Some (vs ! nat (idx - 1)), NR_SUCCESS)
      | _ \<Rightarrow> (NULL, NR_FAILURE))"

definition nro_get_hash_boolean :: "'d nrobj ptr \<Rightarrow> string ptr \<Rightarrow> 32 word \<times> nr_status" where
  "nro_get_hash_boolean obj key = nro_get_boolean (fst (nro_get_hash_value obj key))"

definition nro_get_hash_int :: "'d nrobj ptr \<Rightarrow> string ptr \<Rightarrow> 32 word \<times> nr_status" where
  "nro_get_hash_int obj key = nro_get_int (fst (nro_get_hash_value obj key))"

definition nro_get_hash_long :: "'d nrobj ptr \<Rightarrow> string ptr \<Rightarrow> 64 word \<times> nr_status" where
  "nro_get_hash_long obj key = nro_get_long (fst (nro_get_hash_value obj key))"

definition nro_get_hash_ulong :: "'d nrobj ptr \<Rightarrow> string ptr \<Rightarrow> 64 word \<times> nr_status" where
  "nro_get_hash_ulong obj key = nro_get_ulong (fst (nro_get_hash_value obj key))"

definition nro_get_hash_string :: "'d nrobj ptr \<Rightarrow> string ptr \<Rightarrow> string ptr \<times> nr_status" where
  "nro_get_hash_string obj key = nro_get_string (fst (nro_get_hash_value obj key))"

definition nro_get_hash_jstring :: "'d nrobj ptr \<Rightarrow> string ptr \<Rightarrow> string ptr \<times> nr_status" where
  "nro_get_hash_jstring obj key = nro_get_jstring (fst (nro_get_hash_value obj key))"

definition nro_get_hash_double :: "'d \<Rightarrow> 'd nrobj ptr \<Rightarrow> string ptr \<Rightarrow> 'd \<times> nr_status" where
  "nro_get_hash_double minus_one obj key = nro_get_double minus_one (fst (nro_get_hash_value obj key))"

definition nro_get_hash_hash :: "'d nrobj ptr \<Rightarrow> string ptr \<Rightarrow> 'd nrobj ptr \<times> nr_status" where
  "nro_get_hash_hash obj key =
     (case nro_get_hash_value obj key of (v, status) \<Rightarrow> (nro_cassert v NR_OBJECT_HASH, status))"

definition nro_get_hash_array :: "'d nrobj ptr \<Rightarrow> string ptr \<Rightarrow> 'd nrobj ptr \<times> nr_status" where
  "nro_get_hash_array obj key =
     (case nro_get_hash_value obj key of (v, status) \<Rightarrow> (nro_cassert v NR_OBJECT_ARRAY, status))"

definition nro_get_array_boolean :: "'d nrobj ptr \<Rightarrow> int \<Rightarrow> 32 word \<times> nr_status" where
  "nro_get_array_boolean obj key = nro_get_boolean (fst (nro_get_array_value obj key))"

definition nro_get_array_int :: "'d nrobj ptr \<Rightarrow> int \<Rightarrow> 32 word \<times> nr_status" where
  "nro_get_array_int obj key = nro_get_int (fst (nro_get_array_value obj key))"

definition nro_get_array_long :: "'d nrobj ptr \<Rightarrow> int \<Rightarrow> 64 word \<times> nr_status" where
  "nro_get_array_long obj key = nro_get_long (fst (nro_get_array_value obj key))"

definition nro_get_array_ulong :: "'d nrobj ptr \<Rightarrow> int \<Rightarrow> 64 word \<times> nr_status" where
  "nro_get_array_ulong obj key = nro_get_ulong (fst (nro_get_array_value obj key))"

definition nro_get_array_string :: "'d nrobj ptr \<Rightarrow> int \<Rightarrow> string ptr \<times> nr_status" where
  "nro_get_array_string obj key = nro_get_string (fst (nro_get_array_value obj key))"

definition nro_get_array_jstring :: "'d nrobj ptr \<Rightarrow> int \<Rightarrow> string ptr \<times> nr_status" where
  "nro_get_array_jstring obj key = nro_get_jstring (fst (nro_get_array_value obj key))"

definition nro_get_array_double :: "'d \<Rightarrow> 'd nrobj ptr \<Rightarrow> int \<Rightarrow> 'd \<times> nr_status" where
  "nro_get_array_double minus_one obj key = nro_get_double minus_one (fst (nro_get_array_value obj key))"

definition nro_get_array_ival :: "('d \<Rightarrow> 32 word) \<Rightarrow> 'd nrobj ptr \<Rightarrow> int \<Rightarrow> 32 word \<times> nr_status" where
  "nro_get_array_ival to_int obj key = nro_get_ival to_int (fst (nro_get_array_value obj key))"

definition nro_get_array_hash :: "'d nrobj ptr \<Rightarrow> int \<Rightarrow> 'd nrobj ptr \<times> nr_status" where
  "nro_get_array_hash obj key =
     (case nro_get_array_value obj key of (v, status) \<Rightarrow> (nro_cassert v NR_OBJECT_HASH, status))"

definition nro_get_array_array :: "'d nrobj ptr \<Rightarrow> int \<Rightarrow> 'd nrobj ptr \<times> nr_status" where
  "nro_get_array_array obj key =
     (case nro_get_array_value obj key of (v, status) \<Rightarrow> (nro_cassert v NR_OBJECT_ARRAY, status))"

text \<open>The iterator passes every element to a function with a state of its own, until it fails.\<close>

fun iterate_entries :: "(string \<Rightarrow> 'd nrobj \<Rightarrow> 's \<Rightarrow> nr_status \<times> 's) \<Rightarrow> (string \<times> 'd nrobj) list \<Rightarrow> 's \<Rightarrow> 's" where
  "iterate_entries f [] s = s"
| "iterate_entries f ((k, v) # es) s =
     (case f k v s of (NR_FAILURE, s) \<Rightarrow> s | (NR_SUCCESS, s) \<Rightarrow> iterate_entries f es s)"

definition nro_iteratehash :: "'d nrobj ptr \<Rightarrow> (string \<Rightarrow> 'd nrobj \<Rightarrow> 's \<Rightarrow> nr_status \<times> 's) ptr \<Rightarrow> 's \<Rightarrow> 's" where
  "nro_iteratehash obj f s =
     (case (obj, f) of (Some (Obj_Hash _ es), Some g) \<Rightarrow> iterate_entries g es s | _ \<Rightarrow> s)"

definition nro_getsize :: "'d nrobj ptr \<Rightarrow> int" where
  "nro_getsize obj =
     (case obj of Some (Obj_Array _ vs) \<Rightarrow> int (length vs) | Some (Obj_Hash _ es) \<Rightarrow> int (length es) | _ \<Rightarrow> -1)"

fun find_int :: "'d nrobj list \<Rightarrow> 32 word \<Rightarrow> nat \<Rightarrow> int" where
  "find_int [] x i = -1"
| "find_int (v # vs) x i = (if v = Obj_Int x then int i + 1 else find_int vs x (i + 1))"

definition nro_find_array_int :: "'d nrobj ptr \<Rightarrow> 32 word \<Rightarrow> int" where
  "nro_find_array_int obj x = (case obj of Some (Obj_Array _ vs) \<Rightarrow> find_int vs x 0 | _ \<Rightarrow> -1)"

section \<open>JSON\<close>

definition signed_decimal :: "int \<Rightarrow> string" where
  "signed_decimal i = (if i < 0 then CHR ''-'' # decimal (nat (- i)) else decimal (nat i))"

text \<open>Adding a text of known length.\<close>

definition add_text :: "nrbuf ptr \<Rightarrow> string \<Rightarrow> nrbuf ptr option" where
  "add_text buf s = nr_buffer_add buf (Some s) (int (length s))"

text \<open>The recursion over an object, with the loops over the members of a hash and the elements of an
  array, which write a comma behind every one but the last. \<open>show_double\<close> prints a floating point
  number.\<close>

function (sequential) recursive_obj_to_json :: "('d \<Rightarrow> string) \<Rightarrow> 'd nrobj \<Rightarrow> nrbuf ptr \<Rightarrow> nrbuf ptr option"
  and members_to_json :: "('d \<Rightarrow> string) \<Rightarrow> (string \<times> 'd nrobj) list \<Rightarrow> nrbuf ptr \<Rightarrow> nrbuf ptr option"
  and elements_to_json :: "('d \<Rightarrow> string) \<Rightarrow> 'd nrobj list \<Rightarrow> nrbuf ptr \<Rightarrow> nrbuf ptr option" where
  "recursive_obj_to_json show_double Obj_None buf = add_text buf ''null''"
| "recursive_obj_to_json show_double (Obj_Boolean b) buf = add_text buf (if b \<noteq> 0 then ''true'' else ''false'')"
| "recursive_obj_to_json show_double (Obj_Int i) buf = add_text buf (signed_decimal (sint i))"
| "recursive_obj_to_json show_double (Obj_Long l) buf = add_text buf (signed_decimal (sint l))"
| "recursive_obj_to_json show_double (Obj_Ulong u) buf = add_text buf (decimal (unat u))"
| "recursive_obj_to_json show_double (Obj_Double d) buf = add_text buf (show_double d)"
| "recursive_obj_to_json show_double (Obj_String s) buf = nr_buffer_add_escape_json buf s"
| "recursive_obj_to_json show_double (Obj_Jstring s) buf =
     (case s of None \<Rightarrow> Some buf | Some t \<Rightarrow> add_text buf t)"
| "recursive_obj_to_json show_double (Obj_Hash _ es) buf = do {
     buf \<leftarrow> add_text buf ''{'';
     buf \<leftarrow> members_to_json show_double es buf;
     add_text buf ''}''
   }"
| "recursive_obj_to_json show_double (Obj_Array _ vs) buf = do {
     buf \<leftarrow> add_text buf ''['';
     buf \<leftarrow> elements_to_json show_double vs buf;
     add_text buf '']''
   }"
| "members_to_json show_double [] buf = Some buf"
| "members_to_json show_double ((k, v) # es) buf = do {
     buf \<leftarrow> nr_buffer_add_escape_json buf (Some k);
     buf \<leftarrow> add_text buf '':'';
     buf \<leftarrow> recursive_obj_to_json show_double v buf;
     buf \<leftarrow> (if es \<noteq> [] then add_text buf '','' else Some buf);
     members_to_json show_double es buf
   }"
| "elements_to_json show_double [] buf = Some buf"
| "elements_to_json show_double (v # vs) buf = do {
     buf \<leftarrow> recursive_obj_to_json show_double v buf;
     buf \<leftarrow> (if vs \<noteq> [] then add_text buf '','' else Some buf);
     elements_to_json show_double vs buf
   }"
  by pat_completeness auto
termination
  by (relation "measure (\<lambda>x. case x of Inl (_, obj, _) \<Rightarrow> size obj
      | Inr (Inl (_, es, _)) \<Rightarrow> size_list (size_prod (\<lambda>_. 0) size) es
      | Inr (Inr (_, vs, _)) \<Rightarrow> size_list size vs)") auto

text \<open>The string that a buffer holds, up to its terminating zero.\<close>

definition buffer_string :: "nrbuf ptr \<Rightarrow> string" where
  "buffer_string buf = (case nr_buffer_cptr buf of None \<Rightarrow> [] | Some s \<Rightarrow> takeWhile (\<lambda>c. c \<noteq> CHR 0x00) s)"

definition nro_to_json :: "('d \<Rightarrow> string) \<Rightarrow> 'd nrobj ptr \<Rightarrow> string option" where
  "nro_to_json show_double obj = do {
     buf \<leftarrow> (case obj of None \<Rightarrow> add_text (Some (nr_buffer_create 4096 4096)) ''null''
             | Some v \<Rightarrow> recursive_obj_to_json show_double v (Some (nr_buffer_create 4096 4096)));
     buf \<leftarrow> add_text buf [CHR 0x00];
     Some (buffer_string buf)
   }"

definition nro_to_json_buffer :: "('d \<Rightarrow> string) \<Rightarrow> 'd nrobj ptr \<Rightarrow> nrbuf ptr \<Rightarrow> (nr_status \<times> nrbuf ptr) option" where
  "nro_to_json_buffer show_double obj buf =
     (if buf = NULL then Some (NR_FAILURE, buf)
      else do {
        buf \<leftarrow> (case obj of None \<Rightarrow> add_text buf ''null'' | Some v \<Rightarrow> recursive_obj_to_json show_double v buf);
        Some (NR_SUCCESS, buf)
      })"

definition stringify_boolean :: "('d \<Rightarrow> 32 word) \<Rightarrow> 'd nrobj ptr \<Rightarrow> string option" where
  "stringify_boolean to_int obj = do {
     buf \<leftarrow> add_text (Some (nr_buffer_create 1024 1024)) (signed_decimal (sint (fst (nro_get_ival to_int obj))));
     buf \<leftarrow> add_text buf [CHR 0x00];
     Some (buffer_string buf)
   }"

definition nro_stringify :: "('d \<Rightarrow> string) \<Rightarrow> ('d \<Rightarrow> 32 word) \<Rightarrow> 'd nrobj ptr \<Rightarrow> string option" where
  "nro_stringify show_double to_int found = do {
     tmp \<leftarrow> (if nro_type found = NR_OBJECT_BOOLEAN then stringify_boolean to_int found else nro_to_json show_double found);
     buf \<leftarrow> nr_buffer_add_escape_json (Some (nr_buffer_create 1024 1024)) (Some tmp);
     buf \<leftarrow> add_text buf [CHR 0x00];
     Some (buffer_string buf)
   }"

text \<open>Deleting frees the object with everything in it and clears the pointer; the object freed is
  returned.\<close>

definition nro_real_delete :: "'d nrobj ptr ptr \<Rightarrow> 'd nrobj ptr \<times> 'd nrobj ptr ptr" where
  "nro_real_delete obj = (case obj of Some (Some v) \<Rightarrow> (Some v, Some NULL) | _ \<Rightarrow> (NULL, obj))"

section \<open>Well-formed objects\<close>

text \<open>The keys of a hash are distinct and not empty, no more cells are in use than are allocated, and
  a boolean is 0 or 1.\<close>

fun obj_ok :: "'d nrobj \<Rightarrow> bool" where
  "obj_ok (Obj_Boolean b) = (b = 0 \<or> b = 1)"
| "obj_ok (Obj_Hash allocated es) =
     (distinct (map fst es) \<and> [] \<notin> fst ` set es \<and> length es \<le> allocated \<and> list_all (\<lambda>(_, v). obj_ok v) es)"
| "obj_ok (Obj_Array allocated vs) = (length vs \<le> allocated \<and> list_all obj_ok vs)"
| "obj_ok obj = True"

section \<open>Setting and getting\<close>

lemma key_index_spec:
  "if key \<in> fst ` set es then \<exists>j < length es. key_index es key i = int (i + j) \<and> fst (es ! j) = key \<and> map_of es key = Some (snd (es ! j))
   else key_index es key i = -2 \<and> map_of es key = None"
proof (induction es key i rule: key_index.induct)
  case (2 k v es key i)
  show ?case
  proof (cases "k = key")
    case True
    then show ?thesis by (auto intro: exI [of _ 0])
  next
    case False
    show ?thesis
    proof (cases "key \<in> fst ` set es")
      case True
      with 2 [OF False] obtain j where
        "j < length es" "key_index es key (i + 1) = int (i + 1 + j)" "fst (es ! j) = key" "map_of es key = Some (snd (es ! j))" by auto
      with False True show ?thesis by (auto intro!: exI [of _ "Suc j"])
    next
      case no: False
      with 2 [OF False] False show ?thesis by auto
    qed
  qed
qed simp

lemma nro_copy_type: "nro_type (Some (nro_copy v)) = nro_type (Some v)"
  by (cases v) (simp_all add: nro_type_def)

lemma nro_copy_ok: "obj_ok v \<Longrightarrow> obj_ok (nro_copy v)"
proof (induction v rule: nro_copy.induct)
  case (3 allocated es)
  have "map fst (map (\<lambda>(k, v). (k, nro_copy v)) es) = map fst es" by (induction es) auto
  with 3 show ?case by (auto simp: list_all_iff image_image case_prod_beta simp del: map_map)
next
  case (4 allocated vs)
  then show ?case by (auto simp: list_all_iff)
qed simp_all

lemma nro_get_hash_value_eq:
  assumes "k \<noteq> []"
  shows "nro_get_hash_value (Some (Obj_Hash allocated es)) (Some k) = (map_of es k, NR_SUCCESS)"
  using assms key_index_spec [of k es 0]
  by (auto simp: nro_get_hash_value_def nro_find_key_in_hash_def Let_def split: if_splits)

lemma setvalue_hash_spec:
  assumes ok: "obj_ok (Obj_Hash allocated es)" "obj_ok v" and k: "k \<noteq> []"
  shows "\<exists>allocated' es'. nro_internal_setvalue_hash (Some (Obj_Hash allocated es)) (Some k) (Some v)
      = (NR_SUCCESS, Some (Obj_Hash allocated' es'))
    \<and> obj_ok (Obj_Hash allocated' es') \<and> map_of es' = (map_of es)(k \<mapsto> v)
    \<and> map fst es' = (if k \<in> fst ` set es then map fst es else map fst es @ [k])"
proof (cases "k \<in> fst ` set es")
  case True
  with key_index_spec [of k es 0] obtain j where
    j: "j < length es" "key_index es k 0 = int j" "fst (es ! j) = k" by auto
  let ?es = "es[j := (k, v)]"
  have ej: "es ! j = (k, snd (es ! j))" using j(3) by (metis prod.collapse)
  have keys: "map fst ?es = map fst es" using j(1,3) by (simp add: map_update list_update_same_conv)
  have "nro_internal_setvalue_hash (Some (Obj_Hash allocated es)) (Some k) (Some v) = (NR_SUCCESS, Some (Obj_Hash allocated ?es))"
    using k j(2,3) by (simp add: nro_internal_setvalue_hash_def nro_find_key_in_hash_def)
  moreover have "obj_ok (Obj_Hash allocated ?es)"
  proof -
    have "set ?es \<subseteq> insert (k, v) (set es)" by (rule set_update_subset_insert)
    then have "list_all (\<lambda>(_, v). obj_ok v) ?es" using ok by (auto simp: list_all_iff)
    moreover have "fst ` set ?es = fst ` set es" using keys by (metis set_map)
    ultimately show ?thesis using ok(1) keys by simp
  qed
  moreover have "map_of ?es = (map_of es)(k \<mapsto> v)"
    using map_of_update_value [OF _ j(1) ej, of v] ok(1) by simp
  ultimately show ?thesis using keys True by auto
next
  case False
  with key_index_spec [of k es 0] have i: "key_index es k 0 = -2" by simp
  let ?es = "es @ [(k, v)]" and ?a = "if length es = allocated then allocated + NRO_CHUNK_SIZE else allocated"
  have "nro_internal_setvalue_hash (Some (Obj_Hash allocated es)) (Some k) (Some v) = (NR_SUCCESS, Some (Obj_Hash ?a ?es))"
    using k i by (simp add: nro_internal_setvalue_hash_def nro_find_key_in_hash_def nr_strdup_def)
  moreover have "obj_ok (Obj_Hash ?a ?es)" using ok False k by (auto simp: NRO_CHUNK_SIZE_def)
  moreover have "map_of ?es = (map_of es)(k \<mapsto> v)"
    using False by (auto simp: fun_eq_iff map_of_append map_add_def dom_map_of_conv_image_fst [symmetric] split: option.splits)
  ultimately show ?thesis using False by auto
qed

text \<open>C23. A hash object is a finite map: setting a key of a well-formed hash to a value succeeds,
  keeps the hash well formed and changes the map at that key only, to a copy of the value; every
  lookup of a non-empty key answers from the map. A new key comes last, an old one stays in place.\<close>

theorem nro_hash_refines_map:
  assumes "obj_ok (Obj_Hash allocated es)" and "obj_ok v" and "k \<noteq> []"
  shows "\<exists>allocated' es'. nro_set_hash (Some (Obj_Hash allocated es)) (Some k) (Some v)
      = (NR_SUCCESS, Some (Obj_Hash allocated' es'))
    \<and> obj_ok (Obj_Hash allocated' es') \<and> map_of es' = (map_of es)(k \<mapsto> nro_copy v)
    \<and> map fst es' = (if k \<in> fst ` set es then map fst es else map fst es @ [k])
    \<and> (\<forall>x. x \<noteq> [] \<longrightarrow> nro_get_hash_value (Some (Obj_Hash allocated' es')) (Some x) = (map_of es' x, NR_SUCCESS))"
proof -
  from setvalue_hash_spec [OF assms(1) nro_copy_ok [OF assms(2)] assms(3)] obtain allocated' es' where
    "nro_internal_setvalue_hash (Some (Obj_Hash allocated es)) (Some k) (Some (nro_copy v)) = (NR_SUCCESS, Some (Obj_Hash allocated' es'))"
    "obj_ok (Obj_Hash allocated' es')" "map_of es' = (map_of es)(k \<mapsto> nro_copy v)"
    "map fst es' = (if k \<in> fst ` set es then map fst es else map fst es @ [k])" by blast
  then show ?thesis using nro_get_hash_value_eq [of _ allocated' es']
    by (intro exI [of _ allocated'] exI [of _ es']) (simp add: nro_set_hash_def del: obj_ok.simps)
qed

theorem nro_hash_refines_map_witness:
  "\<exists>allocated' es'. nro_set_hash (Some (nro_new_hash :: unit nrobj)) (Some ''a'') (Some (nro_new_int 7))
     = (NR_SUCCESS, Some (Obj_Hash allocated' es')) \<and> map_of es' ''a'' = Some (Obj_Int 7)"
  using nro_hash_refines_map [of NRO_CHUNK_SIZE "[] :: (string \<times> unit nrobj) list" "nro_new_int 7" "''a''"]
  by (auto simp: nro_new_hash_def nro_new_int_def)

definition hash_key_ok :: "string ptr \<Rightarrow> bool" where
  "hash_key_ok key \<longleftrightarrow> key \<noteq> NULL \<and> key \<noteq> Some []"

lemma set_hash_typed:
  assumes ok: "obj_ok obj" "obj_ok v"
  shows "\<exists>status obj'. nro_set_hash (Some obj) key (Some v) = (status, Some obj') \<and> obj_ok obj'
    \<and> nro_type (Some obj') = nro_type (Some obj) \<and> (status = NR_FAILURE \<longrightarrow> obj' = obj)
    \<and> (status = NR_SUCCESS \<longleftrightarrow> nro_type (Some obj) = NR_OBJECT_HASH \<and> hash_key_ok key)"
proof (cases obj)
  case (Obj_Hash allocated es)
  show ?thesis
  proof (cases "hash_key_ok key")
    case True
    then obtain k where k: "key = Some k" "k \<noteq> []" by (auto simp: hash_key_ok_def)
    from setvalue_hash_spec [OF ok(1) [unfolded Obj_Hash] nro_copy_ok [OF ok(2)] k(2)] obtain allocated' es' where
      "nro_set_hash (Some obj) key (Some v) = (NR_SUCCESS, Some (Obj_Hash allocated' es'))" "obj_ok (Obj_Hash allocated' es')"
      by (auto simp: nro_set_hash_def k(1) Obj_Hash)
    with True Obj_Hash show ?thesis by (simp add: nro_type_def del: obj_ok.simps)
  next
    case False
    with ok Obj_Hash show ?thesis
      by (cases key) (auto simp: hash_key_ok_def nro_set_hash_def nro_internal_setvalue_hash_def nro_find_key_in_hash_def nro_type_def)
  qed
qed (use ok in \<open>simp_all add: nro_set_hash_def nro_internal_setvalue_hash_def nro_type_def\<close>)

lemma set_array_typed:
  assumes ok: "obj_ok obj" "obj_ok v"
  shows "\<exists>status obj'. nro_set_array (Some obj) idx (Some v) = (status, Some obj') \<and> obj_ok obj'
    \<and> nro_type (Some obj') = nro_type (Some obj) \<and> (status = NR_FAILURE \<longrightarrow> obj' = obj)
    \<and> (status = NR_SUCCESS \<longleftrightarrow> nro_type (Some obj) = NR_OBJECT_ARRAY \<and> 0 \<le> idx \<and> idx \<le> nro_getsize (Some obj) + 1)"
proof (cases obj)
  case (Obj_Array allocated vs)
  have "list_all obj_ok (vs[i := nro_copy v])" for i
    using ok Obj_Array nro_copy_ok [OF ok(2)] set_update_subset_insert [of vs i "nro_copy v"] by (auto simp: list_all_iff)
  with ok Obj_Array nro_copy_ok [OF ok(2)] show ?thesis
    by (auto simp: nro_set_array_def nro_internal_setvalue_array_def nro_type_def nro_getsize_def Let_def NRO_CHUNK_SIZE_def)
qed (use ok in \<open>simp_all add: nro_set_array_def nro_internal_setvalue_array_def nro_type_def\<close>)

text \<open>C33. Objects stay typed: on well-formed objects, setting a member of a hash or an element of an
  array gives a well-formed object of the same type. It succeeds exactly for a hash and a non-empty
  key, and for an array and an index between 0 and one past its end; otherwise nothing changes.\<close>

theorem nro_setters_keep_type:
  assumes "obj_ok obj" and "obj_ok v"
  shows "(\<exists>status obj'. nro_set_hash (Some obj) key (Some v) = (status, Some obj') \<and> obj_ok obj'
      \<and> nro_type (Some obj') = nro_type (Some obj) \<and> (status = NR_FAILURE \<longrightarrow> obj' = obj)
      \<and> (status = NR_SUCCESS \<longleftrightarrow> nro_type (Some obj) = NR_OBJECT_HASH \<and> hash_key_ok key))
    \<and> (\<exists>status obj'. nro_set_array (Some obj) idx (Some v) = (status, Some obj') \<and> obj_ok obj'
      \<and> nro_type (Some obj') = nro_type (Some obj) \<and> (status = NR_FAILURE \<longrightarrow> obj' = obj)
      \<and> (status = NR_SUCCESS \<longleftrightarrow> nro_type (Some obj) = NR_OBJECT_ARRAY \<and> 0 \<le> idx \<and> idx \<le> nro_getsize (Some obj) + 1))"
  using set_hash_typed [OF assms, of key] set_array_typed [OF assms, of idx] by (rule conjI)

theorem nro_setters_keep_type_witness:
  "\<exists>status obj'. nro_set_array (Some (nro_new_array :: unit nrobj)) 0 (Some (nro_new_boolean 5)) = (status, Some obj')
     \<and> nro_type (Some obj') = NR_OBJECT_ARRAY"
proof -
  have "obj_ok (nro_new_array :: unit nrobj)" "obj_ok (nro_new_boolean 5 :: unit nrobj)"
    by (simp_all add: nro_new_array_def nro_new_boolean_def)
  from nro_setters_keep_type [OF this, of NULL 0] show ?thesis by (auto simp: nro_type_def nro_new_array_def)
qed

text \<open>The first element of an array cannot be replaced: setting index 1 of a non-empty array adds
  the value at its end, where the header says that indices count from 1 and only 0 adds.\<close>

theorem nro_set_array_first_appends:
  assumes "vs \<noteq> []"
  shows "\<exists>allocated'. nro_set_array (Some (Obj_Array allocated vs)) 1 (Some v)
      = (NR_SUCCESS, Some (Obj_Array allocated' (vs @ [nro_copy v])))
    \<and> nro_get_array_value (Some (Obj_Array allocated' (vs @ [nro_copy v]))) 1 = (Some (hd vs), NR_SUCCESS)"
  using assms
  by (auto simp: nro_set_array_def nro_internal_setvalue_array_def nro_get_array_value_def Let_def hd_conv_nth nth_append)

theorem nro_set_array_first_appends_witness:
  "\<exists>allocated'. nro_set_array (Some (Obj_Array 8 [Obj_Int 1 :: unit nrobj])) 1 (Some (Obj_Int 2))
     = (NR_SUCCESS, Some (Obj_Array allocated' [Obj_Int 1, Obj_Int 2]))"
  using nro_set_array_first_appends [of "[Obj_Int 1 :: unit nrobj]" 8 "Obj_Int 2"] by auto

text \<open>A negative \<^verbatim>\<open>int\<close> is not read back as a \<^verbatim>\<open>long\<close>: the upper half of the union is zero.\<close>

lemma nro_get_long_of_int:
  "nro_get_long (Some (nro_new_int i)) = (ucast i, NR_SUCCESS) \<and> (sint i < 0 \<longrightarrow> sint (ucast i :: 64 word) \<noteq> sint i)"
proof -
  have "- (2 ^ 63) \<le> uint i" by (rule order_trans [of _ 0]) simp_all
  moreover have "uint i < 2 ^ 32" using unsigned_less [of i] by simp
  ultimately have "take_bit 64 (uint i) = uint i" "signed_take_bit 63 (uint i) = uint i"
    by (simp_all add: take_bit_int_eq_self_iff signed_take_bit_int_eq_self_iff)
  then have "sint (ucast i :: 64 word) = uint i" by (simp add: sint_uint unsigned_ucast_eq)
  moreover have "\<not> uint i < 0" by simp
  ultimately have "sint i < 0 \<longrightarrow> sint (ucast i :: 64 word) \<noteq> sint i" by metis
  then show ?thesis by (simp add: nro_get_long_def nro_new_int_def)
qed

section \<open>What the JSON text is\<close>

fun join :: "string list \<Rightarrow> string" where
  "join [] = []"
| "join (x # xs) = x @ (if xs \<noteq> [] then '','' else []) @ join xs"

fun json_text :: "('d \<Rightarrow> string) \<Rightarrow> 'd nrobj \<Rightarrow> string" where
  "json_text show_double Obj_None = ''null''"
| "json_text show_double (Obj_Boolean b) = (if b \<noteq> 0 then ''true'' else ''false'')"
| "json_text show_double (Obj_Int i) = signed_decimal (sint i)"
| "json_text show_double (Obj_Long l) = signed_decimal (sint l)"
| "json_text show_double (Obj_Ulong u) = decimal (unat u)"
| "json_text show_double (Obj_Double d) = show_double d"
| "json_text show_double (Obj_String s) = (case s of None \<Rightarrow> [] | Some _ \<Rightarrow> nr_json_escape s)"
| "json_text show_double (Obj_Jstring s) = (case s of None \<Rightarrow> [] | Some t \<Rightarrow> t)"
| "json_text show_double (Obj_Hash _ es) =
     ''{'' @ join (map (\<lambda>(k, v). nr_json_escape (Some k) @ '':'' @ json_text show_double v) es) @ ''}''"
| "json_text show_double (Obj_Array _ vs) = ''['' @ join (map (json_text show_double) vs) @ '']''"

text \<open>Writing to a buffer that has room for it.\<close>

definition writes :: "nrbuf \<Rightarrow> string \<Rightarrow> nrbuf ptr option \<Rightarrow> bool" where
  "writes b t r \<longleftrightarrow> (\<exists>b'. r = Some (Some b') \<and> buffer_inv b' \<and> buffer_content b' = buffer_content b @ t \<and> buf_extsize b' = buf_extsize b)"

definition roomy :: "nrbuf \<Rightarrow> nat \<Rightarrow> bool" where
  "roomy b n \<longleftrightarrow> buffer_inv b \<and> 16 * (length (buffer_content b) + n) + 8 + buf_extsize b < 2 ^ 31"

text \<open>A writer emits a text when it appends just that text to every buffer with room for it;
  writers compose.\<close>

definition emits :: "string \<Rightarrow> (nrbuf ptr \<Rightarrow> nrbuf ptr option) \<Rightarrow> bool" where
  "emits t f \<longleftrightarrow> (\<forall>b. roomy b (length t) \<longrightarrow> writes b t (f (Some b)))"

lemma emits_bind:
  assumes "emits t f" and "emits u g"
  shows "emits (t @ u) (\<lambda>buf. Option.bind (f buf) g)"
  unfolding emits_def
proof (intro allI impI)
  fix b
  assume room: "roomy b (length (t @ u))"
  then have "roomy b (length t)" by (simp add: roomy_def)
  with assms(1) obtain b1 where
    b1: "f (Some b) = Some (Some b1)" "buffer_inv b1" "buffer_content b1 = buffer_content b @ t" "buf_extsize b1 = buf_extsize b"
    unfolding emits_def writes_def by blast
  have "roomy b1 (length u)" using room b1(2-4) by (simp add: roomy_def)
  with assms(2) have "writes b1 u (g (Some b1))" by (simp add: emits_def)
  with b1 show "writes b (t @ u) (Option.bind (f (Some b)) g)" by (auto simp: writes_def)
qed

lemma emits_Nil: "emits [] Some"
  by (simp add: emits_def writes_def roomy_def)

lemma emits_text: "emits t (\<lambda>buf. add_text buf t)"
proof -
  have "writes b t (add_text (Some b) t)" if "roomy b (length t)" for b
    using that nr_buffer_add_spec [of b t] length_content [of b] by (auto simp: roomy_def writes_def add_text_def)
  then show ?thesis by (simp add: emits_def)
qed

lemma emits_escape: "emits (nr_json_escape (Some s)) (\<lambda>buf. nr_buffer_add_escape_json buf (Some s))"
  unfolding emits_def
proof (intro allI impI)
  fix b
  assume room: "roomy b (length (nr_json_escape (Some s)))"
  then have inv: "buffer_inv b" by (simp add: roomy_def)
  have "length s + 2 \<le> length (nr_json_escape (Some s))" using escape_loop_spec [of s] by (simp add: nr_json_escape_def)
  then have "2 * buf_avail b + 14 * length s + 8 + buf_extsize b < 2 ^ 31"
    using room length_content [OF inv] by (simp add: roomy_def)
  from nr_buffer_add_escape_json_spec [OF inv this]
  show "writes b (nr_json_escape (Some s)) (nr_buffer_add_escape_json (Some b) (Some s))" by (simp add: writes_def)
qed

lemma emits_comma: "emits (if c then '','' else []) (\<lambda>buf. if c then add_text buf '','' else Some buf)"
  using emits_text [of "'',''"] emits_Nil by simp

lemmas emits_intros = emits_bind emits_text emits_escape emits_comma

lemma members_emit:
  assumes "\<And>k v. (k, v) \<in> set es \<Longrightarrow> emits (json_text sd v) (recursive_obj_to_json sd v)"
  shows "emits (join (map (\<lambda>(k, v). nr_json_escape (Some k) @ '':'' @ json_text sd v) es)) (members_to_json sd es)"
  using assms
proof (induction es)
  case Nil
  have "members_to_json sd [] = Some" by (rule ext) simp
  with emits_Nil show ?case by simp
next
  case (Cons e es)
  obtain k v where e: "e = (k, v)" by (cases e)
  let ?rest = "join (map (\<lambda>(k, v). nr_json_escape (Some k) @ '':'' @ json_text sd v) es)"
  have "emits ?rest (members_to_json sd es)" by (rule Cons.IH) (rule Cons.prems, erule list.set_intros(2))
  moreover have "emits (json_text sd v) (recursive_obj_to_json sd v)" using Cons.prems [of k] e by simp
  ultimately have "emits (nr_json_escape (Some k) @ '':'' @ json_text sd v @ (if es \<noteq> [] then '','' else []) @ ?rest)
      (\<lambda>buf. members_to_json sd ((k, v) # es) buf)"
    unfolding members_to_json.simps by (intro emits_intros)
  with e show ?case by simp
qed

lemma elements_emit:
  assumes "\<And>v. v \<in> set vs \<Longrightarrow> emits (json_text sd v) (recursive_obj_to_json sd v)"
  shows "emits (join (map (json_text sd) vs)) (elements_to_json sd vs)"
  using assms
proof (induction vs)
  case Nil
  have "elements_to_json sd [] = Some" by (rule ext) simp
  with emits_Nil show ?case by simp
next
  case (Cons v vs)
  have "emits (join (map (json_text sd) vs)) (elements_to_json sd vs)" using Cons by simp
  moreover have "emits (json_text sd v) (recursive_obj_to_json sd v)" using Cons.prems by simp
  ultimately have "emits (json_text sd v @ (if vs \<noteq> [] then '','' else []) @ join (map (json_text sd) vs))
      (\<lambda>buf. elements_to_json sd (v # vs) buf)"
    unfolding elements_to_json.simps by (intro emits_intros)
  then show ?case by simp
qed

lemma object_emits: "emits (json_text sd v) (\<lambda>buf. recursive_obj_to_json sd v buf)"
proof (induction v)
  case (Obj_String s)
  then show ?case
    using emits_Nil emits_escape by (cases s) (auto simp: nr_buffer_add_escape_json_def emits_def writes_def roomy_def)
next
  case (Obj_Jstring s)
  then show ?case using emits_text by (cases s) (simp_all add: emits_def writes_def roomy_def)
next
  case (Obj_Hash allocated es)
  have "emits (join (map (\<lambda>(k, v). nr_json_escape (Some k) @ '':'' @ json_text sd v) es)) (members_to_json sd es)"
    by (rule members_emit) (rule Obj_Hash, auto)
  then show ?case unfolding recursive_obj_to_json.simps json_text.simps by (intro emits_intros)
next
  case (Obj_Array allocated vs)
  have "emits (join (map (json_text sd) vs)) (elements_to_json sd vs)"
    by (rule elements_emit) (rule Obj_Array)
  then show ?case unfolding recursive_obj_to_json.simps json_text.simps by (intro emits_intros)
qed (simp_all add: emits_text)

lemma takeWhile_terminated: "CHR 0x00 \<notin> set t \<Longrightarrow> takeWhile (\<lambda>c. c \<noteq> CHR 0x00) (t @ [CHR 0x00] @ u) = t"
  by (induction t) auto

lemma emits_string:
  assumes "emits t f" and "length t < 2 ^ 27 - 1024" and "CHR 0x00 \<notin> set t" and "1024 \<le> est" and "est \<le> 4096"
  shows "Option.bind (f (Some (nr_buffer_create est est))) (\<lambda>buf. Option.bind (add_text buf [CHR 0x00])
      (\<lambda>buf. Some (buffer_string buf))) = Some t"
proof -
  let ?b = "nr_buffer_create est est"
  have new: "buffer_content ?b = []" by (simp add: nr_buffer_create_def buffer_content_def Let_def)
  have "roomy ?b (length (t @ [CHR 0x00]))"
    using assms(2,4,5) by (simp add: roomy_def nr_buffer_create_def buffer_inv_def buffer_content_def) linarith
  moreover have "emits (t @ [CHR 0x00]) (\<lambda>buf. Option.bind (f buf) (\<lambda>buf. add_text buf [CHR 0x00]))"
    by (intro emits_intros assms(1))
  ultimately obtain b where
    b: "Option.bind (f (Some ?b)) (\<lambda>buf. add_text buf [CHR 0x00]) = Some (Some b)"
      "buffer_inv b" "buffer_content b = t @ [CHR 0x00]"
    using new unfolding emits_def writes_def by (metis append_Nil)
  define rest where "rest = drop (buf_avail b) (drop (buf_bptr b) (buf_bytes b))"
  have "drop (buf_bptr b) (buf_bytes b) = buffer_content b @ rest"
    by (simp only: buffer_content_def rest_def append_take_drop_id)
  moreover have "0 < buf_avail b" using length_content [OF b(2)] b(3) by simp
  ultimately have "nr_buffer_cptr (Some b) = Some (t @ [CHR 0x00] @ rest)" using b(3) by (simp add: nr_buffer_cptr_def)
  then have "buffer_string (Some b) = t" using takeWhile_terminated [OF assms(3), of rest] by (simp add: buffer_string_def)
  then show ?thesis unfolding bind_assoc [symmetric] b(1) by simp
qed

lemma nro_to_json_spec:
  assumes "length (json_text show_double v) < 2 ^ 27 - 1024" and "CHR 0x00 \<notin> set (json_text show_double v)"
  shows "nro_to_json show_double (Some v) = Some (json_text show_double v)"
  unfolding nro_to_json_def option.case by (rule emits_string [OF object_emits assms]) simp_all

text \<open>Stringifying gives the JSON text of the object as a JSON string; a boolean is a number there.\<close>

lemma nro_stringify_text:
  assumes "t = (case v of Obj_Boolean b \<Rightarrow> signed_decimal (sint b) | _ \<Rightarrow> json_text show_double v)"
    and "6 * length t + 2 < 2 ^ 27 - 1024" and "CHR 0x00 \<notin> set t"
  shows "nro_stringify show_double to_int (Some v) = Some (nr_json_escape (Some t))"
proof -
  have t: "length t < 2 ^ 27 - 1024" using assms(2) by simp
  have "(if nro_type (Some v) = NR_OBJECT_BOOLEAN then stringify_boolean to_int (Some v) else nro_to_json show_double (Some v)) = Some t"
  proof (cases "nro_type (Some v) = NR_OBJECT_BOOLEAN")
    case True
    then obtain b where v: "v = Obj_Boolean b" by (cases v) (simp_all add: nro_type_def)
    then have "stringify_boolean to_int (Some v) = Some (signed_decimal (sint b))"
      using emits_string [OF emits_text t assms(3), of 1024] assms(1) by (simp add: stringify_boolean_def nro_get_ival_def)
    with True v assms(1) show ?thesis by simp
  next
    case False
    then have "t = json_text show_double v" using assms(1) by (cases v) (simp_all add: nro_type_def)
    with False nro_to_json_spec t assms(3) show ?thesis by simp
  qed
  moreover have "length (nr_json_escape (Some t)) < 2 ^ 27 - 1024" using escape_length [of t] assms(2) by simp
  ultimately show ?thesis
    using emits_string [OF emits_escape _ escape_no_NUL, of t 1024] unfolding nro_stringify_def by (simp only: bind.bind_lunit)
qed

text \<open>C21. Printing an object gives its JSON text: the recursion through the growing buffer returns,
  never writes outside of the buffer, and the result is the text of the object, with members and
  elements separated by commas and every key and string escaped. The text is shorter than 128 MB,
  and holds no NUL.\<close>

theorem nro_to_json_correct:
  assumes "length (json_text show_double v) < 2 ^ 27 - 1024" and "CHR 0x00 \<notin> set (json_text show_double v)"
  shows "nro_to_json show_double (Some v) = Some (json_text show_double v)"
  using assms by (rule nro_to_json_spec)

theorem nro_to_json_correct_witness:
  "nro_to_json (\<lambda>_. ''0.5'') (Some (Obj_Hash 8 [(''a'', Obj_Array 8 [Obj_Int 7, Obj_Double (), Obj_Boolean 1])]))
     = Some (CHR 0x7B # nr_json_escape (Some ''a'') @ '':[7,0.5,true]}'')"
proof -
  have seven: "signed_decimal 7 = ''7''" by code_simp
  have esc: "nr_json_escape (Some ''a'') = [CHR 0x22, CHR ''a'', CHR 0x22]" by code_simp
  let ?v = "Obj_Hash 8 [(''a'', Obj_Array 8 [Obj_Int 7, Obj_Double (), Obj_Boolean 1])]"
  have "json_text (\<lambda>_. ''0.5'') ?v = CHR 0x7B # nr_json_escape (Some ''a'') @ '':[7,0.5,true]}''" by (simp add: seven)
  with nro_to_json_correct [of "\<lambda>_. ''0.5''" ?v] esc show ?thesis by simp
qed

end
