(* ===== verification/JsonParse.thy ===== *)
theory JsonParse
  imports Object
begin

text \<open>
  The parser for JSON in \<^verbatim>\<open>axiom/util_object.c\<close> (it is derived from cJSON). A pointer into the text
  is the rest of the text; moving past the terminating zero, writing past the end of the buffer
  for a string and using a variable that has not been set are \<open>None\<close>, and NULL is the zero
  pointer that the parser returns for malformed text. The recursion over nested values and
  the loops over elements are structural in fuel, of which there is more than the text can use up. Parsing
  a floating point number is a parameter, which returns the number and the rest of the text.
\<close>

section \<open>Numbers\<close>

text \<open>\<^verbatim>\<open>strtol\<close> and \<^verbatim>\<open>strtoll\<close> for base 0: the prefix tells the base, and values out of range are clipped.\<close>

definition hex_value :: "char \<Rightarrow> nat option" where
  "hex_value c =
     (if c \<in> set ''0123456789'' then Some (byte c - 0x30)
      else if c \<in> set ''abcdef'' then Some (byte c - 0x57)
      else if c \<in> set ''ABCDEF'' then Some (byte c - 0x37)
      else None)"

definition is_digit_of :: "nat \<Rightarrow> char \<Rightarrow> bool" where
  "is_digit_of base c = (case hex_value c of None \<Rightarrow> False | Some d \<Rightarrow> d < base)"

definition digits_value :: "nat \<Rightarrow> string \<Rightarrow> nat" where
  "digits_value base ds = foldl (\<lambda>a c. a * base + (case hex_value c of None \<Rightarrow> 0 | Some d \<Rightarrow> d)) 0 ds"

definition number_base :: "string \<Rightarrow> nat \<times> string" where
  "number_base s =
     (if at_ptr s = CHR ''0'' \<and> at_ptr (tl s) \<in> {CHR ''x'', CHR ''X''} \<and> is_digit_of 16 (at_ptr (drop 2 s))
      then (16, drop 2 s)
      else if at_ptr s = CHR ''0'' then (8, s)
      else (10, s))"

definition strtol :: "string \<Rightarrow> int \<times> string" where
  "strtol num =
     (let neg = (at_ptr num = CHR ''-'');
          (base, s) = number_base (if neg then tl num else num);
          ds = takeWhile (is_digit_of base) s;
          v = int (digits_value base ds)
      in if ds = [] then (0, num)
         else (if neg then max (- v) (- (2 ^ 63)) else min v (2 ^ 63 - 1), drop (length ds) s))"

definition parse_number ::
  "(string \<Rightarrow> 'd \<times> string) \<Rightarrow> ('d \<Rightarrow> bool) \<Rightarrow> string \<Rightarrow> 'd nrobj \<times> string" where
  "parse_number nr_strtod is_huge num =
     (case strtol num of (i, ret) \<Rightarrow>
        if at_ptr ret = CHR ''.'' \<or> at_ptr ret = CHR ''e'' \<or> at_ptr ret = CHR ''E''
        then (case nr_strtod num of (d, ret') \<Rightarrow>
                if is_huge d then (Obj_Long (of_int i), ret) else (Obj_Double d, ret'))
        else if i \<le> - (2 ^ 31) \<or> i \<ge> 2 ^ 31 - 1 then (Obj_Long (of_int i), ret)
        else (Obj_Int (of_int i), ret))"

section \<open>Strings\<close>

text \<open>The loop that measures a string and checks it.\<close>

fun string_length :: "string \<Rightarrow> nat \<Rightarrow> nat ptr option" where
  "string_length [] len = Some NULL"
| "string_length (c # p) len =
     (if c = dquote then Some (Some len)
      else if c = backslash then (case p of [] \<Rightarrow> None | _ # p' \<Rightarrow> string_length p' (len + 1))
      else if byte c < 32 then Some NULL
      else string_length p (len + 1))"

text \<open>\<^verbatim>\<open>sscanf\<close> with \<^verbatim>\<open>%4x\<close>: white space, a sign, a prefix, and digits in at most four characters.\<close>

definition scan_hex4 :: "string \<Rightarrow> nat option" where
  "scan_hex4 s =
     (let s = dropWhile nr_isspace s;
          signed = (at_ptr s = CHR ''-'' \<or> at_ptr s = CHR ''+'');
          p = take (if signed then 3 else 4) (if signed then tl s else s);
          p = (if at_ptr p = CHR ''0'' \<and> at_ptr (tl p) \<in> {CHR ''x'', CHR ''X''} then drop 2 p else p);
          ds = takeWhile (is_digit_of 16) p;
          v = digits_value 16 ds
      in if ds = [] then None
         else Some (if at_ptr s = CHR ''-'' then (2 ^ 32 - v) mod 2 ^ 32 else v))"

text \<open>The bytes of a code point, and what is left in the variable that held it.\<close>

definition transcode :: "nat \<Rightarrow> string \<times> nat" where
  "transcode uc =
     (let low = (\<lambda>x. char_of ((x OR 0x80) AND 0xBF :: nat))
      in if uc < 0x80 then ([char_of uc], uc)
         else if uc < 0x800 then ([char_of (drop_bit 6 uc OR 0xC0), low uc], drop_bit 6 uc)
         else ([char_of (drop_bit 12 uc OR 0xE0), low (drop_bit 6 uc), low uc], drop_bit 12 uc))"

definition unescape_letter :: "char \<Rightarrow> char" where
  "unescape_letter d =
     (if d = CHR ''b'' then CHR 0x08 else if d = CHR ''f'' then CHR 0x0C else if d = CHR ''n'' then newline
      else if d = CHR ''r'' then CHR 0x0D else if d = CHR ''t'' then CHR 0x09 else d)"

text \<open>The loop that copies a string to a buffer of \<open>space\<close> bytes: what is written and where it stops. \<open>uc\<close> is
  the variable for code points, which a failing \<^verbatim>\<open>sscanf\<close> leaves as it is.\<close>

function string_copy :: "nat \<Rightarrow> string \<Rightarrow> string \<Rightarrow> nat option \<Rightarrow> (string \<times> string) option" where
  "string_copy space ptr out uc =
     (case ptr of [] \<Rightarrow> if length out < space then Some (out, []) else None
      | c # p \<Rightarrow>
          if c = dquote \<or> byte c \<le> 31 then (if length out < space then Some (out, ptr) else None)
          else if c \<noteq> backslash
          then (if length out < space then string_copy space p (out @ [c]) uc else None)
          else (case p of [] \<Rightarrow> None
                | d # p' \<Rightarrow>
                    if d = CHR ''u''
                    then (case (case scan_hex4 p' of None \<Rightarrow> uc | Some v \<Rightarrow> Some v) of
                            None \<Rightarrow> None
                          | Some code_point \<Rightarrow>
                              if length out + length (fst (transcode code_point)) \<le> space \<and> 4 \<le> length p'
                              then string_copy space (drop 4 p') (out @ fst (transcode code_point))
                                     (Some (snd (transcode code_point)))
                              else None)
                    else if length out < space then string_copy space p' (out @ [unescape_letter d]) uc else None))"
  by pat_completeness auto
termination
  by (relation "measure (\<lambda>(space, ptr, out, uc). length ptr)") auto

declare string_copy.simps [simp del]

text \<open>The result is the string, up to a zero byte in it, and the place behind it.\<close>

definition parse_string :: "string \<Rightarrow> (string \<times> string) ptr option" where
  "parse_string str =
     (if at_ptr str \<noteq> dquote then Some NULL
      else do {
        len \<leftarrow> string_length (tl str) 0;
        (case len of None \<Rightarrow> Some NULL
         | Some len \<Rightarrow> do {
             (out, ptr) \<leftarrow> string_copy (len + 1) (tl str) [] None;
             Some (Some (takeWhile (\<lambda>c. c \<noteq> CHR 0x00) out, if at_ptr ptr = dquote then tl ptr else ptr))
           })
      })"

section \<open>Values\<close>

definition json_skip :: "string \<Rightarrow> string" where
  "json_skip p = dropWhile (\<lambda>c. byte c \<le> 32) p"

text \<open>The loops over the elements of an array and the members of a hash, with the parser for the nested
  values.\<close>

fun parse_elements :: "(string \<Rightarrow> ('d nrobj ptr \<times> string) ptr option) \<Rightarrow> nat \<Rightarrow> 'd nrobj ptr \<Rightarrow> string
    \<Rightarrow> ('d nrobj ptr \<times> string) ptr option" where
  "parse_elements nested 0 item p = None"
| "parse_elements nested (Suc fuel) item p = do {
     r \<leftarrow> nested (json_skip p);
     (case r of None \<Rightarrow> Some NULL
      | Some (child, rest) \<Rightarrow>
          let item = snd (nro_internal_setvalue_array item 0 child); p = json_skip rest
          in if at_ptr p = CHR '','' then parse_elements nested fuel item (tl p)
             else if at_ptr p = CHR '']'' then Some (Some (item, tl p))
             else Some NULL)
   }"

definition parse_array :: "(string \<Rightarrow> ('d nrobj ptr \<times> string) ptr option) \<Rightarrow> nat \<Rightarrow> string
    \<Rightarrow> ('d nrobj ptr \<times> string) ptr option" where
  "parse_array nested fuel s =
     (let p = json_skip (tl s)
      in if at_ptr p = CHR '']'' then Some (Some (Some (Obj_Array 1 []), tl p))
         else parse_elements nested fuel (Some (Obj_Array NRO_CHUNK_SIZE [])) p)"

fun parse_members :: "(string \<Rightarrow> ('d nrobj ptr \<times> string) ptr option) \<Rightarrow> nat \<Rightarrow> 'd nrobj ptr \<Rightarrow> string
    \<Rightarrow> ('d nrobj ptr \<times> string) ptr option" where
  "parse_members nested 0 item p = None"
| "parse_members nested (Suc fuel) item p = do {
     k \<leftarrow> parse_string (json_skip p);
     (case k of None \<Rightarrow> Some NULL
      | Some (key, rest) \<Rightarrow>
          let p = json_skip rest
          in if at_ptr p \<noteq> CHR '':'' then Some NULL
             else do {
               r \<leftarrow> nested (json_skip (tl p));
               (case r of None \<Rightarrow> Some NULL
                | Some (child, rest) \<Rightarrow>
                    let item = snd (nro_internal_setvalue_hash item (Some key) child); p = json_skip rest
                    in if at_ptr p = CHR '','' then parse_members nested fuel item (tl p)
                       else if at_ptr p = CHR 0x7D then Some (Some (item, tl p))
                       else Some NULL)
             })
   }"

definition parse_object :: "(string \<Rightarrow> ('d nrobj ptr \<times> string) ptr option) \<Rightarrow> nat \<Rightarrow> string
    \<Rightarrow> ('d nrobj ptr \<times> string) ptr option" where
  "parse_object nested fuel s =
     (let p = json_skip (tl s)
      in if at_ptr p = CHR 0x7D then Some (Some (Some (Obj_Hash 1 []), tl p))
         else parse_members nested fuel (Some (Obj_Hash NRO_CHUNK_SIZE [])) p)"

primrec parse_value :: "(string \<Rightarrow> 'd \<times> string) \<Rightarrow> ('d \<Rightarrow> bool) \<Rightarrow> nat \<Rightarrow> string \<Rightarrow> ('d nrobj ptr \<times> string) ptr option" where
  "parse_value nr_strtod is_huge 0 = (\<lambda>s. None)"
| "parse_value nr_strtod is_huge (Suc fuel) = (\<lambda>s.
     if take 4 s = ''null'' then Some (Some (Some Obj_None, drop 4 s))
     else if take 5 s = ''false'' then Some (Some (Some (Obj_Boolean 0), drop 5 s))
     else if take 4 s = ''true'' then Some (Some (Some (Obj_Boolean 1), drop 4 s))
     else if at_ptr s = dquote
     then map_option (map_option (\<lambda>(str, rest). (Some (Obj_String (Some str)), rest))) (parse_string s)
     else if at_ptr s = CHR ''-'' \<or> is_digit (at_ptr s)
     then Some (Some (map_prod Some id (parse_number nr_strtod is_huge s)))
     else if at_ptr s = CHR ''['' then parse_array (parse_value nr_strtod is_huge fuel) fuel s
     else if at_ptr s = CHR 0x7B then parse_object (parse_value nr_strtod is_huge fuel) fuel s
     else Some NULL)"

definition nro_create_from_json ::
  "(string \<Rightarrow> 'd \<times> string) \<Rightarrow> ('d \<Rightarrow> bool) \<Rightarrow> string ptr \<Rightarrow> 'd nrobj ptr option" where
  "nro_create_from_json nr_strtod is_huge json =
     (case json of None \<Rightarrow> Some NULL
      | Some s \<Rightarrow>
          if s = [] then Some NULL
          else do {
            r \<leftarrow> parse_value nr_strtod is_huge (length s + 1) (json_skip s);
            (case r of None \<Rightarrow> Some NULL
             | Some (rv, next) \<Rightarrow> if next = [] \<or> json_skip next = [] then Some rv else Some NULL)
          })"

definition nro_create_from_json_unterminated ::
  "(string \<Rightarrow> 'd \<times> string) \<Rightarrow> ('d \<Rightarrow> bool) \<Rightarrow> string ptr \<Rightarrow> int \<Rightarrow> 'd nrobj ptr option" where
  "nro_create_from_json_unterminated nr_strtod is_huge json len =
     (if len \<le> 0 then Some NULL
      else case json of None \<Rightarrow> Some NULL
           | Some s \<Rightarrow>
               if nat len \<le> length s
               then nro_create_from_json nr_strtod is_huge (Some (takeWhile (\<lambda>c. c \<noteq> CHR 0x00) (take (nat len) s)))
               else None)"

section \<open>There is enough fuel\<close>

lemma length_json_skip: "length (json_skip p) \<le> length p"
  by (simp add: json_skip_def length_dropWhile_le)

lemma length_string_copy: "string_copy space p out uc = Some (out', p') \<Longrightarrow> length p' \<le> length p"
proof (induction "length p" arbitrary: p out uc rule: less_induct)
  case less
  have IH: "length p' \<le> length p" if "string_copy space q w u = Some (out', p')" "length q < length p" for q w u
    using less.hyps [OF that(2,1)] that(2) by simp
  note run = less.prems [unfolded string_copy.simps [of space p]]
  show ?case
  proof (cases p)
    case Nil
    with run show ?thesis by (simp split: if_splits)
  next
    case (Cons c q)
    consider "c = dquote \<or> byte c \<le> 31" | "\<not> (c = dquote \<or> byte c \<le> 31)" "c \<noteq> backslash" | "c = backslash" "\<not> (c = dquote \<or> byte c \<le> 31)"
      by blast
    then show ?thesis
    proof cases
      case 1
      with run Cons show ?thesis by (auto split: if_splits)
    next
      case 2
      with run Cons have "string_copy space q (out @ [c]) uc = Some (out', p')" by (simp split: if_splits)
      then show ?thesis by (rule IH) (simp add: Cons)
    next
      case 3
      with run Cons obtain d q' where q: "q = d # q'" by (cases q) simp_all
      obtain w u where "string_copy space (if d = CHR ''u'' then drop 4 q' else q') w u = Some (out', p')"
        using run 3 unfolding Cons q by (cases "d = CHR ''u''") (auto split: if_splits option.splits)
      then show ?thesis by (rule IH) (cases "d = CHR ''u''"; simp add: Cons q)
    qed
  qed
qed

lemma length_parse_string: "parse_string s = Some (Some (x, r)) \<Longrightarrow> length r < length s"
proof -
  assume *: "parse_string s = Some (Some (x, r))"
  then have "s \<noteq> []" by (auto simp: parse_string_def at_ptr_def)
  from * obtain len out ptr where
    "string_copy (len + 1) (tl s) [] None = Some (out, ptr)" "r = (if at_ptr ptr = dquote then tl ptr else ptr)"
    by (auto simp: parse_string_def bind_eq_Some_conv split: if_splits option.splits)
  with length_string_copy have "length r \<le> length (tl s)" by fastforce
  with \<open>s \<noteq> []\<close> show ?thesis by (cases s) simp_all
qed

lemma length_strtol: "length (snd (strtol s)) \<le> length s"
proof -
  have "length (snd (number_base p)) \<le> length p" for p by (simp add: number_base_def)
  from this [of s] this [of "tl s"] show ?thesis
    by (auto simp: strtol_def Let_def split: prod.splits intro: order_trans)
qed

text \<open>A nested parser that agrees with another one on texts up to some length and does not lengthen the
  rest.\<close>

definition agree :: "nat \<Rightarrow> (string \<Rightarrow> ('d nrobj ptr \<times> string) ptr option) \<Rightarrow> (string \<Rightarrow> ('d nrobj ptr \<times> string) ptr option) \<Rightarrow> bool" where
  "agree n f g \<longleftrightarrow> (\<forall>s. length s \<le> n \<longrightarrow> f s = g s \<and> (\<forall>x r. f s = Some (Some (x, r)) \<longrightarrow> length r \<le> length s))"

lemma agreeD: "agree n f g \<Longrightarrow> length s \<le> n \<Longrightarrow> f s = g s" "agree n f g \<Longrightarrow> length s \<le> n \<Longrightarrow> f s = Some (Some (x, r)) \<Longrightarrow> length r \<le> length s"
  by (simp_all add: agree_def)

lemma elements_agree:
  assumes "agree n f g" and "m < k" and "m < l" and "m \<le> n"
  shows "length p \<le> m \<Longrightarrow> parse_elements f k item p = parse_elements g l item p
    \<and> (\<forall>x r. parse_elements f k item p = Some (Some (x, r)) \<longrightarrow> length r \<le> length p)"
  using assms(2-)
proof (induction m arbitrary: k l item p rule: less_induct)
  case (less m)
  obtain k' l' where kl: "k = Suc k'" "l = Suc l'" using less.prems(2,3) by (cases k; cases l) simp_all
  let ?q = "json_skip p"
  have q: "length ?q \<le> length p" by (rule length_json_skip)
  then have qn: "length ?q \<le> n" using less.prems by simp
  show ?case
  proof (cases "f ?q")
    case None
    with agreeD(1) [OF assms(1) qn] kl show ?thesis by simp
  next
    case (Some r)
    show ?thesis
    proof (cases r)
      case None
      with Some agreeD(1) [OF assms(1) qn] kl show ?thesis by simp
    next
      case r: (Some cr)
      obtain child rest where cr: "cr = (child, rest)" by (cases cr)
      let ?p = "json_skip rest" and ?item = "snd (nro_internal_setvalue_array item 0 child)"
      have p: "length ?p \<le> length p"
        using agreeD(2) [OF assms(1) qn] Some r cr q length_json_skip [of rest] by fastforce
      have step: "parse_elements h (Suc j) item p = (if at_ptr ?p = CHR '','' then parse_elements h j ?item (tl ?p)
         else if at_ptr ?p = CHR '']'' then Some (Some (?item, tl ?p)) else Some NULL)"
        if "h ?q = Some (Some (child, rest))" for h j using that by (simp add: Let_def)
      have fg: "f ?q = Some (Some (child, rest))" "g ?q = Some (Some (child, rest))"
        using Some r cr agreeD(1) [OF assms(1) qn] by simp_all
      show ?thesis
      proof (cases "at_ptr ?p = CHR '',''")
        case True
        then have "?p \<noteq> []" by (auto simp: at_ptr_def)
        then have tl: "length (tl ?p) < length p" using p by (cases ?p) simp_all
        have "parse_elements f k' ?item (tl ?p) = parse_elements g l' ?item (tl ?p)
            \<and> (\<forall>x r. parse_elements f k' ?item (tl ?p) = Some (Some (x, r)) \<longrightarrow> length r \<le> length (tl ?p))"
          by (rule less.IH [of "length (tl ?p)"]) (use tl less.prems kl in simp_all)
        with tl show ?thesis unfolding kl step [of f, OF fg(1)] step [of g, OF fg(2)] if_P [OF True] by fastforce
      next
        case False
        show ?thesis unfolding kl step [of f, OF fg(1)] step [of g, OF fg(2)] if_not_P [OF False] using p by auto
      qed
    qed
  qed
qed

lemma members_agree:
  assumes "agree n f g" and "m < k" and "m < l" and "m \<le> n"
  shows "length p \<le> m \<Longrightarrow> parse_members f k item p = parse_members g l item p
    \<and> (\<forall>x r. parse_members f k item p = Some (Some (x, r)) \<longrightarrow> length r \<le> length p)"
  using assms(2-)
proof (induction m arbitrary: k l item p rule: less_induct)
  case (less m)
  obtain k' l' where kl: "k = Suc k'" "l = Suc l'" using less.prems(2,3) by (cases k; cases l) simp_all
  show ?case
  proof (cases "\<exists>key rest. parse_string (json_skip p) = Some (Some (key, rest)) \<and> at_ptr (json_skip rest) = CHR '':''")
    case False
    then have "parse_members h (Suc j) item p = map_option (\<lambda>_. NULL) (parse_string (json_skip p))" for h j
      by (cases "parse_string (json_skip p)") (auto split: option.splits simp: Let_def)
    with kl show ?thesis by auto
  next
    case True
    then obtain key rest where key: "parse_string (json_skip p) = Some (Some (key, rest))" "at_ptr (json_skip rest) = CHR '':''" by blast
    let ?v = "json_skip (tl (json_skip rest))"
    have "length rest < length p" using length_parse_string [OF key(1)] length_json_skip [of p] by simp
    then have v: "length ?v < length p" using length_json_skip [of rest] length_json_skip [of "tl (json_skip rest)"] by simp
    then have vn: "length ?v \<le> n" using less.prems by simp
    have eq: "parse_members h (Suc j) item p = Option.bind (h ?v) (\<lambda>r. case r of None \<Rightarrow> Some NULL
      | Some (child, rest) \<Rightarrow>
          let item = snd (nro_internal_setvalue_hash item (Some key) child); p = json_skip rest
          in if at_ptr p = CHR '','' then parse_members h j item (tl p)
             else if at_ptr p = CHR 0x7D then Some (Some (item, tl p)) else Some NULL)" for h j
      unfolding parse_members.simps key(1) bind.bind_lunit option.case prod.case Let_def
      by (simp only: key(2) not_True_eq_False if_False simp_thms)
    show ?thesis
    proof (cases "\<exists>child rest. f ?v = Some (Some (child, rest))")
      case False
      then show ?thesis unfolding kl eq agreeD(1) [OF assms(1) vn, symmetric]
        by (cases "f ?v") (auto split: option.splits)
    next
      case True
      then obtain child rest' where fg: "f ?v = Some (Some (child, rest'))" "g ?v = Some (Some (child, rest'))"
        using agreeD(1) [OF assms(1) vn] by auto
      let ?p = "json_skip rest'" and ?item = "snd (nro_internal_setvalue_hash item (Some key) child)"
      have p: "length ?p < length p" using agreeD(2) [OF assms(1) vn fg(1)] v length_json_skip [of rest'] by simp
      have "parse_members f k' ?item (tl ?p) = parse_members g l' ?item (tl ?p)
          \<and> (\<forall>x r. parse_members f k' ?item (tl ?p) = Some (Some (x, r)) \<longrightarrow> length r \<le> length (tl ?p))"
        by (rule less.IH [of "length (tl ?p)"]) (use p less.prems kl in simp_all)
      moreover have "length (tl ?p) \<le> length p" using p by simp
      ultimately show ?thesis unfolding kl eq fg bind.bind_lunit option.case prod.case Let_def
        by (auto intro: order_trans)
    qed
  qed
qed

lemma array_agree:
  assumes "agree (length (tl s)) f g" and "length (tl s) < k" and "length (tl s) < l"
  shows "parse_array f k s = parse_array g l s \<and> (\<forall>x r. parse_array f k s = Some (Some (x, r)) \<longrightarrow> length r \<le> length s)"
proof -
  let ?p = "json_skip (tl s)"
  have p: "length ?p \<le> length (tl s)" by (rule length_json_skip)
  from elements_agree [OF assms(1,2,3) order_refl p, of "Some (Obj_Array NRO_CHUNK_SIZE [])"] p show ?thesis
    by (auto simp: parse_array_def Let_def)
qed

lemma object_agree:
  assumes "agree (length (tl s)) f g" and "length (tl s) < k" and "length (tl s) < l"
  shows "parse_object f k s = parse_object g l s \<and> (\<forall>x r. parse_object f k s = Some (Some (x, r)) \<longrightarrow> length r \<le> length s)"
proof -
  let ?p = "json_skip (tl s)"
  have p: "length ?p \<le> length (tl s)" by (rule length_json_skip)
  from members_agree [OF assms(1,2,3) order_refl p, of "Some (Obj_Hash NRO_CHUNK_SIZE [])"] p show ?thesis
    by (auto simp: parse_object_def Let_def)
qed

definition same :: "nat \<Rightarrow> ('a \<times> string) ptr option \<Rightarrow> ('a \<times> string) ptr option \<Rightarrow> bool" where
  "same n x y \<longleftrightarrow> x = y \<and> (\<forall>v r. x = Some (Some (v, r)) \<longrightarrow> length r \<le> n)"

lemma same_if: "(c \<Longrightarrow> same n a a') \<Longrightarrow> (\<not> c \<Longrightarrow> same n b b') \<Longrightarrow> same n (if c then a else b) (if c then a' else b')"
  by simp

text \<open>More fuel than the length of the text does not change the result, if the rest behind a floating
  point number is a part of the text.\<close>

lemma parse_value_fuel:
  assumes dbl: "\<And>s. length (snd (nr_strtod s)) \<le> length s"
  shows "length s < k \<Longrightarrow> length s < l \<Longrightarrow> parse_value nr_strtod is_huge k s = parse_value nr_strtod is_huge l s
    \<and> (\<forall>x r. parse_value nr_strtod is_huge k s = Some (Some (x, r)) \<longrightarrow> length r \<le> length s)"
proof (induction "length s" arbitrary: s k l rule: less_induct)
  case less
  obtain k' l' where kl: "k = Suc k'" "l = Suc l'" using less.prems by (cases k; cases l) simp_all
  let ?f = "parse_value nr_strtod is_huge k'" and ?g = "parse_value nr_strtod is_huge l'"
  have nested: "agree (length (tl s)) ?f ?g \<and> length (tl s) < k' \<and> length (tl s) < l'" if "s \<noteq> []"
  proof -
    have "length (tl s) < length s" using that by simp
    then show ?thesis unfolding agree_def using less.hyps [of _ k' l'] less.prems kl by simp
  qed
  have strs: "length r \<le> length s" if "parse_string s = Some (Some (x, r))" for x r
    using length_parse_string [OF that] by simp
  have nums: "length (snd (parse_number nr_strtod is_huge s)) \<le> length s"
    using length_strtol [of s] dbl [of s] by (auto simp: parse_number_def split: prod.splits)
  have arr: "same (length s) (parse_array ?f k' s) (parse_array ?g l' s)" if "at_ptr s = CHR ''[''"
    using array_agree [of s ?f ?g k' l'] nested that unfolding same_def at_ptr_def by (cases s) simp_all
  have obj: "same (length s) (parse_object ?f k' s) (parse_object ?g l' s)" if "at_ptr s = CHR 0x7B"
    using object_agree [of s ?f ?g k' l'] nested that unfolding same_def at_ptr_def by (cases s) simp_all
  have "same (length s) (parse_value nr_strtod is_huge k s) (parse_value nr_strtod is_huge l s)"
    unfolding kl parse_value.simps
    by (intro same_if arr obj) (use strs nums in \<open>auto simp: same_def map_prod_def split: prod.splits\<close>)
  then show ?case unfolding same_def .
qed

section \<open>Strings of ASCII characters\<close>

definition ascii :: "string \<Rightarrow> bool" where
  "ascii s \<longleftrightarrow> (\<forall>c \<in> set s. 0 < byte c \<and> byte c < 128)"

definition esc :: "char \<Rightarrow> string" where
  "esc c = (case escape_letter c of
       Some e \<Rightarrow> [backslash, e]
     | None \<Rightarrow> if byte c \<le> 0x1f \<or> byte c \<ge> 0x7f then byte_escape c else [c])"

lemma low_byte: "x < 128 \<Longrightarrow> x AND 0xc0 \<noteq> 0xc0" for x :: nat
proof
  assume "x < 128" "x AND 0xc0 = 0xc0"
  then have "bit (x AND 0xc0) 7" by (simp add: bit_iff_odd)
  then have "bit x 7" by (simp only: bit_and_iff)
  with \<open>x < 128\<close> show False by (simp add: bit_iff_odd)
qed

lemma escape_char_ascii: "byte c < 128 \<Longrightarrow> escape_char c r = (esc c, 0)"
  using low_byte [of "byte c"] by (simp add: escape_char_def esc_def escape_other_def split: option.splits)

lemma escape_loop_ascii: "ascii s \<Longrightarrow> escape_loop s = concat (map esc s)"
  by (induction s) (simp_all add: ascii_def escape_char_ascii)

lemma is_hex_plain: "is_hex c \<Longrightarrow> c \<noteq> dquote \<and> c \<noteq> backslash \<and> 32 \<le> byte c"
  by (auto simp: is_hex_def)

lemma string_length_plain:
  "c \<noteq> dquote \<Longrightarrow> c \<noteq> backslash \<Longrightarrow> 32 \<le> byte c \<Longrightarrow> string_length (c # p) len = string_length p (len + 1)"
  by simp

lemma string_length_hex: "is_hex c \<Longrightarrow> string_length (c # p) len = string_length p (len + 1)"
  using is_hex_plain string_length_plain by blast

lemma string_length_backslash: "string_length (backslash # d # p) len = string_length p (len + 1)"
  by simp

lemma string_length_esc: "\<exists>n \<ge> 1. \<forall>p len. string_length (esc c @ p) len = string_length p (len + n)"
proof (cases "escape_letter c")
  case (Some e)
  then show ?thesis by (intro exI [of _ 1]) (simp add: esc_def)
next
  case None
  show ?thesis
  proof (cases "byte c \<le> 0x1f \<or> byte c \<ge> 0x7f")
    case True
    have hex: "is_hex (CHR ''0'')" by (simp add: is_hex_def)
    have e: "esc c = backslash # CHR ''u'' # CHR ''0'' # CHR ''0'' # hex2 (byte c)"
      using None True by (simp add: esc_def byte_escape_def)
    have "string_length (esc c @ p) len = string_length p (len + 1 + 1 + 1 + 1 + 1)" for p len
      unfolding e hex2_def append_Cons append_Nil string_length_backslash
      by (simp only: string_length_hex hex is_hex_digit)
    then show ?thesis by (intro exI [of _ 5]) (simp add: numeral_eq_Suc)
  next
    case False
    with None escape_letter_None [OF None] show ?thesis by (intro exI [of _ 1]) (simp add: esc_def)
  qed
qed

lemma string_length_ascii:
  "\<exists>n \<ge> length s. string_length (concat (map esc s) @ dquote # rest) len = Some (Some (len + n))"
proof (induction s arbitrary: len)
  case (Cons c s)
  from string_length_esc [of c] obtain n where
    n: "1 \<le> n" "\<And>p len. string_length (esc c @ p) len = string_length p (len + n)" by blast
  from Cons.IH [of "len + n"] obtain m where
    "length s \<le> m" "string_length (concat (map esc s) @ dquote # rest) (len + n) = Some (Some (len + n + m))" by blast
  with n show ?case by (intro exI [of _ "n + m"]) (simp add: ac_simps)
qed simp

lemma hex_value_digit: "hex_value (hex_digit n) = Some (n mod 16)"
proof -
  have "list_all (\<lambda>k. hex_value (''0123456789abcdef'' ! k) = Some k) [0..<16]" by code_simp
  then have "hex_value (''0123456789abcdef'' ! k) = Some k" if "k < 16" for k using that by (auto simp: list_all_iff)
  from this [of "n mod 16"] show ?thesis by (simp add: hex_digit_def)
qed

lemma transcode_ascii: "uc < 0x80 \<Longrightarrow> transcode uc = ([char_of uc], uc)"
  by (simp add: transcode_def)

lemma scan_hex4_byte: "scan_hex4 (CHR ''0'' # CHR ''0'' # hex2 (byte c) @ p) = Some (byte c)"
proof -
  have d: "is_digit_of 16 (hex_digit n)" for n by (simp add: is_digit_of_def hex_value_digit)
  have z: "hex_digit 0 = CHR ''0''" by (simp add: hex_digit_def)
  have "byte c div 16 < 16" by (rule less_mult_imp_div_less) simp
  then have "byte c div 16 mod 16 * 16 + byte c mod 16 = byte c" by (simp only: mod_less div_mult_mod_eq)
  then show ?thesis
    using d [of 0] d hex_value_digit [of 0]
    by (simp add: scan_hex4_def hex2_def Let_def nr_isspace_def z digits_value_def hex_value_digit)
qed

lemma letters_back:
  assumes "escape_letter c = Some e"
  shows "unescape_letter e = c \<and> e \<noteq> CHR ''u''"
proof -
  let ?table = "[(dquote, dquote), (newline, CHR ''n''), (CHR 0x0D, CHR ''r''), (CHR 0x0C, CHR ''f''),
     (CHR 0x08, CHR ''b''), (CHR 0x09, CHR ''t''), (backslash, backslash), (CHR ''/'', CHR ''/'')]"
  have all: "list_all (\<lambda>(c, e). unescape_letter e = c \<and> e \<noteq> CHR ''u'') ?table" by code_simp
  have "(c, e) \<in> set ?table" by (rule map_of_SomeD [OF assms [unfolded escape_letter_def]])
  from bspec [OF all [unfolded list_all_iff] this] show ?thesis unfolding case_prod_conv .
qed

lemma string_copy_esc:
  assumes "0 < byte c" and "byte c < 128" and "length out < space"
  shows "\<exists>uc'. \<forall>p. string_copy space (esc c @ p) out uc = string_copy space p (out @ [c]) uc'"
proof (cases "escape_letter c")
  case (Some e)
  with letters_back [OF Some] assms(3) show ?thesis
    by (intro exI [of _ uc]) (subst string_copy.simps, simp add: esc_def)
next
  case None
  note c = escape_letter_None [OF None]
  show ?thesis
  proof (cases "byte c \<le> 0x1f \<or> byte c \<ge> 0x7f")
    case True
    then have e: "esc c @ p = backslash # CHR ''u'' # CHR ''0'' # CHR ''0'' # hex2 (byte c) @ p" for p
      using None by (simp add: esc_def byte_escape_def)
    have "string_copy space (esc c @ p) out uc = string_copy space p (out @ [c]) (Some (byte c))" for p
      unfolding e using assms by (subst string_copy.simps) (simp add: scan_hex4_byte [of c p, unfolded hex2_def append_Cons append_Nil] transcode_ascii hex2_def)
    then show ?thesis by blast
  next
    case False
    with None c assms(3) show ?thesis by (intro exI [of _ uc]) (subst string_copy.simps, simp add: esc_def)
  qed
qed

lemma string_copy_ascii:
  assumes "ascii s" and "length out + length s < space"
  shows "string_copy space (concat (map esc s) @ dquote # rest) out uc = Some (out @ s, dquote # rest)"
  using assms
proof (induction s arbitrary: out uc)
  case Nil
  then show ?case by (subst string_copy.simps) simp
next
  case (Cons c s)
  from string_copy_esc [of c out space uc] Cons.prems obtain uc' where
    "\<And>p. string_copy space (esc c @ p) out uc = string_copy space p (out @ [c]) uc'" by (auto simp: ascii_def)
  with Cons show ?case by (simp add: ascii_def)
qed

lemma parse_string_escape: "ascii s \<Longrightarrow> parse_string (nr_json_escape (Some s) @ rest) = Some (Some (s, rest))"
proof -
  assume s: "ascii s"
  let ?body = "concat (map esc s) @ dquote # rest"
  from string_length_ascii [of s rest 0] obtain n where n: "length s \<le> n" "string_length ?body 0 = Some (Some n)" by auto
  have "string_copy (n + 1) ?body [] None = Some (s, dquote # rest)" using string_copy_ascii [OF s, of "[]"] n(1) by simp
  moreover have "takeWhile (\<lambda>c. c \<noteq> CHR 0x00) s = s" using s by (auto simp: takeWhile_eq_all_conv ascii_def)
  ultimately show ?thesis using n(2) escape_loop_ascii [OF s] by (simp add: parse_string_def nr_json_escape_def at_ptr_def)
qed

section \<open>Numbers\<close>

lemma decimal_digit: "n < 10 \<Longrightarrow> hex_value (''0123456789'' ! n) = Some n"
proof -
  have "list_all (\<lambda>k. hex_value (''0123456789'' ! k) = Some k) [0..<10]" by code_simp
  then show "n < 10 \<Longrightarrow> hex_value (''0123456789'' ! n) = Some n" by (auto simp: list_all_iff)
qed

lemma digits_value_snoc: "digits_value b (xs @ [c]) = digits_value b xs * b + (case hex_value c of None \<Rightarrow> 0 | Some d \<Rightarrow> d)"
  by (simp add: digits_value_def)

lemma decimal_spec: "digits_value 10 (decimal n) = n \<and> (\<forall>c \<in> set (decimal n). is_digit_of 10 c \<and> is_digit c)
    \<and> decimal n \<noteq> [] \<and> (0 < n \<longrightarrow> hd (decimal n) \<noteq> CHR ''0'')"
proof (induction n rule: decimal.induct)
  case (1 n)
  have d: "is_digit_of 10 (''0123456789'' ! k) \<and> is_digit (''0123456789'' ! k)" if "k < 10" for k
  proof -
    have "''0123456789'' ! k \<in> set ''0123456789''" using that by (intro nth_mem) simp
    with decimal_digit [OF that] that show ?thesis by (simp only: is_digit_of_def option.case is_digit_def simp_thms)
  qed
  show ?case
  proof (cases "n < 10")
    case True
    have "''0123456789'' ! n \<noteq> CHR ''0''" if "0 < n"
    proof
      assume "''0123456789'' ! n = CHR ''0''"
      with decimal_digit [OF True] have "hex_value (CHR ''0'') = Some n" by simp
      moreover have "hex_value (CHR ''0'') = Some 0" by code_simp
      ultimately show False using that by simp
    qed
    moreover have "decimal n = [''0123456789'' ! n]" using True by (simp add: decimal.simps)
    ultimately show ?thesis using d [OF True] decimal_digit [OF True] by (simp add: digits_value_def)
  next
    case False
    have eq: "decimal n = decimal (n div 10) @ [''0123456789'' ! (n mod 10)]" using False by (subst decimal.simps) simp
    have "0 < n div 10" using False by simp
    with 1 [OF False] d [of "n mod 10"] decimal_digit [of "n mod 10"] show ?thesis
      unfolding eq by (simp add: digits_value_snoc del: div_greater_zero_iff)
  qed
qed

definition follow :: "string \<Rightarrow> bool" where
  "follow rest \<longleftrightarrow> rest = [] \<or> at_ptr rest \<in> {CHR '','', CHR '']'', CHR 0x7D}"

lemma followD: "follow rest \<Longrightarrow> at_ptr rest \<in> {CHR 0x00, CHR '','', CHR '']'', CHR 0x7D}"
  by (auto simp: follow_def at_ptr_def)

lemma follow_no_digit: "follow rest \<Longrightarrow> \<not> is_digit_of b (at_ptr rest)"
proof -
  assume "follow rest"
  from followD [OF this] have "at_ptr rest \<in> {CHR 0x00, CHR '','', CHR '']'', CHR 0x7D}" .
  moreover have "hex_value (CHR 0x00) = None" "hex_value (CHR '','') = None" "hex_value (CHR '']'') = None" "hex_value (CHR 0x7D) = None"
    by code_simp+
  ultimately show ?thesis by (auto simp: is_digit_of_def)
qed

lemma takeWhile_digits:
  assumes "\<forall>c \<in> set ds. is_digit_of b c" and "\<not> is_digit_of b (at_ptr rest)"
  shows "takeWhile (is_digit_of b) (ds @ rest) = ds"
  using assms by (cases rest) (simp_all add: takeWhile_append2 takeWhile_eq_all_conv at_ptr_def)

lemma number_base_decimal:
  assumes "follow rest"
  shows "\<exists>b. number_base (decimal n @ rest) = (b, decimal n @ rest) \<and> (\<forall>c \<in> set (decimal n). is_digit_of b c)
    \<and> digits_value b (decimal n) = n"
proof (cases "n = 0")
  case True
  then have "decimal n = ''0''" by (simp add: decimal.simps)
  moreover have "is_digit_of 8 (CHR ''0'')" "digits_value 8 ''0'' = 0" by code_simp+
  moreover have "at_ptr rest \<notin> {CHR ''x'', CHR ''X''}" using followD [OF assms] by auto
  ultimately show ?thesis using True by (intro exI [of _ 8]) (simp add: number_base_def at_ptr_def [of "_ # _"])
next
  case False
  with decimal_spec [of n] have "at_ptr (decimal n @ rest) \<noteq> CHR ''0''" by (cases "decimal n") (simp_all add: at_ptr_def)
  then have "number_base (decimal n @ rest) = (10, decimal n @ rest)" by (simp add: number_base_def)
  with decimal_spec [of n] show ?thesis by blast
qed

lemma strtol_decimal:
  assumes "follow rest" and "- (2 ^ 63) \<le> i" and "i < 2 ^ 63"
  shows "strtol (signed_decimal i @ rest) = (i, rest)"
proof (cases "i < 0")
  case True
  from number_base_decimal [OF assms(1), of "nat (- i)"] obtain b where
    b: "number_base (decimal (nat (- i)) @ rest) = (b, decimal (nat (- i)) @ rest)" "digits_value b (decimal (nat (- i))) = nat (- i)"
      "takeWhile (is_digit_of b) (decimal (nat (- i)) @ rest) = decimal (nat (- i))"
    using takeWhile_digits follow_no_digit [OF assms(1)] by blast
  have "signed_decimal i @ rest = CHR ''-'' # decimal (nat (- i)) @ rest" using True by (simp add: signed_decimal_def)
  with b True assms(2) decimal_spec [of "nat (- i)"] show ?thesis by (simp add: strtol_def at_ptr_def [of "_ # _"] Let_def)
next
  case False
  from number_base_decimal [OF assms(1), of "nat i"] obtain b where
    b: "number_base (decimal (nat i) @ rest) = (b, decimal (nat i) @ rest)" "digits_value b (decimal (nat i)) = nat i"
      "takeWhile (is_digit_of b) (decimal (nat i) @ rest) = decimal (nat i)"
    using takeWhile_digits follow_no_digit [OF assms(1)] by blast
  have "at_ptr (decimal (nat i) @ rest) \<noteq> CHR ''-''"
    using decimal_spec [of "nat i"] by (cases "decimal (nat i)") (auto simp: at_ptr_def is_digit_def)
  with b False assms(3) decimal_spec [of "nat i"] show ?thesis by (simp add: strtol_def Let_def signed_decimal_def)
qed

lemma parse_number_decimal:
  assumes "follow rest" and "- (2 ^ 63) \<le> i" and "i < 2 ^ 63"
  shows "parse_number nr_strtod is_huge (signed_decimal i @ rest)
    = (if i \<le> - (2 ^ 31) \<or> i \<ge> 2 ^ 31 - 1 then Obj_Long (of_int i) else Obj_Int (of_int i), rest)"
proof -
  have "at_ptr rest \<noteq> CHR ''.'' \<and> at_ptr rest \<noteq> CHR ''e'' \<and> at_ptr rest \<noteq> CHR ''E''"
    using followD [OF assms(1)] by auto
  with strtol_decimal [OF assms] show ?thesis by (simp add: parse_number_def)
qed

section \<open>The value of an object\<close>

text \<open>What an object stands for; the widths of integers do not matter.\<close>

datatype 'd json_value =
    JNull
  | JBool bool
  | JNumber int
  | JDouble 'd
  | JString string
  | JRaw string
  | JObject "(string \<times> 'd json_value) list"
  | JArray "'d json_value list"

fun value_of :: "'d nrobj \<Rightarrow> 'd json_value" where
  "value_of Obj_None = JNull"
| "value_of (Obj_Boolean b) = JBool (b \<noteq> 0)"
| "value_of (Obj_Int i) = JNumber (sint i)"
| "value_of (Obj_Long l) = JNumber (sint l)"
| "value_of (Obj_Ulong u) = JNumber (uint u)"
| "value_of (Obj_Double d) = JDouble d"
| "value_of (Obj_String s) = JString (nr_strdup s)"
| "value_of (Obj_Jstring s) = JRaw (nr_strdup s)"
| "value_of (Obj_Hash _ es) = JObject (map (\<lambda>(k, v). (k, value_of v)) es)"
| "value_of (Obj_Array _ vs) = JArray (map value_of vs)"

text \<open>Objects that JSON can carry: no floating point numbers and no raw text, strings and keys in
  ASCII, and no unsigned number above the largest \<^verbatim>\<open>int64_t\<close>.\<close>

fun plain_json :: "'d nrobj \<Rightarrow> bool" where
  "plain_json Obj_None = True"
| "plain_json (Obj_Boolean b) = True"
| "plain_json (Obj_Int i) = True"
| "plain_json (Obj_Long l) = True"
| "plain_json (Obj_Ulong u) = (uint u < 2 ^ 63)"
| "plain_json (Obj_Double d) = False"
| "plain_json (Obj_String s) = (case s of None \<Rightarrow> False | Some t \<Rightarrow> ascii t)"
| "plain_json (Obj_Jstring s) = False"
| "plain_json (Obj_Hash _ es) =
     (distinct (map fst es) \<and> (\<forall>(k, v) \<in> set es. k \<noteq> [] \<and> ascii k \<and> plain_json v))"
| "plain_json (Obj_Array _ vs) = (\<forall>v \<in> set vs. plain_json v)"

lemma sint_of_int_64: "- (2 ^ 63) \<le> i \<Longrightarrow> i < 2 ^ 63 \<Longrightarrow> sint (of_int i :: 64 word) = i"
  by (simp add: sint_sbintrunc' signed_take_bit_int_eq_self)

lemma sint_of_int_32: "- (2 ^ 31) \<le> i \<Longrightarrow> i < 2 ^ 31 \<Longrightarrow> sint (of_int i :: 32 word) = i"
  by (simp add: sint_sbintrunc' signed_take_bit_int_eq_self)

lemma value_of_number:
  assumes "- (2 ^ 63) \<le> i" and "i < 2 ^ 63"
  shows "value_of (if i \<le> - (2 ^ 31) \<or> i \<ge> 2 ^ 31 - 1 then Obj_Long (of_int i) else Obj_Int (of_int i)) = JNumber i"
  using assms sint_of_int_64 [of i] sint_of_int_32 [of i] by auto

section \<open>Parsing what was printed\<close>

lemma number_head: "\<exists>c t. signed_decimal i = c # t \<and> (c = CHR ''-'' \<or> is_digit c)"
proof (cases "i < 0")
  case False
  with decimal_spec [of "nat i"] show ?thesis by (cases "decimal (nat i)") (simp_all add: signed_decimal_def)
qed (simp add: signed_decimal_def)

lemma number_char: "c = CHR ''-'' \<or> is_digit c \<Longrightarrow> c \<notin> {CHR ''n'', CHR ''f'', CHR ''t'', dquote, CHR '']''} \<and> 32 < byte c"
  by (auto simp: is_digit_def)

lemma parse_value_number:
  assumes "follow rest" and "- (2 ^ 63) \<le> i" and "i < 2 ^ 63"
  shows "\<exists>w. parse_value nr_strtod is_huge (Suc fuel) (signed_decimal i @ rest) = Some (Some (Some w, rest)) \<and> value_of w = JNumber i"
proof -
  from number_head [of i] obtain c t where c: "signed_decimal i = c # t" "c = CHR ''-'' \<or> is_digit c" by blast
  have "parse_value nr_strtod is_huge (Suc fuel) (signed_decimal i @ rest)
      = Some (Some (map_prod Some id (parse_number nr_strtod is_huge (signed_decimal i @ rest))))"
    using c number_char [OF c(2)] by (simp add: at_ptr_def [of "_ # _"])
  then show ?thesis unfolding parse_number_decimal [OF assms] using value_of_number [OF assms(2,3)] by simp
qed

lemma ulong_text: "decimal (unat u) = signed_decimal (uint u)"
  by (simp add: signed_decimal_def)

lemma json_text_head: "plain_json v \<Longrightarrow> \<exists>c t. json_text sd v = c # t \<and> 32 < byte c \<and> c \<noteq> CHR '']''"
proof (cases v)
  case (Obj_Int i)
  with number_head [of "sint i"] number_char show ?thesis by fastforce
next
  case (Obj_Long i)
  with number_head [of "sint i"] number_char show ?thesis by fastforce
next
  case (Obj_Ulong u)
  with number_head [of "uint u"] number_char show ?thesis unfolding Obj_Ulong json_text.simps ulong_text by fastforce
next
  case (Obj_String s)
  assume "plain_json v"
  with Obj_String show ?thesis by (cases s) (simp_all add: nr_json_escape_def)
qed simp_all

lemma json_skip_id: "p = [] \<or> 32 < byte (hd p) \<Longrightarrow> json_skip p = p"
  by (cases p) (simp_all add: json_skip_def)

lemma json_skip_text: "plain_json v \<Longrightarrow> json_skip (json_text sd v @ rest) = json_text sd v @ rest"
  using json_text_head [of v sd] by (intro json_skip_id) auto

lemma json_skip_follow: "follow rest \<Longrightarrow> json_skip rest = rest"
  by (intro json_skip_id) (cases rest; auto simp: follow_def at_ptr_def)

definition reads_back :: "(string \<Rightarrow> ('d nrobj ptr \<times> string) ptr option) \<Rightarrow> ('d \<Rightarrow> string) \<Rightarrow> 'd nrobj \<Rightarrow> bool" where
  "reads_back nested sd v \<longleftrightarrow> (\<forall>rest. follow rest \<longrightarrow>
     (\<exists>w. nested (json_text sd v @ rest) = Some (Some (Some w, rest)) \<and> value_of w = value_of v))"

lemma set_array_append:
  "\<exists>a'. snd (nro_internal_setvalue_array (Some (Obj_Array a ws)) 0 (Some w)) = Some (Obj_Array a' (ws @ [w]))"
  by (simp add: nro_internal_setvalue_array_def)

lemma elements_read_back:
  assumes "vs \<noteq> []" and "\<forall>v \<in> set vs. plain_json v \<and> reads_back nested sd v" and "length (join (map (json_text sd) vs)) < fuel"
  shows "\<exists>a' ws'. parse_elements nested fuel (Some (Obj_Array a ws)) (join (map (json_text sd) vs) @ CHR '']'' # rest)
      = Some (Some (Some (Obj_Array a' (ws @ ws')), rest)) \<and> map value_of ws' = map value_of vs"
  using assms
proof (induction vs arbitrary: fuel a ws)
  case (Cons v vs)
  obtain n where n: "fuel = Suc n" using Cons.prems(3) by (cases fuel) auto
  let ?more = "(if vs \<noteq> [] then '','' else []) @ join (map (json_text sd) vs) @ CHR '']'' # rest"
  have more: "follow ?more" by (cases vs) (simp_all add: follow_def at_ptr_def)
  have v: "plain_json v" "reads_back nested sd v" using Cons.prems(2) by simp_all
  from v(2) more obtain w where w: "nested (json_text sd v @ ?more) = Some (Some (Some w, ?more))" "value_of w = value_of v"
    unfolding reads_back_def by blast
  obtain a1 where a1: "snd (nro_internal_setvalue_array (Some (Obj_Array a ws)) 0 (Some w)) = Some (Obj_Array a1 (ws @ [w]))"
    using set_array_append by blast
  have eq: "parse_elements nested fuel (Some (Obj_Array a ws)) (json_text sd v @ ?more) =
      (if at_ptr ?more = CHR '','' then parse_elements nested n (Some (Obj_Array a1 (ws @ [w]))) (tl ?more)
       else if at_ptr ?more = CHR '']'' then Some (Some (Some (Obj_Array a1 (ws @ [w])), tl ?more)) else Some NULL)"
    unfolding n parse_elements.simps json_skip_text [OF v(1)] w(1) bind.bind_lunit option.case prod.case Let_def a1
      json_skip_follow [OF more] ..
  have txt_eq: "join (map (json_text sd) (v # vs)) @ CHR '']'' # rest = json_text sd v @ ?more" by simp
  show ?case
  proof (cases "vs = []")
    case True
    with eq txt_eq w(2) show ?thesis by (intro exI [of _ a1] exI [of _ "[w]"]) (simp add: at_ptr_def)
  next
    case False
    then have "length (join (map (json_text sd) vs)) < n" using Cons.prems(3) n by simp
    from Cons.IH [OF False _ this, of a1 "ws @ [w]"] Cons.prems(2) obtain a' ws' where
      "parse_elements nested n (Some (Obj_Array a1 (ws @ [w]))) (join (map (json_text sd) vs) @ CHR '']'' # rest)
        = Some (Some (Some (Obj_Array a' ((ws @ [w]) @ ws')), rest))" "map value_of ws' = map value_of vs" by auto
    with eq txt_eq w(2) False show ?thesis
      by (intro exI [of _ a'] exI [of _ "w # ws'"]) (simp add: at_ptr_def [of "_ # _"])
  qed
qed simp

abbreviation member :: "('d \<Rightarrow> string) \<Rightarrow> string \<times> 'd nrobj \<Rightarrow> string" where
  "member sd \<equiv> \<lambda>(k, v). nr_json_escape (Some k) @ '':'' @ json_text sd v"

lemma set_hash_append:
  assumes "k \<noteq> []" and "k \<notin> fst ` set es"
  shows "\<exists>a'. snd (nro_internal_setvalue_hash (Some (Obj_Hash a es)) (Some k) (Some w)) = Some (Obj_Hash a' (es @ [(k, w)]))"
  using assms key_index_spec [of k es 0] by (simp add: nro_internal_setvalue_hash_def nro_find_key_in_hash_def nr_strdup_def)

lemma parse_key: "ascii k \<Longrightarrow> parse_string (json_skip (nr_json_escape (Some k) @ rest)) = Some (Some (k, rest))"
proof -
  assume k: "ascii k"
  have "json_skip (nr_json_escape (Some k) @ rest) = nr_json_escape (Some k) @ rest"
    by (rule json_skip_id) (simp add: nr_json_escape_def)
  with parse_string_escape [OF k] show ?thesis by simp
qed

lemma members_read_back:
  assumes "es \<noteq> []" and "\<forall>(k, v) \<in> set es. k \<noteq> [] \<and> ascii k \<and> plain_json v \<and> reads_back nested sd v"
    and "distinct (map fst hs @ map fst es)" and "length (join (map (member sd) es)) < fuel"
  shows "\<exists>a' hs'. parse_members nested fuel (Some (Obj_Hash a hs)) (join (map (member sd) es) @ CHR 0x7D # rest)
      = Some (Some (Some (Obj_Hash a' (hs @ hs')), rest))
    \<and> map (\<lambda>(k, v). (k, value_of v)) hs' = map (\<lambda>(k, v). (k, value_of v)) es"
  using assms
proof (induction es arbitrary: fuel a hs)
  case (Cons e es)
  obtain k v where e: "e = (k, v)" by (cases e)
  obtain n where n: "fuel = Suc n" using Cons.prems(4) by (cases fuel) auto
  let ?more = "(if es \<noteq> [] then '','' else []) @ join (map (member sd) es) @ CHR 0x7D # rest"
  have more: "follow ?more" by (cases es) (simp_all add: follow_def at_ptr_def)
  have kv: "k \<noteq> []" "ascii k" "plain_json v" "reads_back nested sd v" using Cons.prems(2) e by simp_all
  have new: "k \<notin> fst ` set hs" using Cons.prems(3) e by auto
  from kv(4) more obtain w where w: "nested (json_text sd v @ ?more) = Some (Some (Some w, ?more))" "value_of w = value_of v"
    unfolding reads_back_def by blast
  obtain a1 where a1: "snd (nro_internal_setvalue_hash (Some (Obj_Hash a hs)) (Some k) (Some w)) = Some (Obj_Hash a1 (hs @ [(k, w)]))"
    using set_hash_append [OF kv(1) new] by blast
  let ?val = "CHR '':'' # json_text sd v @ ?more"
  have colon: "json_skip ?val = ?val" by (rule json_skip_id) simp
  have eq: "parse_members nested fuel (Some (Obj_Hash a hs)) (nr_json_escape (Some k) @ ?val) =
      (if at_ptr ?more = CHR '','' then parse_members nested n (Some (Obj_Hash a1 (hs @ [(k, w)]))) (tl ?more)
       else if at_ptr ?more = CHR 0x7D then Some (Some (Some (Obj_Hash a1 (hs @ [(k, w)])), tl ?more)) else Some NULL)"
    unfolding n parse_members.simps parse_key [OF kv(2)] bind.bind_lunit option.case prod.case Let_def colon
    using json_skip_text [OF kv(3), of sd ?more] w(1) a1 json_skip_follow [OF more] by (simp add: at_ptr_def [of "_ # _"])
  have txt_eq: "join (map (member sd) (e # es)) @ CHR 0x7D # rest = nr_json_escape (Some k) @ ?val" by (simp add: e)
  show ?case
  proof (cases "es = []")
    case True
    with eq txt_eq w(2) e show ?thesis by (intro exI [of _ a1] exI [of _ "[(k, w)]"]) (simp add: at_ptr_def)
  next
    case False
    then have "length (join (map (member sd) es)) < n" using Cons.prems(4) n by simp
    from Cons.IH [OF False _ _ this, of "hs @ [(k, w)]" a1] Cons.prems(2,3) e obtain a' hs' where
      "parse_members nested n (Some (Obj_Hash a1 (hs @ [(k, w)]))) (join (map (member sd) es) @ CHR 0x7D # rest)
        = Some (Some (Some (Obj_Hash a' ((hs @ [(k, w)]) @ hs')), rest))"
      "map (\<lambda>(k, v). (k, value_of v)) hs' = map (\<lambda>(k, v). (k, value_of v)) es" by auto
    with eq txt_eq w(2) e False show ?thesis
      by (intro exI [of _ a'] exI [of _ "(k, w) # hs'"]) (simp add: at_ptr_def [of "_ # _"])
  qed
qed simp

lemma length_join: "x \<in> set xs \<Longrightarrow> length x \<le> length (join xs)"
  by (induction xs) auto

lemma number_read_back:
  assumes "json_text sd v = signed_decimal i" and "value_of v = JNumber i" and "- (2 ^ 63) \<le> i" and "i < 2 ^ 63" and "0 < fuel"
  shows "reads_back (parse_value nr_strtod is_huge fuel) sd v"
proof -
  obtain n where "fuel = Suc n" using assms(5) by (cases fuel) simp_all
  with parse_value_number [OF _ assms(3,4)] show ?thesis unfolding reads_back_def assms(1,2) by blast
qed

lemma json_text_read_back:
  assumes "plain_json v" and "length (json_text sd v) < fuel"
  shows "reads_back (parse_value nr_strtod is_huge fuel) sd v"
  using assms
proof (induction v arbitrary: fuel)
  case (Obj_Int i)
  have "- (2 ^ 63) \<le> sint i" "sint i < 2 ^ 63" using sint_lt [of i] sint_ge [of i] by simp_all
  then show ?case using Obj_Int.prems(2) by (intro number_read_back [of _ _ "sint i"]) simp_all
next
  case (Obj_Long i)
  have "- (2 ^ 63) \<le> sint i" "sint i < 2 ^ 63" using sint_lt [of i] sint_ge [of i] by simp_all
  then show ?case using Obj_Long.prems(2) by (intro number_read_back [of _ _ "sint i"]) simp_all
next
  case (Obj_Ulong u)
  have "- (2 ^ 63) \<le> uint u" by (rule order_trans [of _ 0]) simp_all
  then show ?case using Obj_Ulong.prems by (intro number_read_back [of _ _ "uint u"]) (simp_all add: ulong_text)
next
  case (Obj_String s)
  then obtain t n where "s = Some t" "ascii t" "fuel = Suc n" by (cases s; cases fuel) simp_all
  moreover have "parse_value nr_strtod is_huge (Suc n) (nr_json_escape (Some t) @ rest)
      = map_option (map_option (\<lambda>(str, rest). (Some (Obj_String (Some str)), rest))) (parse_string (nr_json_escape (Some t) @ rest))" for rest
    by (simp add: nr_json_escape_def at_ptr_def [of "_ # _"])
  ultimately show ?case using parse_string_escape [of t] by (simp add: reads_back_def nr_strdup_def del: parse_value.simps)
next
  case (Obj_Hash a es)
  obtain n where n: "fuel = Suc n" using Obj_Hash by (cases fuel) simp_all
  let ?pv = "parse_value nr_strtod is_huge n"
  have len: "length (join (map (member sd) es)) < n" using Obj_Hash.prems(2) n by simp
  have kv: "k \<noteq> [] \<and> ascii k \<and> plain_json v \<and> reads_back ?pv sd v" if "(k, v) \<in> set es" for k v
  proof -
    have "member sd (k, v) \<in> set (map (member sd) es)" using that by force
    from length_join [OF this] len have "length (json_text sd v) < n" by simp
    moreover have "plain_json v" using Obj_Hash.prems(1) that by auto
    moreover have "v \<in> Basic_BNFs.snds (k, v)" by simp
    ultimately show ?thesis using Obj_Hash.IH [OF that] Obj_Hash.prems(1) that by auto
  qed
  show ?case
    unfolding reads_back_def
  proof (intro allI impI)
    fix rest
    let ?body = "join (map (member sd) es) @ CHR 0x7D # rest"
    have pv_eq: "parse_value nr_strtod is_huge fuel (json_text sd (Obj_Hash a es) @ rest) = parse_object ?pv n (CHR 0x7B # ?body)"
      using n by (simp add: at_ptr_def [of "_ # _"] is_digit_def)
    have skip: "json_skip ?body = ?body"
      by (rule json_skip_id) (cases es; auto simp: nr_json_escape_def)
    show "\<exists>w. parse_value nr_strtod is_huge fuel (json_text sd (Obj_Hash a es) @ rest) = Some (Some (Some w, rest))
        \<and> value_of w = value_of (Obj_Hash a es)"
    proof (cases "es = []")
      case True
      with pv_eq skip show ?thesis by (simp add: parse_object_def at_ptr_def)
    next
      case False
      then have "at_ptr ?body = dquote" by (cases es) (auto simp: nr_json_escape_def at_ptr_def)
      then have "parse_object ?pv n (CHR 0x7B # ?body) = parse_members ?pv n (Some (Obj_Hash NRO_CHUNK_SIZE [])) ?body"
        using skip by (simp add: parse_object_def Let_def)
      moreover from members_read_back [OF False _ _ len, of ?pv "[]" NRO_CHUNK_SIZE rest] kv Obj_Hash.prems(1) obtain a' hs' where
        "parse_members ?pv n (Some (Obj_Hash NRO_CHUNK_SIZE [])) ?body = Some (Some (Some (Obj_Hash a' hs'), rest))"
        "map (\<lambda>(k, v). (k, value_of v)) hs' = map (\<lambda>(k, v). (k, value_of v)) es" by auto
      ultimately show ?thesis using pv_eq by simp
    qed
  qed
next
  case (Obj_Array a vs)
  obtain n where n: "fuel = Suc n" using Obj_Array by (cases fuel) simp_all
  let ?pv = "parse_value nr_strtod is_huge n"
  have len: "length (join (map (json_text sd) vs)) < n" using Obj_Array.prems(2) n by simp
  have vs: "\<forall>v \<in> set vs. plain_json v \<and> reads_back ?pv sd v"
  proof
    fix v
    assume v: "v \<in> set vs"
    then have "json_text sd v \<in> set (map (json_text sd) vs)" by simp
    from length_join [OF this] len have "length (json_text sd v) < n" by simp
    with Obj_Array.IH [OF v] Obj_Array.prems(1) v show "plain_json v \<and> reads_back ?pv sd v" by simp
  qed
  show ?case
    unfolding reads_back_def
  proof (intro allI impI)
    fix rest
    let ?body = "join (map (json_text sd) vs) @ CHR '']'' # rest"
    have pv_eq: "parse_value nr_strtod is_huge fuel (json_text sd (Obj_Array a vs) @ rest) = parse_array ?pv n (CHR ''['' # ?body)"
      using n by (simp add: at_ptr_def [of "_ # _"] is_digit_def)
    show "\<exists>w. parse_value nr_strtod is_huge fuel (json_text sd (Obj_Array a vs) @ rest) = Some (Some (Some w, rest))
        \<and> value_of w = value_of (Obj_Array a vs)"
    proof (cases vs)
      case Nil
      with pv_eq show ?thesis by (simp add: parse_array_def at_ptr_def json_skip_id)
    next
      case (Cons v vs')
      from json_text_head [of v sd] vs Cons obtain c t where "json_text sd v = c # t" "32 < byte c" "c \<noteq> CHR '']''" by auto
      with Cons have "at_ptr ?body \<noteq> CHR '']''" "json_skip ?body = ?body" by (auto simp: at_ptr_def intro!: json_skip_id)
      then have "parse_array ?pv n (CHR ''['' # ?body) = parse_elements ?pv n (Some (Obj_Array NRO_CHUNK_SIZE [])) ?body"
        by (simp add: parse_array_def Let_def)
      moreover from elements_read_back [OF _ vs len, of NRO_CHUNK_SIZE "[]" rest] Cons obtain a' ws' where
        "parse_elements ?pv n (Some (Obj_Array NRO_CHUNK_SIZE [])) ?body = Some (Some (Some (Obj_Array a' ws'), rest))"
        "map value_of ws' = map value_of vs" by auto
      ultimately show ?thesis using pv_eq by simp
    qed
  qed
next
  case Obj_None
  then show ?case by (cases fuel) (simp_all add: reads_back_def)
next
  case (Obj_Boolean b)
  then show ?case by (cases fuel) (simp_all add: reads_back_def)
qed simp_all

lemma decimal_no_NUL: "CHR 0x00 \<notin> set (decimal n)"
proof -
  have "\<not> is_digit (CHR 0x00)" by (simp add: is_digit_def)
  with decimal_spec [of n] show ?thesis by blast
qed

lemma join_no_NUL: "\<forall>x \<in> set xs. CHR 0x00 \<notin> set x \<Longrightarrow> CHR 0x00 \<notin> set (join xs)"
  by (induction xs) auto

lemma plain_json_no_NUL: "plain_json v \<Longrightarrow> CHR 0x00 \<notin> set (json_text sd v)"
proof (induction v)
  case (Obj_Int i)
  show ?case using decimal_no_NUL by (simp add: signed_decimal_def)
next
  case (Obj_Long i)
  show ?case using decimal_no_NUL by (simp add: signed_decimal_def)
next
  case (Obj_Ulong u)
  show ?case using decimal_no_NUL by simp
next
  case (Obj_String s)
  then show ?case using escape_no_NUL by (cases s) simp_all
next
  case (Obj_Hash a es)
  have "CHR 0x00 \<notin> set (json_text sd v)" if "(k, v) \<in> set es" for k v
    using Obj_Hash.IH [OF that, of v] Obj_Hash.prems that by auto
  then have "\<forall>x \<in> set (map (member sd) es). CHR 0x00 \<notin> set x" using escape_no_NUL by auto
  from join_no_NUL [OF this] show ?case by simp
next
  case (Obj_Array a vs)
  then have "\<forall>x \<in> set (map (json_text sd) vs). CHR 0x00 \<notin> set x" by simp
  from join_no_NUL [OF this] show ?case by simp
qed simp_all



text \<open>C40. The parser reads past the end of a text that ends in a backslash inside of a string: the loop
  that measures the string skips the terminating zero.\<close>

theorem nro_parser_overrun:
  assumes "\<forall>c \<in> set body. c \<noteq> dquote \<and> c \<noteq> backslash \<and> 32 \<le> byte c"
  shows "nro_create_from_json nr_strtod is_huge (Some (dquote # body @ [backslash])) = None"
proof -
  have "string_length (body @ [backslash]) len = None" for len using assms by (induction body arbitrary: len) simp_all
  then show ?thesis
    by (simp add: nro_create_from_json_def json_skip_id parse_string_def at_ptr_def [of "_ # _"])
qed

theorem nro_parser_overrun_witness:
  "nro_create_from_json (\<lambda>s. ((), s)) (\<lambda>_. False) (Some (dquote # ''abc'' @ [backslash])) = None"
  by (rule nro_parser_overrun) simp

text \<open>The same happens in the loop that copies a string, when an escape has less than four digits.\<close>

lemma nro_parser_short_escape: "parse_string ([dquote, backslash] @ ''u12'' @ [dquote]) = None"
  by (simp add: parse_string_def at_ptr_def string_copy.simps) code_simp

text \<open>A number with a leading zero is read as an octal number.\<close>

lemma strtol_octal: "strtol ''010'' = (8, [])"
  by code_simp

end
