(* ===== verification/RandomRange.thy ===== *)
theory RandomRange
  imports Prelude Complex_Main
begin

text \<open>
  Random numbers (\<^verbatim>\<open>axiom/util_random.c\<close>) over the \<^verbatim>\<open>rand48\<close> family of the C library, which is
  specified by POSIX down to its constants. An \<^verbatim>\<open>unsigned long\<close> is a natural number: nothing
  here wraps around. The result \<open>None\<close> is a loop that does not end; the generator has full
  period, which shows that it does.
\<close>

unbundle bit_operations_syntax

section \<open>The generator of the C library\<close>

record nr_random =
  xsubi0 :: "16 word"
  xsubi1 :: "16 word"
  xsubi2 :: "16 word"

text \<open>The 48 bits of state, the linear congruential step, and the upper 31 bits of the result.\<close>

definition rand48_state :: "nr_random \<Rightarrow> nat" where
  "rand48_state rnd = unat (xsubi0 rnd) + 2 ^ 16 * unat (xsubi1 rnd) + 2 ^ 32 * unat (xsubi2 rnd)"

definition rand48_store :: "nat \<Rightarrow> nr_random" where
  "rand48_store X = \<lparr>xsubi0 = of_nat X, xsubi1 = of_nat (X div 2 ^ 16), xsubi2 = of_nat (X div 2 ^ 32)\<rparr>"

definition rand48_next :: "nat \<Rightarrow> nat" where
  "rand48_next X = (0x5DEECE66D * X + 0xB) mod 2 ^ 48"

definition nrand48 :: "nr_random \<Rightarrow> nat \<times> nr_random" where
  "nrand48 rnd = (let X = rand48_next (rand48_state rnd) in (X div 2 ^ 17, rand48_store X))"

definition erand48 :: "nr_random \<Rightarrow> real \<times> nr_random" where
  "erand48 rnd = (let X = rand48_next (rand48_state rnd) in (real X / 2 ^ 48, rand48_store X))"

section \<open>The code\<close>

definition nr_random_create :: nr_random where
  "nr_random_create = \<lparr>xsubi0 = 0, xsubi1 = 0, xsubi2 = 0\<rparr>"

definition nr_random_destroy :: "nr_random ptr ptr \<Rightarrow> nr_random ptr ptr" where
  "nr_random_destroy rnd_ptr = map_option (\<lambda>_. NULL) rnd_ptr"

definition nr_random_seed :: "nr_random ptr \<Rightarrow> uint64 \<Rightarrow> nr_random ptr" where
  "nr_random_seed rnd seed =
     (case rnd of None \<Rightarrow> NULL
      | Some r \<Rightarrow> Some (r\<lparr>xsubi2 := ucast (drop_bit 16 (seed AND 0xffffffff)), xsubi1 := ucast (seed AND 0xffff),
                        xsubi0 := 0x330e\<rparr>))"

definition nr_random_create_from_seed :: "uint64 \<Rightarrow> nr_random ptr" where
  "nr_random_create_from_seed seed = nr_random_seed (Some nr_random_create) seed"

text \<open>\<open>now\<close> is the reading of the clock.\<close>

definition nr_random_seed_from_time :: "uint64 \<Rightarrow> nr_random ptr \<Rightarrow> nr_random ptr" where
  "nr_random_seed_from_time now rnd = nr_random_seed rnd now"

definition NR_RANDOM_MAX_EXCLUSIVE_LIMIT :: nat where
  "NR_RANDOM_MAX_EXCLUSIVE_LIMIT = 2 ^ 31"

definition largest_multiple :: "nat \<Rightarrow> nat" where
  "largest_multiple max_exclusive =
     NR_RANDOM_MAX_EXCLUSIVE_LIMIT - NR_RANDOM_MAX_EXCLUSIVE_LIMIT mod max_exclusive"

partial_function (option) range_loop :: "nat \<Rightarrow> nr_random \<Rightarrow> (nat \<times> nr_random) option" where
  "range_loop max_exclusive rnd =
     (case nrand48 rnd of (x, rnd) \<Rightarrow>
        if x < largest_multiple max_exclusive then Some (x mod max_exclusive, rnd)
        else range_loop max_exclusive rnd)"

definition nr_random_range :: "nr_random ptr \<Rightarrow> nat \<Rightarrow> (nat \<times> nr_random ptr) option" where
  "nr_random_range rnd max_exclusive =
     (case rnd of None \<Rightarrow> Some (0, rnd)
      | Some r \<Rightarrow>
          if max_exclusive \<le> 1 then Some (0, rnd)
          else if max_exclusive > NR_RANDOM_MAX_EXCLUSIVE_LIMIT then Some (0, rnd)
          else map_option (map_prod id Some) (range_loop max_exclusive r))"

definition nr_random_real :: "nr_random ptr \<Rightarrow> real \<times> nr_random ptr" where
  "nr_random_real rnd = (case rnd of None \<Rightarrow> (- 1, NULL) | Some r \<Rightarrow> map_prod id Some (erand48 r))"

section \<open>The period of the generator\<close>

lemma rand48_next_less: "rand48_next X < 2 ^ 48"
  by (simp add: rand48_next_def)

lemma three_digits: "X = X mod b + b * (X div b mod b) + b * b * (X div (b * b))" for X b :: nat
proof -
  have "X div b = X div b mod b + b * (X div (b * b))" by (simp add: div_mult2_eq)
  then have "b * (X div b) = b * (X div b mod b) + b * b * (X div (b * b))" by (metis distrib_left mult.assoc)
  then show ?thesis by (metis add.assoc add.commute mult_div_mod_eq)
qed

lemma rand48_state_store: "X < 2 ^ 48 \<Longrightarrow> rand48_state (rand48_store X) = X"
proof -
  assume "X < 2 ^ 48"
  then have "X div 2 ^ 32 mod 2 ^ 16 = X div 2 ^ 32" by simp
  then show ?thesis using three_digits [of X "2 ^ 16"] by (simp add: rand48_state_def rand48_store_def unat_of_nat)
qed

text \<open>\<open>2 ^ k\<close> steps add an odd multiple of \<open>2 ^ k\<close>, modulo \<open>2 ^ (k + 1)\<close> and more.\<close>

lemma rand48_steps:
  "\<exists>q B. odd B \<and> (\<forall>X. (rand48_next ^^ (2 ^ k)) X = ((1 + 2 ^ (k + 2) * q) * X + 2 ^ k * B) mod 2 ^ 48)"
proof (induction k)
  case 0
  have "(0x5DEECE66D :: nat) = 1 + 2 ^ (0 + 2) * 6303725979" by simp
  then have "(rand48_next ^^ (2 ^ 0)) X = ((1 + 2 ^ (0 + 2) * 6303725979) * X + 2 ^ 0 * 0xB) mod 2 ^ 48" for X
    by (simp add: rand48_next_def)
  moreover have "odd (0xB :: nat)" by simp
  ultimately show ?case by blast
next
  case (Suc k)
  then obtain q B :: nat where
    B: "odd B" and step: "\<And>X. (rand48_next ^^ (2 ^ k)) X = ((1 + 2 ^ (k + 2) * q) * X + 2 ^ k * B) mod 2 ^ 48" by blast
  let ?A = "1 + 2 ^ (k + 2) * q" and ?q = "q + 2 ^ (k + 1) * q\<^sup>2" and ?B = "B * (1 + 2 ^ (k + 1) * q)"
  have "(rand48_next ^^ (2 ^ Suc k)) X = ((1 + 2 ^ (Suc k + 2) * ?q) * X + 2 ^ Suc k * ?B) mod 2 ^ 48" for X
  proof -
    have "(rand48_next ^^ (2 ^ Suc k)) X = (rand48_next ^^ (2 ^ k)) ((rand48_next ^^ (2 ^ k)) X)"
      by (simp add: mult_2 funpow_add)
    also have "\<dots> = (?A * ((?A * X + 2 ^ k * B) mod 2 ^ 48) + 2 ^ k * B) mod 2 ^ 48" by (simp only: step)
    also have "\<dots> = (?A * (?A * X + 2 ^ k * B) + 2 ^ k * B) mod 2 ^ 48" by (metis mod_add_left_eq mod_mult_right_eq)
    also have "?A * (?A * X + 2 ^ k * B) + 2 ^ k * B = (1 + 2 ^ (Suc k + 2) * ?q) * X + 2 ^ Suc k * ?B"
      by (simp add: algebra_simps power2_eq_square power_add)
    finally show ?thesis .
  qed
  moreover have "odd ?B" using B by simp
  ultimately show ?case by blast
qed

lemma rand48_reaches_low: "X < 2 ^ 48 \<Longrightarrow> \<exists>n. (rand48_next ^^ n) X < 2 ^ 47"
proof (cases "X < 2 ^ 47")
  case True
  then show ?thesis by (intro exI [of _ 0]) simp
next
  case False
  assume X: "X < 2 ^ 48"
  define k :: nat where "k = 47"
  from rand48_steps [of k] obtain q B where
    B: "odd B" and step: "(rand48_next ^^ (2 ^ k)) X = ((1 + 2 ^ (k + 2) * q) * X + 2 ^ k * B) mod 2 ^ 48" by blast
  from B obtain b where b: "B = 2 * b + 1" by (elim oddE)
  have "(1 + 2 ^ (k + 2) * q) * X + 2 ^ k * B = (X - 2 ^ 47) + 2 ^ 48 * (2 * q * X + b + 1)"
    using False by (simp add: k_def b algebra_simps)
  then have "(rand48_next ^^ (2 ^ k)) X = (X - 2 ^ 47) mod 2 ^ 48" using step by (simp only: mod_mult_self2)
  also have "\<dots> < 2 ^ 47" using X by simp
  finally show ?thesis by blast
qed

section \<open>The loop\<close>

lemma mod_le_half: "2 * (n mod m) \<le> n" if "0 < m" "m \<le> n" for n m :: nat
proof -
  have "m * 1 \<le> m * (n div m)" using that by (intro mult_le_mono2) (simp add: div_greater_zero_iff Suc_leI)
  moreover have "m * (n div m) + n mod m = n" by simp
  moreover have "n mod m < m" using that by simp
  ultimately show ?thesis by linarith
qed

lemma largest_multiple_ge: "0 < m \<Longrightarrow> m \<le> 2 ^ 31 \<Longrightarrow> 2 ^ 30 \<le> largest_multiple m"
  using mod_le_half [of m "2 ^ 31"] by (simp add: largest_multiple_def NR_RANDOM_MAX_EXCLUSIVE_LIMIT_def)

lemma range_loop_returns:
  assumes "(rand48_next ^^ n) (rand48_next (rand48_state rnd)) div 2 ^ 17 < largest_multiple m" and "0 < m"
  shows "\<exists>x rnd'. range_loop m rnd = Some (x, rnd') \<and> x < m"
  using assms(1)
proof (induction n arbitrary: rnd)
  case 0
  with assms(2) show ?case by (subst range_loop.simps) (simp add: nrand48_def Let_def)
next
  case (Suc n)
  let ?X = "rand48_next (rand48_state rnd)"
  show ?case
  proof (cases "?X div 2 ^ 17 < largest_multiple m")
    case True
    with assms(2) show ?thesis by (subst range_loop.simps) (simp add: nrand48_def Let_def)
  next
    case False
    then have "range_loop m rnd = range_loop m (rand48_store ?X)"
      by (subst range_loop.simps) (simp add: nrand48_def Let_def)
    moreover have "(rand48_next ^^ n) (rand48_next (rand48_state (rand48_store ?X))) div 2 ^ 17 < largest_multiple m"
      using Suc.prems by (simp add: rand48_state_store [OF rand48_next_less] funpow_swap1)
    ultimately show ?thesis using Suc.IH by metis
  qed
qed

lemma nr_random_range_spec:
  assumes "0 < m"
  shows "\<exists>x rnd'. nr_random_range (Some rnd) m = Some (x, Some rnd') \<and> x < m"
proof (cases "m \<le> 1 \<or> m > NR_RANDOM_MAX_EXCLUSIVE_LIMIT")
  case True
  with assms show ?thesis by (auto simp: nr_random_range_def)
next
  case False
  then have m: "0 < m" "m \<le> 2 ^ 31" by (auto simp: NR_RANDOM_MAX_EXCLUSIVE_LIMIT_def)
  from rand48_reaches_low [OF rand48_next_less, of "rand48_state rnd"] obtain n where
    "(rand48_next ^^ n) (rand48_next (rand48_state rnd)) < 2 ^ 47" by blast
  then have "(rand48_next ^^ n) (rand48_next (rand48_state rnd)) div 2 ^ 17 < 2 ^ 30"
    by (simp add: less_mult_imp_div_less)
  then have "(rand48_next ^^ n) (rand48_next (rand48_state rnd)) div 2 ^ 17 < largest_multiple m"
    using largest_multiple_ge [OF m] by linarith
  from range_loop_returns [OF this m(1)] False show ?thesis by (auto simp: nr_random_range_def)
qed

section \<open>The interface\<close>

text \<open>A source of random numbers below a bound, which never fails to answer.\<close>

locale random_source =
  fixes draw :: "'s \<Rightarrow> nat \<Rightarrow> (nat \<times> 's) option" and usable :: "'s \<Rightarrow> bool"
  assumes below: "usable s \<Longrightarrow> 0 < m \<Longrightarrow> \<exists>x s'. draw s m = Some (x, s') \<and> x < m \<and> usable s'"
    and zero: "usable s \<Longrightarrow> draw s 0 = Some (0, s)"
begin

lemma answers: "usable s \<Longrightarrow> \<exists>x s'. draw s m = Some (x, s') \<and> (x < m \<or> x = 0) \<and> usable s'"
  using below [of s m] zero [of s] by (cases "m = 0") auto

fun draws :: "'s \<Rightarrow> nat list \<Rightarrow> (nat list \<times> 's) option" where
  "draws s [] = Some ([], s)"
| "draws s (m # ms) = Option.bind (draw s m) (\<lambda>(x, s). map_option (map_prod ((#) x) id) (draws s ms))"

lemma draws_answer:
  "usable s \<Longrightarrow> \<exists>xs s'. draws s ms = Some (xs, s') \<and> usable s' \<and> list_all2 (\<lambda>x m. x < m \<or> x = 0) xs ms"
proof (induction ms arbitrary: s)
  case (Cons m ms)
  from answers [OF Cons.prems, of m] obtain x s1 where s1: "draw s m = Some (x, s1)" "x < m \<or> x = 0" "usable s1" by blast
  from Cons.IH [OF s1(3)] s1 show ?case by auto
qed simp

end

interpretation rnd: random_source nr_random_range "\<lambda>rnd. rnd \<noteq> NULL"
proof
  fix rnd :: "nr_random ptr" and m :: nat
  assume "rnd \<noteq> NULL" "0 < m"
  with nr_random_range_spec [of m] show "\<exists>x s'. nr_random_range rnd m = Some (x, s') \<and> x < m \<and> s' \<noteq> NULL" by (cases rnd) blast+
qed (auto simp: nr_random_range_def)

section \<open>Uniform results\<close>

text \<open>Every result has the same number of accepted values of the generator.\<close>

lemma card_residues: "r < m \<Longrightarrow> card {x. x < m * q \<and> x mod m = r} = q" for m q r :: nat
proof -
  assume r: "r < m"
  have "{x. x < m * q \<and> x mod m = r} = (\<lambda>i. m * i + r) ` {..<q}"
  proof (rule set_eqI, rule iffI)
    fix x
    assume "x \<in> {x. x < m * q \<and> x mod m = r}"
    then have "x = m * (x div m) + r" "x div m < q" by (auto simp: less_mult_imp_div_less mult.commute)
    then show "x \<in> (\<lambda>i. m * i + r) ` {..<q}" by blast
  next
    fix x
    assume "x \<in> (\<lambda>i. m * i + r) ` {..<q}"
    then obtain i where i: "x = m * i + r" "i < q" by blast
    have "m * i + r < m * Suc i" using r by simp
    also have "\<dots> \<le> m * q" using i(2) by (intro mult_le_mono2) simp
    finally show "x \<in> {x. x < m * q \<and> x mod m = r}" using i r by simp
  qed
  moreover have "inj_on (\<lambda>i. m * i + r) {..<q}" using r by (auto simp: inj_on_def)
  ultimately show ?thesis by (simp add: card_image)
qed



lemma nr_random_real_range: "0 \<le> fst (nr_random_real (Some rnd)) \<and> fst (nr_random_real (Some rnd)) < 1"
proof -
  have "real (rand48_next (rand48_state rnd)) < 2 ^ 48" using rand48_next_less [of "rand48_state rnd"]
    by (metis of_nat_less_numeral_power_cancel_iff)
  then show ?thesis by (simp add: nr_random_real_def erand48_def Let_def)
qed

end
