(* ===== verification/Events.thy ===== *)
theory Events
  imports RandomRange Object
begin

text \<open>
  Analytics events (\<^verbatim>\<open>axiom/nr_analytics_events.c\<close>): an event is a JSON text made of three hash
  objects (\<open>Object\<close>); a pool stores events up to its limit and then replaces stored events at
  random (\<open>RandomRange\<close>). An access outside of the array and a counter that leaves the range
  of an \<^verbatim>\<open>int\<close> are \<open>None\<close>.
\<close>

section \<open>The code\<close>

type_synonym nr_analytics_event = string

definition nr_analytics_event_create_from_string :: "string ptr \<Rightarrow> nr_analytics_event ptr" where
  "nr_analytics_event_create_from_string str = Some (nr_strdup str)"

definition nr_analytics_event_duplicate :: "nr_analytics_event ptr \<Rightarrow> nr_analytics_event ptr" where
  "nr_analytics_event_duplicate event = (case event of None \<Rightarrow> NULL | Some json \<Rightarrow> Some (nr_strdup (Some json)))"

definition nr_analytics_event_json :: "nr_analytics_event ptr \<Rightarrow> string ptr" where
  "nr_analytics_event_json event = event"

definition nr_analytics_event_create ::
  "('d \<Rightarrow> string) \<Rightarrow> 'd nrobj ptr \<Rightarrow> 'd nrobj ptr \<Rightarrow> 'd nrobj ptr \<Rightarrow> nr_analytics_event ptr option" where
  "nr_analytics_event_create show_double builtin_fields agent_attributes user_attributes =
     (if builtin_fields \<noteq> NULL \<and> nro_type builtin_fields \<noteq> NR_OBJECT_HASH then Some NULL
      else if agent_attributes \<noteq> NULL \<and> nro_type agent_attributes \<noteq> NR_OBJECT_HASH then Some NULL
      else if user_attributes \<noteq> NULL \<and> nro_type user_attributes \<noteq> NR_OBJECT_HASH then Some NULL
      else do {
        let empty_hash = Some nro_new_hash;
        let arr = Some nro_new_array;
        let arr = snd (nro_set_array arr 1 (if builtin_fields \<noteq> NULL then builtin_fields else empty_hash));
        let arr = snd (nro_set_array arr 2 (if user_attributes \<noteq> NULL then user_attributes else empty_hash));
        let arr = snd (nro_set_array arr 3 (if agent_attributes \<noteq> NULL then agent_attributes else empty_hash));
        json \<leftarrow> nro_to_json show_double arr;
        Some (nr_analytics_event_create_from_string (Some json))
      })"

definition nr_analytics_event_destroy :: "nr_analytics_event ptr ptr \<Rightarrow> nr_analytics_event ptr ptr" where
  "nr_analytics_event_destroy event_ptr = map_option (\<lambda>_. NULL) event_ptr"

record nr_analytics_events =
  events_allocated :: nat
  events_used :: nat
  events_seen :: nat
  events :: "nr_analytics_event ptr list"

definition nr_analytics_events_max_events :: "nr_analytics_events ptr \<Rightarrow> nat" where
  "nr_analytics_events_max_events p = (case p of None \<Rightarrow> 0 | Some e \<Rightarrow> events_allocated e)"

definition nr_analytics_events_number_seen :: "nr_analytics_events ptr \<Rightarrow> nat" where
  "nr_analytics_events_number_seen p = (case p of None \<Rightarrow> 0 | Some e \<Rightarrow> events_seen e)"

definition nr_analytics_events_number_saved :: "nr_analytics_events ptr \<Rightarrow> nat" where
  "nr_analytics_events_number_saved p = (case p of None \<Rightarrow> 0 | Some e \<Rightarrow> events_used e)"

definition NR_ANALYTICS_EVENTS_MAX_EVENTS_SANITY_CHECK :: int where
  "NR_ANALYTICS_EVENTS_MAX_EVENTS_SANITY_CHECK = 10 * 1000 * 1000"

definition nr_analytics_events_create_ex :: "int \<Rightarrow> nr_analytics_events ptr" where
  "nr_analytics_events_create_ex max_events =
     (if max_events < 0 then NULL
      else if max_events > NR_ANALYTICS_EVENTS_MAX_EVENTS_SANITY_CHECK then NULL
      else Some \<lparr>events_allocated = nat max_events, events_used = 0, events_seen = 0,
                 events = replicate (nat max_events) NULL\<rparr>)"

definition nr_analytics_events_create :: "int \<Rightarrow> nr_analytics_events ptr" where
  "nr_analytics_events_create max_events =
     (if max_events \<le> 0 then NULL else nr_analytics_events_create_ex max_events)"

text \<open>The events that are freed are returned.\<close>

definition nr_analytics_events_destroy :: "nr_analytics_events ptr ptr \<Rightarrow> nr_analytics_event ptr list \<times> nr_analytics_events ptr ptr" where
  "nr_analytics_events_destroy events_ptr =
     (case events_ptr of
        Some (Some e) \<Rightarrow> (take (events_used e) (events e), Some NULL)
      | _ \<Rightarrow> ([], events_ptr))"

definition nr_analytics_events_is_sampling :: "nr_analytics_events ptr \<Rightarrow> bool" where
  "nr_analytics_events_is_sampling p = (case p of None \<Rightarrow> False | Some e \<Rightarrow> \<not> events_used e < events_allocated e)"

definition store_event :: "nr_analytics_events \<Rightarrow> nat \<Rightarrow> nr_analytics_event \<Rightarrow> nr_analytics_events option" where
  "store_event e i event =
     (if i < length (events e)
      then Some (e\<lparr>events := (events e)[i := nr_analytics_event_duplicate (Some event)]\<rparr>) else None)"

definition nr_analytics_events_add_event ::
  "nr_analytics_events ptr \<Rightarrow> nr_analytics_event ptr \<Rightarrow> nr_random ptr \<Rightarrow> (nr_analytics_events ptr \<times> nr_random ptr) option" where
  "nr_analytics_events_add_event eventsp eventp rnd =
     (case (eventsp, eventp) of
        (Some e, Some event) \<Rightarrow>
          if events_seen e + 1 \<ge> 2 ^ 31 then None
          else do {
            let e = e\<lparr>events_seen := events_seen e + 1\<rparr>;
            if \<not> nr_analytics_events_is_sampling (Some e)
            then do {
              e \<leftarrow> store_event e (events_used e) event;
              Some (Some (e\<lparr>events_used := events_used e + 1\<rparr>), rnd)
            }
            else do {
              (replace_idx, rnd) \<leftarrow> nr_random_range rnd (events_seen e);
              if replace_idx < events_allocated e
              then do {
                e \<leftarrow> store_event e replace_idx event;
                Some (Some e, rnd)
              }
              else Some (Some e, rnd)
            }
          }
      | _ \<Rightarrow> Some (eventsp, rnd))"

definition nr_analytics_events_get_event_json :: "nr_analytics_events ptr \<Rightarrow> int \<Rightarrow> string ptr" where
  "nr_analytics_events_get_event_json p i =
     (case p of None \<Rightarrow> NULL
      | Some e \<Rightarrow>
          if i < 0 then NULL
          else if i \<ge> int (events_used e) then NULL
          else nr_analytics_event_json (events e ! nat i))"

section \<open>The pool\<close>

text \<open>The pool after the events \<open>H\<close> have been added, with the events it has stored.\<close>

definition pool_inv :: "string list \<Rightarrow> nr_analytics_events \<Rightarrow> string list \<Rightarrow> bool" where
  "pool_inv H e stored \<longleftrightarrow>
     events e = map Some stored @ replicate (events_allocated e - length stored) NULL
     \<and> events_used e = length stored \<and> length stored = min (length H) (events_allocated e)
     \<and> events_seen e = length H \<and> mset stored \<subseteq># mset H \<and> (length H \<le> events_allocated e \<longrightarrow> stored = H)"

lemma random_range_returns: "\<exists>x rnd'. nr_random_range rnd m = Some (x, rnd')"
  using rnd.answers [of rnd m] by (cases rnd) (auto simp: nr_random_range_def)

lemma subset_replace:
  assumes "mset xs \<subseteq># mset H" and "i < length xs"
  shows "mset (xs[i := x]) \<subseteq># mset (H @ [x])"
proof -
  have "mset xs - {#xs ! i#} \<subseteq># mset H" using assms(1) by (meson diff_subset_eq_self subset_mset.order_trans)
  then show ?thesis using assms(2) by (simp add: mset_update subset_mset.add_mono)
qed

lemma add_event_spec:
  assumes inv: "pool_inv H e stored" and H: "length H + 1 < 2 ^ 31"
  shows "\<exists>e' stored' rnd'. nr_analytics_events_add_event (Some e) (Some x) rnd = Some (Some e', rnd')
    \<and> events_allocated e' = events_allocated e \<and> pool_inv (H @ [x]) e' stored'"
proof -
  let ?e = "e\<lparr>events_seen := events_seen e + 1\<rparr>"
  note inv' = inv [unfolded pool_inv_def]
  show ?thesis
  proof (cases "length H < events_allocated e")
    case True
    let ?l = "map Some stored @ replicate (events_allocated e - length stored) NULL"
    have len: "length stored = length H" "stored = H" using inv' True by auto
    have "?l[length stored := Some x] = map Some (stored @ [x]) @ replicate (events_allocated e - length (stored @ [x])) NULL"
      using True len by (simp add: list_update_append Suc_diff_Suc [symmetric])
    then have "pool_inv (H @ [x]) (?e\<lparr>events := (events e)[length stored := Some x], events_used := length stored + 1\<rparr>) (stored @ [x])"
      using inv' True len by (auto simp: pool_inv_def)
    moreover have "nr_analytics_events_add_event (Some e) (Some x) rnd
        = Some (Some (?e\<lparr>events := (events e)[length stored := Some x], events_used := length stored + 1\<rparr>), rnd)"
      using inv' True H len(1)
      by (simp add: nr_analytics_events_add_event_def nr_analytics_events_is_sampling_def store_event_def
          nr_analytics_event_duplicate_def nr_strdup_def)
    ultimately show ?thesis by (intro exI conjI) auto
  next
    case False
    then have full: "length stored = events_allocated e" "events e = map Some stored" using inv' by auto
    obtain i rnd' where i: "nr_random_range rnd (length H + 1) = Some (i, rnd')" using random_range_returns by blast
    show ?thesis
    proof (cases "i < events_allocated e")
      case True
      have "pool_inv (H @ [x]) (?e\<lparr>events := (events e)[i := Some x]\<rparr>) (stored[i := x])"
        using inv' full True False subset_replace [of stored H i x] by (auto simp: pool_inv_def map_update)
      moreover have "nr_analytics_events_add_event (Some e) (Some x) rnd = Some (Some (?e\<lparr>events := (events e)[i := Some x]\<rparr>), rnd')"
        using inv' False H full i True
        by (simp add: nr_analytics_events_add_event_def nr_analytics_events_is_sampling_def store_event_def
            nr_analytics_event_duplicate_def nr_strdup_def)
      ultimately show ?thesis by (intro exI conjI) auto
    next
      case out: False
      have "pool_inv (H @ [x]) ?e stored"
        using inv' full False by (auto simp: pool_inv_def intro: subset_mset.order_trans)
      moreover have "nr_analytics_events_add_event (Some e) (Some x) rnd = Some (Some ?e, rnd')"
        using inv' False H full i out
        by (simp add: nr_analytics_events_add_event_def nr_analytics_events_is_sampling_def)
      ultimately show ?thesis by (intro exI conjI) auto
    qed
  qed
qed

fun add_events :: "nr_analytics_events ptr \<Rightarrow> nr_random ptr \<Rightarrow> string list \<Rightarrow> (nr_analytics_events ptr \<times> nr_random ptr) option" where
  "add_events p rnd [] = Some (p, rnd)"
| "add_events p rnd (x # xs) = Option.bind (nr_analytics_events_add_event p (Some x) rnd) (\<lambda>(p, rnd). add_events p rnd xs)"

lemma add_events_spec:
  assumes "pool_inv H e stored" and "length H + length xs < 2 ^ 31"
  shows "\<exists>e' stored' rnd'. add_events (Some e) rnd xs = Some (Some e', rnd')
    \<and> events_allocated e' = events_allocated e \<and> pool_inv (H @ xs) e' stored'"
  using assms
proof (induction xs arbitrary: H e stored rnd)
  case (Cons x xs)
  have "length H + 1 < 2 ^ 31" "length (H @ [x]) + length xs < 2 ^ 31" using Cons.prems(2) by simp_all
  from add_event_spec [OF Cons.prems(1) this(1), of x rnd] obtain e1 stored1 rnd1 where
    e1: "nr_analytics_events_add_event (Some e) (Some x) rnd = Some (Some e1, rnd1)"
      "events_allocated e1 = events_allocated e" "pool_inv (H @ [x]) e1 stored1" by blast
  from Cons.IH [OF e1(3) \<open>length (H @ [x]) + length xs < 2 ^ 31\<close>, of rnd1] e1(1,2) show ?case by simp
qed auto

text \<open>C28. The event pool is a reservoir: adding events always returns without leaving the array,
  counts every event, and stores as many of them as fit, each at most as often as it was
  added. As long as all of them fit they are stored in order.\<close>

theorem analytics_events_reservoir:
  assumes "0 \<le> n" and "n \<le> NR_ANALYTICS_EVENTS_MAX_EVENTS_SANITY_CHECK" and "length xs < 2 ^ 31"
  shows "\<exists>p stored rnd'. add_events (nr_analytics_events_create_ex n) rnd xs = Some (p, rnd')
    \<and> nr_analytics_events_number_seen p = length xs \<and> nr_analytics_events_number_saved p = min (length xs) (nat n)
    \<and> length stored = min (length xs) (nat n) \<and> mset stored \<subseteq># mset xs \<and> (length xs \<le> nat n \<longrightarrow> stored = xs)
    \<and> (\<forall>i < length stored. nr_analytics_events_get_event_json p (int i) = Some (stored ! i))"
proof -
  let ?e = "\<lparr>events_allocated = nat n, events_used = 0, events_seen = 0, events = replicate (nat n) NULL\<rparr>"
  have c: "nr_analytics_events_create_ex n = Some ?e" using assms(1,2) by (simp add: nr_analytics_events_create_ex_def)
  have "pool_inv [] ?e []" by (simp add: pool_inv_def)
  from add_events_spec [OF this, of xs rnd] assms(3) obtain e' stored rnd' where
    e': "add_events (Some ?e) rnd xs = Some (Some e', rnd')" "events_allocated e' = nat n" "pool_inv xs e' stored" by auto
  note inv = e'(3) [unfolded pool_inv_def]
  have "nr_analytics_events_get_event_json (Some e') (int i) = Some (stored ! i)" if "i < length stored" for i
    using that inv by (auto simp: nr_analytics_events_get_event_json_def nr_analytics_event_json_def nth_append)
  with e' c inv show ?thesis
    by (intro exI [of _ "Some e'"] exI [of _ stored] exI [of _ rnd'])
      (simp add: nr_analytics_events_number_seen_def nr_analytics_events_number_saved_def)
qed

theorem analytics_events_reservoir_witness:
  "\<exists>p rnd'. add_events (nr_analytics_events_create_ex 1) (nr_random_create_from_seed 3) [''a'', ''b'', ''c''] = Some (p, rnd')
     \<and> nr_analytics_events_number_seen p = 3 \<and> nr_analytics_events_number_saved p = 1"
  using analytics_events_reservoir [of 1 "[''a'', ''b'', ''c'']" "nr_random_create_from_seed 3"]
  by (auto simp: NR_ANALYTICS_EVENTS_MAX_EVENTS_SANITY_CHECK_def simp del: add_events.simps)

section \<open>Events\<close>

definition fields_of :: "'d nrobj ptr \<Rightarrow> 'd nrobj" where
  "fields_of obj = (case obj of None \<Rightarrow> nro_new_hash | Some v \<Rightarrow> v)"

text \<open>An event is the JSON array of its three hashes, with the attributes of the user before the
  attributes of the agent.\<close>

lemma nr_analytics_event_create_text:
  assumes "\<forall>obj \<in> {builtin, agent, user}. obj = NULL \<or> nro_type obj = NR_OBJECT_HASH"
    and "t = json_text show_double (Obj_Array NRO_CHUNK_SIZE
        [nro_copy (fields_of builtin), nro_copy (fields_of user), nro_copy (fields_of agent)])"
    and "length t < 2 ^ 27 - 1024" and "CHR 0x00 \<notin> set t"
  shows "nr_analytics_event_create show_double builtin agent user = Some (Some t)"
proof -
  have opt: "(if obj \<noteq> NULL then obj else Some nro_new_hash) = Some (fields_of obj)" for obj :: "'d nrobj ptr"
    by (cases obj) (simp_all add: fields_of_def)
  have "nr_analytics_event_create show_double builtin agent user = Option.bind
      (nro_to_json show_double (Some (Obj_Array NRO_CHUNK_SIZE
        [nro_copy (fields_of builtin), nro_copy (fields_of user), nro_copy (fields_of agent)])))
      (\<lambda>json. Some (nr_analytics_event_create_from_string (Some json)))"
    using assms(1) unfolding nr_analytics_event_create_def opt Let_def
    by (auto simp: nro_set_array_def nro_internal_setvalue_array_def nro_new_array_def NRO_CHUNK_SIZE_def)
  then show ?thesis using nro_to_json_spec [OF assms(3,4) [unfolded assms(2)]] assms(2)
    by (simp add: nr_analytics_event_create_from_string_def nr_strdup_def)
qed

end
