(* ===== verification/AppHarvest.thy ===== *)
theory AppHarvest
  imports RandomRange
begin

text \<open>
  Adaptive sampling (\<^verbatim>\<open>axiom/nr_app_harvest.c\<close>): the agent estimates the cycles in which the daemon
  collects data, and decides for every transaction whether to sample it. Times and counters are
  64 bits wide. \<open>pow\<close> is the function of the C library and \<open>rnd_dbl\<close> rounds a number to the
  nearest \<^verbatim>\<open>double\<close>; both are parameters. Converting a number outside of the range of the
  integer type is undefined and gives \<open>None\<close>.
\<close>

section \<open>The code\<close>

record nr_app_harvest =
  connect_timestamp :: uint64
  frequency :: uint64
  target_transactions_per_cycle :: uint64
  next_harvest :: uint64
  threshold :: uint64
  prev_transactions_seen :: uint64
  transactions_seen :: uint64
  transactions_sampled :: uint64

definition nr_app_harvest_calculate_next_harvest_time :: "nr_app_harvest \<Rightarrow> uint64 \<Rightarrow> uint64" where
  "nr_app_harvest_calculate_next_harvest_time ah now =
     (if now < connect_timestamp ah then connect_timestamp ah
      else if frequency ah = 0 then connect_timestamp ah
      else let cycles = (now - connect_timestamp ah) div frequency ah
           in connect_timestamp ah + frequency ah * (cycles + 1))"

text \<open>The conversion from \<^verbatim>\<open>double\<close>.\<close>

definition to_uint64 :: "real \<Rightarrow> uint64 option" where
  "to_uint64 x = (if x \<le> -1 \<or> x \<ge> 2 ^ 64 then None else Some (if x < 0 then 0 else of_int \<lfloor>x\<rfloor>))"

definition nr_app_harvest_calculate_threshold ::
  "(real \<Rightarrow> real) \<Rightarrow> (real \<Rightarrow> real \<Rightarrow> real) \<Rightarrow> uint64 \<Rightarrow> uint64 \<Rightarrow> uint64 option" where
  "nr_app_harvest_calculate_threshold rnd_dbl pow target sampled_true_count =
     (if sampled_true_count = 0 \<or> target = 0 \<or> sampled_true_count < target then Some 0
      else let t = rnd_dbl (real (unat target)); n = rnd_dbl (real (unat sampled_true_count))
           in to_uint64 (rnd_dbl (pow t (rnd_dbl (t / n)) - pow t (1 / 2))))"

definition nr_app_harvest_compare_harvest_to_now :: "uint64 \<Rightarrow> uint64 \<Rightarrow> uint64 \<Rightarrow> bool" where
  "nr_app_harvest_compare_harvest_to_now connect freq now \<longleftrightarrow> now < connect + freq"

definition nr_app_harvest_is_first :: "nr_app_harvest ptr \<Rightarrow> uint64 \<Rightarrow> bool" where
  "nr_app_harvest_is_first ahp now =
     (case ahp of None \<Rightarrow> False
      | Some ah \<Rightarrow> nr_app_harvest_compare_harvest_to_now (connect_timestamp ah) (frequency ah) now)"

definition nr_app_harvest_private_init ::
  "nr_app_harvest ptr \<Rightarrow> uint64 \<Rightarrow> uint64 \<Rightarrow> 16 word \<Rightarrow> uint64 \<Rightarrow> nr_app_harvest ptr" where
  "nr_app_harvest_private_init ahp connect freq sampling_target now =
     (case ahp of None \<Rightarrow> NULL
      | Some old \<Rightarrow>
          let ah = old\<lparr>connect_timestamp := connect, frequency := freq,
                       target_transactions_per_cycle := ucast sampling_target\<rparr>
          in Some (if connect_timestamp ah \<noteq> connect_timestamp old \<or> frequency ah \<noteq> frequency old
                   then ah\<lparr>next_harvest := nr_app_harvest_calculate_next_harvest_time ah now, threshold := 0,
                           prev_transactions_seen := 0, transactions_seen := 0, transactions_sampled := 0\<rparr>
                   else ah))"

text \<open>Rolling the counters over into a new cycle.\<close>

definition roll_harvest ::
  "(real \<Rightarrow> real) \<Rightarrow> (real \<Rightarrow> real \<Rightarrow> real) \<Rightarrow> nr_app_harvest \<Rightarrow> uint64 \<Rightarrow> nr_app_harvest option" where
  "roll_harvest rnd_dbl pow ah now =
     (if now \<ge> next_harvest ah then do {
        th \<leftarrow> nr_app_harvest_calculate_threshold rnd_dbl pow (target_transactions_per_cycle ah) (transactions_sampled ah);
        let ah = ah\<lparr>threshold := th,
                    prev_transactions_seen := (if now \<ge> next_harvest ah + frequency ah then 0 else transactions_seen ah),
                    transactions_seen := 0, transactions_sampled := 0\<rparr>;
        Some (ah\<lparr>next_harvest := nr_app_harvest_calculate_next_harvest_time ah now\<rparr>)
      }
      else Some ah)"

definition nr_app_harvest_private_should_sample ::
  "(real \<Rightarrow> real) \<Rightarrow> (real \<Rightarrow> real \<Rightarrow> real) \<Rightarrow> nr_app_harvest ptr \<Rightarrow> nr_random ptr \<Rightarrow> uint64
     \<Rightarrow> (bool \<times> nr_app_harvest ptr \<times> nr_random ptr) option" where
  "nr_app_harvest_private_should_sample rnd_dbl pow ahp rnd now =
     (case ahp of None \<Rightarrow> Some (False, ahp, rnd)
      | Some ah \<Rightarrow>
          if rnd = NULL then Some (False, ahp, rnd)
          else do {
            ah \<leftarrow> roll_harvest rnd_dbl pow ah now;
            let ah = ah\<lparr>transactions_seen := transactions_seen ah + 1\<rparr>;
            let sample = ah\<lparr>transactions_sampled := transactions_sampled ah + 1\<rparr>;
            if nr_app_harvest_is_first (Some ah) now
            then Some (if transactions_sampled ah < target_transactions_per_cycle ah
                       then (True, Some sample, rnd) else (False, Some ah, rnd))
            else if transactions_sampled ah < target_transactions_per_cycle ah
            then do {
              (x, rnd) \<leftarrow> nr_random_range rnd (unat (prev_transactions_seen ah));
              Some (if x < unat (target_transactions_per_cycle ah) then (True, Some sample, rnd) else (False, Some ah, rnd))
            }
            else do {
              th \<leftarrow> nr_app_harvest_calculate_threshold rnd_dbl pow (target_transactions_per_cycle ah) (transactions_sampled ah);
              let ah = ah\<lparr>threshold := th\<rparr>;
              (x, rnd) \<leftarrow> nr_random_range rnd (unat (transactions_seen ah));
              Some (if x < unat (threshold ah)
                    then (True, Some (ah\<lparr>transactions_sampled := transactions_sampled ah + 1\<rparr>), rnd) else (False, Some ah, rnd))
            }
          })"

text \<open>The public functions read the clock.\<close>

definition nr_app_harvest_init ::
  "uint64 \<Rightarrow> nr_app_harvest ptr \<Rightarrow> uint64 \<Rightarrow> uint64 \<Rightarrow> 16 word \<Rightarrow> nr_app_harvest ptr" where
  "nr_app_harvest_init now ahp connect freq sampling_target = nr_app_harvest_private_init ahp connect freq sampling_target now"

definition nr_app_harvest_should_sample ::
  "(real \<Rightarrow> real) \<Rightarrow> (real \<Rightarrow> real \<Rightarrow> real) \<Rightarrow> uint64 \<Rightarrow> nr_app_harvest ptr \<Rightarrow> nr_random ptr
     \<Rightarrow> (bool \<times> nr_app_harvest ptr \<times> nr_random ptr) option" where
  "nr_app_harvest_should_sample rnd_dbl pow now ahp rnd = nr_app_harvest_private_should_sample rnd_dbl pow ahp rnd now"

section \<open>The next harvest\<close>

text \<open>Without overflow, the next harvest is the first multiple of the frequency behind \<open>now\<close>.\<close>

lemma next_harvest_time:
  assumes "connect_timestamp ah \<le> now" and "frequency ah \<noteq> 0" and "unat now + unat (frequency ah) < 2 ^ 64"
  shows "now < nr_app_harvest_calculate_next_harvest_time ah now
    \<and> unat (nr_app_harvest_calculate_next_harvest_time ah now) \<le> unat now + unat (frequency ah)
    \<and> unat (frequency ah) dvd unat (nr_app_harvest_calculate_next_harvest_time ah now) - unat (connect_timestamp ah)"
proof -
  let ?c = "unat (connect_timestamp ah)" and ?f = "unat (frequency ah)" and ?n = "unat now"
  have cn: "?c \<le> ?n" and f: "0 < ?f" using assms(1,2) by (simp_all add: word_le_nat_alt unat_gt_0)
  have cyc: "unat ((now - connect_timestamp ah) div frequency ah) = (?n - ?c) div ?f"
    using assms(1) by (simp add: unat_div unat_sub)
  let ?q = "(?n - ?c) div ?f"
  have q: "?f * ?q \<le> ?n - ?c" "?n - ?c < ?f * (?q + 1)" using f
    by (simp_all add: dividend_less_times_div)
  have fq: "?f * (?q + 1) = ?f * ?q + ?f" by simp
  have lt: "?c + ?f * (?q + 1) < 2 ^ 64" using q(1) cn assms(3) unfolding fq by linarith
  have "1 * (?q + 1) \<le> ?f * (?q + 1)" by (rule mult_le_mono1) (use f in simp)
  then have q1: "?q + 1 \<le> ?f * (?q + 1)" by (simp only: mult_1)
  have f1: "?f * (?q + 1) < 2 ^ 64" by (rule le_less_trans [OF le_add2 lt])
  note le_less_trans [OF q1 f1] f1
  then have "unat (connect_timestamp ah + frequency ah * ((now - connect_timestamp ah) div frequency ah + 1)) = ?c + ?f * (?q + 1)"
    using lt cyc by (simp add: unat_word_ariths)
  moreover have "\<not> now < connect_timestamp ah" using assms(1) by simp
  ultimately have eq: "unat (nr_app_harvest_calculate_next_harvest_time ah now) = ?c + ?f * (?q + 1)"
    using assms(2) by (simp add: nr_app_harvest_calculate_next_harvest_time_def)
  have "?n < ?c + ?f * (?q + 1)" "?c + ?f * (?q + 1) \<le> ?n + ?f" using q cn unfolding fq by linarith+
  then show ?thesis by (simp add: word_less_nat_alt eq)
qed

section \<open>The back-off\<close>

text \<open>What is known of the floating point functions: rounding is monotone and exact on small integers
  and on one half; \<open>pow\<close> is monotone in its exponent, and exact for the exponent 1.\<close>

definition rounding :: "(real \<Rightarrow> real) \<Rightarrow> bool" where
  "rounding rnd_dbl \<longleftrightarrow> mono rnd_dbl \<and> rnd_dbl (1 / 2) = 1 / 2 \<and> (\<forall>n :: nat. n < 2 ^ 53 \<longrightarrow> rnd_dbl (real n) = real n)"

definition power_function :: "(real \<Rightarrow> real \<Rightarrow> real) \<Rightarrow> bool" where
  "power_function pow \<longleftrightarrow> (\<forall>x \<ge> 1. mono (pow x) \<and> pow x 1 = x \<and> 0 \<le> pow x (1 / 2))"

lemma threshold_spec:
  assumes r: "rounding rnd_dbl" and p: "power_function pow" and t: "unat target < 2 ^ 16" "unat n \<le> 2 * unat target"
  shows "\<exists>th. nr_app_harvest_calculate_threshold rnd_dbl pow target n = Some th \<and> (unat n = 2 * unat target \<longrightarrow> th = 0)"
proof (cases "n = 0 \<or> target = 0 \<or> n < target")
  case True
  then show ?thesis by (auto simp: nr_app_harvest_calculate_threshold_def)
next
  case False
  define a b where ab: "a = unat target" "b = unat n"
  let ?t = "real a" and ?n = "real b"
  have le: "a < 2 ^ 16" "b \<le> 2 * a" "0 < a" "a \<le> b" using t False by (simp_all add: ab word_less_nat_alt unat_gt_0 not_less)
  have ex: "rnd_dbl (real k) = real k" if "k < 2 ^ 53" for k using r that by (simp add: rounding_def)
  have exact: "rnd_dbl ?t = ?t" "rnd_dbl ?n = ?n" using le by (simp_all add: ex)
  have r01: "rnd_dbl 0 = 0" "rnd_dbl 1 = 1" using ex [of 0] ex [of 1] by simp_all
  have m: "mono rnd_dbl" "rnd_dbl (1 / 2) = 1 / 2" using r unfolding rounding_def by blast+
  have pos: "1 \<le> ?t" "?t \<le> ?n" "?n \<le> 2 * ?t" using le(2-4) by linarith+
  let ?y = "rnd_dbl (?t / ?n)"
  have "1 / 2 \<le> ?t / ?n" "?t / ?n \<le> 1" using pos by (simp_all add: field_simps)
  then have y: "1 / 2 \<le> ?y" "?y \<le> 1" using monoD [OF m(1)] m(2) r01(2) by metis+
  have pw: "pow ?t (1 / 2) \<le> pow ?t ?y" "pow ?t ?y \<le> ?t" "0 \<le> pow ?t (1 / 2)"
    using p pos(1) y unfolding power_function_def mono_def by metis+
  let ?d = "rnd_dbl (pow ?t ?y - pow ?t (1 / 2))"
  have "rnd_dbl 0 \<le> ?d" "?d \<le> rnd_dbl ?t" using pw by (auto intro!: monoD [OF m(1)])
  then have d: "0 \<le> ?d" "?d \<le> ?t" using exact r01 by simp_all
  have "nr_app_harvest_calculate_threshold rnd_dbl pow target n = to_uint64 ?d"
    using False exact unfolding nr_app_harvest_calculate_threshold_def Let_def ab [symmetric] by (simp only: if_False)
  moreover have "to_uint64 ?d = Some (of_int \<lfloor>?d\<rfloor>)" using d le(1) by (simp add: to_uint64_def)
  moreover have "?d = 0" if "b = 2 * a"
  proof -
    have "?t / ?n = 1 / 2" using that pos(1) by simp
    with m(2) have "?y = 1 / 2" by metis
    then show ?thesis using r01(1) by (simp only: diff_self)
  qed
  ultimately show ?thesis unfolding ab [symmetric] by auto
qed

section \<open>Sampling\<close>

definition harvest_ok :: "nr_app_harvest \<Rightarrow> bool" where
  "harvest_ok ah \<longleftrightarrow> unat (target_transactions_per_cycle ah) < 2 ^ 16
     \<and> unat (transactions_sampled ah) \<le> 2 * unat (target_transactions_per_cycle ah)"

lemma range_returns: "\<exists>x rnd'. nr_random_range (Some rnd) m = Some (x, Some rnd')"
  using rnd.answers [of "Some rnd" m] by auto

lemma roll_harvest_spec:
  assumes "rounding rnd_dbl" and "power_function pow" and "harvest_ok ah"
  shows "\<exists>ah'. roll_harvest rnd_dbl pow ah now = Some ah' \<and> harvest_ok ah' \<and> (now < next_harvest ah \<longrightarrow> ah' = ah)
    \<and> target_transactions_per_cycle ah' = target_transactions_per_cycle ah"
  using threshold_spec [OF assms(1,2), of "target_transactions_per_cycle ah" "transactions_sampled ah"] assms(3)
  by (auto simp: roll_harvest_def harvest_ok_def Let_def)

lemma sampled_Suc:
  assumes "harvest_ok ah" and "unat (transactions_sampled ah) < 2 * unat (target_transactions_per_cycle ah)"
  shows "unat (transactions_sampled ah + 1) = Suc (unat (transactions_sampled ah))"
  using assms by (intro unat_plus1_eq) (simp add: harvest_ok_def)

lemma should_sample_spec:
  assumes fp: "rounding rnd_dbl" "power_function pow" and ok: "harvest_ok ah"
  shows "\<exists>d ah' rnd'. nr_app_harvest_private_should_sample rnd_dbl pow (Some ah) (Some rnd) now = Some (d, Some ah', Some rnd')
    \<and> harvest_ok ah' \<and> target_transactions_per_cycle ah' = target_transactions_per_cycle ah
    \<and> (now < next_harvest ah \<longrightarrow> next_harvest ah' = next_harvest ah
        \<and> unat (transactions_sampled ah') = unat (transactions_sampled ah) + (if d then 1 else 0))"
proof -
  from roll_harvest_spec [OF fp ok, of now] obtain ah1 where
    ah1: "roll_harvest rnd_dbl pow ah now = Some ah1" "harvest_ok ah1" "now < next_harvest ah \<longrightarrow> ah1 = ah"
      "target_transactions_per_cycle ah1 = target_transactions_per_cycle ah" by blast
  define ah2 where "ah2 = ah1\<lparr>transactions_seen := transactions_seen ah1 + 1\<rparr>"
  let ?t = "target_transactions_per_cycle ah2" and ?n = "transactions_sampled ah2"
  have ok2: "harvest_ok ah2" "?t = target_transactions_per_cycle ah" "next_harvest ah2 = next_harvest ah1"
    "?n = transactions_sampled ah1"
    using ah1 by (simp_all add: ah2_def harvest_ok_def)
  have sample: "harvest_ok (ah2\<lparr>threshold := th, transactions_sampled := ?n + 1\<rparr>)" "unat (?n + 1) = unat ?n + 1"
      "harvest_ok (ah2\<lparr>transactions_sampled := ?n + 1\<rparr>)" "harvest_ok (ah2\<lparr>threshold := th\<rparr>)"
    if "unat ?n < 2 * unat ?t" for th
    using sampled_Suc [OF ok2(1) that] that ok2(1) by (simp_all add: harvest_ok_def)
  have th_ok: "harvest_ok (ah2\<lparr>threshold := th\<rparr>)" for th using ok2(1) by (simp add: harvest_ok_def)
  have below: "unat ?n < 2 * unat ?t" if "?n < ?t" using that by (simp add: word_less_nat_alt)
  have step: "nr_app_harvest_private_should_sample rnd_dbl pow (Some ah) (Some rnd) now =
    (if nr_app_harvest_is_first (Some ah2) now
     then Some (if ?n < ?t then (True, Some (ah2\<lparr>transactions_sampled := ?n + 1\<rparr>), Some rnd) else (False, Some ah2, Some rnd))
     else if ?n < ?t
     then Option.bind (nr_random_range (Some rnd) (unat (prev_transactions_seen ah2))) (\<lambda>(x, rnd).
       Some (if x < unat ?t then (True, Some (ah2\<lparr>transactions_sampled := ?n + 1\<rparr>), rnd) else (False, Some ah2, rnd)))
     else Option.bind (nr_app_harvest_calculate_threshold rnd_dbl pow ?t ?n) (\<lambda>th.
       Option.bind (nr_random_range (Some rnd) (unat (transactions_seen ah2))) (\<lambda>(x, rnd).
         Some (if x < unat th then (True, Some (ah2\<lparr>threshold := th, transactions_sampled := ?n + 1\<rparr>), rnd)
               else (False, Some (ah2\<lparr>threshold := th\<rparr>), rnd)))))"
    unfolding nr_app_harvest_private_should_sample_def option.case ah1(1) bind.bind_lunit Let_def ah2_def [symmetric]
    by (simp cong: if_cong prod.case_cong)
  obtain x1 r1 where x1: "nr_random_range (Some rnd) (unat (prev_transactions_seen ah2)) = Some (x1, Some r1)"
    using range_returns by blast
  obtain x2 r2 where x2: "nr_random_range (Some rnd) (unat (transactions_seen ah2)) = Some (x2, Some r2)"
    using range_returns by blast
  from threshold_spec [OF fp, of ?t ?n] ok2(1) obtain th where
    th: "nr_app_harvest_calculate_threshold rnd_dbl pow ?t ?n = Some th" "unat ?n = 2 * unat ?t \<longrightarrow> th = 0"
    unfolding harvest_ok_def by blast
  have above: "unat ?n < 2 * unat ?t" if "x2 < unat th"
  proof (rule ccontr)
    assume "\<not> ?thesis"
    with ok2(1) have "unat ?n = 2 * unat ?t" by (simp add: harvest_ok_def)
    with th(2) that show False by simp
  qed
  show ?thesis unfolding step x1 x2 th(1) bind.bind_lunit prod.case
    using sample below above th_ok ok2 ah1(3) by auto
qed

fun sample_all :: "(real \<Rightarrow> real) \<Rightarrow> (real \<Rightarrow> real \<Rightarrow> real) \<Rightarrow> nr_app_harvest ptr \<Rightarrow> nr_random ptr \<Rightarrow> uint64 list
    \<Rightarrow> (bool list \<times> nr_app_harvest ptr \<times> nr_random ptr) option" where
  "sample_all rnd_dbl pow ah rnd [] = Some ([], ah, rnd)"
| "sample_all rnd_dbl pow ah rnd (now # ts) = do {
     (d, ah, rnd) \<leftarrow> nr_app_harvest_private_should_sample rnd_dbl pow ah rnd now;
     (ds, ah, rnd) \<leftarrow> sample_all rnd_dbl pow ah rnd ts;
     Some (d # ds, ah, rnd)
   }"


definition example_harvest :: nr_app_harvest where
  "example_harvest = \<lparr>connect_timestamp = 0, frequency = 60, target_transactions_per_cycle = 10, next_harvest = 60,
     threshold = 0, prev_transactions_seen = 0, transactions_seen = 0, transactions_sampled = 0\<rparr>"


text \<open>Initializing starts a cycle afresh when the connection or the frequency has changed.\<close>

lemma private_init_ok:
  assumes "connect \<noteq> connect_timestamp ah \<or> freq \<noteq> frequency ah"
  shows "\<exists>ah'. nr_app_harvest_private_init (Some ah) connect freq target now = Some ah' \<and> harvest_ok ah'
    \<and> transactions_sampled ah' = 0"
proof -
  have "unat target < 2 ^ 16" using unsigned_less [of target, where 'a = nat] by simp
  moreover have "unat (ucast target :: 64 word) \<le> unat target" by (simp add: unsigned_ucast_eq take_bit_nat_less_eq_self)
  ultimately have "unat (ucast target :: 64 word) < 2 ^ 16" by (rule le_less_trans [rotated])
  with assms show ?thesis by (auto simp: nr_app_harvest_private_init_def harvest_ok_def Let_def)
qed

text \<open>A change of the target alone keeps the counters, after which the conversion can be undefined.\<close>

lemma threshold_undefined: "nr_app_harvest_calculate_threshold id (powr) 100 300 = None"
proof -
  have "(100 :: real) powr (1 / 3) \<le> 125 powr (1 / 3)" by (intro powr_mono2) simp_all
  also have "(125 :: real) powr (1 / 3) = 5" using powr_powr [of 5 3 "1 / 3"] by simp
  finally have "(100 :: real) powr (1 / 3) - 100 powr (1 / 2) \<le> -1" by (simp add: powr_half_sqrt)
  then show ?thesis by (simp add: nr_app_harvest_calculate_threshold_def to_uint64_def Let_def)
qed

end
