(* ===== verification/SlowSql.thy ===== *)
theory SlowSql
  imports Object
begin

text \<open>
  The store of slow SQL statements (\<^verbatim>\<open>axiom/nr_slowsqls.c\<close>): statements with the same normal form
  are aggregated, and a full store keeps the slowest. A statement is identified by the hash of
  its obfuscated and normalized text (\<open>Sql\<close>), and its parameters are printed as JSON
  (\<open>Object\<close>). Durations are 64 bits wide and their sum wraps around; a counter that leaves the
  range of an \<^verbatim>\<open>int\<close> is \<open>None\<close>, like an access outside of the memory.
\<close>

section \<open>The code\<close>

record nr_slowsql =
  slow_metric_name :: string
  slow_sql_id :: uint32
  slow_count :: nat
  slow_total :: uint64
  slow_min_time :: uint64
  slow_max_time :: uint64
  slow_params_json :: string
  slow_sql :: string

text \<open>The number of statements in use is the length of the list.\<close>

record nr_slowsqls =
  max_slowsqls :: nat
  slowsqls :: "nr_slowsql list"

record nr_datastore_instance =
  inst_host :: "string ptr"
  inst_port_path_or_id :: "string ptr"
  inst_database_name :: "string ptr"

record nr_slowsqls_params =
  par_sql :: "string ptr"
  par_duration :: uint64
  par_stacktrace_json :: "string ptr"
  par_metric_name :: "string ptr"
  par_plan_json :: "string ptr"
  par_input_query_json :: "string ptr"
  par_instance :: "nr_datastore_instance ptr"
  par_instance_reporting_enabled :: bool
  par_database_name_reporting_enabled :: bool

definition nr_sql_id :: "string ptr \<Rightarrow> uint32 option" where
  "nr_sql_id sql = do {
     obfuscated \<leftarrow> nr_sql_obfuscate sql;
     (case obfuscated of None \<Rightarrow> Some 0 | Some _ \<Rightarrow> nr_sql_normalized_id obfuscated)
   }"

definition nr_slowsql_id :: "nr_slowsql ptr \<Rightarrow> uint32" where
  "nr_slowsql_id slow = (case slow of None \<Rightarrow> 0 | Some s \<Rightarrow> slow_sql_id s)"

definition nr_slowsql_count :: "nr_slowsql ptr \<Rightarrow> nat" where
  "nr_slowsql_count slow = (case slow of None \<Rightarrow> 0 | Some s \<Rightarrow> slow_count s)"

definition nr_slowsql_min :: "nr_slowsql ptr \<Rightarrow> uint64" where
  "nr_slowsql_min slow = (case slow of None \<Rightarrow> 0 | Some s \<Rightarrow> slow_min_time s)"

definition nr_slowsql_max :: "nr_slowsql ptr \<Rightarrow> uint64" where
  "nr_slowsql_max slow = (case slow of None \<Rightarrow> 0 | Some s \<Rightarrow> slow_max_time s)"

definition nr_slowsql_total :: "nr_slowsql ptr \<Rightarrow> uint64" where
  "nr_slowsql_total slow = (case slow of None \<Rightarrow> 0 | Some s \<Rightarrow> slow_total s)"

definition nr_slowsql_metric :: "nr_slowsql ptr \<Rightarrow> string ptr" where
  "nr_slowsql_metric slow = map_option slow_metric_name slow"

definition nr_slowsql_query :: "nr_slowsql ptr \<Rightarrow> string ptr" where
  "nr_slowsql_query slow = map_option slow_sql slow"

definition nr_slowsql_params :: "nr_slowsql ptr \<Rightarrow> string ptr" where
  "nr_slowsql_params slow = map_option slow_params_json slow"

definition nr_slowsql_dup :: "nr_slowsql \<Rightarrow> nr_slowsql" where
  "nr_slowsql_dup orig =
     \<lparr>slow_metric_name = nr_strdup (Some (slow_metric_name orig)), slow_sql_id = slow_sql_id orig,
      slow_count = slow_count orig, slow_total = slow_total orig, slow_min_time = slow_min_time orig,
      slow_max_time = slow_max_time orig, slow_params_json = nr_strdup (Some (slow_params_json orig)),
      slow_sql = nr_strdup (Some (slow_sql orig))\<rparr>"

definition nr_slowsql_merge :: "nr_slowsql \<Rightarrow> nr_slowsql \<Rightarrow> nr_slowsql option" where
  "nr_slowsql_merge dest src =
     (if slow_count dest + slow_count src < 2 ^ 31 then
        let dest = dest\<lparr>slow_count := slow_count dest + slow_count src, slow_total := slow_total dest + slow_total src\<rparr>;
            dest = (if slow_min_time src < slow_min_time dest then dest\<lparr>slow_min_time := slow_min_time src\<rparr> else dest);
            dest = (if slow_max_time src > slow_max_time dest
                    then dest\<lparr>slow_max_time := slow_max_time src, slow_metric_name := nr_strdup (Some (slow_metric_name src)),
                           slow_sql := nr_strdup (Some (slow_sql src)),
                           slow_params_json := nr_strdup (Some (slow_params_json src))\<rparr>
                    else dest)
        in Some dest
      else None)"

text \<open>Destroying frees the strings of every statement; the statements freed are returned.\<close>

definition nr_slowsqls_destroy :: "nr_slowsqls ptr ptr \<Rightarrow> nr_slowsql list \<times> nr_slowsqls ptr ptr" where
  "nr_slowsqls_destroy slowsqls_ptr =
     (case slowsqls_ptr of Some (Some s) \<Rightarrow> (slowsqls s, Some NULL) | _ \<Rightarrow> ([], slowsqls_ptr))"

definition nr_slowsqls_create :: "int \<Rightarrow> nr_slowsqls ptr" where
  "nr_slowsqls_create limit =
     (if limit \<le> 0 then NULL else Some \<lparr>max_slowsqls = nat limit, slowsqls = []\<rparr>)"

definition nr_slowsqls_saved :: "nr_slowsqls ptr \<Rightarrow> nat" where
  "nr_slowsqls_saved s = (case s of None \<Rightarrow> 0 | Some s \<Rightarrow> length (slowsqls s))"

definition nr_slowsqls_at :: "nr_slowsqls ptr \<Rightarrow> int \<Rightarrow> nr_slowsql ptr" where
  "nr_slowsqls_at s i =
     (case s of None \<Rightarrow> NULL
      | Some s \<Rightarrow> if i < 0 then NULL else if i \<ge> int (length (slowsqls s)) then NULL else Some (slowsqls s ! nat i))"

text \<open>The loops: the first statement with an identifier, and the first with the smallest maximum.\<close>

fun find_sql_id :: "nr_slowsql list \<Rightarrow> uint32 \<Rightarrow> nat \<Rightarrow> nat option" where
  "find_sql_id [] i n = None"
| "find_sql_id (s # ss) i n = (if i = slow_sql_id s then Some n else find_sql_id ss i (n + 1))"

fun smallest_max :: "nr_slowsql list \<Rightarrow> nat \<Rightarrow> uint64 \<times> nat \<Rightarrow> uint64 \<times> nat" where
  "smallest_max [] i r = r"
| "smallest_max (s # ss) i r = smallest_max ss (i + 1) (if slow_max_time s < fst r then (slow_max_time s, i) else r)"

definition nr_slowsqls_add_internal :: "nr_slowsqls ptr \<Rightarrow> nr_slowsql ptr \<Rightarrow> nr_slowsqls ptr option" where
  "nr_slowsqls_add_internal store slowp =
     (case (store, slowp) of
        (Some s, Some slow) \<Rightarrow>
          (case find_sql_id (slowsqls s) (slow_sql_id slow) 0 of
             Some i \<Rightarrow> do {
               merged \<leftarrow> nr_slowsql_merge (slowsqls s ! i) slow;
               Some (Some (s\<lparr>slowsqls := (slowsqls s)[i := merged]\<rparr>))
             }
           | None \<Rightarrow>
               if length (slowsqls s) < max_slowsqls s
               then Some (Some (s\<lparr>slowsqls := slowsqls s @ [nr_slowsql_dup slow]\<rparr>))
               else (case slowsqls s of [] \<Rightarrow> None
                     | e # es \<Rightarrow>
                         (case smallest_max es 1 (slow_max_time e, 0) of
                            (smallest_max_time, smallest_max_idx) \<Rightarrow>
                              if slow_max_time slow < smallest_max_time then Some store
                              else Some (Some (s\<lparr>slowsqls := (slowsqls s)[smallest_max_idx := nr_slowsql_dup slow]\<rparr>)))))
      | _ \<Rightarrow> Some store)"

text \<open>The object of the parameters; there are no floating point numbers in it.\<close>

definition nr_slowsqls_params_hash :: "nr_slowsqls_params \<Rightarrow> unit nrobj ptr" where
  "nr_slowsqls_params_hash params =
     (let obj = Some nro_new_hash;
          obj = (if par_plan_json params \<noteq> NULL \<and> par_plan_json params \<noteq> Some []
                 then snd (nro_set_hash_jstring obj (Some ''explain_plan'') (par_plan_json params)) else obj);
          obj = (if par_stacktrace_json params \<noteq> NULL
                 then snd (nro_set_hash_jstring obj (Some ''backtrace'') (par_stacktrace_json params)) else obj);
          obj = (if par_input_query_json params \<noteq> NULL
                 then snd (nro_set_hash_jstring obj (Some ''input_query'') (par_input_query_json params)) else obj)
      in case par_instance params of
           None \<Rightarrow> obj
         | Some inst \<Rightarrow>
             let obj = (if par_instance_reporting_enabled params
                        then snd (nro_set_hash_string (snd (nro_set_hash_string obj (Some ''host'') (inst_host inst)))
                               (Some ''port_path_or_id'') (inst_port_path_or_id inst)) else obj)
             in if par_database_name_reporting_enabled params
                then snd (nro_set_hash_string obj (Some ''database_name'') (inst_database_name inst)) else obj)"

definition nr_slowsqls_create_params_json :: "nr_slowsqls_params \<Rightarrow> string option" where
  "nr_slowsqls_create_params_json params = nro_to_json (\<lambda>_. []) (nr_slowsqls_params_hash params)"

definition nr_slowsqls_add :: "nr_slowsqls ptr \<Rightarrow> nr_slowsqls_params ptr \<Rightarrow> nr_slowsqls ptr option" where
  "nr_slowsqls_add store paramsp =
     (case paramsp of None \<Rightarrow> Some store
      | Some params \<Rightarrow>
          if store = NULL \<or> par_sql params = NULL \<or> par_stacktrace_json params = NULL
            \<or> par_metric_name params = NULL \<or> par_duration params = 0
          then Some store
          else do {
            sql_id \<leftarrow> nr_sql_id (par_sql params);
            if sql_id = 0 then Some store
            else do {
              params_json \<leftarrow> nr_slowsqls_create_params_json params;
              nr_slowsqls_add_internal store
                (Some \<lparr>slow_metric_name = nr_strdup (par_metric_name params), slow_sql_id = sql_id, slow_count = 1,
                   slow_total = par_duration params, slow_min_time = par_duration params,
                   slow_max_time = par_duration params, slow_params_json = params_json,
                   slow_sql = nr_strdup (par_sql params)\<rparr>)
            }
          })"

section \<open>The loops\<close>

lemma find_sql_id_None: "find_sql_id ss i n = None \<longleftrightarrow> i \<notin> slow_sql_id ` set ss"
  by (induction ss i n rule: find_sql_id.induct) auto

lemma find_sql_id_Some: "find_sql_id ss i n = Some k \<Longrightarrow> n \<le> k \<and> k - n < length ss \<and> slow_sql_id (ss ! (k - n)) = i"
proof (induction ss i n rule: find_sql_id.induct)
  case (2 s ss i n)
  then show ?case
  proof (cases "i = slow_sql_id s")
    case False
    with 2 have "Suc n \<le> k" "k - Suc n < length ss" "slow_sql_id (ss ! (k - Suc n)) = i" by auto
    moreover from \<open>Suc n \<le> k\<close> have "k - n = Suc (k - Suc n)" by simp
    ultimately show ?thesis by simp
  qed auto
qed simp

lemma smallest_max_spec:
  assumes "k < i" "i + length ss = length es" "ss = drop i es" "slow_max_time (es ! k) = t"
    and "\<forall>e \<in> set (take i es). t \<le> slow_max_time e"
  shows "\<exists>t' k'. smallest_max ss i (t, k) = (t', k') \<and> k' < length es \<and> slow_max_time (es ! k') = t'
    \<and> (\<forall>e \<in> set es. t' \<le> slow_max_time e)"
  using assms
proof (induction ss arbitrary: i t k)
  case (Cons s ss)
  have d: "drop i es = s # ss" using Cons.prems(3) by (rule sym)
  have l: "i < length es" using Cons.prems(2) by simp
  have i: "i < length es" "s = es ! i" "ss = drop (Suc i) es" "take (Suc i) es = take i es @ [s]"
  proof -
    show "ss = drop (Suc i) es" by (simp add: drop_Suc d flip: tl_drop)
  qed (use l nth_via_drop [OF d] in \<open>simp_all add: take_Suc_conv_app_nth\<close>)
  show ?case
  proof (cases "slow_max_time s < t")
    case True
    then have "\<forall>e \<in> set (take (Suc i) es). slow_max_time s \<le> slow_max_time e" using Cons.prems(5) i(4) by fastforce
    then have "\<exists>t' k'. smallest_max ss (Suc i) (slow_max_time s, i) = (t', k') \<and> k' < length es \<and> slow_max_time (es ! k') = t'
        \<and> (\<forall>e \<in> set es. t' \<le> slow_max_time e)"
      by (intro Cons.IH) (use Cons.prems(2) i in simp_all)
    with True show ?thesis by (simp del: ex_simps)
  next
    case False
    then have "\<forall>e \<in> set (take (Suc i) es). t \<le> slow_max_time e" using Cons.prems(5) i(4) by fastforce
    then have "\<exists>t' k'. smallest_max ss (Suc i) (t, k) = (t', k') \<and> k' < length es \<and> slow_max_time (es ! k') = t'
        \<and> (\<forall>e \<in> set es. t' \<le> slow_max_time e)"
      by (intro Cons.IH) (use Cons.prems(1,2,4) i in simp_all)
    with False show ?thesis by (simp del: ex_simps)
  qed
qed auto

section \<open>The parameters\<close>

definition short :: "string ptr \<Rightarrow> bool" where
  "short p \<longleftrightarrow> (\<forall>s \<in> set_option p. length s < 2 ^ 20 \<and> CHR 0x00 \<notin> set s)"

definition member_text :: "string \<Rightarrow> unit nrobj \<Rightarrow> string" where
  "member_text k v = nr_json_escape (Some k) @ '':'' @ json_text (\<lambda>_. []) v"

definition member_ok :: "string \<Rightarrow> unit nrobj \<Rightarrow> bool" where
  "member_ok k v \<longleftrightarrow> k \<noteq> [] \<and> length (member_text k v) \<le> 2 ^ 23 \<and> CHR 0x00 \<notin> set (member_text k v)"

definition small_hash :: "nat \<Rightarrow> unit nrobj ptr \<Rightarrow> bool" where
  "small_hash n obj \<longleftrightarrow> (\<exists>allocated es. obj = Some (Obj_Hash allocated es) \<and> length es \<le> n \<and> (\<forall>(k, v) \<in> set es. member_ok k v))"

lemma member_ok_string:
  assumes "short p" and "k \<noteq> []" and "length k \<le> 20"
  shows "member_ok k (nro_new_string p)" "member_ok k (nro_new_jstring p)"
proof -
  have s: "length (nr_strdup p) < 2 ^ 20" "CHR 0x00 \<notin> set (nr_strdup p)"
    using assms(1) by (auto simp: short_def nr_strdup_def split: option.splits)
  show "member_ok k (nro_new_string p)" "member_ok k (nro_new_jstring p)"
    using s assms(2,3) escape_length [of k] escape_length [of "nr_strdup p"] escape_no_NUL [of k] escape_no_NUL [of "nr_strdup p"]
    by (simp_all add: member_ok_def member_text_def nro_new_string_def nro_new_jstring_def)
qed

lemma small_hash_set:
  assumes "small_hash n obj" and "member_ok k v"
  shows "small_hash (Suc n) (snd (nro_internal_setvalue_hash obj (Some k) (Some v)))"
proof -
  from assms(1) obtain allocated es where
    es: "obj = Some (Obj_Hash allocated es)" "length es \<le> n" "\<forall>(k, v) \<in> set es. member_ok k v" by (auto simp: small_hash_def)
  have k: "k \<noteq> []" using assms(2) by (simp add: member_ok_def)
  show ?thesis
  proof (cases "k \<in> fst ` set es")
    case True
    with key_index_spec [of k es 0] obtain j where
      j: "j < length es" "key_index es k 0 = int j" "fst (es ! j) = k" by auto
    have "set (es[j := (k, v)]) \<subseteq> insert (k, v) (set es)" by (rule set_update_subset_insert)
    with es assms(2) have "\<forall>(k, v) \<in> set (es[j := (k, v)]). member_ok k v" by blast
    with es k j show ?thesis
      by (simp add: small_hash_def nro_internal_setvalue_hash_def nro_find_key_in_hash_def)
  next
    case False
    with key_index_spec [of k es 0] have "key_index es k 0 = -2" by simp
    with es k assms(2) show ?thesis
      by (simp add: small_hash_def nro_internal_setvalue_hash_def nro_find_key_in_hash_def nr_strdup_def)
  qed
qed

lemma small_hash_mono: "small_hash n obj \<Longrightarrow> n \<le> m \<Longrightarrow> small_hash m obj"
  by (auto simp: small_hash_def)

definition params_short :: "nr_slowsqls_params \<Rightarrow> bool" where
  "params_short p \<longleftrightarrow> short (par_plan_json p) \<and> short (par_stacktrace_json p) \<and> short (par_input_query_json p)
     \<and> (\<forall>i \<in> set_option (par_instance p). short (inst_host i) \<and> short (inst_port_path_or_id i) \<and> short (inst_database_name i))"

lemma params_hash_small: "params_short p \<Longrightarrow> small_hash 6 (nr_slowsqls_params_hash p)"
proof -
  assume p: "params_short p"
  have new: "small_hash 0 (Some nro_new_hash)" by (simp add: small_hash_def nro_new_hash_def)
  have j: "small_hash (Suc n) (if c then snd (nro_set_hash_jstring obj (Some k) q) else obj)"
    if "small_hash n obj" "short q" "k \<noteq> []" "length k \<le> 20" for n c obj k q
    using small_hash_set [OF that(1) member_ok_string(2) [OF that(2-4)]] small_hash_mono [OF that(1)]
    by (simp add: nro_set_hash_jstring_def)
  have s: "small_hash (Suc n) (snd (nro_set_hash_string obj (Some k) q))"
    if "small_hash n obj" "short q" "k \<noteq> []" "length k \<le> 20" for n obj k q
    using small_hash_set [OF that(1) member_ok_string(1) [OF that(2-4)]] by (simp add: nro_set_hash_string_def)
  define obj1 :: "unit nrobj ptr" where "obj1 = (if par_plan_json p \<noteq> NULL \<and> par_plan_json p \<noteq> Some []
     then snd (nro_set_hash_jstring (Some nro_new_hash) (Some ''explain_plan'') (par_plan_json p)) else Some nro_new_hash)"
  define obj2 where "obj2 = (if par_stacktrace_json p \<noteq> NULL
     then snd (nro_set_hash_jstring obj1 (Some ''backtrace'') (par_stacktrace_json p)) else obj1)"
  define obj3 where "obj3 = (if par_input_query_json p \<noteq> NULL
     then snd (nro_set_hash_jstring obj2 (Some ''input_query'') (par_input_query_json p)) else obj2)"
  have "small_hash (Suc 0) obj1" unfolding obj1_def by (rule j [OF new]) (use p in \<open>simp_all add: params_short_def\<close>)
  then have "small_hash (Suc (Suc 0)) obj2" unfolding obj2_def by (rule j) (use p in \<open>simp_all add: params_short_def\<close>)
  then have o3: "small_hash (Suc (Suc (Suc 0))) obj3" unfolding obj3_def by (rule j) (use p in \<open>simp_all add: params_short_def\<close>)
  have eq: "nr_slowsqls_params_hash p = (case par_instance p of None \<Rightarrow> obj3
         | Some inst \<Rightarrow>
             let obj = (if par_instance_reporting_enabled p
                        then snd (nro_set_hash_string (snd (nro_set_hash_string obj3 (Some ''host'') (inst_host inst)))
                               (Some ''port_path_or_id'') (inst_port_path_or_id inst)) else obj3)
             in if par_database_name_reporting_enabled p
                then snd (nro_set_hash_string obj (Some ''database_name'') (inst_database_name inst)) else obj)"
    unfolding nr_slowsqls_params_hash_def Let_def obj1_def obj2_def obj3_def ..
  show ?thesis
  proof (cases "par_instance p")
    case None
    with eq o3 show ?thesis by (simp add: small_hash_mono)
  next
    case (Some inst)
    define obj4 where "obj4 = (if par_instance_reporting_enabled p
       then snd (nro_set_hash_string (snd (nro_set_hash_string obj3 (Some ''host'') (inst_host inst)))
              (Some ''port_path_or_id'') (inst_port_path_or_id inst)) else obj3)"
    have short: "short (inst_host inst)" "short (inst_port_path_or_id inst)" "short (inst_database_name inst)"
      using p Some by (simp_all add: params_short_def)
    have "small_hash 5 (snd (nro_set_hash_string (snd (nro_set_hash_string obj3 (Some ''host'') (inst_host inst)))
              (Some ''port_path_or_id'') (inst_port_path_or_id inst)))"
      using s [OF s [OF o3 short(1), of "''host''"] short(2), of "''port_path_or_id''"] by (simp add: numeral_eq_Suc)
    then have o4: "small_hash 5 obj4" using small_hash_mono [OF o3, of 5] by (simp add: obj4_def)
    have "nr_slowsqls_params_hash p = (if par_database_name_reporting_enabled p
        then snd (nro_set_hash_string obj4 (Some ''database_name'') (inst_database_name inst)) else obj4)"
      using eq by (simp add: Some obj4_def Let_def)
    with s [OF o4 short(3), of "''database_name''"] small_hash_mono [OF o4, of 6] show ?thesis by simp
  qed
qed

lemma join_text:
  assumes "\<forall>x \<in> set xs. length x \<le> n \<and> CHR 0x00 \<notin> set x"
  shows "length (join xs) \<le> length xs * (n + 1) \<and> CHR 0x00 \<notin> set (join xs)"
  using assms by (induction xs) auto

lemma params_json_returns: "params_short p \<Longrightarrow> \<exists>json. nr_slowsqls_create_params_json p = Some json"
proof -
  assume "params_short p"
  from params_hash_small [OF this] obtain allocated es where
    es: "nr_slowsqls_params_hash p = Some (Obj_Hash allocated es)" "length es \<le> 6" "\<forall>(k, v) \<in> set es. member_ok k v"
    by (auto simp: small_hash_def)
  let ?xs = "map (\<lambda>(k, v). nr_json_escape (Some k) @ '':'' @ json_text (\<lambda>_. []) v) es"
  have "\<forall>x \<in> set ?xs. length x \<le> 2 ^ 23 \<and> CHR 0x00 \<notin> set x" using es(3) by (auto simp: member_ok_def member_text_def)
  from join_text [OF this] es(2) have "length (join ?xs) \<le> 6 * (2 ^ 23 + 1)" "CHR 0x00 \<notin> set (join ?xs)"
    by (auto intro: order_trans [OF _ mult_le_mono1])
  then have "nro_to_json (\<lambda>_. []) (Some (Obj_Hash allocated es)) = Some (json_text (\<lambda>_. []) (Obj_Hash allocated es))"
    by (intro nro_to_json_spec) simp_all
  with es(1) show ?thesis by (simp add: nr_slowsqls_create_params_json_def)
qed

section \<open>The store\<close>

text \<open>What the store holds after statements with identifier, duration and text \<open>H\<close> have been added.\<close>

definition covers :: "nr_slowsqls \<Rightarrow> uint32 \<Rightarrow> uint64 \<Rightarrow> bool" where
  "covers s i d \<longleftrightarrow> (\<exists>e \<in> set (slowsqls s). slow_sql_id e = i \<and> d \<le> slow_max_time e)
     \<or> length (slowsqls s) = max_slowsqls s \<and> (\<forall>e \<in> set (slowsqls s). d \<le> slow_max_time e)"

definition store_inv :: "(uint32 \<times> uint64 \<times> string) list \<Rightarrow> nr_slowsqls \<Rightarrow> bool" where
  "store_inv H s \<longleftrightarrow> 0 < max_slowsqls s \<and> length (slowsqls s) \<le> max_slowsqls s \<and> distinct (map slow_sql_id (slowsqls s))
     \<and> (\<forall>e \<in> set (slowsqls s). (slow_sql_id e, slow_max_time e, slow_sql e) \<in> set H \<and> slow_count e \<le> length H)
     \<and> (\<forall>(i, d, q) \<in> set H. covers s i d)"

lemma merge_spec:
  assumes "slow_count dest + slow_count src < 2 ^ 31"
  shows "\<exists>m. nr_slowsql_merge dest src = Some m \<and> slow_sql_id m = slow_sql_id dest
    \<and> slow_count m = slow_count dest + slow_count src \<and> slow_max_time m = max (slow_max_time dest) (slow_max_time src)
    \<and> slow_sql m = (if slow_max_time src > slow_max_time dest then slow_sql src else slow_sql dest)"
  using assms by (simp add: nr_slowsql_merge_def Let_def nr_strdup_def max_def not_le less_imp_le)

lemma dup_eq: "nr_slowsql_dup slow = slow"
  by (simp add: nr_slowsql_dup_def nr_strdup_def)

lemma covers_weaken:
  assumes "covers s i d" and "max_slowsqls s' = max_slowsqls s"
    and "\<And>e. e \<in> set (slowsqls s) \<Longrightarrow> slow_sql_id e = i \<Longrightarrow> d \<le> slow_max_time e \<Longrightarrow> covers s' i d"
    and "length (slowsqls s) = max_slowsqls s \<Longrightarrow> \<forall>e \<in> set (slowsqls s). d \<le> slow_max_time e \<Longrightarrow> covers s' i d"
  shows "covers s' i d"
  using assms unfolding covers_def by blast

text \<open>The three ways to change the store.\<close>

lemma store_inv_merge:
  assumes inv: "store_inv H s" and n: "n < length (slowsqls s)" and e: "e = slowsqls s ! n" "slow_sql_id e = i"
    and m: "slow_sql_id m = i" "slow_count m \<le> Suc (length H)" "slow_max_time m = max (slow_max_time e) d"
      "slow_sql m = (if d > slow_max_time e then q else slow_sql e)"
  shows "store_inv (H @ [(i, d, q)]) (s\<lparr>slowsqls := (slowsqls s)[n := m]\<rparr>)"
proof -
  let ?es = "slowsqls s" and ?s = "s\<lparr>slowsqls := (slowsqls s)[n := m]\<rparr>"
  have "map slow_sql_id (?es[n := m]) = map slow_sql_id ?es" using n e m(1) by (simp add: map_update list_update_same_conv)
  moreover have "(slow_sql_id x, slow_max_time x, slow_sql x) \<in> set (H @ [(i, d, q)]) \<and> slow_count x \<le> length (H @ [(i, d, q)])"
    if "x \<in> set (?es[n := m])" for x
  proof -
    have H: "(slow_sql_id y, slow_max_time y, slow_sql y) \<in> set H \<and> slow_count y \<le> length H" if "y \<in> set ?es" for y
      using inv that by (simp add: store_inv_def)
    have "e \<in> set ?es" using n e(1) by simp
    from that set_update_subset_insert [of ?es n m] consider "x = m" | "x \<in> set ?es" by blast
    then show ?thesis
    proof cases
      case 1
      with m H [OF \<open>e \<in> set ?es\<close>] e(2) show ?thesis by (auto simp: max_def)
    qed (use H in fastforce)
  qed
  moreover have "covers ?s j c" if "covers s j c" for j c
  proof (rule covers_weaken [OF that])
    have le: "\<exists>y \<in> set (?es[n := m]). slow_sql_id y = slow_sql_id x \<and> slow_max_time x \<le> slow_max_time y" if "x \<in> set ?es" for x
    proof -
      from that obtain k where k: "k < length ?es" "x = ?es ! k" by (auto simp: in_set_conv_nth)
      have "slow_sql_id (?es[n := m] ! k) = slow_sql_id x \<and> slow_max_time x \<le> slow_max_time (?es[n := m] ! k)"
        using k e m by (cases "k = n") auto
      moreover have "?es[n := m] ! k \<in> set (?es[n := m])" using k by (intro nth_mem) simp
      ultimately show ?thesis by blast
    qed
    show "covers ?s j c" if "x \<in> set ?es" "slow_sql_id x = j" "c \<le> slow_max_time x" for x
      using le [OF that(1)] that(2,3) by (fastforce simp: covers_def)
    show "covers ?s j c" if "length ?es = max_slowsqls s" "\<forall>x \<in> set ?es. c \<le> slow_max_time x"
    proof -
      have "c \<le> slow_max_time m" using that(2) n e(1) m(3) by (simp add: le_max_iff_disj)
      then show ?thesis using that set_update_subset_insert [of ?es n m] by (auto simp: covers_def)
    qed
  qed simp
  moreover have "covers ?s i d"
  proof -
    have "m \<in> set (?es[n := m])" using n by (simp add: set_update_memI)
    then show ?thesis using m(1,3) by (auto simp: covers_def)
  qed
  ultimately show ?thesis using inv by (fastforce simp: store_inv_def)
qed

lemma store_inv_append:
  assumes inv: "store_inv H s" and new: "slow_sql_id e \<notin> slow_sql_id ` set (slowsqls s)"
    and room: "length (slowsqls s) < max_slowsqls s" and c: "slow_count e \<le> Suc (length H)"
  shows "store_inv (H @ [(slow_sql_id e, slow_max_time e, slow_sql e)]) (s\<lparr>slowsqls := slowsqls s @ [e]\<rparr>)"
proof -
  let ?s = "s\<lparr>slowsqls := slowsqls s @ [e]\<rparr>"
  have "covers ?s i d" if "covers s i d" for i d using that room by (auto simp: covers_def)
  moreover have "covers ?s (slow_sql_id e) (slow_max_time e)" by (auto simp: covers_def)
  ultimately show ?thesis using inv new room c by (fastforce simp: store_inv_def)
qed

lemma store_inv_replace:
  assumes inv: "store_inv H s" and new: "slow_sql_id e \<notin> slow_sql_id ` set (slowsqls s)"
    and full: "length (slowsqls s) = max_slowsqls s" and n: "n < length (slowsqls s)"
    and least: "\<forall>x \<in> set (slowsqls s). slow_max_time (slowsqls s ! n) \<le> slow_max_time x"
    and e: "slow_max_time (slowsqls s ! n) \<le> slow_max_time e" "slow_count e \<le> Suc (length H)"
  shows "store_inv (H @ [(slow_sql_id e, slow_max_time e, slow_sql e)]) (s\<lparr>slowsqls := (slowsqls s)[n := e]\<rparr>)"
proof -
  let ?es = "slowsqls s" and ?s = "s\<lparr>slowsqls := (slowsqls s)[n := e]\<rparr>"
  have mem: "x = e \<or> x \<in> set ?es" if "x \<in> set (?es[n := e])" for x
    using that set_update_subset_insert [of ?es n e] by blast
  have low: "covers ?s j c" if "c \<le> slow_max_time (?es ! n)" for j c
  proof -
    have "c \<le> slow_max_time x" if "x \<in> set (?es[n := e])" for x
      using mem [OF that] least e(1) \<open>c \<le> slow_max_time (?es ! n)\<close> by (auto intro: order_trans)
    then show ?thesis using full by (simp add: covers_def)
  qed
  have "covers ?s j c" if "covers s j c" for j c
  proof (rule covers_weaken [OF that])
    show "covers ?s j c" if x: "x \<in> set ?es" "slow_sql_id x = j" "c \<le> slow_max_time x" for x
    proof (cases "x = ?es ! n")
      case True
      with x(3) show ?thesis by (intro low) simp
    next
      case False
      from x(1) obtain k where k: "k < length ?es" "x = ?es ! k" by (auto simp: in_set_conv_nth)
      with False have "x = ?es[n := e] ! k" by (metis nth_list_update_neq)
      moreover have "?es[n := e] ! k \<in> set (?es[n := e])" using k(1) by (intro nth_mem) simp
      ultimately have "x \<in> set (?es[n := e])" by (simp only:)
      with x show ?thesis by (auto simp: covers_def)
    qed
    show "covers ?s j c" if "\<forall>x \<in> set ?es. c \<le> slow_max_time x" using that n by (intro low) simp
  qed simp
  moreover have "covers ?s (slow_sql_id e) (slow_max_time e)"
    using set_update_memI [OF n, of e] by (auto simp: covers_def)
  moreover have "distinct (map slow_sql_id (?es[n := e]))"
    using inv new by (simp add: map_update store_inv_def distinct_list_update)
  ultimately show ?thesis using inv full e(2) mem unfolding store_inv_def by fastforce
qed

lemma add_internal_spec:
  assumes inv: "store_inv H s" and "Suc (length H) < 2 ^ 31" and "slow_count slow = 1"
  shows "\<exists>s'. nr_slowsqls_add_internal (Some s) (Some slow) = Some (Some s') \<and> max_slowsqls s' = max_slowsqls s
    \<and> store_inv (H @ [(slow_sql_id slow, slow_max_time slow, slow_sql slow)]) s'"
proof (cases "find_sql_id (slowsqls s) (slow_sql_id slow) 0")
  case (Some n)
  then have n: "n < length (slowsqls s)" "slow_sql_id (slowsqls s ! n) = slow_sql_id slow"
    using find_sql_id_Some [OF Some] by simp_all
  then have "slow_count (slowsqls s ! n) \<le> length H" using inv by (simp add: store_inv_def)
  then have c: "slow_count (slowsqls s ! n) + slow_count slow < 2 ^ 31" "slow_count (slowsqls s ! n) + slow_count slow \<le> Suc (length H)"
    using assms(2,3) by simp_all
  from merge_spec [OF c(1)] obtain m where
    m: "nr_slowsql_merge (slowsqls s ! n) slow = Some m" "slow_sql_id m = slow_sql_id slow" "slow_count m \<le> Suc (length H)"
      "slow_max_time m = max (slow_max_time (slowsqls s ! n)) (slow_max_time slow)"
      "slow_sql m = (if slow_max_time slow > slow_max_time (slowsqls s ! n) then slow_sql slow else slow_sql (slowsqls s ! n))"
    using n(2) c(2) by auto
  from store_inv_merge [OF inv n(1) refl n(2) m(2-5)] show ?thesis using Some m(1) by (simp add: nr_slowsqls_add_internal_def)
next
  case None
  then have new: "slow_sql_id slow \<notin> slow_sql_id ` set (slowsqls s)" by (simp add: find_sql_id_None)
  show ?thesis
  proof (cases "length (slowsqls s) < max_slowsqls s")
    case True
    with store_inv_append [OF inv new True] assms(3) None show ?thesis by (simp add: nr_slowsqls_add_internal_def dup_eq)
  next
    case False
    with inv have full: "length (slowsqls s) = max_slowsqls s" "slowsqls s \<noteq> []" by (auto simp: store_inv_def)
    then obtain e es where es: "slowsqls s = e # es" by (cases "slowsqls s") auto
    from smallest_max_spec [of 0 1 es "e # es" "slow_max_time e"] obtain t n where
      n: "smallest_max es 1 (slow_max_time e, 0) = (t, n)" "n < length (slowsqls s)" "slow_max_time (slowsqls s ! n) = t"
        "\<forall>x \<in> set (slowsqls s). t \<le> slow_max_time x" unfolding es by auto
    show ?thesis
    proof (cases "slow_max_time slow < t")
      case True
      have "covers s (slow_sql_id slow) (slow_max_time slow)" using full(1) n(4) True by (auto simp: covers_def)
      then have "store_inv (H @ [(slow_sql_id slow, slow_max_time slow, slow_sql slow)]) s"
        using inv by (fastforce simp: store_inv_def)
      with True None False es n(1) show ?thesis by (simp add: nr_slowsqls_add_internal_def)
    next
      case ge: False
      from store_inv_replace [OF inv new full(1) n(2)] n(3,4) ge assms(3)
      have "store_inv (H @ [(slow_sql_id slow, slow_max_time slow, slow_sql slow)]) (s\<lparr>slowsqls := (slowsqls s)[n := slow]\<rparr>)" by simp
      with ge None False es n(1) show ?thesis by (simp add: nr_slowsqls_add_internal_def dup_eq)
    qed
  qed
qed

section \<open>Adding statements\<close>

text \<open>The statement that is added: its identifier, duration and text.\<close>

definition statement_of :: "nr_slowsqls_params \<Rightarrow> (uint32 \<times> uint64 \<times> string) option" where
  "statement_of p =
     (if par_stacktrace_json p = NULL \<or> par_metric_name p = NULL \<or> par_duration p = 0 then None
      else case par_sql p of
             None \<Rightarrow> None
           | Some sql \<Rightarrow> (case nr_sql_id (Some sql) of
                           None \<Rightarrow> None | Some i \<Rightarrow> if i = 0 then None else Some (i, par_duration p, sql)))"

definition params_ok :: "nr_slowsqls_params \<Rightarrow> bool" where
  "params_ok p \<longleftrightarrow> nr_sql_id (par_sql p) \<noteq> None \<and> params_short p"

lemma nr_sql_id_returns:
  assumes "nr_sql_obfuscate (Some sql) = Some (Some out)" and "\<not> empty_parens out"
  shows "\<exists>i. nr_sql_id (Some sql) = Some i"
  using assms nr_sql_normalize_spec [of out]
  by (cases "out = []") (simp_all add: nr_sql_id_def nr_sql_normalized_id_def nr_sql_normalize_def)

definition list_of :: "'a option \<Rightarrow> 'a list" where
  "list_of x = (case x of None \<Rightarrow> [] | Some a \<Rightarrow> [a])"

lemma slowsqls_add_spec:
  assumes inv: "store_inv H s" and H: "Suc (length H) < 2 ^ 31" and ok: "params_ok p"
  shows "\<exists>s'. nr_slowsqls_add (Some s) (Some p) = Some (Some s') \<and> max_slowsqls s' = max_slowsqls s
    \<and> store_inv (H @ list_of (statement_of p)) s'"
proof (cases "statement_of p")
  case None
  have "nr_slowsqls_add (Some s) (Some p) = Some (Some s)"
  proof (cases "par_sql p")
    case (Some sql)
    with ok obtain i where "nr_sql_id (Some sql) = Some i" by (auto simp: params_ok_def)
    with None Some show ?thesis by (auto simp: statement_of_def nr_slowsqls_add_def split: if_splits)
  qed (simp add: nr_slowsqls_add_def)
  with inv None show ?thesis by (simp add: list_of_def)
next
  case (Some h)
  then obtain sql i where
    h: "par_sql p = Some sql" "nr_sql_id (Some sql) = Some i" "i \<noteq> 0" "h = (i, par_duration p, sql)"
      "par_stacktrace_json p \<noteq> NULL" "par_metric_name p \<noteq> NULL" "par_duration p \<noteq> 0"
    by (auto simp: statement_of_def split: if_splits option.splits)
  from ok params_json_returns [of p] obtain json where json: "nr_slowsqls_create_params_json p = Some json" by (auto simp: params_ok_def)
  let ?slow = "\<lparr>slow_metric_name = nr_strdup (par_metric_name p), slow_sql_id = i, slow_count = 1,
     slow_total = par_duration p, slow_min_time = par_duration p, slow_max_time = par_duration p,
     slow_params_json = json, slow_sql = nr_strdup (par_sql p)\<rparr>"
  have "nr_slowsqls_add (Some s) (Some p) = nr_slowsqls_add_internal (Some s) (Some ?slow)"
    using h json by (auto simp: nr_slowsqls_add_def)
  with add_internal_spec [OF inv H, of ?slow] h(1,4) Some show ?thesis by (simp add: list_of_def nr_strdup_def)
qed

fun add_all :: "nr_slowsqls ptr \<Rightarrow> nr_slowsqls_params list \<Rightarrow> nr_slowsqls ptr option" where
  "add_all store [] = Some store"
| "add_all store (p # ps) = Option.bind (nr_slowsqls_add store (Some p)) (\<lambda>store. add_all store ps)"

lemma add_all_spec:
  assumes "store_inv H s" and "length H + length ps < 2 ^ 31" and "\<forall>p \<in> set ps. params_ok p"
  shows "\<exists>s'. add_all (Some s) ps = Some (Some s') \<and> max_slowsqls s' = max_slowsqls s
    \<and> store_inv (H @ concat (map (\<lambda>p. list_of (statement_of p)) ps)) s'"
  using assms
proof (induction ps arbitrary: H s)
  case (Cons p ps)
  have "Suc (length H) < 2 ^ 31" "params_ok p" using Cons.prems(2,3) by simp_all
  from slowsqls_add_spec [OF Cons.prems(1) this] obtain s1 where
    s1: "nr_slowsqls_add (Some s) (Some p) = Some (Some s1)" "max_slowsqls s1 = max_slowsqls s"
      "store_inv (H @ list_of (statement_of p)) s1" by blast
  have "length (H @ list_of (statement_of p)) + length ps < 2 ^ 31" "\<forall>p \<in> set ps. params_ok p"
    using Cons.prems(2,3) by (auto simp: list_of_def split: option.splits)
  from Cons.IH [OF s1(3) this] s1(1,2) show ?case by simp
qed simp


definition example_params :: nr_slowsqls_params where
  "example_params = \<lparr>par_sql = Some ''x'', par_duration = 5, par_stacktrace_json = Some ''[]'', par_metric_name = Some ''m'',
     par_plan_json = NULL, par_input_query_json = NULL, par_instance = NULL, par_instance_reporting_enabled = False,
     par_database_name_reporting_enabled = False\<rparr>"


end
