(* ===== verification/Spec2Isabelle.thy ===== *)
theory Spec2Isabelle
  imports Finalize SegmentTotal Obfuscate SqlTable JsonParse Events AppHarvest SlowSql
begin

text \<open>
  Verification of the core of the New Relic PHP agent: the C library \<^verbatim>\<open>axiom\<close> under
  \<^verbatim>\<open>src/axiom\<close>, which records what a PHP request does. A transaction is a tree of timed
  segments. The agent starts a segment for every instrumented call, ends or discards it, and at
  the end of the request walks the tree once to compute the total time and to choose the
  segments that are reported. The tree lives in containers of the library's own (vectors,
  stacks, hash maps, a slab allocator, min-max heaps), and a mistake in any of them corrupts the
  memory of the web server it runs in, so the development starts there. Around the tree, the
  library samples transactions and events, obfuscates and groups SQL statements, and moves
  structured values to and from JSON.

  \<^bold>\<open>Theories and sources.\<close>
  \<^item> \<open>Prelude\<close>: NULL pointers as options, machine integers, memory primitives, shared lemmas.
  \<^item> \<open>Vector\<close>, \<open>Stack\<close>, \<open>Sort\<close>: \<^verbatim>\<open>util_vector.c\<close>, \<^verbatim>\<open>util_stack.c\<close>, \<^verbatim>\<open>util_sort.c\<close>.
  \<^item> \<open>MinMaxHeap\<close>, \<open>MinMaxHeap_Order\<close>, \<open>MinMaxHeap_Correct\<close>: \<^verbatim>\<open>util_minmax_heap.c\<close>; the
    operations, the order they restore level by level, and their contract.
  \<^item> \<open>ExclusiveTime\<close>: \<^verbatim>\<open>nr_exclusive_time.c\<close>.
  \<^item> \<open>Hash\<close>, \<open>HashTree\<close>, \<open>Hashmap\<close>: \<^verbatim>\<open>util_hash.c\<close>, the trees in arrays that the tables share,
    \<^verbatim>\<open>util_hashmap.c\<close>.
  \<^item> \<open>StringPool\<close>, \<open>Metrics\<close>: \<^verbatim>\<open>util_string_pool.c\<close>, \<^verbatim>\<open>util_metrics.c\<close>.
  \<^item> \<open>Slab\<close>: \<^verbatim>\<open>util_slab.c\<close>.
  \<^item> \<open>SpanQueue\<close>: \<^verbatim>\<open>nr_span_queue.c\<close>.
  \<^item> \<open>SegmentChildren\<close>, \<open>SegmentForest\<close>: \<^verbatim>\<open>nr_segment_children.h\<close> and \<^verbatim>\<open>.c\<close>, the record of
    \<^verbatim>\<open>nr_segment.h\<close>, \<^verbatim>\<open>nr_segment_set_parent\<close>.
  \<^item> \<open>Txn\<close>, \<open>Segment\<close>: the segment part of \<^verbatim>\<open>nr_txn.c\<close> and \<^verbatim>\<open>nr_txn.h\<close>; start, end, discard and
    the comparators of \<^verbatim>\<open>nr_segment.c\<close>.
  \<^item> \<open>SegmentLife\<close>, \<open>SegmentStart\<close>, \<open>SegmentEnd\<close>, \<open>Transaction\<close>, \<open>Finalize\<close>: the invariant of a
    transaction, the proof that every operation keeps it, and the end of its open segments.
  \<^item> \<open>SegmentIterate\<close>, \<open>SegmentTree\<close>, \<open>SegmentTotal\<close>: the traversal of the tree, the first pass
    over a finished transaction and \<^verbatim>\<open>nr_segment_tree.c\<close>.
  \<^item> \<open>Base64\<close>, \<open>Obfuscate\<close>: \<^verbatim>\<open>util_base64.c\<close>, \<^verbatim>\<open>util_obfuscate.c\<close>.
  \<^item> \<open>Sql\<close>, \<open>SqlTable\<close>: \<^verbatim>\<open>util_sql.c\<close>; obfuscation and normalization of statements, and the parser for
    their operation and table.
  \<^item> \<open>Json\<close>, \<open>Buffer\<close>, \<open>Object\<close>, \<open>JsonParse\<close>: \<^verbatim>\<open>util_json.c\<close>, \<^verbatim>\<open>util_buffer.c\<close>,
    \<^verbatim>\<open>util_object.c\<close>; the generic objects in which the agent keeps structured values, their path
    through the growing byte buffer and the escaping of strings to JSON text, and the parser.
  \<^item> \<open>RandomRange\<close>, \<open>Events\<close>, \<open>AppHarvest\<close>: \<^verbatim>\<open>util_random.c\<close>, \<^verbatim>\<open>nr_analytics_events.c\<close>,
    \<^verbatim>\<open>nr_app_harvest.c\<close>; random numbers over the generator of the C library, the sampled pool of
    events and the adaptive sampling of transactions.
  \<^item> \<open>SlowSql\<close>: \<^verbatim>\<open>nr_slowsqls.c\<close>, the store of slow statements, which uses \<open>Sql\<close> and \<open>Object\<close>.

  \<^bold>\<open>How the code is modelled.\<close> A structure is a record, a function a function that returns the
  new state beside its result, a pointer that may be NULL an option (\<open>'a ptr\<close>). Objects that
  several pointers reach are cells of an explicit memory: segments are named by their address
  in the slab and live in \<open>txn_mem\<close>, stacks of current segments in \<open>stack_mem\<close>. The outer option
  of an operation is \<open>None\<close> when the code would access memory it must not access or would not
  return; the properties show that this does not happen, or on which inputs it does. Values handed to a destructor
  are returned as a list. Where the code computes at the width of a machine integer and a
  wrap-around can be observed, the model does (\<open>size_t\<close> counters of vectors, hashes, metric
  values, the total time).

  \<^bold>\<open>Interfaces.\<close> A client relies on a component through a locale, which the component's theory
  interprets with the model: \<open>lifo\<close> (stack), \<open>sorter\<close> (the C library's sort), \<open>bounded_pq\<close>
  (min-max heap), \<open>dictionary\<close> (hash map), \<open>interner\<close> (string pool), \<open>allocator\<close> (slab), \<open>byte_queue\<close>
  (byte buffer), \<open>random_source\<close> (random numbers).

  \<^bold>\<open>What is shown.\<close>
  \<^item> Containers: every operation returns, keeps its invariant, and does to the abstract value
    (a list, a finite map, a multiset, a pool of strings) what its documentation says, on the
    error branches too. A bounded heap keeps the largest values of any sequence.
  \<^item> Slab: live objects lie inside their pages and never overlap; they are not aligned on 16
    bytes as the header of the slab says.
  \<^item> Exclusive time: the result of the sweep is the number of microseconds in which no child runs.
  \<^item> Metrics: the tables aggregate per name and stop adding at their limit, forced metrics apart.
  \<^item> Transactions: in every reachable state (\<open>txn_reach\<close>) the live segments form a forest with
    consistent links; start, end and discard do exactly their part to it, and a segment limit is
    respected; at the end of the transaction every stack of open segments is emptied. The
    traversal of the tree returns even if the links have cycles, and on a well-formed tree runs
    its callbacks in depth-first order. The first pass over a finished transaction computes the
    sum of the exclusive times and keeps the longest segments.
  \<^item> Base64 and obfuscation: round trips, and decoding any input stays inside its buffers.
  \<^item> SQL: what leaves the process does not depend on the literals of a statement and holds no digit
    and no quote; normal forms are stable; the parser returns on every statement. Two inputs on
    which the code leaves its buffers are shown: a literal that ends in a backslash, and empty
    lists.
  \<^item> Objects: a hash is a finite map in order of insertion, setters keep objects well formed and of
    their type, and printing gives the JSON text of the object, with strings escaped to
    printable ASCII, through a buffer that is a queue of bytes. Parsing that text gives an
    object of the same value. The parser leaves the text when a string in it ends in a backslash.
  \<^item> Sampling: the rejection loop for random numbers ends because the generator has full period,
    the event pool is a reservoir, a cycle samples at most twice its target, and the store of
    slow statements keeps the slowest.

  \<^bold>\<open>Bounds.\<close> Lists are assumed shorter than \<open>2 ^ 60\<close> elements where the code's counters are 64 bits
  wide, and \<open>2 ^ 31\<close> or \<open>2 ^ 29\<close> where they are \<^verbatim>\<open>int\<close>; an address space does not hold more. The
  identifiers of asynchronous contexts are below \<open>2 ^ 31\<close> because the code stores them in an
  \<^verbatim>\<open>int\<close>. Loops that may not end are \<open>partial_function\<close>, and that they end is proved. Only the parser
  for JSON has fuel, one more than the length of the text: every nested value and every turn
  of a loop uses up a character, and \<open>parse_value_fuel\<close> shows that more does not change a result.

  \<^bold>\<open>Parameters.\<close> Readings of the clock, random identifiers, the generated protobuf encoder, the
  handler that sends a batch, the page size of the system, the fields of span events that come
  from the rest of the agent, membership in the set of sampled segments, floating point numbers with
  their printed form and conversion, and \<^verbatim>\<open>pow\<close> and the rounding to \<^verbatim>\<open>double\<close>.

  \<^bold>\<open>Not modelled.\<close> The PHP extension under \<^verbatim>\<open>src/agent\<close> (its state is the interpreter's), the daemon
  (Go), flatbuffer and protobuf encoding, regular expressions (PCRE), sockets, processes
  and threads; of the transaction, naming, attributes, distributed tracing and the second pass,
  which writes the trace.
\<close>

declare split_paired_All [simp del] split_paired_Ex [simp del]

section \<open>A finished transaction\<close>

text \<open>C2. The total time of a transaction: over a reachable state of one colour in which no exclusive
  time has been collected yet, the first pass from a root always returns and adds up the
  exclusive times of all segments of the tree. The exclusive time of a segment is the number
  of microseconds of its lifetime in which none of its children in the same context runs;
  the sum is taken modulo \<open>2 ^ 64\<close>.\<close>

theorem transaction_total_time:
  assumes "txn_reach L t" and "r \<in> L" and "seg_parent (txn_mem t r) = NULL"
    and "\<forall>u \<in> L. seg_color (txn_mem t u) = seg_color (txn_mem t r)"
    and "\<forall>u \<in> L. seg_exclusive_time (txn_mem t u) = NULL" and "meta_total_time md = 0"
  shows "\<exists>t' md'. nr_segment_tree_to_heap (Some r) t md = Some (t', md')
    \<and> meta_total_time md' = (\<Sum>u \<in> subtree L (txn_mem t) r. own_time (txn_mem t) u) mod 2 ^ 64"
proof -
  have inv: "txn_inv L t" using reach_ok [OF assms(1)] by (simp add: txn_ok_def)
  from tree_to_heap_spec [OF inv assms(2-5), of md] assms(6) obtain t' ns where
    t': "nr_segment_tree_to_heap (Some r) t md = Some (t', pass_metadata (txn_mem t) ns md)" "distinct ns"
    "set ns = subtree L (txn_mem t) r" by auto
  have "meta_total_time (pass_metadata (txn_mem t) ns md) = (\<Sum>u \<in> subtree L (txn_mem t) r. own_time (txn_mem t) u) mod 2 ^ 64"
    using t'(2,3) assms(6) by (simp add: pass_metadata_def sum_list_distinct_conv_sum_set)
  with t'(1) show ?thesis by blast
qed

theorem transaction_total_time_witness:
  "\<exists>r (t :: (unit, unit) nrtxn) t' md'. txn_reach {r} t
    \<and> nr_segment_tree_to_heap (Some r) t \<lparr>meta_span_heap = NULL, meta_trace_heap = NULL, meta_total_time = 0, meta_main_context = NULL\<rparr>
        = Some (t', md')
    \<and> meta_total_time md' = (\<Sum>u \<in> subtree {r} (txn_mem t) r. own_time (txn_mem t) u) mod 2 ^ 64"
proof -
  from example_begun [of 0] obtain r and t :: "(unit, unit) nrtxn" where
    t: "txn_reach {r} t" "seg_parent (txn_mem t r) = NULL" "seg_exclusive_time (txn_mem t r) = NULL" by blast
  then have "\<forall>u \<in> {r}. seg_exclusive_time (txn_mem t u) = NULL" "\<forall>u \<in> {r}. seg_color (txn_mem t u) = seg_color (txn_mem t r)"
    by simp_all
  from transaction_total_time [OF t(1) singletonI t(2) this(2,1),
      of "\<lparr>meta_span_heap = NULL, meta_trace_heap = NULL, meta_total_time = 0, meta_main_context = NULL\<rparr>"] t(1)
  show ?thesis by simp blast
qed

text \<open>C6. The segments for the transaction trace: with a heap for \<open>bound \<ge> 2\<close> segments, the first pass
  leaves in it as many segments of the tree as fit, each once, and none that was left out
  lasted longer than one that was kept.\<close>

theorem trace_keeps_longest:
  assumes "txn_reach L t" and "r \<in> L" and "seg_parent (txn_mem t r) = NULL"
    and "\<forall>u \<in> L. seg_color (txn_mem t u) = seg_color (txn_mem t r)"
    and "\<forall>u \<in> L. seg_exclusive_time (txn_mem t u) = NULL" and "meta_total_time md = 0" and "2 \<le> bound"
    and "meta_trace_heap md = nr_segment_heap_create bound (Some (nr_segment_wrapped_duration_comparator (txn_mem t)))"
  shows "\<exists>t' md' kept. nr_segment_tree_to_heap (Some r) t md = Some (t', md')
    \<and> heap_items (meta_trace_heap md') = image_mset Some (mset_set kept)
    \<and> kept \<subseteq> subtree L (txn_mem t) r \<and> card kept = min (nat bound) (card (subtree L (txn_mem t) r))
    \<and> (\<forall>u \<in> subtree L (txn_mem t) r - kept. \<forall>k \<in> kept. segment_duration (txn_mem t) u \<le> segment_duration (txn_mem t) k)"
proof -
  let ?m = "txn_mem t" and ?c = "nr_segment_wrapped_duration_comparator (txn_mem t)"
  have inv: "txn_inv L t" using reach_ok [OF assms(1)] by (simp add: txn_ok_def)
  from tree_to_heap_spec [OF inv assms(2-5), of md] assms(6) obtain t' ns where
    t': "nr_segment_tree_to_heap (Some r) t md = Some (t', pass_metadata ?m ns md)" "distinct ns"
    "set ns = subtree L ?m r" by auto
  let ?q = "fold (\<lambda>s h. insert_with ?c h s) ns (nr_segment_heap_create bound (Some ?c))"
  have q: "meta_trace_heap (pass_metadata ?m ns md) = ?q" using assms(8) by (simp add: pass_metadata_def fold_enter_heaps(1))
  from segment_heap_samples [OF duration_comparator_ok assms(7), of ?m ns] obtain E where
    E: "heap_items ?q + E = mset (map Some ns)" "size (heap_items ?q) = min (nat bound) (length ns)"
    "\<forall>e \<in># E. \<forall>k \<in># heap_items ?q. ?c e k \<le> 0" by blast
  define kept where "kept = {u. Some u \<in># heap_items ?q}"
  note k = kept_part [OF E(1) t'(2) kept_def]
  have "card kept = min (nat bound) (card (subtree L ?m r))" using k(3) E(2) distinct_card [OF t'(2)] t'(3) by simp
  moreover have "segment_duration ?m u \<le> segment_duration ?m v" if "u \<in> subtree L ?m r - kept" "v \<in> kept" for u v
  proof -
    have "Some u \<in># E" "Some v \<in># heap_items ?q" using k(4) [of u] that t'(3) by (auto simp: kept_def)
    then have "?c (Some u) (Some v) \<le> 0" using E(3) by blast
    then show ?thesis by (rule duration_le)
  qed
  ultimately have "heap_items (meta_trace_heap (pass_metadata ?m ns md)) = image_mset Some (mset_set kept)
    \<and> kept \<subseteq> subtree L ?m r \<and> card kept = min (nat bound) (card (subtree L ?m r))
    \<and> (\<forall>u \<in> subtree L ?m r - kept. \<forall>k \<in> kept. segment_duration ?m u \<le> segment_duration ?m k)"
    using q k(1,2) t'(3) by simp
  with t'(1) show ?thesis by blast
qed

theorem trace_keeps_longest_witness:
  "\<exists>r (t :: (unit, unit) nrtxn) t' md' kept. txn_reach {r} t
    \<and> nr_segment_tree_to_heap (Some r) t \<lparr>meta_span_heap = NULL, meta_trace_heap =
          nr_segment_heap_create 2 (Some (nr_segment_wrapped_duration_comparator (txn_mem t))),
        meta_total_time = 0, meta_main_context = NULL\<rparr> = Some (t', md')
    \<and> heap_items (meta_trace_heap md') = image_mset Some (mset_set kept) \<and> kept \<subseteq> subtree {r} (txn_mem t) r"
proof -
  from example_begun [of 0] obtain r and t :: "(unit, unit) nrtxn" where
    t: "txn_reach {r} t" "seg_parent (txn_mem t r) = NULL" "seg_exclusive_time (txn_mem t r) = NULL" by blast
  then have "\<forall>u \<in> {r}. seg_exclusive_time (txn_mem t u) = NULL" "\<forall>u \<in> {r}. seg_color (txn_mem t u) = seg_color (txn_mem t r)"
    by simp_all
  from trace_keeps_longest [OF t(1) singletonI t(2) this(2,1), of "\<lparr>meta_span_heap = NULL, meta_trace_heap =
      nr_segment_heap_create 2 (Some (nr_segment_wrapped_duration_comparator (txn_mem t))),
        meta_total_time = 0, meta_main_context = NULL\<rparr>" 2] t(1)
  show ?thesis by simp blast
qed

end
